(* ===== verification/Prelude.thy ===== *)
theory Prelude
  imports Main "HOL-Library.Word"
begin

unbundle bit_operations_syntax

section \<open>Prelude: outcomes of kernel code, C arithmetic, shared lemmas\<close>

text \<open>
  Kernel code is modelled by functions that take the state they work on and return an
  \<open>outcome\<close>: a value and the new state, or one of the ways in which a C function of the
  kernel does not come back.  The theory also holds the few facts on lists, words and C
  arithmetic that several components share.
\<close>

named_theorems outcome_simps \<open>how outcomes are sequenced\<close>

subsection \<open>Outcomes\<close>

text \<open>
  Sleep channels are addresses in the kernel.  Every address the sources pass to
  \<open>sleep\<close> and \<open>wakeup\<close> is one constructor here; distinct constructors stand for
  distinct addresses (\<open>(char*)p + 1\<close> lies inside \<open>*p\<close> and is not \<open>p\<close>).
\<close>

datatype chan =
    C_proc nat        \<comment> \<open>\<open>p\<close>: \<open>wait\<close>, \<open>vfork\<close>\<close>
  | C_proc1 nat       \<comment> \<open>\<open>(char*)p + 1\<close>: \<open>semop\<close>\<close>
  | C_msq nat         \<comment> \<open>\<open>SND_CHAN\<close>\<close>
  | C_msq1 nat        \<comment> \<open>\<open>RCV_CHAN\<close>\<close>
  | C_nread nat       \<comment> \<open>\<open>&pi->nread\<close>\<close>
  | C_nwrite nat      \<comment> \<open>\<open>&pi->nwrite\<close>\<close>
  | C_sleeplock nat   \<comment> \<open>\<open>lk\<close> in \<open>acquiresleep\<close>\<close>
  | C_ticks           \<comment> \<open>\<open>&ticks\<close>\<close>
  | C_log             \<comment> \<open>\<open>&log\<close>\<close>
  | C_cons_r          \<comment> \<open>\<open>&cons.r\<close>\<close>
  | C_uart_tx_r       \<comment> \<open>\<open>&uart_tx_r\<close>\<close>

text \<open>
  \<^item> \<open>Done x s\<close>: the call returned \<open>x\<close> and left the state \<open>s\<close>;
  \<^item> \<open>Sleep c s\<close>: the caller went to sleep on channel \<open>c\<close>, the state being \<open>s\<close>;
    what it does after it has been woken is a definition of its own;
  \<^item> \<open>Panic m\<close>: \<open>panic(m)\<close> was called, which loops for ever;
  \<^item> \<open>Fault\<close>: the code dereferences the null pointer or an address outside the object it
    indexes (in the kernel the first is a page fault that ends in
    \<open>panic("kerneltrap")\<close>, the second is undefined behaviour);
  \<^item> \<open>Spin\<close>: the code spins on a lock that another hart holds.
\<close>

datatype ('a, 's) outcome =
    Done 'a 's
  | Sleep chan 's
  | Panic string
  | Fault
  | Spin

text \<open>Sequencing: the rest of the code runs only when the call returned.\<close>

definition bnd :: "('a, 's) outcome \<Rightarrow> ('a \<Rightarrow> 's \<Rightarrow> ('b, 's) outcome) \<Rightarrow> ('b, 's) outcome" where
  "bnd m f = (case m of Done x s \<Rightarrow> f x s | Sleep c s \<Rightarrow> Sleep c s
                      | Panic w \<Rightarrow> Panic w | Fault \<Rightarrow> Fault | Spin \<Rightarrow> Spin)"

lemma bnd_simps [simp, outcome_simps]:
  "bnd (Done x s) f = f x s"
  "bnd (Sleep c s) f = Sleep c s"
  "bnd (Panic w) f = Panic w"
  "bnd Fault f = Fault"
  "bnd Spin f = Spin"
  by (simp_all add: bnd_def)

lemma bnd_eq_Done:
  "bnd m f = Done y t \<longleftrightarrow> (\<exists>x s. m = Done x s \<and> f x s = Done y t)"
  by (cases m) auto

lemma bnd_assoc: "bnd (bnd m f) g = bnd m (\<lambda>x s. bnd (f x s) g)"
  by (cases m) auto

lemma bnd_cong [fundef_cong]:
  "m = m' \<Longrightarrow> (\<And>x s. m' = Done x s \<Longrightarrow> f x s = f' x s) \<Longrightarrow> bnd m f = bnd m' f'"
  by (cases m') auto

text \<open>
  The result of a call that may sleep inside a loop: it returns, or blocks on a channel with
  the local variables it needs to continue; in both cases the channels on which it called
  \<open>wakeup\<close> are part of the result.
\<close>

datatype ('r, 'l) blocking = Returned 'r "chan list" | Blocked chan "chan list" 'l

text \<open>Running an operation of a component on the component's part of a larger state.\<close>

definition zoom :: "('s \<Rightarrow> 't) \<Rightarrow> ('t \<Rightarrow> 's \<Rightarrow> 's) \<Rightarrow> ('t \<Rightarrow> ('a, 't) outcome) \<Rightarrow> 's \<Rightarrow> ('a, 's) outcome" where
  "zoom get put m s =
     (case m (get s) of
        Done r t \<Rightarrow> Done r (put t s)
      | Sleep ch t \<Rightarrow> Sleep ch (put t s) | Panic e \<Rightarrow> Panic e | Fault \<Rightarrow> Fault | Spin \<Rightarrow> Spin)"

lemma zoom_simps [simp]:
  "m (get s) = Done r t \<Longrightarrow> zoom get put m s = Done r (put t s)"
  "m (get s) = Sleep ch t \<Longrightarrow> zoom get put m s = Sleep ch (put t s)"
  "m (get s) = Panic e \<Longrightarrow> zoom get put m s = Panic e"
  "m (get s) = Fault \<Longrightarrow> zoom get put m s = Fault"
  "m (get s) = Spin \<Longrightarrow> zoom get put m s = Spin"
  by (simp_all add: zoom_def)

fun returns :: "('a, 's) outcome \<Rightarrow> bool" where
  "returns (Done x s) = True"
| "returns _ = False"

lemma returns_iff: "returns m \<longleftrightarrow> (\<exists>x s. m = Done x s)"
  by (cases m) auto

subsection \<open>C arithmetic\<close>

text \<open>
  C division truncates towards zero; a signed value converted to \<open>uint64\<close> is taken
  modulo \<open>2 ^ 64\<close>.
\<close>

definition c_div :: "int \<Rightarrow> int \<Rightarrow> int" where
  "c_div a b = (if 0 \<le> a \<longleftrightarrow> 0 \<le> b then \<bar>a\<bar> div \<bar>b\<bar> else - (\<bar>a\<bar> div \<bar>b\<bar>))"

definition to_u64 :: "int \<Rightarrow> nat" where
  "to_u64 z = nat (z mod 2 ^ 64)"

lemma to_u64_nat: "n < 2 ^ 64 \<Longrightarrow> to_u64 (int n) = n"
  by (simp add: to_u64_def)

lemma c_div_nat: "c_div (int a) (int b) = int (a div b)"
  by (simp add: c_div_def zdiv_int)

text \<open>\<open>x & ((1 << k) - 1)\<close> on an unsigned value.\<close>

lemma and_low_mask_nat: "(x::nat) AND (2 ^ k - 1) = x mod 2 ^ k"
  by (metis mask_eq_exp_minus_1 take_bit_eq_mask take_bit_eq_mod)

text \<open>
  The buddy of an aligned number: flipping bit \<open>k\<close> of a multiple of \<open>2 ^ k\<close> moves to the
  other half of the enclosing multiple of \<open>2 ^ (k + 1)\<close>, clearing it to the lower half.
\<close>

lemma flip_aligned:
  assumes "2 ^ k dvd (p::nat)"
  shows "p XOR 2 ^ k = (if even (p div 2 ^ k) then p + 2 ^ k else p - 2 ^ k)"
proof -
  obtain q where q: "p = q * 2 ^ k" using assms by (metis dvd_div_mult_self)
  have "p XOR 2 ^ k = push_bit k (q XOR 1)"
    by (simp add: q push_bit_eq_mult push_bit_xor algebra_simps flip: push_bit_eq_mult)
  also have "q XOR 1 = (if even q then q + 1 else q - 1)"
    by (auto simp: xor_Suc_0_eq elim: oddE)
  finally show ?thesis
    using q by (auto simp: push_bit_eq_mult algebra_simps)
qed

lemma unset_bit_nat:
  "unset_bit k (p::nat) = (if even (p div 2 ^ k) then p else p - 2 ^ k)"
proof -
  have e: "int (unset_bit k p) = int p - of_bool (bit p k) * 2 ^ k"
    by (simp add: of_nat_unset_bit_eq unset_bit_eq bit_of_nat_iff_bit)
  show ?thesis
  proof (cases "even (p div 2 ^ k)")
    case True
    with e show ?thesis by (simp add: bit_iff_odd)
  next
    case False
    then have "p div 2 ^ k \<noteq> 0" by (metis even_zero)
    then have "2 ^ k \<le> p" by (simp add: div_eq_0_iff)
    then have "int (p - 2 ^ k) = int p - 2 ^ k" by simp
    with e False show ?thesis by (simp add: bit_iff_odd)
  qed
qed

end
