(* ===== verification/Kstring.thy ===== *)
theory Kstring
  imports Prelude
begin

section \<open>Memory and string functions (kernel/string.c, user/ulib.c)\<close>

text \<open>
  The functions on bytes, over a memory of bytes.  Lengths are natural numbers
  (\<open>uint\<close>) or integers (\<open>int\<close>, negative values included); \<open>char\<close> is unsigned on
  RISC-V.  The loops that only end at a terminating zero are partial functions: \<open>None\<close>
  means that the loop runs for ever (on the machine: until it leaves mapped memory).
\<close>

type_synonym memory = "nat \<Rightarrow> 8 word"

definition byte_diff :: "8 word \<Rightarrow> 8 word \<Rightarrow> int" where
  "byte_diff a b = uint a - uint b"

subsection \<open>kernel/string.c\<close>

fun memset_loop :: "nat \<Rightarrow> nat \<Rightarrow> 8 word \<Rightarrow> nat \<Rightarrow> memory \<Rightarrow> memory" where
  "memset_loop i cdst c 0 m = m"
| "memset_loop i cdst c (Suc n) m = memset_loop (i + 1) cdst c n (m(cdst + i := c))"

definition memset :: "nat \<Rightarrow> 8 word \<Rightarrow> nat \<Rightarrow> memory \<Rightarrow> memory" where
  "memset dst c n m = memset_loop 0 dst c n m"

fun memcmp :: "nat \<Rightarrow> nat \<Rightarrow> nat \<Rightarrow> memory \<Rightarrow> int" where
  "memcmp s1 s2 0 m = 0"
| "memcmp s1 s2 (Suc n) m =
     (if m s1 \<noteq> m s2 then byte_diff (m s1) (m s2) else memcmp (s1 + 1) (s2 + 1) n m)"

fun copy_up :: "nat \<Rightarrow> nat \<Rightarrow> nat \<Rightarrow> memory \<Rightarrow> memory" where
  "copy_up d s 0 m = m"
| "copy_up d s (Suc n) m = copy_up (d + 1) (s + 1) n (m(d := m s))"

fun copy_down :: "nat \<Rightarrow> nat \<Rightarrow> nat \<Rightarrow> memory \<Rightarrow> memory" where
  "copy_down d s 0 m = m"
| "copy_down d s (Suc n) m = copy_down (d - 1) (s - 1) n (m(d - 1 := m (s - 1)))"

definition memmove :: "nat \<Rightarrow> nat \<Rightarrow> nat \<Rightarrow> memory \<Rightarrow> memory" where
  "memmove dst src n m =
     (if n = 0 then m
      else if src < dst \<and> src + n > dst then copy_down (dst + n) (src + n) n m
      else copy_up dst src n m)"

definition memcpy :: "nat \<Rightarrow> nat \<Rightarrow> nat \<Rightarrow> memory \<Rightarrow> memory" where
  "memcpy dst src n m = memmove dst src n m"

fun strncmp :: "nat \<Rightarrow> nat \<Rightarrow> nat \<Rightarrow> memory \<Rightarrow> int" where
  "strncmp p q 0 m = 0"
| "strncmp p q (Suc n) m =
     (if m p \<noteq> 0 \<and> m p = m q then strncmp (p + 1) (q + 1) n m else byte_diff (m p) (m q))"

fun zero_fill :: "nat \<Rightarrow> nat \<Rightarrow> memory \<Rightarrow> memory" where
  "zero_fill s 0 m = m"
| "zero_fill s (Suc n) m = zero_fill (s + 1) n (m(s := 0))"

fun strncpy_loop :: "nat \<Rightarrow> nat \<Rightarrow> nat \<Rightarrow> memory \<Rightarrow> memory" where
  "strncpy_loop s t 0 m = m"
| "strncpy_loop s t (Suc n) m =
     (let m' = m(s := m t) in
      if m t \<noteq> 0 then strncpy_loop (s + 1) (t + 1) n m' else zero_fill (s + 1) n m')"

definition strncpy :: "nat \<Rightarrow> nat \<Rightarrow> int \<Rightarrow> memory \<Rightarrow> memory" where
  "strncpy s t n m = strncpy_loop s t (nat n) m"

text \<open>\<open>n\<close> is the value after the decrement in the loop's test.\<close>

fun safestrcpy_loop :: "nat \<Rightarrow> nat \<Rightarrow> nat \<Rightarrow> memory \<Rightarrow> memory" where
  "safestrcpy_loop s t 0 m = m(s := 0)"
| "safestrcpy_loop s t (Suc n) m =
     (let m' = m(s := m t) in
      if m t \<noteq> 0 then safestrcpy_loop (s + 1) (t + 1) n m' else m'(s + 1 := 0))"

definition safestrcpy :: "nat \<Rightarrow> nat \<Rightarrow> int \<Rightarrow> memory \<Rightarrow> memory" where
  "safestrcpy s t n m = (if n \<le> 0 then m else safestrcpy_loop s t (nat n - 1) m)"

partial_function (option) strlen_from :: "nat \<Rightarrow> nat \<Rightarrow> memory \<Rightarrow> nat option" where
  "strlen_from s n m = (if m (s + n) = 0 then Some n else strlen_from s (n + 1) m)"

definition strlen :: "nat \<Rightarrow> memory \<Rightarrow> nat option" where
  "strlen s m = strlen_from s 0 m"

subsection \<open>user/ulib.c\<close>

partial_function (option) u_strcpy_loop :: "nat \<Rightarrow> nat \<Rightarrow> memory \<Rightarrow> memory option" where
  "u_strcpy_loop s t m =
     (let m' = m(s := m t) in if m t \<noteq> 0 then u_strcpy_loop (s + 1) (t + 1) m' else Some m')"

definition u_strcpy :: "nat \<Rightarrow> nat \<Rightarrow> memory \<Rightarrow> memory option" where
  "u_strcpy s t m = u_strcpy_loop s t m"

partial_function (option) u_strcmp :: "nat \<Rightarrow> nat \<Rightarrow> memory \<Rightarrow> int option" where
  "u_strcmp p q m =
     (if m p \<noteq> 0 \<and> m p = m q then u_strcmp (p + 1) (q + 1) m else Some (byte_diff (m p) (m q)))"

text \<open>The result of \<open>strchr\<close> is an address, 0 if the character does not occur.\<close>

partial_function (option) u_strchr :: "nat \<Rightarrow> 8 word \<Rightarrow> memory \<Rightarrow> nat option" where
  "u_strchr s c m =
     (if m s = 0 then Some 0 else if m s = c then Some s else u_strchr (s + 1) c m)"

text \<open>
  \<open>gets\<close>: the bytes that \<open>read(0, &c, 1)\<close> delivers are a list; at its end \<open>read\<close>
  returns less than 1.  The rest of the input is part of the result.
\<close>

function gets_loop :: "nat \<Rightarrow> nat \<Rightarrow> int \<Rightarrow> 8 word list \<Rightarrow> memory \<Rightarrow> memory \<times> 8 word list" where
  "gets_loop buf i mx input m =
     (if int i + 1 < mx then
        (case input of
           [] \<Rightarrow> (m(buf + i := 0), [])
         | c # input \<Rightarrow>
             (let m = m(buf + i := c) in
              if c = 10 \<or> c = 13 then (m(buf + (i + 1) := 0), input)
              else gets_loop buf (i + 1) mx input m))
      else (m(buf + i := 0), input))"
  by pat_completeness auto
termination
  by (relation "measure (\<lambda>(buf, i, mx, input, m). length input)") auto

declare gets_loop.simps [simp del]

definition gets :: "nat \<Rightarrow> int \<Rightarrow> 8 word list \<Rightarrow> memory \<Rightarrow> memory \<times> 8 word list" where
  "gets buf mx input m = gets_loop buf 0 mx input m"

text \<open>\<open>atoi\<close> computes in \<open>int\<close>; the product and the sum wrap at 32 bits.\<close>

partial_function (option) atoi_loop :: "nat \<Rightarrow> 32 word \<Rightarrow> memory \<Rightarrow> 32 word option" where
  "atoi_loop s n m =
     (if 48 \<le> m s \<and> m s \<le> 57 then atoi_loop (s + 1) (n * 10 + ucast (m s) - 48) m else Some n)"

definition atoi :: "nat \<Rightarrow> memory \<Rightarrow> int option" where
  "atoi s m = map_option sint (atoi_loop s 0 m)"

definition u_memmove :: "nat \<Rightarrow> nat \<Rightarrow> int \<Rightarrow> memory \<Rightarrow> memory" where
  "u_memmove dst src n m =
     (if src > dst then copy_up dst src (nat n) m
      else copy_down (nat (int dst + n)) (nat (int src + n)) (nat n) m)"

subsection \<open>Correctness\<close>

text \<open>What is in memory: \<open>n\<close> bytes at \<open>p\<close>, and the string there, cut at the first zero.\<close>

definition bytes :: "memory \<Rightarrow> nat \<Rightarrow> nat \<Rightarrow> 8 word list" where
  "bytes m p n = map (\<lambda>i. m (p + i)) [0..<n]"

definition strn :: "memory \<Rightarrow> nat \<Rightarrow> nat \<Rightarrow> 8 word list" where
  "strn m p n = takeWhile (\<lambda>c. c \<noteq> 0) (bytes m p n)"

lemma bytes_0 [simp]: "bytes m p 0 = []"
  by (simp add: bytes_def)

lemma bytes_Suc [simp]: "bytes m p (Suc n) = m p # bytes m (p + 1) n"
  by (simp add: bytes_def upt_conv_Cons map_Suc_upt [symmetric] del: upt_Suc)

lemma strn_simps [simp]:
  "strn m p 0 = []" "strn m p (Suc n) = (if m p = 0 then [] else m p # strn m (p + 1) n)"
  by (simp_all add: strn_def)

lemma bytes_cong: "(\<And>a. p \<le> a \<Longrightarrow> a < p + n \<Longrightarrow> m a = m' a) \<Longrightarrow> bytes m p n = bytes m' p n"
  by (simp add: bytes_def)

lemma strn_cong: "(\<And>a. p \<le> a \<Longrightarrow> a < p + n \<Longrightarrow> m a = m' a) \<Longrightarrow> strn m p n = strn m' p n"
  unfolding strn_def using bytes_cong by metis

lemma copy_up_eq:
  assumes "d \<le> s \<or> s + n \<le> d"
  shows "copy_up d s n m a = (if d \<le> a \<and> a < d + n then m (s + (a - d)) else m a)"
  using assms
proof (induction n arbitrary: d s m)
  case 0
  then show ?case by auto
next
  case (Suc n)
  then have "copy_up (d + 1) (s + 1) n (m(d := m s)) a =
    (if d + 1 \<le> a \<and> a < d + 1 + n then (m(d := m s)) (s + 1 + (a - (d + 1))) else (m(d := m s)) a)"
    by auto
  moreover have "s + 1 + (a - (d + 1)) = s + (a - d)" if "d + 1 \<le> a" using that by simp
  moreover have "s + (a - d) \<noteq> d" if "d + 1 \<le> a" "a < d + 1 + n" using that Suc.prems by auto
  ultimately show ?case by auto
qed

lemma copy_down_eq:
  assumes "s \<le> d \<or> d + n \<le> s"
  shows "copy_down (d + n) (s + n) n m a = (if d \<le> a \<and> a < d + n then m (s + (a - d)) else m a)"
  using assms
proof (induction n arbitrary: m)
  case 0
  then show ?case by auto
next
  case (Suc n)
  then have "copy_down (d + n) (s + n) n (m(d + n := m (s + n))) a =
    (if d \<le> a \<and> a < d + n then (m(d + n := m (s + n))) (s + (a - d)) else (m(d + n := m (s + n))) a)"
    by auto
  moreover have "s + (a - d) \<noteq> d + n" if "d \<le> a" "a < d + n" using that Suc.prems by auto
  ultimately show ?case by auto
qed

lemma memmove_eq:
  "memmove dst src n m a = (if dst \<le> a \<and> a < dst + n then m (src + (a - dst)) else m a)"
  using copy_up_eq [of dst src n m a] copy_down_eq [of src dst n m a] by (auto simp: memmove_def)

lemma u_memmove_eq_memmove: "u_memmove dst src (int n) m = memmove dst src n m"
proof
  fix a
  have "nat (int dst + int n) = dst + n" "nat (int src + int n) = src + n" by (simp_all add: nat_add_distrib)
  then show "u_memmove dst src (int n) m a = memmove dst src n m a"
    using copy_up_eq [of dst src n m a] copy_down_eq [of src dst n m a]
    by (auto simp: u_memmove_def memmove_def)
qed

text \<open>C12. The kernel's \<open>memmove\<close> copies correctly whether or not the two ranges overlap: every
  byte of the destination is the byte that was at the corresponding place of the source
  before the call, and no other byte changes.  The user library's \<open>memmove\<close>, which chooses
  the direction by another test, computes the same memory.\<close>

theorem memmove_correct:
  "memmove dst src n m a = (if dst \<le> a \<and> a < dst + n then m (src + (a - dst)) else m a) \<and>
   u_memmove dst src (int n) m = memmove dst src n m"
  using memmove_eq u_memmove_eq_memmove by blast

lemma memset_loop_eq:
  "memset_loop i d c n m a = (if d + i \<le> a \<and> a < d + i + n then c else m a)"
  by (induction n arbitrary: i m) auto

lemma memset_eq: "memset d c n m a = (if d \<le> a \<and> a < d + n then c else m a)"
  by (simp add: memset_def memset_loop_eq)

lemma byte_diff_0: "byte_diff a b = 0 \<longleftrightarrow> a = b"
  by (simp add: byte_diff_def word_uint_eq_iff)

lemma memcmp_0: "memcmp p q n m = 0 \<longleftrightarrow> bytes m p n = bytes m q n"
  by (induction p q n m rule: memcmp.induct) (auto simp: byte_diff_0)

text \<open>C0. \<open>strncmp\<close> is 0 exactly if the two strings, cut at their terminating zero or at \<open>n\<close>
  characters, are equal.\<close>

theorem strncmp_equal: "strncmp p q n m = 0 \<longleftrightarrow> strn m p n = strn m q n"
  by (induction p q n m rule: strncmp.induct) (auto simp: byte_diff_0)

lemma zero_fill_eq: "zero_fill s n m a = (if s \<le> a \<and> a < s + n then 0 else m a)"
  by (induction n arbitrary: s m) auto

lemma safestrcpy_loop_correct:
  assumes "s + n < t \<or> t + n < s"
  shows "strn (safestrcpy_loop s t n m) s (Suc n) = strn m t n \<and>
    (\<exists>i\<le>n. safestrcpy_loop s t n m (s + i) = 0) \<and>
    (\<forall>a. a < s \<or> s + n < a \<longrightarrow> safestrcpy_loop s t n m a = m a)"
  using assms
proof (induction n arbitrary: s t m)
  case 0
  then show ?case by auto
next
  case (Suc n)
  let ?m = "m(s := m t)" and ?r = "safestrcpy_loop s t (Suc n) m"
  show ?case
  proof (cases "m t = 0")
    case True
    then have "?r = ?m(s + 1 := 0)" by (simp add: Let_def)
    then show ?thesis using True by (auto intro: exI [of _ 0])
  next
    case False
    then have r: "?r = safestrcpy_loop (s + 1) (t + 1) n ?m" by (simp add: Let_def)
    have "strn ?r (s + 1) (Suc n) = strn ?m (t + 1) n \<and> (\<exists>i\<le>n. ?r (s + 1 + i) = 0) \<and>
      (\<forall>a. a < s + 1 \<or> s + 1 + n < a \<longrightarrow> ?r a = ?m a)"
      unfolding r by (rule Suc.IH) (use Suc.prems in auto)
    then have IH: "strn ?r (s + 1) (Suc n) = strn ?m (t + 1) n" "\<exists>i\<le>n. ?r (s + 1 + i) = 0"
      "\<And>a. a < s + 1 \<or> s + 1 + n < a \<Longrightarrow> ?r a = ?m a" by blast+
    have "strn ?m (t + 1) n = strn m (t + 1) n" using Suc.prems by (intro strn_cong) auto
    then have "strn ?r s (Suc (Suc n)) = strn m t (Suc n)"
      using IH(1) IH(3) [of s] False unfolding strn_simps(2) [of _ _ "Suc n"] by simp
    moreover obtain i where "i \<le> n" "?r (s + 1 + i) = 0" using IH(2) by blast
    then have "\<exists>i\<le>Suc n. ?r (s + i) = 0" by (intro exI [of _ "Suc i"]) simp
    moreover have "?r a = m a" if "a < s \<or> s + Suc n < a" for a using IH(3) [of a] that by auto
    ultimately show ?thesis by blast
  qed
qed

text \<open>C13. \<open>safestrcpy\<close> with a positive size, between ranges that do not overlap: the
  destination receives the source string cut at \<open>n - 1\<close> characters, it is always
  terminated within the \<open>n\<close> bytes, and no byte outside of them changes.\<close>

theorem safestrcpy_correct:
  assumes "0 < n" "s + n \<le> t \<or> t + n \<le> s"
  shows "strn (safestrcpy s t (int n) m) s n = strn m t (n - 1) \<and>
    (\<exists>i<n. safestrcpy s t (int n) m (s + i) = 0) \<and>
    (\<forall>a. a < s \<or> s + n \<le> a \<longrightarrow> safestrcpy s t (int n) m a = m a)"
proof -
  obtain k where k: "n = Suc k" using assms(1) by (cases n) auto
  have "s + k < t \<or> t + k < s" using assms(2) k by auto
  moreover have "safestrcpy s t (int n) m = safestrcpy_loop s t k m"
    by (simp add: safestrcpy_def k nat_add_distrib del: of_nat_Suc flip: of_nat_Suc)
  ultimately show ?thesis
    using safestrcpy_loop_correct [of s k t m] k
    by (simp only: less_Suc_eq_le diff_Suc_1 add_Suc_right Suc_le_eq) blast
qed

definition sample_mem :: memory where
  "sample_mem = (\<lambda>a. if a = 20 then 65 else if a = 21 then 66 else 0)"

theorem safestrcpy_correct_witness:
  "strn (safestrcpy 10 20 (int 4) sample_mem) 10 4 = [65, 66] \<and>
   (\<exists>i<4. safestrcpy 10 20 (int 4) sample_mem (10 + i) = 0)"
proof -
  have "strn sample_mem 20 3 = [65, 66]" by (simp add: sample_mem_def numeral_3_eq_3)
  then show ?thesis using safestrcpy_correct [of 4 10 20 sample_mem] by auto
qed

lemma strlen_from_eq:
  assumes "m (s + k) = 0" "\<And>i. i < k \<Longrightarrow> m (s + i) \<noteq> 0" "n \<le> k"
  shows "strlen_from s n m = Some k"
  using assms(3)
proof (induction "k - n" arbitrary: n)
  case 0
  then show ?case using assms(1) by (simp add: strlen_from.simps)
next
  case (Suc j)
  then have "m (s + n) \<noteq> 0" "strlen_from s (n + 1) m = Some k" using assms(2) by auto
  then show ?case by (subst strlen_from.simps) simp
qed

lemma u_strcpy_loop_eq:
  assumes "m (t + k) = 0" "\<And>i. i < k \<Longrightarrow> m (t + i) \<noteq> 0" "s + k < t \<or> t + k < s"
  shows "u_strcpy_loop s t m = Some (memmove s t (k + 1) m)"
  using assms
proof (induction k arbitrary: s t m)
  case 0
  then show ?case
    by (subst u_strcpy_loop.simps) (auto simp: memmove_eq fun_eq_iff)
next
  case (Suc k)
  let ?m = "m(s := m t)"
  have "m t \<noteq> 0" using Suc.prems(2) [of 0] by simp
  moreover have "u_strcpy_loop (s + 1) (t + 1) ?m = Some (memmove (s + 1) (t + 1) (k + 1) ?m)"
  proof (rule Suc.IH)
    show "?m (t + 1 + k) = 0" using Suc.prems(1,3) by auto
    show "?m (t + 1 + i) \<noteq> 0" if "i < k" for i
      using Suc.prems(2) [of "Suc i"] Suc.prems(2) [of 0] that by auto
  qed (use Suc.prems(3) in auto)
  moreover have "memmove (s + 1) (t + 1) (k + 1) ?m = memmove s t (Suc k + 1) m"
  proof
    fix a
    have "t + 1 + (a - (s + 1)) = t + (a - s)" if "s + 1 \<le> a" using that by simp
    then show "memmove (s + 1) (t + 1) (k + 1) ?m a = memmove s t (Suc k + 1) m a"
      using Suc.prems(3) by (auto simp: memmove_eq)
  qed
  ultimately show ?case by (subst u_strcpy_loop.simps) (simp add: Let_def)
qed

text \<open>C0. On a terminated string \<open>strlen\<close> and the user library's \<open>strcpy\<close> return: the first
  with the distance to the terminating zero, the second after copying exactly the string and
  its zero, if the destination does not overlap.\<close>

theorem strlen_strcpy_return:
  assumes "m (t + k) = 0" "\<forall>i<k. m (t + i) \<noteq> 0" "s + k < t \<or> t + k < s"
  shows "strlen t m = Some k \<and> u_strcpy s t m = Some (memmove s t (k + 1) m)"
  using strlen_from_eq [of m t k 0] u_strcpy_loop_eq [of m t k s] assms
  by (simp add: strlen_def u_strcpy_def)

theorem strlen_strcpy_return_witness:
  "strlen 20 sample_mem = Some 2 \<and> u_strcpy 10 20 sample_mem = Some (memmove 10 20 3 sample_mem)"
  using strlen_strcpy_return [of sample_mem 20 2 10]
  by (simp add: sample_mem_def less_2_cases_iff)

end
