(* ===== verification/Ring.thy ===== *)
theory Ring
  imports Prelude
begin

section \<open>Ring buffers\<close>

text \<open>
  The pipe, the console and the UART driver keep bytes in an array indexed by two counters
  that only grow and wrap around at the width of their type; the place of a byte is its
  counter modulo the size of the array.  This theory has what they share: the list a ring
  buffer holds and, in a locale, the laws of adding at one end and removing at the other.
\<close>

text \<open>The elements from counter \<open>r\<close> up to counter \<open>w\<close>.\<close>

definition ring_list :: "nat \<Rightarrow> (nat \<Rightarrow> 'b) \<Rightarrow> 'a::len word \<Rightarrow> 'a word \<Rightarrow> 'b list" where
  "ring_list sz buf r w = map (\<lambda>i. buf (unat (r + of_nat i) mod sz)) [0..<unat (w - r)]"

lemma ring_list_length [simp]: "length (ring_list sz buf r w) = unat (w - r)"
  by (simp add: ring_list_def)

lemma ring_list_empty: "ring_list sz buf r w = [] \<longleftrightarrow> r = w"
  by (metis length_0_conv ring_list_length right_minus_eq unat_eq_zero)

lemma ring_list_same [simp]: "ring_list sz buf r r = []"
  by (simp add: ring_list_empty)

text \<open>The size of the array divides the range of the counters, and is not all of it.\<close>

locale ring =
  fixes sz :: nat and counter :: "'a::len itself"
  assumes sz_pos: "0 < sz" and sz_dvd: "sz dvd 2 ^ LENGTH('a)" and sz_less: "sz < 2 ^ LENGTH('a)"
begin

lemma place: "unat ((r :: 'a word) + of_nat i) mod sz = (unat r + i) mod sz"
proof -
  have "unat (r + of_nat i) = (unat r + i) mod 2 ^ LENGTH('a)"
    by (simp add: unat_word_ariths unat_of_nat mod_add_right_eq)
  then show ?thesis using sz_dvd by (simp add: mod_mod_cancel)
qed

lemma distance_Suc:
  assumes "unat ((w :: 'a word) - r) < sz" shows "unat (w + 1 - r) = Suc (unat (w - r))"
proof -
  have "w + 1 - r = (w - r) + 1" by simp
  moreover have "Suc (unat (w - r)) < 2 ^ LENGTH('a)" using assms sz_less by simp
  ultimately show ?thesis using unat_add_lem [of "w - r" 1] by (metis Suc_eq_plus1 unat_1)
qed

lemma distance_pred:
  assumes "(w :: 'a word) \<noteq> r" shows "unat (w - 1 - r) = unat (w - r) - 1"
  using assms unat_minus_one [of "w - r"] by (simp add: algebra_simps)

lemma distance_next:
  assumes "(w :: 'a word) \<noteq> r" shows "unat (w - (r + 1)) = unat (w - r) - 1"
  using assms unat_minus_one [of "w - r"] by (simp add: algebra_simps)

lemma full_iff:
  assumes "unat ((w :: 'a word) - r) \<le> sz" shows "w = r + of_nat sz \<longleftrightarrow> unat (w - r) = sz"
proof -
  have "w = r + of_nat sz \<longleftrightarrow> w - r = of_nat sz" by (auto simp: algebra_simps)
  also have "\<dots> \<longleftrightarrow> unat (w - r) = sz" 
  proof
    assume "unat (w - r) = sz"
    then have "of_nat sz = (of_nat (unat (w - r)) :: 'a word)" by simp
    then show "w - r = of_nat sz" by simp
  qed (use sz_less in \<open>simp add: unat_of_nat\<close>)
  finally show ?thesis .
qed

text \<open>Adding an element to a ring that is not full.\<close>

lemma put:
  assumes "unat ((w :: 'a word) - r) < sz"
  shows "ring_list sz (buf(unat w mod sz := c)) r (w + 1) = ring_list sz buf r w @ [c]"
proof -
  let ?n = "unat (w - r)"
  have w: "unat w mod sz = (unat r + ?n) mod sz"
  proof -
    have "w = r + of_nat ?n" by simp
    then show ?thesis using place [of r ?n] by simp
  qed
  have "(unat r + i) mod sz \<noteq> (unat r + ?n) mod sz" if "i < ?n" for i
  proof
    assume "(unat r + i) mod sz = (unat r + ?n) mod sz"
    then have "sz dvd ?n - i" using that by (metis add_diff_cancel_left mod_eq_dvd_iff_nat less_imp_le nat_add_left_cancel_le)
    then show False using that assms by (simp add: nat_dvd_not_less)
  qed
  then show ?thesis
    unfolding ring_list_def distance_Suc [OF assms] by (simp add: place w)
qed

text \<open>Removing the oldest element.\<close>

lemma get:
  assumes "(w :: 'a word) \<noteq> r"
  shows "ring_list sz buf r w = buf (unat r mod sz) # ring_list sz buf (r + 1) w"
proof -
  have "unat (w - r) \<noteq> 0" using assms by (metis right_minus_eq unat_eq_zero)
  then obtain n where n: "unat (w - r) = Suc n" by (cases "unat (w - r)") auto
  then have "unat (w - (r + 1)) = n" using distance_next [OF assms] by simp
  then show ?thesis
    unfolding ring_list_def n
    by (simp add: upt_conv_Cons map_Suc_upt [symmetric] algebra_simps del: upt_Suc)
qed

text \<open>Taking back the newest element.\<close>

lemma unput:
  assumes "(w :: 'a word) \<noteq> r"
  shows "ring_list sz buf r w = ring_list sz buf r (w - 1) @ [buf (unat (w - 1) mod sz)]"
proof -
  have "unat (w - r) \<noteq> 0" using assms by (metis right_minus_eq unat_eq_zero)
  then obtain n where n: "unat (w - r) = Suc n" by (cases "unat (w - r)") auto
  then have m: "unat (w - 1 - r) = n" using distance_pred [OF assms] by simp
  have "r + of_nat n = w - 1" 
  proof -
    have "w - 1 = r + of_nat (unat (w - 1 - r))" by simp
    then show ?thesis using m by simp
  qed
  then show ?thesis unfolding ring_list_def n m by simp
qed

text \<open>A ring seen as two adjacent ones.\<close>

lemma append:
  assumes "unat ((b :: 'a word) - a) \<le> unat (c - a)"
  shows "ring_list sz buf a c = ring_list sz buf a b @ ring_list sz buf b c"
    and "unat (c - b) = unat (c - a) - unat (b - a)"
proof -
  have le: "b - a \<le> c - a" using assms by (simp add: word_le_nat_alt)
  have "c - b = (c - a) - (b - a)" by simp
  then show d: "unat (c - b) = unat (c - a) - unat (b - a)" using le by (metis unat_sub)
  let ?m = "unat (b - a)" and ?n = "unat (c - b)"
  have "unat (c - a) = ?m + ?n" using d assms by simp
  moreover have "map (\<lambda>i. buf (unat (a + of_nat i) mod sz)) [?m..<?m + ?n] =
      map (\<lambda>i. buf (unat (b + of_nat i) mod sz)) [0..<?n]"
  proof (rule nth_equalityI)
    fix i assume i: "i < length (map (\<lambda>i. buf (unat (a + of_nat i) mod sz)) [?m..<?m + ?n])"
    have "a + of_nat (?m + i) = b + of_nat i" by (simp add: algebra_simps)
    then show "map (\<lambda>i. buf (unat (a + of_nat i) mod sz)) [?m..<?m + ?n] ! i =
        map (\<lambda>i. buf (unat (b + of_nat i) mod sz)) [0..<?n] ! i"
      using i by (simp add: add.commute)
  qed simp
  ultimately show "ring_list sz buf a c = ring_list sz buf a b @ ring_list sz buf b c"
    unfolding ring_list_def by (simp add: upt_add_eq_append [of 0] del: upt_add_eq_append)
qed

end

end
