(* ===== verification/Spinlock.thy ===== *)
theory Spinlock
  imports Prelude
begin

section \<open>Spin locks and sleep locks (spinlock.c, sleeplock.c)\<close>

text \<open>
  The locks of the kernel, twice.  First as functions, for use in the models of the other
  components: \<open>acquire\<close> and \<open>release\<close> act on the lock and on the hart's nesting
  count of disabled interrupts; the components that hold a lock across a function only
  carry the lock word (\<open>take_lock\<close>, \<open>drop_lock\<close>).  Then as a step relation whose
  steps are the memory accesses of the code, for any number of harts in any interleaving.
\<close>

subsection \<open>Data\<close>

text \<open>\<open>cpu\<close> is the hart whose \<open>struct cpu\<close> the lock points to.\<close>

record spinlock =
  locked :: "32 word"
  cpu :: "nat option"

text \<open>The fields of \<open>struct cpu\<close> that the locks use, and the hart's \<open>SSTATUS.SIE\<close> bit.\<close>

record hart =
  noff :: int
  intena :: bool
  intr :: bool

definition initlock :: "spinlock" where
  "initlock = \<lparr>locked = 0, cpu = None\<rparr>"

definition holding :: "nat \<Rightarrow> spinlock \<Rightarrow> bool" where
  "holding me lk \<longleftrightarrow> locked lk \<noteq> 0 \<and> cpu lk = Some me"

definition push_off :: "hart \<Rightarrow> hart" where
  "push_off c =
     (let old = intr c;
          c = c\<lparr>intr := False\<rparr>;
          c = (if noff c = 0 then c\<lparr>intena := old\<rparr> else c)
      in c\<lparr>noff := noff c + 1\<rparr>)"

definition pop_off :: "hart \<Rightarrow> (unit, hart) outcome" where
  "pop_off c =
     (if intr c then Panic ''pop_off - interruptible''
      else if noff c < 1 then Panic ''pop_off''
      else let c = c\<lparr>noff := noff c - 1\<rparr>
           in Done () (if noff c = 0 \<and> intena c then c\<lparr>intr := True\<rparr> else c))"

subsection \<open>Acquire and release as functions\<close>

text \<open>
  The part of \<open>acquire\<close> after \<open>push_off\<close>, seen from hart \<open>me\<close>.  While another hart
  has the lock the loop spins.
\<close>

definition take_lock :: "nat \<Rightarrow> spinlock \<Rightarrow> (unit, spinlock) outcome" where
  "take_lock me lk =
     (if holding me lk then Panic ''acquire''
      else if locked lk \<noteq> 0 then Spin
      else Done () (lk\<lparr>locked := 1, cpu := Some me\<rparr>))"

definition drop_lock :: "nat \<Rightarrow> spinlock \<Rightarrow> (unit, spinlock) outcome" where
  "drop_lock me lk =
     (if \<not> holding me lk then Panic ''release''
      else Done () (lk\<lparr>cpu := None, locked := 0\<rparr>))"

definition acquire :: "nat \<Rightarrow> hart \<times> spinlock \<Rightarrow> (unit, hart \<times> spinlock) outcome" where
  "acquire me s = zoom snd (\<lambda>lk s. (fst s, lk)) (take_lock me) (push_off (fst s), snd s)"

definition release :: "nat \<Rightarrow> hart \<times> spinlock \<Rightarrow> (unit, hart \<times> spinlock) outcome" where
  "release me s =
     bnd (zoom snd (\<lambda>lk s. (fst s, lk)) (drop_lock me) s) (\<lambda>_ s.
       zoom fst (\<lambda>c s. (c, snd s)) pop_off s)"

text \<open>Locks that are fields of a larger state: \<open>get\<close> reads the field and \<open>put\<close> writes it.\<close>

definition lock_in ::
  "('s \<Rightarrow> spinlock) \<Rightarrow> (spinlock \<Rightarrow> 's \<Rightarrow> 's) \<Rightarrow> nat \<Rightarrow> 's \<Rightarrow> (unit, 's) outcome" where
  "lock_in get put me = zoom get put (take_lock me)"

definition unlock_in ::
  "('s \<Rightarrow> spinlock) \<Rightarrow> (spinlock \<Rightarrow> 's \<Rightarrow> 's) \<Rightarrow> nat \<Rightarrow> 's \<Rightarrow> (unit, 's) outcome" where
  "unlock_in get put me = zoom get put (drop_lock me)"

text \<open>A lock nobody holds, and a lock hart \<open>me\<close> holds.\<close>

definition unheld :: "spinlock \<Rightarrow> bool" where
  "unheld lk \<longleftrightarrow> lk = initlock"

definition held_by :: "nat \<Rightarrow> spinlock \<Rightarrow> bool" where
  "held_by me lk \<longleftrightarrow> lk = \<lparr>locked = 1, cpu = Some me\<rparr>"

lemma lock_in_unheld [simp]:
  "unheld (get s) \<Longrightarrow> lock_in get put me s = Done () (put \<lparr>locked = 1, cpu = Some me\<rparr> s)"
  by (simp add: lock_in_def zoom_def take_lock_def holding_def unheld_def initlock_def)

lemma unlock_in_held [simp]:
  "held_by me (get s) \<Longrightarrow> unlock_in get put me s = Done () (put initlock s)"
  by (simp add: unlock_in_def zoom_def drop_lock_def holding_def held_by_def initlock_def)

lemma lock_in_held: "held_by me (get s) \<Longrightarrow> lock_in get put me s = Panic ''acquire''"
  by (simp add: lock_in_def zoom_def take_lock_def holding_def held_by_def)

lemma lock_in_other:
  "held_by other (get s) \<Longrightarrow> other \<noteq> me \<Longrightarrow> lock_in get put me s = Spin"
  by (simp add: lock_in_def zoom_def take_lock_def holding_def held_by_def)

lemma held_by_simps [simp]:
  "held_by me \<lparr>locked = 1, cpu = Some h\<rparr> \<longleftrightarrow> h = me" "\<not> held_by me initlock" "unheld initlock"
  "\<not> unheld \<lparr>locked = 1, cpu = Some h\<rparr>"
  by (auto simp: held_by_def unheld_def initlock_def)

subsection \<open>Nesting of disabled interrupts\<close>

datatype intr_op = Push | Pop

fun run_ops :: "intr_op list \<Rightarrow> hart \<Rightarrow> (unit, hart) outcome" where
  "run_ops [] c = Done () c"
| "run_ops (Push # ops) c = run_ops ops (push_off c)"
| "run_ops (Pop # ops) c = bnd (pop_off c) (\<lambda>_ c. run_ops ops c)"

lemma run_ops_append: "run_ops (xs @ ys) c = bnd (run_ops xs c) (\<lambda>_ c. run_ops ys c)"
  by (induction xs c rule: run_ops.induct) (simp_all add: bnd_assoc cong: bnd_cong)

inductive balanced :: "intr_op list \<Rightarrow> bool" where
  balanced_Nil: "balanced []"
| balanced_pair: "balanced xs \<Longrightarrow> balanced ys \<Longrightarrow> balanced (Push # xs @ Pop # ys)"

definition hart_ok :: "hart \<Rightarrow> bool" where
  "hart_ok c \<longleftrightarrow> 0 \<le> noff c \<and> (0 < noff c \<longrightarrow> \<not> intr c)"

lemma push_pop_off:
  assumes "hart_ok c"
  shows "hart_ok (push_off c)" "noff (push_off c) = noff c + 1" "\<not> intr (push_off c)"
    and "noff d = noff c + 1 \<Longrightarrow> \<not> intr d \<Longrightarrow> (noff c = 0 \<Longrightarrow> intena d = intr c) \<Longrightarrow>
         \<exists>e. pop_off d = Done () e \<and> hart_ok e \<and> noff e = noff c \<and> intr e = intr c \<and>
           intena e = intena d"
  using assms by (auto simp: push_off_def pop_off_def hart_ok_def Let_def)

lemma balanced_restores:
  assumes "balanced ops" "hart_ok c"
  shows "\<exists>d. run_ops ops c = Done () d \<and> hart_ok d \<and> noff d = noff c \<and> intr d = intr c \<and>
           (0 < noff c \<longrightarrow> intena d = intena c)"
  using assms
proof (induction arbitrary: c rule: balanced.induct)
  case balanced_Nil
  then show ?case by simp
next
  case (balanced_pair xs ys)
  let ?p = "push_off c"
  note p = push_pop_off [OF balanced_pair.prems]
  obtain d where d: "run_ops xs ?p = Done () d" "noff d = noff ?p" "intr d = intr ?p" "intena d = intena ?p"
    using balanced_pair.IH(1) [OF p(1)] p(2) balanced_pair.prems by (auto simp: hart_ok_def)
  have ie: "intena ?p = (if noff c = 0 then intr c else intena c)" by (simp add: push_off_def Let_def)
  obtain e where e: "pop_off d = Done () e" "hart_ok e" "noff e = noff c" "intr e = intr c" "intena e = intena d"
    using p(4) [of d] p(2,3) d ie by auto
  obtain f where "run_ops ys e = Done () f" "hart_ok f" "noff f = noff e" "intr f = intr e"
    "0 < noff e \<longrightarrow> intena f = intena e"
    using balanced_pair.IH(2) [OF e(2)] by blast
  then show ?case using d e ie by (auto simp: run_ops_append)
qed



subsection \<open>Harts interleaved\<close>

text \<open>
  One lock and any number of harts.  The program counter of a hart is the next memory
  access of \<open>acquire\<close> or \<open>release\<close> it makes; \<open>holding\<close> reads \<open>locked\<close> first and
  \<open>cpu\<close> only if that is not 0; the atomic swap is one step.
\<close>

datatype pc =
    Outside            \<comment> \<open>about to call \<open>acquire\<close>\<close>
  | Acq_locked         \<comment> \<open>\<open>holding\<close> reads \<open>locked\<close>\<close>
  | Acq_cpu            \<comment> \<open>\<open>holding\<close> reads \<open>cpu\<close>\<close>
  | Spinning           \<comment> \<open>\<open>__sync_lock_test_and_set\<close>\<close>
  | Acq_set            \<comment> \<open>\<open>lk->cpu = mycpu()\<close>\<close>
  | Critical           \<comment> \<open>between \<open>acquire\<close> and \<open>release\<close>\<close>
  | Rel_cpu            \<comment> \<open>\<open>holding\<close> has read \<open>locked\<close> and reads \<open>cpu\<close>\<close>
  | Rel_clear          \<comment> \<open>\<open>lk->cpu = 0\<close>\<close>
  | Rel_unlock         \<comment> \<open>\<open>__sync_lock_release\<close>\<close>
  | Rel_pop            \<comment> \<open>\<open>pop_off\<close>\<close>
  | Panicked

record machine =
  lk :: spinlock
  harts :: "nat \<Rightarrow> hart"
  pcs :: "nat \<Rightarrow> pc"

definition goto :: "nat \<Rightarrow> pc \<Rightarrow> machine \<Rightarrow> machine" where
  "goto h q m = m\<lparr>pcs := (pcs m)(h := q)\<rparr>"

inductive lock_step :: "nat \<Rightarrow> machine \<Rightarrow> machine \<Rightarrow> bool" for h where
  call_acquire: "pcs m h = Outside \<Longrightarrow>
    lock_step h m (goto h Acq_locked (m\<lparr>harts := (harts m)(h := push_off (harts m h))\<rparr>))"
| read_locked: "pcs m h = Acq_locked \<Longrightarrow>
    lock_step h m (goto h (if locked (lk m) \<noteq> 0 then Acq_cpu else Spinning) m)"
| read_cpu: "pcs m h = Acq_cpu \<Longrightarrow>
    lock_step h m (goto h (if cpu (lk m) = Some h then Panicked else Spinning) m)"
| swap: "pcs m h = Spinning \<Longrightarrow>
    lock_step h m (goto h (if locked (lk m) \<noteq> 0 then Spinning else Acq_set)
                     (m\<lparr>lk := (lk m)\<lparr>locked := 1\<rparr>\<rparr>))"
| set_cpu: "pcs m h = Acq_set \<Longrightarrow>
    lock_step h m (goto h Critical (m\<lparr>lk := (lk m)\<lparr>cpu := Some h\<rparr>\<rparr>))"
| call_release: "pcs m h = Critical \<Longrightarrow>
    lock_step h m (goto h (if locked (lk m) \<noteq> 0 then Rel_cpu else Panicked) m)"
| check_cpu: "pcs m h = Rel_cpu \<Longrightarrow>
    lock_step h m (goto h (if cpu (lk m) = Some h then Rel_clear else Panicked) m)"
| clear_cpu: "pcs m h = Rel_clear \<Longrightarrow>
    lock_step h m (goto h Rel_unlock (m\<lparr>lk := (lk m)\<lparr>cpu := None\<rparr>\<rparr>))"
| unlock: "pcs m h = Rel_unlock \<Longrightarrow>
    lock_step h m (goto h Rel_pop (m\<lparr>lk := (lk m)\<lparr>locked := 0\<rparr>\<rparr>))"
| pop: "pcs m h = Rel_pop \<Longrightarrow> pop_off (harts m h) = Done () c \<Longrightarrow>
    lock_step h m (goto h Outside (m\<lparr>harts := (harts m)(h := c)\<rparr>))"
| pop_panics: "pcs m h = Rel_pop \<Longrightarrow> pop_off (harts m h) = Panic e \<Longrightarrow>
    lock_step h m (goto h Panicked m)"

inductive_cases lock_stepE: "lock_step h m m'"

text \<open>The initial state: \<open>initlock\<close> has been called and no hart is in the lock code.\<close>

definition lock_init :: "machine \<Rightarrow> bool" where
  "lock_init m \<longleftrightarrow> lk m = initlock \<and> (\<forall>h. pcs m h = Outside \<and> hart_ok (harts m h))"

inductive lock_reach :: "machine \<Rightarrow> bool" where
  reach_init: "lock_init m \<Longrightarrow> lock_reach m"
| reach_step: "lock_reach m \<Longrightarrow> lock_step h m m' \<Longrightarrow> lock_reach m'"

text \<open>
  The harts between the successful swap and the store that frees the lock, and those
  whose number is in the field \<open>cpu\<close>.
\<close>

definition owner :: "pc \<Rightarrow> bool" where
  "owner q \<longleftrightarrow> q \<in> {Acq_set, Critical, Rel_cpu, Rel_clear, Rel_unlock}"

definition recorded :: "pc \<Rightarrow> bool" where
  "recorded q \<longleftrightarrow> q \<in> {Critical, Rel_cpu, Rel_clear}"

definition hart_inv :: "nat option \<Rightarrow> spinlock \<Rightarrow> nat \<Rightarrow> pc \<Rightarrow> hart \<Rightarrow> bool" where
  "hart_inv own l h q c \<longleftrightarrow>
     (owner q \<longleftrightarrow> own = Some h) \<and> (cpu l = Some h \<longleftrightarrow> recorded q) \<and> q \<noteq> Panicked \<and>
     hart_ok c \<and> (q \<noteq> Outside \<longrightarrow> 0 < noff c)"

definition lock_inv :: "nat option \<Rightarrow> machine \<Rightarrow> bool" where
  "lock_inv own m \<longleftrightarrow> (locked (lk m) \<noteq> 0 \<longleftrightarrow> own \<noteq> None) \<and>
     (\<forall>h. hart_inv own (lk m) h (pcs m h) (harts m h))"

lemma owner_simps [simp]:
  "owner Acq_set" "owner Critical" "owner Rel_cpu" "owner Rel_clear" "owner Rel_unlock"
  "\<not> owner Outside" "\<not> owner Acq_locked" "\<not> owner Acq_cpu" "\<not> owner Spinning" "\<not> owner Rel_pop"
  "\<not> owner Panicked"
  by (simp_all add: owner_def)

lemma recorded_simps [simp]:
  "recorded Critical" "recorded Rel_cpu" "recorded Rel_clear"
  "\<not> recorded Acq_set" "\<not> recorded Rel_unlock"
  "\<not> recorded Outside" "\<not> recorded Acq_locked" "\<not> recorded Acq_cpu" "\<not> recorded Spinning"
  "\<not> recorded Rel_pop" "\<not> recorded Panicked"
  by (simp_all add: recorded_def)

lemma recorded_owner: "recorded q \<Longrightarrow> owner q"
  by (auto simp: recorded_def owner_def)

lemma pop_off_ok:
  assumes "hart_ok c" "0 < noff c"
  shows "\<exists>d. pop_off c = Done () d \<and> hart_ok d"
  using assms by (auto simp: pop_off_def hart_ok_def Let_def)

text \<open>A step of \<open>h\<close> keeps the invariant if it does so at \<open>h\<close> and disturbs no other hart.\<close>

lemma lock_inv_goto:
  assumes "lock_inv own m" "locked l \<noteq> 0 \<longleftrightarrow> own' \<noteq> None" "hart_inv own' l h q c"
    and "\<And>g. g \<noteq> h \<Longrightarrow> (own' = Some g \<longleftrightarrow> own = Some g) \<and> (cpu l = Some g \<longleftrightarrow> cpu (lk m) = Some g)"
  shows "lock_inv own' (goto h q (m\<lparr>lk := l, harts := (harts m)(h := c)\<rparr>))"
  using assms by (auto simp: lock_inv_def goto_def hart_inv_def)

lemma lock_inv_step:
  assumes st: "lock_step h m m'" and inv: "lock_inv own m"
  shows "\<exists>own'. lock_inv own' m'"
proof -
  let ?c = "harts m h" and ?l = "lk m"
  have hi: "hart_inv own ?l h (pcs m h) ?c" and lo: "locked ?l \<noteq> 0 \<longleftrightarrow> own \<noteq> None"
    using inv by (auto simp: lock_inv_def)
  have id: "m\<lparr>lk := lk m, harts := (harts m)(h := harts m h)\<rparr> = m" by simp
  have go: "\<exists>own'. lock_inv own' (goto h q (m\<lparr>lk := l, harts := (harts m)(h := c)\<rparr>))"
    if "locked l \<noteq> 0 \<longleftrightarrow> own' \<noteq> None" "hart_inv own' l h q c"
      "\<And>g. g \<noteq> h \<Longrightarrow> (own' = Some g \<longleftrightarrow> own = Some g) \<and> (cpu l = Some g \<longleftrightarrow> cpu ?l = Some g)"
    for own' l q c using lock_inv_goto [OF inv that] by blast
  note go_l = go [where c = ?c, unfolded fun_upd_triv] and go_c = go [where l = ?l]
  show ?thesis
    using st
  proof (cases rule: lock_step.cases)
    case call_acquire
    then show ?thesis
      using hi lo push_pop_off(1-3) [of ?c] go_c [of own Acq_locked "push_off ?c"]
      by (auto simp: hart_inv_def hart_ok_def)
  next
    case (pop c)
    then show ?thesis
      using hi lo pop_off_ok [of ?c] go_c [of own Outside c] by (auto simp: hart_inv_def)
  next
    case (pop_panics e)
    then show ?thesis using hi pop_off_ok [of ?c] by (auto simp: hart_inv_def)
  next
    case swap
    then show ?thesis
      using hi lo go_l [of "?l\<lparr>locked := 1\<rparr>" own Spinning] go_l [of "?l\<lparr>locked := 1\<rparr>" "Some h" Acq_set]
      by (auto simp: hart_inv_def)
  next
    case unlock
    then show ?thesis
      using hi lo go_l [of "?l\<lparr>locked := 0\<rparr>" None Rel_pop] by (auto simp: hart_inv_def)
  next
    case set_cpu
    have "cpu ?l \<noteq> Some g" for g
    proof
      assume "cpu ?l = Some g"
      then have "recorded (pcs m g)" "own = Some g"
        using inv recorded_owner by (auto simp: lock_inv_def hart_inv_def)
      moreover have "own = Some h" using hi set_cpu by (simp add: hart_inv_def)
      ultimately show False using set_cpu by simp
    qed
    then show ?thesis
      using hi lo set_cpu go_l [of "?l\<lparr>cpu := Some h\<rparr>" own Critical] by (auto simp: hart_inv_def)
  next
    case clear_cpu
    then show ?thesis
      using hi lo go_l [of "?l\<lparr>cpu := None\<rparr>" own Rel_unlock] by (auto simp: hart_inv_def)
  qed (use hi lo go_l [of ?l own] in \<open>auto simp: hart_inv_def\<close>)
qed

lemma lock_reach_inv: "lock_reach m \<Longrightarrow> \<exists>own. lock_inv own m"
proof (induction rule: lock_reach.induct)
  case (reach_init m)
  then have "lock_inv None m" by (auto simp: lock_init_def lock_inv_def hart_inv_def initlock_def)
  then show ?case ..
next
  case (reach_step m h m')
  then show ?case using lock_inv_step by blast
qed

text \<open>C4. Mutual exclusion: however the memory accesses of any number of harts that use a
  spin lock interleave, at most one of them is between \<open>acquire\<close> and \<open>release\<close>; that
  hart has interrupts disabled and its number is the one recorded in the lock; and none of
  the panics of \<open>acquire\<close>, \<open>release\<close> and \<open>pop_off\<close> is reached.\<close>

theorem spinlock_mutual_exclusion:
  assumes "lock_reach m"
  shows "pcs m h \<noteq> Panicked \<and>
    (pcs m h = Critical \<longrightarrow> locked (lk m) \<noteq> 0 \<and> cpu (lk m) = Some h \<and> \<not> intr (harts m h) \<and>
       (\<forall>g. pcs m g = Critical \<longrightarrow> g = h))"
proof -
  obtain own where inv: "lock_inv own m" using lock_reach_inv [OF assms] by blast
  have hi: "hart_inv own (lk m) g (pcs m g) (harts m g)" for g using inv by (simp add: lock_inv_def)
  have "locked (lk m) \<noteq> 0 \<longleftrightarrow> own \<noteq> None" using inv by (simp add: lock_inv_def)
  moreover have "own = Some g" if "pcs m g = Critical" for g
    using hi [of g] that by (simp add: hart_inv_def)
  ultimately show ?thesis using hi [of h] by (auto simp: hart_inv_def hart_ok_def)
qed

text \<open>A run of hart 0 into its critical section, while hart 1 spins.\<close>

definition idle_hart :: hart where
  "idle_hart = \<lparr>noff = 0, intena = False, intr = True\<rparr>"

definition idle_machine :: machine where
  "idle_machine = \<lparr>lk = initlock, harts = (\<lambda>_. idle_hart), pcs = (\<lambda>_. Outside)\<rparr>"

definition busy_machine :: machine where
  "busy_machine = \<lparr>lk = \<lparr>locked = 1, cpu = Some 0\<rparr>,
     harts = (\<lambda>_. idle_hart)(0 := push_off idle_hart, 1 := push_off idle_hart),
     pcs = (\<lambda>_. Outside)(0 := Critical, 1 := Spinning)\<rparr>"

theorem spinlock_mutual_exclusion_witness:
  "lock_reach busy_machine \<and> pcs busy_machine 0 = Critical \<and> pcs busy_machine 1 = Spinning \<and>
   cpu (lk busy_machine) = Some 0 \<and> \<not> intr (harts busy_machine 0)"
proof -
  let ?h = "(\<lambda>_. idle_hart)(0 := push_off idle_hart)" and ?h1 = "harts busy_machine"
  let ?f = "\<lparr>locked = 0, cpu = None\<rparr> :: spinlock" and ?t = "\<lparr>locked = 1, cpu = None\<rparr> :: spinlock"
  have r: "lock_reach idle_machine"
    by (rule reach_init) (simp add: lock_init_def idle_machine_def idle_hart_def hart_ok_def)
  have "lock_reach \<lparr>lk = ?f, harts = ?h, pcs = (\<lambda>_. Outside)(0 := Acq_locked)\<rparr>"
    using reach_step [OF r call_acquire [where h = 0]] by (simp add: idle_machine_def goto_def initlock_def)
  note r = reach_step [OF this read_locked [where h = 0], simplified]
  have "lock_reach \<lparr>lk = ?f, harts = ?h, pcs = (\<lambda>_. Outside)(0 := Spinning)\<rparr>"
    using r by (simp add: goto_def)
  note r = reach_step [OF this swap [where h = 0], simplified]
  have "lock_reach \<lparr>lk = ?t, harts = ?h, pcs = (\<lambda>_. Outside)(0 := Acq_set)\<rparr>"
    using r by (simp add: goto_def)
  note r = reach_step [OF this call_acquire [where h = 1], simplified]
  have "lock_reach \<lparr>lk = ?t, harts = ?h1, pcs = (\<lambda>_. Outside)(0 := Acq_set, 1 := Acq_locked)\<rparr>"
    using r by (simp add: goto_def busy_machine_def)
  note r = reach_step [OF this read_locked [where h = 1], simplified]
  have "lock_reach \<lparr>lk = ?t, harts = ?h1, pcs = (\<lambda>_. Outside)(0 := Acq_set, 1 := Acq_cpu)\<rparr>"
    using r by (simp add: goto_def)
  note r = reach_step [OF this read_cpu [where h = 1], simplified]
  have "lock_reach \<lparr>lk = ?t, harts = ?h1, pcs = (\<lambda>_. Outside)(0 := Acq_set, 1 := Spinning)\<rparr>"
    using r by (simp add: goto_def)
  note r = reach_step [OF this set_cpu [where h = 0], simplified]
  have "lock_reach busy_machine"
    using r by (simp add: goto_def busy_machine_def fun_upd_twist)
  then show ?thesis
    using spinlock_mutual_exclusion [of busy_machine 0] by (simp add: busy_machine_def)
qed

subsection \<open>Sleep locks\<close>

record sleeplock =
  sl_locked :: "32 word"
  sl_lk :: spinlock
  sl_pid :: int

definition initsleeplock :: sleeplock where
  "initsleeplock = \<lparr>sl_locked = 0, sl_lk = initlock, sl_pid = 0\<rparr>"

text \<open>
  \<open>me\<close> is the hart and \<open>pid\<close> the process that runs on it.  \<open>sleep\<close> gives up the
  inner spin lock; a woken process takes it again and reads \<open>locked\<close> again, so it
  continues with \<open>acquiresleep\<close> itself.
\<close>

definition acquiresleep :: "nat \<Rightarrow> int \<Rightarrow> nat \<Rightarrow> sleeplock \<Rightarrow> (unit, sleeplock) outcome" where
  "acquiresleep me pid ident s =
     bnd (lock_in sl_lk (\<lambda>l s. s\<lparr>sl_lk := l\<rparr>) me s) (\<lambda>_ s.
       if sl_locked s \<noteq> 0
       then bnd (unlock_in sl_lk (\<lambda>l s. s\<lparr>sl_lk := l\<rparr>) me s) (\<lambda>_ s. Sleep (C_sleeplock ident) s)
       else unlock_in sl_lk (\<lambda>l s. s\<lparr>sl_lk := l\<rparr>) me (s\<lparr>sl_locked := 1, sl_pid := pid\<rparr>))"

text \<open>The result is the channel of the call \<open>wakeup(lk)\<close>.\<close>

definition releasesleep :: "nat \<Rightarrow> nat \<Rightarrow> sleeplock \<Rightarrow> (chan, sleeplock) outcome" where
  "releasesleep me ident s =
     bnd (lock_in sl_lk (\<lambda>l s. s\<lparr>sl_lk := l\<rparr>) me s) (\<lambda>_ s.
     bnd (unlock_in sl_lk (\<lambda>l s. s\<lparr>sl_lk := l\<rparr>) me (s\<lparr>sl_locked := 0, sl_pid := 0\<rparr>)) (\<lambda>_ s.
     Done (C_sleeplock ident) s))"

definition holdingsleep :: "nat \<Rightarrow> int \<Rightarrow> sleeplock \<Rightarrow> (bool, sleeplock) outcome" where
  "holdingsleep me pid s =
     bnd (lock_in sl_lk (\<lambda>l s. s\<lparr>sl_lk := l\<rparr>) me s) (\<lambda>_ s.
     let r = sl_locked s \<noteq> 0 \<and> sl_pid s = pid in
     bnd (unlock_in sl_lk (\<lambda>l s. s\<lparr>sl_lk := l\<rparr>) me s) (\<lambda>_ s. Done r s))"

lemma acquiresleep_free:
  "unheld (sl_lk s) \<Longrightarrow> sl_locked s = 0 \<Longrightarrow>
   acquiresleep me pid i s = Done () (s\<lparr>sl_lk := initlock, sl_locked := 1, sl_pid := pid\<rparr>)"
  by (simp add: acquiresleep_def)

lemma acquiresleep_busy:
  "unheld (sl_lk s) \<Longrightarrow> sl_locked s \<noteq> 0 \<Longrightarrow> acquiresleep me pid i s = Sleep (C_sleeplock i) s"
  by (cases s) (simp add: acquiresleep_def unheld_def)

lemma releasesleep_eq:
  "unheld (sl_lk s) \<Longrightarrow>
   releasesleep me i s = Done (C_sleeplock i) (s\<lparr>sl_lk := initlock, sl_locked := 0, sl_pid := 0\<rparr>)"
  by (simp add: releasesleep_def)

lemma holdingsleep_eq:
  "unheld (sl_lk s) \<Longrightarrow> holdingsleep me pid s = Done (sl_locked s \<noteq> 0 \<and> sl_pid s = pid) s"
  by (cases s) (simp add: holdingsleep_def unheld_def)

text \<open>C11. A sleep lock serialises processes: a process that gets it is the holder, a second
  one goes to sleep on the lock without changing it, and after \<open>releasesleep\<close>, which
  wakes exactly that channel, the second one gets it.\<close>

theorem sleeplock_handover:
  assumes "unheld (sl_lk s)" "sl_locked s = 0"
  shows "\<exists>s1. acquiresleep h1 p1 i s = Done () s1 \<and> holdingsleep h1 p1 s1 = Done True s1 \<and>
    (p2 \<noteq> p1 \<longrightarrow> holdingsleep h2 p2 s1 = Done False s1) \<and>
    acquiresleep h2 p2 i s1 = Sleep (C_sleeplock i) s1 \<and>
    (\<exists>s2 s3. releasesleep h1 i s1 = Done (C_sleeplock i) s2 \<and> acquiresleep h2 p2 i s2 = Done () s3 \<and>
       holdingsleep h2 p2 s3 = Done True s3)"
  using assms
  by (simp add: acquiresleep_free acquiresleep_busy releasesleep_eq holdingsleep_eq)

theorem sleeplock_handover_witness:
  "\<exists>s1. acquiresleep 0 7 3 initsleeplock = Done () s1 \<and>
     acquiresleep 1 8 3 s1 = Sleep (C_sleeplock 3) s1"
  using sleeplock_handover [of initsleeplock 0 7 3 8 1] by (auto simp: initsleeplock_def)

end
