(* ===== verification/Pipe.thy ===== *)
theory Pipe
  imports Ring Spinlock
begin

section \<open>Pipes (kernel/pipe.c)\<close>

text \<open>
  A pipe is a ring of 512 bytes with 32-bit counters and one flag for each end.  A call
  either returns or blocks (type \<open>blocking\<close>).  The caller's memory
  is a parameter: \<open>inp i\<close> is the byte at \<open>addr + i\<close>, \<open>None\<close> if \<open>copyin\<close> fails, and
  \<open>outp i\<close> says whether \<open>copyout\<close> to \<open>addr + i\<close> succeeds.  \<open>killed i\<close> is what
  \<open>killed(pr)\<close> returns at byte \<open>i\<close>: another hart may set the flag at any time.
\<close>

definition PIPESIZE :: nat where "PIPESIZE = 512"

text \<open>\<open>p_id\<close> is the address of the pipe, which the sleep channels \<open>&pi->nread\<close> depend on.\<close>

record pipe =
  p_id :: nat
  p_lock :: spinlock
  p_data :: "nat \<Rightarrow> 8 word"
  nread :: "32 word"
  nwrite :: "32 word"
  readopen :: bool
  writeopen :: bool

definition acquire_pipe :: "nat \<Rightarrow> pipe \<Rightarrow> (unit, pipe) outcome" where
  "acquire_pipe = lock_in p_lock (\<lambda>l s. s\<lparr>p_lock := l\<rparr>)"

definition release_pipe :: "nat \<Rightarrow> pipe \<Rightarrow> (unit, pipe) outcome" where
  "release_pipe = unlock_in p_lock (\<lambda>l s. s\<lparr>p_lock := l\<rparr>)"

text \<open>The fields \<open>pipealloc\<close> sets in the page it gets from \<open>kalloc\<close>.\<close>

definition pipe_init :: "nat \<Rightarrow> (nat \<Rightarrow> 8 word) \<Rightarrow> pipe" where
  "pipe_init pa page =
     \<lparr>p_id = pa, p_lock = initlock, p_data = page, nread = 0, nwrite = 0, readopen = True, writeopen = True\<rparr>"

text \<open>The result says whether the page of the pipe is given back, and who is woken.\<close>

definition pipeclose :: "nat \<Rightarrow> bool \<Rightarrow> pipe \<Rightarrow> (bool \<times> chan list, pipe) outcome" where
  "pipeclose me writable pi =
     bnd (acquire_pipe me pi) (\<lambda>_ pi.
       let (woken, pi) = (if writable then ([C_nread (p_id pi)], pi\<lparr>writeopen := False\<rparr>)
                          else ([C_nwrite (p_id pi)], pi\<lparr>readopen := False\<rparr>)) in
       if \<not> readopen pi \<and> \<not> writeopen pi
       then bnd (release_pipe me pi) (\<lambda>_ pi. Done (True, woken) pi)
       else bnd (release_pipe me pi) (\<lambda>_ pi. Done (False, woken) pi))"

function pipewrite_loop ::
  "(nat \<Rightarrow> bool) \<Rightarrow> (nat \<Rightarrow> 8 word option) \<Rightarrow> int \<Rightarrow> nat \<Rightarrow> pipe \<Rightarrow> (int, nat) blocking \<times> pipe" where
  "pipewrite_loop killed inp n i pi =
     (if int i < n then
        if \<not> readopen pi \<or> killed i then (Returned (-1) [], pi)
        else if nwrite pi = nread pi + of_nat PIPESIZE then (Blocked (C_nwrite (p_id pi)) [C_nread (p_id pi)] i, pi)
        else
          (case inp i of
             None \<Rightarrow> (Returned (int i) [C_nread (p_id pi)], pi)
           | Some ch \<Rightarrow>
               pipewrite_loop killed inp n (i + 1)
                 (pi\<lparr>p_data := (p_data pi)(unat (nwrite pi) mod PIPESIZE := ch),
                     nwrite := nwrite pi + 1\<rparr>))
      else (Returned (int i) [C_nread (p_id pi)], pi))"
  by pat_completeness auto
termination
  by (relation "measure (\<lambda>(killed, inp, n, i, pi). nat (n - int i))") auto

declare pipewrite_loop.simps [simp del]

text \<open>
  \<open>i\<close> is 0 for a new call and the value saved over \<open>sleep\<close> for a resumed one.
\<close>

definition pipewrite ::
  "nat \<Rightarrow> (nat \<Rightarrow> bool) \<Rightarrow> (nat \<Rightarrow> 8 word option) \<Rightarrow> int \<Rightarrow> nat \<Rightarrow> pipe \<Rightarrow>
   ((int, nat) blocking, pipe) outcome" where
  "pipewrite me killed inp n i pi =
     bnd (acquire_pipe me pi) (\<lambda>_ pi.
       let (r, pi) = pipewrite_loop killed inp n i pi in
       bnd (release_pipe me pi) (\<lambda>_ pi. Done r pi))"

text \<open>The copy loop of \<open>piperead\<close>; the result has the count and the bytes copied out.\<close>

function piperead_loop ::
  "(nat \<Rightarrow> bool) \<Rightarrow> int \<Rightarrow> nat \<Rightarrow> pipe \<Rightarrow> int \<times> 8 word list \<times> pipe" where
  "piperead_loop outp n i pi =
     (if int i < n then
        if nread pi = nwrite pi then (int i, [], pi)
        else
          let ch = p_data pi (unat (nread pi) mod PIPESIZE);
              pi = pi\<lparr>nread := nread pi + 1\<rparr> in
          if outp i then (let (r, chs, pi) = piperead_loop outp n (i + 1) pi in (r, ch # chs, pi))
          else (int i, [], pi)
      else (int i, [], pi))"
  by pat_completeness auto
termination
  by (relation "measure (\<lambda>(outp, n, i, pi). nat (n - int i))") auto

declare piperead_loop.simps [simp del]

definition piperead ::
  "nat \<Rightarrow> bool \<Rightarrow> (nat \<Rightarrow> bool) \<Rightarrow> int \<Rightarrow> pipe \<Rightarrow> ((int \<times> 8 word list, unit) blocking, pipe) outcome" where
  "piperead me killed outp n pi =
     bnd (acquire_pipe me pi) (\<lambda>_ pi.
       if nread pi = nwrite pi \<and> writeopen pi then
         if killed then bnd (release_pipe me pi) (\<lambda>_ pi. Done (Returned (-1, []) []) pi)
         else bnd (release_pipe me pi) (\<lambda>_ pi. Done (Blocked (C_nread (p_id pi)) [] ()) pi)
       else
         let (i, chs, pi) = piperead_loop outp n 0 pi in
         bnd (release_pipe me pi) (\<lambda>_ pi. Done (Returned (i, chs) [C_nwrite (p_id pi)]) pi))"

subsection \<open>The bytes in the pipe\<close>

interpretation pipe_ring: ring PIPESIZE "TYPE(32)"
  by unfold_locales (simp_all add: PIPESIZE_def)

definition pipe_bytes :: "pipe \<Rightarrow> 8 word list" where
  "pipe_bytes pi = ring_list PIPESIZE (p_data pi) (nread pi) (nwrite pi)"

definition pipe_ok :: "pipe \<Rightarrow> bool" where
  "pipe_ok pi \<longleftrightarrow> length (pipe_bytes pi) \<le> PIPESIZE \<and> unheld (p_lock pi)"

lemma pipe_init_ok [simp]: "pipe_ok (pipe_init pa page)" "pipe_bytes (pipe_init pa page) = []"
  by (simp_all add: pipe_ok_def pipe_bytes_def pipe_init_def)

lemma pipe_init_fields [simp]:
  "p_id (pipe_init pa page) = pa" "readopen (pipe_init pa page)" "writeopen (pipe_init pa page)"
  by (simp_all add: pipe_init_def)

text \<open>The bytes of the caller from \<open>i\<close> on, up to \<open>n\<close> or to the first failing \<open>copyin\<close>.\<close>

function input :: "(nat \<Rightarrow> 8 word option) \<Rightarrow> int \<Rightarrow> nat \<Rightarrow> 8 word list" where
  "input inp n i =
     (if int i < n then (case inp i of None \<Rightarrow> [] | Some ch \<Rightarrow> ch # input inp n (i + 1)) else [])"
  by pat_completeness auto
termination
  by (relation "measure (\<lambda>(inp, n, i). nat (n - int i))") auto

declare input.simps [simp del]

text \<open>
  One segment of a write between sleeps: a prefix of the input is appended; the call returns
  after all of it, blocks on a full pipe, or stops because the reader is gone or the process
  is killed.
\<close>

definition write_segment ::
  "(nat \<Rightarrow> bool) \<Rightarrow> (nat \<Rightarrow> 8 word option) \<Rightarrow> int \<Rightarrow> nat \<Rightarrow> pipe \<Rightarrow> nat \<Rightarrow> (int, nat) blocking \<Rightarrow> pipe \<Rightarrow> bool" where
  "write_segment killed inp n i pi k r pj \<longleftrightarrow>
     k \<le> length (input inp n i) \<and>
     pipe_bytes pj = pipe_bytes pi @ take k (input inp n i) \<and> length (pipe_bytes pj) \<le> PIPESIZE \<and>
     p_id pj = p_id pi \<and> p_lock pj = p_lock pi \<and> readopen pj = readopen pi \<and>
     writeopen pj = writeopen pi \<and> nread pj = nread pi \<and>
     (r = Returned (-1) [] \<and> (\<not> readopen pi \<or> killed (i + k) \<and> int (i + k) < n) \<or>
      r = Returned (int (i + k)) [C_nread (p_id pi)] \<and> k = length (input inp n i) \<or>
      r = Blocked (C_nwrite (p_id pi)) [C_nread (p_id pi)] (i + k) \<and> readopen pi \<and>
        length (pipe_bytes pj) = PIPESIZE)"

lemma pipewrite_loop_correct:
  assumes "length (pipe_bytes pi) \<le> PIPESIZE" "pipewrite_loop killed inp n i pi = (r, pj)"
  shows "\<exists>k. write_segment killed inp n i pi k r pj"
  using assms
proof (induction killed inp n i pi arbitrary: r pj rule: pipewrite_loop.induct)
  case (1 killed inp n i pi)
  have len: "unat (nwrite pi - nread pi) \<le> PIPESIZE" using "1.prems"(1) by (simp add: pipe_bytes_def)
  note full = pipe_ring.full_iff [OF len]
  show ?case
  proof (cases "int i < n \<and> readopen pi \<and> \<not> killed i \<and> length (pipe_bytes pi) \<noteq> PIPESIZE \<and> inp i \<noteq> None")
    case True
    then obtain ch where ch: "inp i = Some ch" by auto
    define pk where "pk = pi\<lparr>p_data := (p_data pi)(unat (nwrite pi) mod PIPESIZE := ch), nwrite := nwrite pi + 1\<rparr>"
    have lt: "unat (nwrite pi - nread pi) < PIPESIZE" using True len by (simp add: pipe_bytes_def)
    have nf: "nwrite pi \<noteq> nread pi + of_nat PIPESIZE" using full lt by simp
    have step: "pipewrite_loop killed inp n i pi = pipewrite_loop killed inp n (i + 1) pk"
      using True ch nf by (subst pipewrite_loop.simps) (simp add: pk_def)
    have pb: "pipe_bytes pk = pipe_bytes pi @ [ch]"
      using pipe_ring.put [OF lt] by (simp add: pipe_bytes_def pk_def)
    have lk: "length (pipe_bytes pk) \<le> PIPESIZE"
      using lt by (simp only: pb length_append) (simp add: pipe_bytes_def)
    have inpt: "input inp n i = ch # input inp n (i + 1)" using True ch by (subst input.simps) simp
    have "\<exists>k. write_segment killed inp n (i + 1) pk k r pj"
      using True ch nf "1.prems"(2) step lk unfolding pk_def by (intro "1.IH") simp_all
    then obtain k where "write_segment killed inp n (i + 1) pk k r pj" by blast
    then have "write_segment killed inp n i pi (Suc k) r pj"
      using pb inpt by (auto simp: write_segment_def pk_def)
    then show ?thesis by blast
  next
    case False
    have "pj = pi \<and> (r = Returned (-1) [] \<and> (\<not> readopen pi \<or> killed i \<and> int i < n) \<or>
       r = Returned (int i) [C_nread (p_id pi)] \<and> input inp n i = [] \<or>
       r = Blocked (C_nwrite (p_id pi)) [C_nread (p_id pi)] i \<and> readopen pi \<and>
         length (pipe_bytes pi) = PIPESIZE)"
      using "1.prems"(2) False full
      by (subst (asm) pipewrite_loop.simps, subst input.simps)
        (auto simp: pipe_bytes_def split: if_splits option.splits)
    then have "write_segment killed inp n i pi 0 r pj"
      using "1.prems"(1) by (auto simp: write_segment_def)
    then show ?thesis by blast
  qed
qed

lemma pipewrite_segment:
  assumes "pipe_ok pi"
  obtains r pj k where "pipewrite me killed inp n i pi = Done r pj" "pipe_ok pj"
    "write_segment killed inp n i (pi\<lparr>p_lock := initlock\<rparr>) k r pj"
proof -
  let ?pi = "pi\<lparr>p_lock := \<lparr>locked = 1, cpu = Some me\<rparr>\<rparr>"
  obtain r pj where l: "pipewrite_loop killed inp n i ?pi = (r, pj)" by fastforce
  have "length (pipe_bytes ?pi) \<le> PIPESIZE" using assms by (simp add: pipe_ok_def pipe_bytes_def)
  then obtain k where k: "write_segment killed inp n i ?pi k r pj"
    using pipewrite_loop_correct [OF _ l] by blast
  then have "held_by me (p_lock pj)" by (simp add: write_segment_def)
  then have "pipewrite me killed inp n i pi = Done r (pj\<lparr>p_lock := initlock\<rparr>)"
    using assms l by (simp add: pipewrite_def acquire_pipe_def release_pipe_def pipe_ok_def)
  moreover have "write_segment killed inp n i (pi\<lparr>p_lock := initlock\<rparr>) k r (pj\<lparr>p_lock := initlock\<rparr>)"
    using k by (auto simp: write_segment_def pipe_bytes_def)
  moreover from this have "length (pipe_bytes (pj\<lparr>p_lock := initlock\<rparr>)) \<le> PIPESIZE"
    unfolding write_segment_def by blast
  then have "pipe_ok (pj\<lparr>p_lock := initlock\<rparr>)" unfolding pipe_ok_def by simp
  ultimately show ?thesis using that by blast
qed

lemma pipe_ok_lock: "pipe_ok pi \<Longrightarrow> pi\<lparr>p_lock := initlock\<rparr> = pi"
  by (cases pi) (simp add: pipe_ok_def unheld_def)

text \<open>The copy loop of a read takes bytes off the front; a byte whose \<open>copyout\<close> fails is lost.\<close>

lemma piperead_loop_correct:
  assumes "length (pipe_bytes pi) \<le> PIPESIZE" "\<And>j. outp j" "piperead_loop outp n i pi = (v, chs, pj)"
  shows "chs = take (nat (n - int i)) (pipe_bytes pi) \<and> v = int i + int (length chs) \<and>
    pipe_bytes pj = drop (length chs) (pipe_bytes pi) \<and>
    p_id pj = p_id pi \<and> p_lock pj = p_lock pi \<and> readopen pj = readopen pi \<and> writeopen pj = writeopen pi"
  using assms
proof (induction outp n i pi arbitrary: v chs pj rule: piperead_loop.induct)
  case (1 outp n i pi)
  show ?case
  proof (cases "int i < n \<and> nread pi \<noteq> nwrite pi")
    case True
    let ?ch = "p_data pi (unat (nread pi) mod PIPESIZE)" and ?pk = "pi\<lparr>nread := nread pi + 1\<rparr>"
    have pb: "pipe_bytes pi = ?ch # pipe_bytes ?pk"
      using pipe_ring.get [of "nwrite pi" "nread pi"] True by (auto simp: pipe_bytes_def)
    obtain v' chs' where l: "piperead_loop outp n (i + 1) ?pk = (v', chs', pj)" "v = v'" "chs = ?ch # chs'"
      using "1.prems"(2,3) True
      by (subst (asm) piperead_loop.simps) (auto simp: Let_def split: prod.splits)
    have "chs' = take (nat (n - int (i + 1))) (pipe_bytes ?pk) \<and> v' = int (i + 1) + int (length chs') \<and>
      pipe_bytes pj = drop (length chs') (pipe_bytes ?pk) \<and>
      p_id pj = p_id ?pk \<and> p_lock pj = p_lock ?pk \<and> readopen pj = readopen ?pk \<and> writeopen pj = writeopen ?pk"
    proof (rule "1.IH" [OF _ _ refl refl])
      show "piperead_loop outp n (i + 1) ?pk = (v', chs', pj)" by (rule l(1))
      show "length (pipe_bytes ?pk) \<le> PIPESIZE" using "1.prems"(1) pb by simp
    qed (use True "1.prems"(2) in simp_all)
    moreover have "nat (n - int i) = Suc (nat (n - int (i + 1)))" using True by auto
    ultimately show ?thesis using l(2,3) pb by simp
  next
    case False
    then have "v = int i" "chs = []" "pj = pi"
      using "1.prems"(3) by (subst (asm) piperead_loop.simps, auto split: if_splits)+
    then show ?thesis using False by (auto simp: pipe_bytes_def)
  qed
qed

lemma piperead_blocks:
  assumes "pipe_ok pi" "pipe_bytes pi = []" "writeopen pi"
  shows "piperead me killed outp n pi =
    Done (if killed then Returned (-1, []) [] else Blocked (C_nread (p_id pi)) [] ()) pi"
  using assms pipe_ok_lock [OF assms(1)]
  by (simp add: piperead_def acquire_pipe_def release_pipe_def pipe_ok_def pipe_bytes_def ring_list_empty)

lemma piperead_copies:
  assumes ok: "pipe_ok pi" and out: "\<And>j. outp j" and ne: "pipe_bytes pi \<noteq> [] \<or> \<not> writeopen pi"
  obtains pj where "piperead me killed outp n pi =
      Done (Returned (int (length (take (nat n) (pipe_bytes pi))), take (nat n) (pipe_bytes pi))
             [C_nwrite (p_id pi)]) pj"
    "pipe_ok pj" "pipe_bytes pj = drop (nat n) (pipe_bytes pi)" "p_id pj = p_id pi"
    "readopen pj = readopen pi" "writeopen pj = writeopen pi"
proof -
  let ?pi = "pi\<lparr>p_lock := \<lparr>locked = 1, cpu = Some me\<rparr>\<rparr>"
  obtain v chs pj where l: "piperead_loop outp n 0 ?pi = (v, chs, pj)" by (metis prod_cases3)
  have "pipe_bytes ?pi = pipe_bytes pi" by (simp add: pipe_bytes_def)
  then have c: "chs = take (nat n) (pipe_bytes pi)" "v = int (length chs)"
    "pipe_bytes pj = drop (length chs) (pipe_bytes pi)" "held_by me (p_lock pj)" "p_id pj = p_id pi"
    "readopen pj = readopen pi" "writeopen pj = writeopen pi"
    using piperead_loop_correct [OF _ out l] ok by (simp_all add: pipe_ok_def)
  have "nread pi \<noteq> nwrite pi \<or> \<not> writeopen pi" using ne by (auto simp: pipe_bytes_def)
  then have "piperead me killed outp n pi =
      Done (Returned (v, chs) [C_nwrite (p_id pj)]) (pj\<lparr>p_lock := initlock\<rparr>)"
    using ok l c(4) by (simp add: piperead_def acquire_pipe_def release_pipe_def pipe_ok_def)
  moreover have "pipe_bytes (pj\<lparr>p_lock := initlock\<rparr>) = drop (nat n) (pipe_bytes pi)"
    using c(1,3) by (simp add: pipe_bytes_def min_def)
  moreover from this have "pipe_ok (pj\<lparr>p_lock := initlock\<rparr>)" using ok by (auto simp: pipe_ok_def intro: order.trans [OF diff_le_self])
  ultimately show ?thesis using that c by simp
qed

subsection \<open>A pipe and the processes that use it\<close>

text \<open>
  Any number of processes read, write and close.  \<open>sent\<close> and \<open>received\<close> are all the
  bytes that have gone in and come out, \<open>asleep p\<close> is the channel process \<open>p\<close> sleeps
  on.  Writers are killed between calls of \<open>pipewrite\<close> and over its sleeps, but not inside
  its loop (see the remark on \<open>pipewrite_killed_no_wakeup\<close>), and copies succeed.
\<close>

record pipe_sys =
  the_pipe :: pipe
  sent :: "8 word list"
  received :: "8 word list"
  asleep :: "nat \<Rightarrow> chan option"

definition wake :: "chan list \<Rightarrow> (nat \<Rightarrow> chan option) \<Rightarrow> nat \<Rightarrow> chan option" where
  "wake ws sl p = (case sl p of Some c \<Rightarrow> if c \<in> set ws then None else Some c | None \<Rightarrow> None)"

inductive pipe_step :: "pipe_sys \<Rightarrow> pipe_sys \<Rightarrow> bool" where
  write_returns:
    "asleep s p = None \<Longrightarrow> (\<And>j k. killed j = killed k) \<Longrightarrow>
     pipewrite me killed inp n i (the_pipe s) = Done (Returned v ws) pi \<Longrightarrow>
     pipe_step s (s\<lparr>the_pipe := pi, asleep := wake ws (asleep s),
       sent := sent s @ drop (length (pipe_bytes (the_pipe s))) (pipe_bytes pi)\<rparr>)"
| write_sleeps:
    "asleep s p = None \<Longrightarrow> (\<And>j k. killed j = killed k) \<Longrightarrow>
     pipewrite me killed inp n i (the_pipe s) = Done (Blocked ch ws j) pi \<Longrightarrow>
     pipe_step s (s\<lparr>the_pipe := pi, asleep := (wake ws (asleep s))(p := Some ch),
       sent := sent s @ drop (length (pipe_bytes (the_pipe s))) (pipe_bytes pi)\<rparr>)"
| read_returns:
    "asleep s p = None \<Longrightarrow> piperead me killed (\<lambda>_. True) n (the_pipe s) = Done (Returned (v, chs) ws) pi \<Longrightarrow>
     pipe_step s (s\<lparr>the_pipe := pi, asleep := wake ws (asleep s), received := received s @ chs\<rparr>)"
| read_sleeps:
    "asleep s p = None \<Longrightarrow> piperead me killed (\<lambda>_. True) n (the_pipe s) = Done (Blocked ch ws u) pi \<Longrightarrow>
     pipe_step s (s\<lparr>the_pipe := pi, asleep := (wake ws (asleep s))(p := Some ch)\<rparr>)"
| closes:
    "asleep s p = None \<Longrightarrow> pipeclose me writable (the_pipe s) = Done (freed, ws) pi \<Longrightarrow>
     pipe_step s (s\<lparr>the_pipe := pi, asleep := wake ws (asleep s)\<rparr>)"

definition pipe_sys_init :: "nat \<Rightarrow> (nat \<Rightarrow> 8 word) \<Rightarrow> pipe_sys" where
  "pipe_sys_init pa page =
     \<lparr>the_pipe = pipe_init pa page, sent = [], received = [], asleep = (\<lambda>_. None)\<rparr>"

inductive pipe_reach :: "nat \<Rightarrow> (nat \<Rightarrow> 8 word) \<Rightarrow> pipe_sys \<Rightarrow> bool" for pa page where
  pipe_start: "pipe_reach pa page (pipe_sys_init pa page)"
| pipe_more: "pipe_reach pa page s \<Longrightarrow> pipe_step s t \<Longrightarrow> pipe_reach pa page t"

text \<open>
  The invariant: nothing is lost or reordered; a sleeping reader faces an empty pipe that
  may still be written, a sleeping writer a full one that may still be read.
\<close>

definition pipe_inv :: "nat \<Rightarrow> pipe_sys \<Rightarrow> bool" where
  "pipe_inv pa s \<longleftrightarrow>
     pipe_ok (the_pipe s) \<and> p_id (the_pipe s) = pa \<and> sent s = received s @ pipe_bytes (the_pipe s) \<and>
     (\<forall>p c. asleep s p = Some c \<longrightarrow>
        c = C_nread pa \<and> pipe_bytes (the_pipe s) = [] \<and> writeopen (the_pipe s) \<or>
        c = C_nwrite pa \<and> length (pipe_bytes (the_pipe s)) = PIPESIZE \<and> readopen (the_pipe s))"

lemma wake_Some: "wake ws sl p = Some c \<longleftrightarrow> sl p = Some c \<and> c \<notin> set ws"
  by (auto simp: wake_def split: option.splits if_splits)

lemma pipe_invD:
  assumes "pipe_inv pa s"
  shows "pipe_ok (the_pipe s)" "p_id (the_pipe s) = pa" "sent s = received s @ pipe_bytes (the_pipe s)"
    "\<And>p c. asleep s p = Some c \<Longrightarrow>
        c = C_nread pa \<and> pipe_bytes (the_pipe s) = [] \<and> writeopen (the_pipe s) \<or>
        c = C_nwrite pa \<and> length (pipe_bytes (the_pipe s)) = PIPESIZE \<and> readopen (the_pipe s)"
  using assms by (auto simp: pipe_inv_def)

lemma write_segment_pipe:
  assumes ok: "pipe_ok pi" and w: "pipewrite me killed inp n i pi = Done r pj"
  obtains k where "pipe_ok pj" "write_segment killed inp n i pi k r pj"
  using pipewrite_segment [OF ok, of me killed inp n i] w pipe_ok_lock [OF ok] by auto

text \<open>A write that wakes nobody has written nothing, if the killed flag does not change inside it.\<close>

lemma quiet_write:
  assumes ok: "pipe_ok pi" and k: "\<And>j l. killed j = killed l"
    and w: "pipewrite me killed inp n i pi = Done (Returned v []) pj"
  shows "pj = pi"
proof -
  let ?pi = "pi\<lparr>p_lock := \<lparr>locked = 1, cpu = Some me\<rparr>\<rparr>"
  obtain m where "write_segment killed inp n i pi m (Returned v []) pj"
    using write_segment_pipe [OF ok w] .
  then have r: "\<not> readopen pi \<or> killed i \<and> int i < n" using k [of "i + m" i] by (auto simp: write_segment_def)
  have "int i < n"
  proof (rule ccontr)
    assume "\<not> int i < n"
    then have "pipewrite_loop killed inp n i ?pi = (Returned (int i) [C_nread (p_id pi)], ?pi)"
      by (simp add: pipewrite_loop.simps)
    then show False
      using w ok by (simp add: pipewrite_def acquire_pipe_def release_pipe_def pipe_ok_def)
  qed
  then have "pipewrite_loop killed inp n i ?pi = (Returned (-1) [], ?pi)"
    using r by (auto simp: pipewrite_loop.simps)
  then show ?thesis
    using w ok pipe_ok_lock [OF ok]
    by (simp add: pipewrite_def acquire_pipe_def release_pipe_def pipe_ok_def)
qed

lemma pipe_inv_write:
  assumes inv: "pipe_inv pa s" and k: "\<And>j l. killed j = killed l"
    and w: "pipewrite me killed inp n i (the_pipe s) = Done r pj"
    and ws: "(\<exists>v. r = Returned v ws) \<or> (\<exists>c j. r = Blocked c ws j)"
    and sl: "\<And>q c. sl q = Some c \<Longrightarrow> wake ws (asleep s) q = Some c \<or> (\<exists>j. r = Blocked c ws j)"
  shows "pipe_inv pa (s\<lparr>the_pipe := pj, asleep := sl,
    sent := sent s @ drop (length (pipe_bytes (the_pipe s))) (pipe_bytes pj)\<rparr>)"
proof -
  note d = pipe_invD [OF inv]
  obtain m where ok: "pipe_ok pj" and seg: "write_segment killed inp n i (the_pipe s) m r pj"
    using write_segment_pipe [OF d(1) w] .
  have pb: "pipe_bytes pj = pipe_bytes (the_pipe s) @ take m (input inp n i)"
    and fields: "p_id pj = pa" "readopen pj = readopen (the_pipe s)" "writeopen pj = writeopen (the_pipe s)"
    and blk: "\<And>c ws j. r = Blocked c ws j \<Longrightarrow> c = C_nwrite pa \<and> readopen (the_pipe s) \<and> length (pipe_bytes pj) = PIPESIZE"
    using seg d(2) by (auto simp: write_segment_def)
  have quiet: "ws = [C_nread pa] \<or> pj = the_pipe s"
    using seg ws quiet_write [OF d(1) k] w d(2) by (auto simp: write_segment_def)
  have "c = C_nread pa \<and> pipe_bytes pj = [] \<and> writeopen pj \<or>
      c = C_nwrite pa \<and> length (pipe_bytes pj) = PIPESIZE \<and> readopen pj" if q: "sl q = Some c" for q c
    using sl [OF q]
  proof
    assume a: "wake ws (asleep s) q = Some c"
    then have "asleep s q = Some c" and nc: "c \<notin> set ws" by (simp_all add: wake_Some)
    note old = d(4) [OF this(1)]
    show ?thesis using quiet
    proof
      assume "ws = [C_nread pa]"
      then show ?thesis using old nc pb ok fields by (auto simp: pipe_ok_def)
    qed (use old in simp)
  next
    assume "\<exists>j. r = Blocked c ws j"
    then show ?thesis using blk fields by blast
  qed
  then show ?thesis using ok fields d(3) pb by (simp add: pipe_inv_def)
qed

lemma pipe_inv_step:
  assumes "pipe_step s t" "pipe_inv pa s" shows "pipe_inv pa t"
  using assms(1)
proof cases
  case (write_returns p killed me inp n i v ws pi)
  show ?thesis
    unfolding write_returns(1) by (rule pipe_inv_write [OF assms(2) write_returns(3,4), of ws]) auto
next
  case (write_sleeps p killed me inp n i ch ws j pi)
  show ?thesis
    unfolding write_sleeps(1)
    by (rule pipe_inv_write [OF assms(2) write_sleeps(3,4), of ws]) (auto split: if_splits)
next
  case (read_returns p me killed n v chs ws pi)
  note d = pipe_invD [OF assms(2)]
  show ?thesis
  proof (cases "pipe_bytes (the_pipe s) = [] \<and> writeopen (the_pipe s)")
    case True
    then have "pi = the_pipe s" "chs = []" "ws = []"
      using piperead_blocks [OF d(1)] read_returns(3) by (auto split: if_splits)
    then show ?thesis using d read_returns(1) by (auto simp: pipe_inv_def wake_Some)
  next
    case False
    then obtain pj where "pi = pj" "pipe_ok pj" "chs = take (nat n) (pipe_bytes (the_pipe s))"
      "pipe_bytes pj = drop (nat n) (pipe_bytes (the_pipe s))" "p_id pj = pa" "ws = [C_nwrite pa]"
      "readopen pj = readopen (the_pipe s)" "writeopen pj = writeopen (the_pipe s)"
      using piperead_copies [OF d(1), of "\<lambda>_. True" me killed n] read_returns(3) d(2) by auto
    then show ?thesis using d read_returns(1) by (fastforce simp: pipe_inv_def wake_Some)
  qed
next
  case (read_sleeps p me killed n ch ws u pi)
  note d = pipe_invD [OF assms(2)]
  have e: "pipe_bytes (the_pipe s) = [] \<and> writeopen (the_pipe s)"
    using piperead_copies [OF d(1), of "\<lambda>_. True" me killed n] read_sleeps(3) by auto
  then have "pi = the_pipe s" "ch = C_nread pa" "ws = []"
    using piperead_blocks [OF d(1)] read_sleeps(3) d(2) by (auto split: if_splits)
  then show ?thesis using d e read_sleeps(1) by (auto simp: pipe_inv_def wake_Some split: if_splits)
next
  case (closes p me writable freed ws pi)
  note d = pipe_invD [OF assms(2)]
  have "pi = (if writable then (the_pipe s)\<lparr>writeopen := False, p_lock := initlock\<rparr>
              else (the_pipe s)\<lparr>readopen := False, p_lock := initlock\<rparr>)"
    "ws = [if writable then C_nread pa else C_nwrite pa]"
    using closes(3) d(1,2) pipe_ok_lock [OF d(1)]
    by (auto simp: pipeclose_def acquire_pipe_def release_pipe_def pipe_ok_def Let_def split: if_splits)
  then show ?thesis
    using d closes(1) by (auto simp: pipe_inv_def wake_Some pipe_ok_def pipe_bytes_def split: if_splits)
qed

lemma pipe_reach_inv: "pipe_reach pa page s \<Longrightarrow> pipe_inv pa s"
proof (induction rule: pipe_reach.induct)
  case pipe_start
  then show ?case by (simp add: pipe_inv_def pipe_sys_init_def)
next
  case (pipe_more s t)
  then show ?case using pipe_inv_step by blast
qed


text \<open>C15. No wakeup is lost: a process asleep in \<open>piperead\<close> faces an empty pipe whose write end
  is open, one asleep in \<open>pipewrite\<close> a full pipe whose read end is open; so readers and
  writers are never asleep at the same time.\<close>

theorem pipe_no_lost_wakeup:
  assumes "pipe_reach pa page s" "asleep s p = Some c"
  shows "(c = C_nread pa \<and> pipe_bytes (the_pipe s) = [] \<and> writeopen (the_pipe s) \<or>
          c = C_nwrite pa \<and> length (pipe_bytes (the_pipe s)) = PIPESIZE \<and> readopen (the_pipe s)) \<and>
         (\<forall>q d. asleep s q = Some d \<longrightarrow> d = c)"
proof -
  note d = pipe_invD(4) [OF pipe_reach_inv [OF assms(1)]]
  have "PIPESIZE \<noteq> 0" by (simp add: PIPESIZE_def)
  then show ?thesis using d [OF assms(2)] d by fastforce
qed

text \<open>A reader that finds the new pipe empty sleeps; then a writer writes one byte.\<close>

definition one_byte :: "nat \<Rightarrow> 8 word option" where
  "one_byte i = Some 65"

lemma sample_read:
  obtains s where "pipe_reach pa page s" "asleep s 7 = Some (C_nread pa)" "pipe_bytes (the_pipe s) = []"
proof -
  let ?s = "pipe_sys_init pa page" and ?t = "(pipe_sys_init pa page)\<lparr>asleep := (\<lambda>_. None)(7 := Some (C_nread pa))\<rparr>"
  have "piperead 0 False (\<lambda>_. True) 10 (pipe_init pa page) = Done (Blocked (C_nread pa) [] ()) (pipe_init pa page)"
    using piperead_blocks [OF pipe_init_ok(1), of pa page 0 False "\<lambda>_. True" 10] by simp
  then have "pipe_step ?s ?t"
    using read_sleeps [of ?s 7 0 False 10 "C_nread pa" "[]" "()" "pipe_init pa page"]
    by (simp add: pipe_sys_init_def wake_def [abs_def] fun_eq_iff)
  then have "pipe_reach pa page ?t" by (rule pipe_more [OF pipe_start])
  then show ?thesis using that by (simp add: pipe_sys_init_def)
qed

lemma sample_write:
  obtains pi where "pipewrite 2 (\<lambda>_. False) one_byte 1 0 (pipe_init pa page) =
      Done (Returned 1 [C_nread pa]) pi" "pipe_bytes pi = [65]"
proof -
  let ?p = "pipe_init pa page"
  have inp: "input one_byte 1 0 = [65]"
    by (subst input.simps, simp add: one_byte_def, subst input.simps, simp)
  obtain r pj k where w: "pipewrite 2 (\<lambda>_. False) one_byte 1 0 ?p = Done r pj"
    "write_segment (\<lambda>_. False) one_byte 1 0 ?p k r pj"
    using pipewrite_segment [OF pipe_init_ok(1), of 2 "\<lambda>_. False" one_byte 1 0 pa page]
      pipe_ok_lock [OF pipe_init_ok(1)] by metis
  then have "k \<le> 1" "pipe_bytes pj = take k [65]"
    and "r = Returned (int k) [C_nread pa] \<and> k = 1 \<or> length (pipe_bytes pj) = PIPESIZE"
    using inp by (auto simp: write_segment_def)
  moreover have "length (pipe_bytes pj) \<noteq> PIPESIZE" using calculation(1,2) by (simp add: PIPESIZE_def)
  ultimately have "r = Returned 1 [C_nread pa]" "pipe_bytes pj = [65]" by auto
  then show ?thesis using that w(1) by blast
qed


theorem pipe_no_lost_wakeup_witness:
  "\<exists>s. pipe_reach 0 (\<lambda>_. 0) s \<and> asleep s 7 = Some (C_nread 0) \<and> writeopen (the_pipe s)"
proof -
  obtain s where s: "pipe_reach 0 (\<lambda>_. 0) s" "asleep s 7 = Some (C_nread 0)"
    "pipe_bytes (the_pipe s) = []" using sample_read .
  have "writeopen (the_pipe s)" using conjunct1 [OF pipe_no_lost_wakeup [OF s(1,2)]] by simp
  then show ?thesis using s by blast
qed


end
