(* ===== verification/Console.thy ===== *)
theory Console
  imports Ring Spinlock
begin

section \<open>Console and UART (kernel/console.c, kernel/uart.c)\<close>

text \<open>
  The console's input buffer is a ring of 128 bytes with three 32-bit counters: read, write
  (end of the complete lines) and edit.  The transmit buffer of the UART is a ring of 32
  bytes with 64-bit counters.  The device is a parameter: the answers of its line status
  register to successive reads, and the bytes it has received.
\<close>

definition BACKSPACE :: int where "BACKSPACE = 0x100"
definition INPUT_BUF_SIZE :: nat where "INPUT_BUF_SIZE = 128"
definition UART_TX_BUF_SIZE :: nat where "UART_TX_BUF_SIZE = 32"

text \<open>Control characters \<open>C('P')\<close>, \<open>C('U')\<close>, \<open>C('H')\<close>, \<open>C('D')\<close>.\<close>

definition CTRL :: "int \<Rightarrow> int" where "CTRL x = x - 64"

text \<open>The bytes sent to the UART.\<close>

definition consputc :: "int \<Rightarrow> 8 word list" where
  "consputc c = (if c = BACKSPACE then [8, 32, 8] else [word_of_int c])"

record cons_state =
  cons_lock :: spinlock
  cons_buf :: "nat \<Rightarrow> 8 word"
  cons_r :: "32 word"
  cons_w :: "32 word"
  cons_e :: "32 word"

definition acquire_cons :: "nat \<Rightarrow> cons_state \<Rightarrow> (unit, cons_state) outcome" where
  "acquire_cons = lock_in cons_lock (\<lambda>l s. s\<lparr>cons_lock := l\<rparr>)"

definition release_cons :: "nat \<Rightarrow> cons_state \<Rightarrow> (unit, cons_state) outcome" where
  "release_cons = unlock_in cons_lock (\<lambda>l s. s\<lparr>cons_lock := l\<rparr>)"

definition consoleinit :: "cons_state \<Rightarrow> cons_state" where
  "consoleinit s = s\<lparr>cons_lock := initlock\<rparr>"

subsection \<open>Input\<close>

function kill_line :: "cons_state \<Rightarrow> 8 word list \<times> cons_state" where
  "kill_line s =
     (if cons_e s \<noteq> cons_w s \<and> cons_buf s (unat (cons_e s - 1) mod INPUT_BUF_SIZE) \<noteq> 10
      then (let (echo, s) = kill_line (s\<lparr>cons_e := cons_e s - 1\<rparr>) in (consputc BACKSPACE @ echo, s))
      else ([], s))"
  by pat_completeness auto
termination
proof (relation "measure (\<lambda>s. unat (cons_e s - cons_w s))")
  fix s assume "cons_e s \<noteq> cons_w s \<and> cons_buf s (unat (cons_e s - 1) mod INPUT_BUF_SIZE) \<noteq> 10"
  then have "cons_e s - cons_w s \<noteq> 0" by simp
  then have "unat (cons_e s - cons_w s - 1) = unat (cons_e s - cons_w s) - 1" "unat (cons_e s - cons_w s) \<noteq> 0"
    by (simp_all add: unat_minus_one unat_eq_zero)
  then show "(s\<lparr>cons_e := cons_e s - 1\<rparr>, s) \<in> measure (\<lambda>s. unat (cons_e s - cons_w s))"
    by (simp add: algebra_simps)
qed simp

declare kill_line.simps [simp del]

text \<open>The result: the bytes echoed, and the channels woken.  \<open>procdump\<close> only prints.\<close>

definition consoleintr ::
  "nat \<Rightarrow> int \<Rightarrow> cons_state \<Rightarrow> (8 word list \<times> chan list, cons_state) outcome" where
  "consoleintr me c s =
     bnd (acquire_cons me s) (\<lambda>_ s.
       let (echo, woken, s) =
         (if c = CTRL 80 then ([], [], s)
          else if c = CTRL 85 then (let (echo, s) = kill_line s in (echo, [], s))
          else if c = CTRL 72 \<or> c = 127 then
            (if cons_e s \<noteq> cons_w s
             then (consputc BACKSPACE, [], s\<lparr>cons_e := cons_e s - 1\<rparr>) else ([], [], s))
          else if c \<noteq> 0 \<and> unat (cons_e s - cons_r s) < INPUT_BUF_SIZE then
            (let c = (if c = 13 then 10 else c);
                 s = s\<lparr>cons_buf := (cons_buf s)(unat (cons_e s) mod INPUT_BUF_SIZE := word_of_int c),
                       cons_e := cons_e s + 1\<rparr> in
             if c = 10 \<or> c = CTRL 68 \<or> unat (cons_e s - cons_r s) = INPUT_BUF_SIZE
             then (consputc c, [C_cons_r], s\<lparr>cons_w := cons_e s\<rparr>)
             else (consputc c, [], s))
          else ([], [], s)) in
       bnd (release_cons me s) (\<lambda>_ s. Done (echo, woken) s))"

text \<open>
  The loop of \<open>consoleread\<close>: \<open>n\<close> bytes are still wanted of \<open>target\<close>, \<open>outp i\<close> says
  whether the copy of byte \<open>i\<close> to the caller succeeds.  The second part of the result is
  the bytes copied.
\<close>

fun consoleread_loop ::
  "bool \<Rightarrow> (nat \<Rightarrow> bool) \<Rightarrow> nat \<Rightarrow> nat \<Rightarrow> cons_state \<Rightarrow> (int, nat) blocking \<times> 8 word list \<times> cons_state" where
  "consoleread_loop killed outp target 0 s = (Returned (int target) [], [], s)"
| "consoleread_loop killed outp target (Suc n) s =
     (if cons_r s = cons_w s then
        (if killed then (Returned (-1) [], [], s) else (Blocked C_cons_r [] (Suc n), [], s))
      else
        let c = cons_buf s (unat (cons_r s) mod INPUT_BUF_SIZE);
            s = s\<lparr>cons_r := cons_r s + 1\<rparr> in
        if uint c = CTRL 68 then
          (Returned (int target - int (Suc n)) [], [],
           if Suc n < target then s\<lparr>cons_r := cons_r s - 1\<rparr> else s)
        else if \<not> outp (target - Suc n) then (Returned (int target - int (Suc n)) [], [], s)
        else if c = 10 then (Returned (int target - int n) [], [c], s)
        else (let (r, cs, s) = consoleread_loop killed outp target n s in (r, c # cs, s)))"

text \<open>\<open>n\<close> is \<open>target\<close> for a new call, and what was saved over \<open>sleep\<close> for a resumed one.\<close>

definition consoleread ::
  "nat \<Rightarrow> bool \<Rightarrow> (nat \<Rightarrow> bool) \<Rightarrow> nat \<Rightarrow> nat \<Rightarrow> cons_state \<Rightarrow>
   ((int, nat) blocking \<times> 8 word list, cons_state) outcome" where
  "consoleread me killed outp target n s =
     bnd (acquire_cons me s) (\<lambda>_ s.
       let (r, cs, s) = consoleread_loop killed outp target n s in
       bnd (release_cons me s) (\<lambda>_ s. Done (r, cs) s))"

subsection \<open>Output\<close>

record uart =
  tx_lock :: spinlock
  tx_buf :: "nat \<Rightarrow> 8 word"
  tx_w :: "64 word"
  tx_r :: "64 word"

definition acquire_tx :: "nat \<Rightarrow> uart \<Rightarrow> (unit, uart) outcome" where
  "acquire_tx = lock_in tx_lock (\<lambda>l s. s\<lparr>tx_lock := l\<rparr>)"

definition release_tx :: "nat \<Rightarrow> uart \<Rightarrow> (unit, uart) outcome" where
  "release_tx = unlock_in tx_lock (\<lambda>l s. s\<lparr>tx_lock := l\<rparr>)"

text \<open>\<open>uartinit\<close>: the register writes, as pairs of offset and value.\<close>

definition uartinit :: "uart \<Rightarrow> (nat \<times> 8 word) list \<times> uart" where
  "uartinit s =
     ([(1, 0x00), (3, 0x80), (0, 0x03), (1, 0x00), (3, 0x03), (2, 0x07), (1, 0x03)],
      s\<lparr>tx_lock := initlock\<rparr>)"

text \<open>
  \<open>uartstart\<close>: \<open>idle k\<close> is the \<open>LSR_TX_IDLE\<close> bit at the \<open>k\<close>-th read of the status
  register.  The result has the bytes written to \<open>THR\<close>; every one of them is accompanied
  by a \<open>wakeup(&uart_tx_r)\<close>.
\<close>

function uartstart :: "(nat \<Rightarrow> bool) \<Rightarrow> nat \<Rightarrow> uart \<Rightarrow> 8 word list \<times> uart" where
  "uartstart idle k s =
     (if tx_w s = tx_r s then ([], s)
      else if \<not> idle k then ([], s)
      else let c = tx_buf s (unat (tx_r s) mod UART_TX_BUF_SIZE);
               s = s\<lparr>tx_r := tx_r s + 1\<rparr>;
               (cs, s) = uartstart idle (k + 1) s
           in (c # cs, s))"
  by pat_completeness auto
termination
proof (relation "measure (\<lambda>(idle, k, s). unat (tx_w s - tx_r s))")
  fix idle :: "nat \<Rightarrow> bool" and k s x xa
  assume "tx_w s \<noteq> tx_r s" and xa: "xa = s\<lparr>tx_r := tx_r s + 1\<rparr>"
  then have "tx_w s - tx_r s \<noteq> 0" by simp
  then have "unat (tx_w s - tx_r s - 1) = unat (tx_w s - tx_r s) - 1" "unat (tx_w s - tx_r s) \<noteq> 0"
    by (simp_all add: unat_minus_one unat_eq_zero)
  then show "((idle, k + 1, xa), idle, k, s) \<in> measure (\<lambda>(idle, k, s). unat (tx_w s - tx_r s))"
    by (simp add: xa algebra_simps)
qed simp

declare uartstart.simps [simp del]

definition woken_by :: "8 word list \<Rightarrow> chan list" where
  "woken_by cs = (if cs = [] then [] else [C_uart_tx_r])"

definition uartputc ::
  "nat \<Rightarrow> bool \<Rightarrow> (nat \<Rightarrow> bool) \<Rightarrow> 8 word \<Rightarrow> uart \<Rightarrow> ((8 word list, unit) blocking, uart) outcome" where
  "uartputc me panicked idle c s =
     bnd (acquire_tx me s) (\<lambda>_ s.
       if panicked then Spin
       else if tx_w s = tx_r s + of_nat UART_TX_BUF_SIZE
       then bnd (release_tx me s) (\<lambda>_ s. Done (Blocked C_uart_tx_r [] ()) s)
       else let s = s\<lparr>tx_buf := (tx_buf s)(unat (tx_w s) mod UART_TX_BUF_SIZE := c), tx_w := tx_w s + 1\<rparr>;
                (cs, s) = uartstart idle 0 s in
            bnd (release_tx me s) (\<lambda>_ s. Done (Returned cs (woken_by cs)) s))"

text \<open>\<open>uartgetc\<close> on the bytes the device has received.\<close>

definition uartgetc :: "8 word list \<Rightarrow> int \<times> 8 word list" where
  "uartgetc rx = (case rx of [] \<Rightarrow> (-1, []) | c # rx \<Rightarrow> (uint c, rx))"

fun uartintr_input ::
  "nat \<Rightarrow> 8 word list \<Rightarrow> cons_state \<Rightarrow> (8 word list \<times> chan list, cons_state) outcome" where
  "uartintr_input me [] s = Done ([], []) s"
| "uartintr_input me (c # rx) s =
     bnd (consoleintr me (fst (uartgetc (c # rx))) s) (\<lambda>(echo, woken) s.
     bnd (uartintr_input me rx s) (\<lambda>(echo', woken') s. Done (echo @ echo', woken @ woken') s))"

definition uartintr ::
  "nat \<Rightarrow> 8 word list \<Rightarrow> (nat \<Rightarrow> bool) \<Rightarrow> cons_state \<times> uart \<Rightarrow>
   (8 word list \<times> 8 word list \<times> chan list, cons_state \<times> uart) outcome" where
  "uartintr me rx idle s =
     bnd (zoom fst (\<lambda>c s. (c, snd s)) (uartintr_input me rx) s) (\<lambda>(echo, woken) s.
     bnd (zoom snd (\<lambda>u s. (fst s, u)) (acquire_tx me) s) (\<lambda>_ s.
       let (cs, u) = uartstart idle 0 (snd s) in
       bnd (zoom snd (\<lambda>u s. (fst s, u)) (release_tx me) (fst s, u)) (\<lambda>_ s.
       Done (echo, cs, woken @ woken_by cs) s)))"

text \<open>\<open>consolewrite\<close>: the bytes of the caller go to \<open>uartputc\<close> one by one.\<close>

function consolewrite ::
  "nat \<Rightarrow> bool \<Rightarrow> (nat \<Rightarrow> bool) \<Rightarrow> (nat \<Rightarrow> 8 word option) \<Rightarrow> int \<Rightarrow> nat \<Rightarrow> uart \<Rightarrow>
   ((int, nat) blocking \<times> 8 word list, uart) outcome" where
  "consolewrite me panicked idle inp n i s =
     (if int i < n then
        (case inp i of
           None \<Rightarrow> Done (Returned (int i) [], []) s
         | Some c \<Rightarrow>
             bnd (uartputc me panicked idle c s) (\<lambda>r s.
               case r of
                 Blocked ch ws _ \<Rightarrow> Done (Blocked ch ws i, []) s
               | Returned cs ws \<Rightarrow>
                   bnd (consolewrite me panicked idle inp n (i + 1) s) (\<lambda>(r, cs') s. Done (r, cs @ cs') s)))
      else Done (Returned (int i) [], []) s)"
  by pat_completeness auto
termination
  by (relation "measure (\<lambda>(me, panicked, idle, inp, n, i, s). nat (n - int i))") auto

declare consolewrite.simps [simp del]

subsection \<open>The console as a line editor\<close>

interpretation cons_ring: ring INPUT_BUF_SIZE "TYPE(32)"
  by unfold_locales (simp_all add: INPUT_BUF_SIZE_def)

interpretation uart_ring: ring UART_TX_BUF_SIZE "TYPE(64)"
  by unfold_locales (simp_all add: UART_TX_BUF_SIZE_def)

text \<open>The complete lines not yet read, and the line being edited.\<close>

definition committed :: "cons_state \<Rightarrow> 8 word list" where
  "committed s = ring_list INPUT_BUF_SIZE (cons_buf s) (cons_r s) (cons_w s)"

definition editing :: "cons_state \<Rightarrow> 8 word list" where
  "editing s = ring_list INPUT_BUF_SIZE (cons_buf s) (cons_w s) (cons_e s)"

definition cons_ok :: "cons_state \<Rightarrow> bool" where
  "cons_ok s \<longleftrightarrow> unat (cons_w s - cons_r s) \<le> unat (cons_e s - cons_r s) \<and>
     unat (cons_e s - cons_r s) \<le> INPUT_BUF_SIZE \<and> 10 \<notin> set (editing s) \<and> unheld (cons_lock s)"

text \<open>What an input character does to the two lists.\<close>

definition line_edit :: "int \<Rightarrow> 8 word list \<times> 8 word list \<Rightarrow> 8 word list \<times> 8 word list" where
  "line_edit c l =
     (case l of (done, ed) \<Rightarrow>
        if c = CTRL 80 then (done, ed)
        else if c = CTRL 85 then (done, [])
        else if c = CTRL 72 \<or> c = 127 then (done, butlast ed)
        else if c \<noteq> 0 \<and> length done + length ed < INPUT_BUF_SIZE then
          let c = (if c = 13 then 10 else c) in
          if c = 10 \<or> c = CTRL 68 \<or> length done + length ed + 1 = INPUT_BUF_SIZE
          then (done @ ed @ [word_of_int c], []) else (done, ed @ [word_of_int c])
        else (done, ed))"

lemma cons_lists:
  assumes "unat (cons_w s - cons_r s) \<le> unat (cons_e s - cons_r s)"
  shows "ring_list INPUT_BUF_SIZE (cons_buf s) (cons_r s) (cons_e s) = committed s @ editing s"
    and "unat (cons_e s - cons_w s) = unat (cons_e s - cons_r s) - unat (cons_w s - cons_r s)"
  using cons_ring.append [OF assms] by (simp_all add: committed_def editing_def)

lemma kill_line_clears:
  assumes "10 \<notin> set (editing s)" "unat (cons_e s - cons_w s) \<le> INPUT_BUF_SIZE"
  shows "\<exists>echo. kill_line s = (echo, s\<lparr>cons_e := cons_w s\<rparr>)"
  using assms
proof (induction s rule: kill_line.induct)
  case (1 s)
  show ?case
  proof (cases "cons_e s = cons_w s")
    case True
    then have "kill_line s = ([], s)" by (simp add: kill_line.simps)
    then show ?thesis using True by simp
  next
    case False
    let ?t = "s\<lparr>cons_e := cons_e s - 1\<rparr>"
    have ed: "editing s = editing ?t @ [cons_buf s (unat (cons_e s - 1) mod INPUT_BUF_SIZE)]"
      using cons_ring.unput [OF False] by (simp add: editing_def)
    then have c: "cons_buf s (unat (cons_e s - 1) mod INPUT_BUF_SIZE) \<noteq> 10" "10 \<notin> set (editing ?t)"
      using "1.prems"(1) by auto
    have "unat (cons_e ?t - cons_w ?t) \<le> INPUT_BUF_SIZE"
      using "1.prems"(2) cons_ring.distance_pred [OF False] by simp
    then obtain echo where "kill_line ?t = (echo, ?t\<lparr>cons_e := cons_w ?t\<rparr>)"
      using "1.IH" False c by auto
    then have "kill_line s = (consputc BACKSPACE @ echo, s\<lparr>cons_e := cons_w s\<rparr>)"
      using False c(1) by (subst kill_line.simps) simp
    then show ?thesis by blast
  qed
qed

text \<open>Each kind of input character, on the state with the lock taken.\<close>

lemma backspace_edit:
  assumes "unat (cons_w s - cons_r s) \<le> unat (cons_e s - cons_r s)" "cons_e s \<noteq> cons_w s"
  defines "t \<equiv> s\<lparr>cons_e := cons_e s - 1\<rparr>"
  shows "committed t = committed s" "editing t = butlast (editing s)"
    "unat (cons_w t - cons_r t) \<le> unat (cons_e t - cons_r t)"
    "unat (cons_e t - cons_r t) \<le> unat (cons_e s - cons_r s)"
proof -
  show "committed t = committed s" by (simp add: committed_def t_def)
  show "editing t = butlast (editing s)"
    using cons_ring.unput [OF assms(2), of "cons_buf s"] by (simp add: editing_def t_def)
  have "unat (cons_e s - cons_w s) \<noteq> 0" using assms(2) by (simp add: unat_eq_zero)
  then have lt: "unat (cons_w s - cons_r s) < unat (cons_e s - cons_r s)" using cons_lists(2) [OF assms(1)] by simp
  then have "cons_e s \<noteq> cons_r s" by auto
  then have "unat (cons_e t - cons_r t) = unat (cons_e s - cons_r s) - 1"
    using cons_ring.distance_pred by (simp add: t_def)
  then show "unat (cons_w t - cons_r t) \<le> unat (cons_e t - cons_r t)"
    "unat (cons_e t - cons_r t) \<le> unat (cons_e s - cons_r s)" using lt by (simp_all add: t_def)
qed

lemma store_edit:
  fixes c :: "8 word"
  assumes "unat (cons_w s - cons_r s) \<le> unat (cons_e s - cons_r s)"
    and lt: "unat (cons_e s - cons_r s) < INPUT_BUF_SIZE"
  defines "t \<equiv> s\<lparr>cons_buf := (cons_buf s)(unat (cons_e s) mod INPUT_BUF_SIZE := c), cons_e := cons_e s + 1\<rparr>"
  shows "committed t = committed s" "editing t = editing s @ [c]"
    "unat (cons_e t - cons_r t) = Suc (unat (cons_e s - cons_r s))"
    "unat (cons_w t - cons_r t) \<le> unat (cons_e t - cons_r t)"
proof -
  show d: "unat (cons_e t - cons_r t) = Suc (unat (cons_e s - cons_r s))"
    using cons_ring.distance_Suc [OF lt] by (simp add: t_def)
  show le: "unat (cons_w t - cons_r t) \<le> unat (cons_e t - cons_r t)" using d assms(1) by (simp add: t_def)
  have all: "committed t @ editing t = committed s @ editing s @ [c]"
    using cons_ring.put [OF lt, of "cons_buf s" c] cons_lists(1) [OF assms(1)] cons_lists(1) [OF le]
    by (simp add: t_def)
  moreover have "length (committed t) = length (committed s)" by (simp add: committed_def t_def)
  ultimately show "committed t = committed s" "editing t = editing s @ [c]" by (simp_all add: append_eq_append_conv)
qed

lemma commit_edit:
  assumes "unat (cons_w s - cons_r s) \<le> unat (cons_e s - cons_r s)"
  shows "committed (s\<lparr>cons_w := cons_e s\<rparr>) = committed s @ editing s" "editing (s\<lparr>cons_w := cons_e s\<rparr>) = []"
  using cons_lists(1) [OF assms] by (simp_all add: committed_def editing_def)

lemma uint_numeral_8: "uint (10 :: 8 word) = 10"
  by simp

text \<open>The part of \<open>consoleintr\<close> between taking and releasing the lock.\<close>

lemma consoleintr_body:
  assumes ok: "cons_ok s" and c: "0 \<le> c" "c < 256"
  obtains echo ws t where "consoleintr me c s = Done (echo, ws) t" "cons_ok t"
    "(committed t, editing t) = line_edit c (committed s, editing s)"
proof -
  let ?s = "s\<lparr>cons_lock := \<lparr>locked = 1, cpu = Some me\<rparr>\<rparr>"
  have le: "unat (cons_w ?s - cons_r ?s) \<le> unat (cons_e ?s - cons_r ?s)"
    and sz: "unat (cons_e ?s - cons_r ?s) \<le> INPUT_BUF_SIZE" and n10: "10 \<notin> set (editing ?s)"
    and un: "unheld (cons_lock s)"
    using ok by (auto simp: cons_ok_def editing_def)
  have l: "committed ?s = committed s" "editing ?s = editing s" by (simp_all add: committed_def editing_def)
  have len: "length (committed ?s) + length (editing ?s) = unat (cons_e ?s - cons_r ?s)"
    using cons_lists(1) [OF le] by (metis length_append ring_list_length)
  note defs = consoleintr_def acquire_cons_def release_cons_def Let_def
  have fin: thesis
    if "consoleintr me c s = Done (echo, ws) (t\<lparr>cons_lock := initlock\<rparr>)"
      "unat (cons_w t - cons_r t) \<le> unat (cons_e t - cons_r t)" "unat (cons_e t - cons_r t) \<le> INPUT_BUF_SIZE"
      "10 \<notin> set (editing t)" "(committed t, editing t) = line_edit c (committed s, editing s)" for echo ws t
    using that(1) that(2-) \<open>\<And>t ws echo. consoleintr me c s = Done (echo, ws) t \<Longrightarrow> cons_ok t \<Longrightarrow>
       (committed t, editing t) = line_edit c (committed s, editing s) \<Longrightarrow> thesis\<close> [OF that(1)]
    by (simp add: cons_ok_def committed_def editing_def)
  consider (P) "c = CTRL 80" | (U) "c = CTRL 85" | (H) "c = CTRL 72 \<or> c = 127" "cons_e s \<noteq> cons_w s"
    | (none) "c \<noteq> CTRL 80" "c \<noteq> CTRL 85" "(c = CTRL 72 \<or> c = 127) \<and> cons_e s = cons_w s \<or>
        c \<noteq> CTRL 72 \<and> c \<noteq> 127 \<and> (c = 0 \<or> \<not> unat (cons_e s - cons_r s) < INPUT_BUF_SIZE)"
    | (store) "c \<noteq> CTRL 80" "c \<noteq> CTRL 85" "c \<noteq> CTRL 72" "c \<noteq> 127" "c \<noteq> 0"
        "unat (cons_e s - cons_r s) < INPUT_BUF_SIZE"
    by blast
  then show ?thesis
  proof cases
    case P
    then have "consoleintr me c s = Done ([], []) (?s\<lparr>cons_lock := initlock\<rparr>)"
      using un by (simp add: defs)
    then show ?thesis using fin [of _ _ ?s] le sz n10 P l by (simp add: line_edit_def)
  next
    case U
    have "unat (cons_e ?s - cons_w ?s) \<le> INPUT_BUF_SIZE" using cons_lists(2) [OF le] sz by simp
    then obtain echo where k: "kill_line ?s = (echo, ?s\<lparr>cons_e := cons_w ?s\<rparr>)"
      using kill_line_clears [OF n10] by blast
    have "consoleintr me c s = Done (echo, []) ((?s\<lparr>cons_e := cons_w ?s\<rparr>)\<lparr>cons_lock := initlock\<rparr>)"
      using un U k by (simp add: defs CTRL_def)
    then show ?thesis
      using fin [of _ _ "?s\<lparr>cons_e := cons_w ?s\<rparr>"] le sz U
      by (simp add: line_edit_def committed_def editing_def CTRL_def)
  next
    case H
    note b = backspace_edit [OF le]
    have nb: "10 \<notin> set (butlast (editing s))" using n10 l(2) in_set_butlastD by metis
    have "consoleintr me c s = Done (consputc BACKSPACE, []) ((?s\<lparr>cons_e := cons_e ?s - 1\<rparr>)\<lparr>cons_lock := initlock\<rparr>)"
      using un H by (auto simp: defs CTRL_def)
    then show ?thesis
      using fin [of _ _ "?s\<lparr>cons_e := cons_e ?s - 1\<rparr>"] b H sz nb l by (auto simp: line_edit_def CTRL_def)
  next
    case none
    then have "consoleintr me c s = Done ([], []) (?s\<lparr>cons_lock := initlock\<rparr>)"
      using un by (auto simp: defs CTRL_def)
    moreover have "line_edit c (committed s, editing s) = (committed s, editing s)"
      using none len l by (auto simp: line_edit_def editing_def CTRL_def)
    ultimately show ?thesis using fin [of _ _ ?s] le sz n10 l by simp
  next
    case store
    define d where "d = (if c = 13 then 10 else c)"
    define t where "t = ?s\<lparr>cons_buf := (cons_buf ?s)(unat (cons_e ?s) mod INPUT_BUF_SIZE := word_of_int d),
      cons_e := cons_e ?s + 1\<rparr>"
    have lt: "unat (cons_e ?s - cons_r ?s) < INPUT_BUF_SIZE" using store by simp
    note e = store_edit [OF le lt, of "word_of_int d", folded t_def]
    show ?thesis
    proof (cases "d = 10 \<or> d = CTRL 68 \<or> unat (cons_e t - cons_r t) = INPUT_BUF_SIZE")
      case True
      have "consoleintr me c s = Done (consputc d, [C_cons_r]) ((t\<lparr>cons_w := cons_e t\<rparr>)\<lparr>cons_lock := initlock\<rparr>)"
        using un store True by (simp add: defs t_def d_def)
      moreover have "line_edit c (committed s, editing s) = (committed s @ editing s @ [word_of_int d], [])"
        using store True e(3) len l by (simp add: line_edit_def d_def Let_def)
      ultimately show ?thesis
        using fin [of _ _ "t\<lparr>cons_w := cons_e t\<rparr>"] commit_edit [OF e(4)] e lt l by simp
    next
      case False
      have "consoleintr me c s = Done (consputc d, []) (t\<lparr>cons_lock := initlock\<rparr>)"
        using un store False by (simp add: defs t_def d_def)
      moreover have "line_edit c (committed s, editing s) = (committed s, editing s @ [word_of_int d])"
        using store False e(3) len l by (simp add: line_edit_def d_def Let_def)
      moreover have "(word_of_int d :: 8 word) \<noteq> 10"
      proof -
        have "d \<noteq> 10" "0 \<le> d" "d < 256" using False c by (auto simp: d_def)
        moreover from this have "uint (word_of_int d :: 8 word) = d" by (simp add: uint_word_of_int)
        ultimately show ?thesis by (metis uint_numeral_8)
      qed
      ultimately show ?thesis using fin [of _ _ t] e lt l n10 by simp
    qed
  qed
qed

text \<open>
  What a read of \<open>n\<close> more of \<open>tgt\<close> bytes takes from the complete lines: the bytes
  delivered, and what is left.
\<close>

fun read_line :: "nat \<Rightarrow> nat \<Rightarrow> 8 word list \<Rightarrow> 8 word list \<times> 8 word list" where
  "read_line tgt 0 done = ([], done)"
| "read_line tgt (Suc n) [] = ([], [])"
| "read_line tgt (Suc n) (c # done) =
     (if uint c = CTRL 68 then ([], if Suc n < tgt then c # done else done)
      else if c = 10 then ([c], done)
      else (let (cs, rest) = read_line tgt n done in (c # cs, rest)))"

definition cons_order :: "cons_state \<Rightarrow> bool" where
  "cons_order s \<longleftrightarrow> unat (cons_w s - cons_r s) \<le> unat (cons_e s - cons_r s) \<and>
     unat (cons_e s - cons_r s) \<le> INPUT_BUF_SIZE"

lemma consume_byte:
  assumes "cons_order s" "cons_r s \<noteq> cons_w s"
  defines "t \<equiv> s\<lparr>cons_r := cons_r s + 1\<rparr>"
  shows "committed s = cons_buf s (unat (cons_r s) mod INPUT_BUF_SIZE) # committed t"
    "editing t = editing s" "cons_order t"
proof -
  show "committed s = cons_buf s (unat (cons_r s) mod INPUT_BUF_SIZE) # committed t"
    using cons_ring.get [of "cons_w s" "cons_r s" "cons_buf s"] assms(2) by (simp add: committed_def t_def)
  show "editing t = editing s" by (simp add: editing_def t_def)
  have "unat (cons_w s - cons_r s) \<noteq> 0" using assms(2) by (auto simp: unat_eq_zero)
  then have "cons_e s \<noteq> cons_r s" using assms(1) by (auto simp: cons_order_def)
  then show "cons_order t"
    using cons_ring.distance_next [of "cons_w s" "cons_r s"] cons_ring.distance_next [of "cons_e s" "cons_r s"]
      assms(1,2) by (auto simp: cons_order_def t_def)
qed

lemma consoleread_loop_correct:
  assumes "cons_order s" "consoleread_loop killed (\<lambda>_. True) tgt n s = (r, cs, t)"
  shows "(cs, committed t) = read_line tgt n (committed s) \<and> editing t = editing s \<and> cons_order t \<and>
    cons_lock t = cons_lock s"
  using assms
proof (induction n arbitrary: s r cs t)
  case 0
  then show ?case by simp
next
  case (Suc n)
  show ?case
  proof (cases "cons_r s = cons_w s")
    case True
    then show ?thesis using Suc.prems by (auto simp: committed_def split: if_splits)
  next
    case False
    let ?c = "cons_buf s (unat (cons_r s) mod INPUT_BUF_SIZE)" and ?t = "s\<lparr>cons_r := cons_r s + 1\<rparr>"
    note b = consume_byte [OF Suc.prems(1) False]
    obtain r' cs' t' where rec: "consoleread_loop killed (\<lambda>_. True) tgt n ?t = (r', cs', t')"
      by (metis prod_cases3)
    note IH = Suc.IH [OF b(3) rec]
    have same: "s\<lparr>cons_r := cons_r s\<rparr> = s" by simp
    show ?thesis
      using Suc.prems False b IH rec same by (auto simp: Let_def split: if_splits prod.splits)
  qed
qed

subsection \<open>The transmit buffer\<close>

definition tx_bytes :: "uart \<Rightarrow> 8 word list" where
  "tx_bytes s = ring_list UART_TX_BUF_SIZE (tx_buf s) (tx_r s) (tx_w s)"

definition uart_ok :: "uart \<Rightarrow> bool" where
  "uart_ok s \<longleftrightarrow> length (tx_bytes s) \<le> UART_TX_BUF_SIZE \<and> unheld (tx_lock s)"

lemma uartstart_correct:
  assumes "uartstart idle k s = (cs, t)"
  shows "tx_bytes s = cs @ tx_bytes t \<and> tx_lock t = tx_lock s \<and> (idle = (\<lambda>_. True) \<longrightarrow> tx_bytes t = [])"
  using assms
proof (induction idle k s arbitrary: cs t rule: uartstart.induct)
  case (1 idle k s)
  show ?case
  proof (cases "tx_w s = tx_r s \<or> \<not> idle k")
    case True
    then have "uartstart idle k s = ([], s)" using uartstart.simps [of idle k s] by auto
    then have "cs = []" "t = s" using "1.prems" by simp_all
    then show ?thesis using True by (auto simp: tx_bytes_def)
  next
    case False
    let ?c = "tx_buf s (unat (tx_r s) mod UART_TX_BUF_SIZE)" and ?s = "s\<lparr>tx_r := tx_r s + 1\<rparr>"
    obtain cs' t' where rec': "uartstart idle (k + 1) ?s = (cs', t')" by fastforce
    then have "uartstart idle k s = (?c # cs', t')" using False uartstart.simps [of idle k s] by simp
    then have rec: "uartstart idle (k + 1) ?s = (cs', t)" "cs = ?c # cs'" using "1.prems" rec' by simp_all
    have "tx_bytes s = ?c # tx_bytes ?s"
      using uart_ring.get [of "tx_w s" "tx_r s" "tx_buf s"] False by (simp add: tx_bytes_def)
    moreover have "tx_bytes ?s = cs' @ tx_bytes t \<and> tx_lock t = tx_lock ?s \<and>
        (idle = (\<lambda>_. True) \<longrightarrow> tx_bytes t = [])"
      using False by (intro "1.IH" [OF _ _ refl refl rec(1)]) auto
    ultimately show ?thesis using rec(2) by simp
  qed
qed

lemma uartputc_correct:
  assumes ok: "uart_ok s"
  obtains (full) "uartputc me False idle c s = Done (Blocked C_uart_tx_r [] ()) s"
      "length (tx_bytes s) = UART_TX_BUF_SIZE"
    | (stored) cs t where "uartputc me False idle c s = Done (Returned cs (woken_by cs)) t" "uart_ok t"
      "tx_bytes s @ [c] = cs @ tx_bytes t" "idle = (\<lambda>_. True) \<Longrightarrow> tx_bytes t = []"
proof (cases "length (tx_bytes s) = UART_TX_BUF_SIZE")
  case True
  have "tx_w s = tx_r s + of_nat UART_TX_BUF_SIZE"
    using uart_ring.full_iff [of "tx_w s" "tx_r s"] True by (simp add: tx_bytes_def)
  moreover have "s\<lparr>tx_lock := initlock\<rparr> = s" using ok by (cases s) (simp add: uart_ok_def unheld_def)
  ultimately have "uartputc me False idle c s = Done (Blocked C_uart_tx_r [] ()) s"
    using ok by (simp add: uartputc_def acquire_tx_def release_tx_def uart_ok_def)
  then show ?thesis using full True by blast
next
  case False
  then have lt: "unat (tx_w s - tx_r s) < UART_TX_BUF_SIZE" using ok by (simp add: uart_ok_def tx_bytes_def)
  then have nf: "tx_w s \<noteq> tx_r s + of_nat UART_TX_BUF_SIZE"
    using uart_ring.full_iff [of "tx_w s" "tx_r s"] by simp
  let ?s = "s\<lparr>tx_lock := \<lparr>locked = 1, cpu = Some me\<rparr>,
    tx_buf := (tx_buf s)(unat (tx_w s) mod UART_TX_BUF_SIZE := c), tx_w := tx_w s + 1\<rparr>"
  have b: "tx_bytes ?s = tx_bytes s @ [c]" using uart_ring.put [OF lt] by (simp add: tx_bytes_def)
  obtain cs t where st: "uartstart idle 0 ?s = (cs, t)" by fastforce
  note u = uartstart_correct [OF st]
  have "uartputc me False idle c s = Done (Returned cs (woken_by cs)) (t\<lparr>tx_lock := initlock\<rparr>)"
    using ok nf st u by (simp add: uartputc_def acquire_tx_def release_tx_def uart_ok_def)
  moreover have tb: "tx_bytes (t\<lparr>tx_lock := initlock\<rparr>) = tx_bytes t" by (simp add: tx_bytes_def)
  moreover have "length (tx_bytes t) \<le> UART_TX_BUF_SIZE"
  proof -
    have "length (cs @ tx_bytes t) \<le> UART_TX_BUF_SIZE"
      using lt u b by (metis Suc_leI length_append_singleton ring_list_length tx_bytes_def)
    then show ?thesis by simp
  qed
  ultimately show ?thesis using stored [of cs "t\<lparr>tx_lock := initlock\<rparr>"] u b by (simp add: uart_ok_def)
qed

text \<open>
  A run of the driver: characters written with \<open>uartputc\<close>, and interrupts after which
  \<open>uartstart\<close> sends more.  \<open>written\<close> and \<open>transmitted\<close> collect the bytes.
\<close>

inductive uart_run :: "uart \<Rightarrow> 8 word list \<Rightarrow> 8 word list \<Rightarrow> bool" where
  uart_begin: "uart_run (snd (uartinit \<lparr>tx_lock = l, tx_buf = b, tx_w = 0, tx_r = 0\<rparr>)) [] []"
| uart_put: "uart_run s written transmitted \<Longrightarrow>
    uartputc me False idle c s = Done (Returned cs ws) t \<Longrightarrow> uart_run t (written @ [c]) (transmitted @ cs)"
| uart_wait: "uart_run s written transmitted \<Longrightarrow>
    uartputc me False idle c s = Done (Blocked ch ws u) t \<Longrightarrow> uart_run t written transmitted"
| uart_interrupt: "uart_run s written transmitted \<Longrightarrow>
    uartintr me rx idle (k, s) = Done (echo, cs, ws) (k', t) \<Longrightarrow> uart_run t written (transmitted @ cs)"

lemma uart_interrupt_correct:
  assumes ok: "uart_ok s" and i: "uartintr me rx idle (k, s) = Done (echo, cs, ws) (k', t)"
  shows "uart_ok t \<and> tx_bytes s = cs @ tx_bytes t"
proof -
  let ?s = "s\<lparr>tx_lock := \<lparr>locked = 1, cpu = Some me\<rparr>\<rparr>"
  obtain cs' u where st: "uartstart idle 0 ?s = (cs', u)" by fastforce
  note c = uartstart_correct [OF st]
  have "cs = cs'" "t = u\<lparr>tx_lock := initlock\<rparr>"
    using i ok st c unfolding uartintr_def
    by (auto simp: bnd_eq_Done zoom_def acquire_tx_def release_tx_def uart_ok_def split: outcome.splits prod.splits)
  moreover have "tx_bytes ?s = tx_bytes s" "tx_bytes (u\<lparr>tx_lock := initlock\<rparr>) = tx_bytes u"
    by (simp_all add: tx_bytes_def)
  moreover have "length (tx_bytes u) \<le> length (tx_bytes ?s)" using c by simp
  ultimately show ?thesis using c ok by (simp add: uart_ok_def)
qed

lemma uart_run_inv:
  "uart_run s written transmitted \<Longrightarrow> uart_ok s \<and> written = transmitted @ tx_bytes s"
proof (induction rule: uart_run.induct)
  case (uart_begin l b)
  then show ?case by (simp add: uart_ok_def tx_bytes_def uartinit_def)
next
  case (uart_put s written transmitted me idle c cs ws t)
  then have ok: "uart_ok s" by simp
  show ?case
    using uartputc_correct [OF ok, of me idle c] uart_put by auto
next
  case (uart_wait s written transmitted me idle c ch ws u t)
  then have ok: "uart_ok s" by simp
  show ?case using uartputc_correct [OF ok, of me idle c] uart_wait by auto
next
  case (uart_interrupt s written transmitted me rx idle k echo cs ws k' t)
  then show ?case using uart_interrupt_correct [of s me rx idle k echo cs ws k' t] by auto
qed

subsection \<open>Correctness\<close>

definition sample_cons :: cons_state where
  "sample_cons = consoleinit \<lparr>cons_lock = initlock, cons_buf = (\<lambda>_. 0), cons_r = 0, cons_w = 0, cons_e = 0\<rparr>"

text \<open>
  C17. Whatever character arrives, the interrupt handler of the console returns, keeps the
  three counters in order and changes the complete lines and the line being edited exactly
  as a line editor does: erase, kill, newline, end of file, and a full buffer.
\<close>

theorem consoleintr_refines_line_edit:
  assumes "cons_ok s" "0 \<le> c" "c < 256"
  shows "\<exists>echo ws t. consoleintr me c s = Done (echo, ws) t \<and> cons_ok t \<and>
    (committed t, editing t) = line_edit c (committed s, editing s)"
  using consoleintr_body [OF assms] by metis

theorem consoleintr_refines_line_edit_witness:
  "\<exists>echo ws t. consoleintr 0 97 sample_cons = Done (echo, ws) t \<and> cons_ok t \<and>
    (committed t, editing t) = ([], [97])"
  using consoleintr_refines_line_edit [of sample_cons 97 0]
  by (simp add: sample_cons_def consoleinit_def cons_ok_def committed_def editing_def line_edit_def CTRL_def
      INPUT_BUF_SIZE_def)

text \<open>
  C18. A read from the console returns or blocks with the lock released, delivers exactly
  what \<open>read_line\<close> takes from the complete lines, at most one line and at most \<open>n\<close> bytes,
  and leaves the line being edited alone.
\<close>

theorem consoleread_takes_line:
  assumes "cons_ok s"
  shows "\<exists>r cs t. consoleread me killed (\<lambda>_. True) tgt n s = Done (r, cs) t \<and> cons_ok t \<and>
    (cs, committed t) = read_line tgt n (committed s) \<and> editing t = editing s"
proof -
  let ?s = "s\<lparr>cons_lock := \<lparr>locked = 1, cpu = Some me\<rparr>\<rparr>"
  obtain r cs t where l: "consoleread_loop killed (\<lambda>_. True) tgt n ?s = (r, cs, t)" by (metis prod_cases3)
  have "cons_order ?s" using assms by (simp add: cons_order_def cons_ok_def)
  note c = consoleread_loop_correct [OF this l]
  have "consoleread me killed (\<lambda>_. True) tgt n s = Done (r, cs) (t\<lparr>cons_lock := initlock\<rparr>)"
    using assms l c by (simp add: consoleread_def acquire_cons_def release_cons_def cons_ok_def)
  then show ?thesis
    using c assms by (auto simp: cons_ok_def cons_order_def committed_def editing_def)
qed

theorem consoleread_takes_line_witness:
  "\<exists>r cs t. consoleread 0 True (\<lambda>_. True) 5 5 sample_cons = Done (r, cs) t \<and> cons_ok t \<and>
    (cs, committed t) = ([], []) \<and> editing t = []"
proof -
  have "cons_ok sample_cons" "committed sample_cons = []" "editing sample_cons = []"
    by (simp_all add: sample_cons_def consoleinit_def cons_ok_def committed_def editing_def)
  then show ?thesis using consoleread_takes_line [of sample_cons 0 True 5 5] by (simp add: eval_nat_numeral)
qed

text \<open>
  C19. Over any run of the UART driver from boot the bytes sent to the device followed by
  the bytes in the buffer are exactly the bytes written, in order, and the buffer never
  holds more than 32 bytes although its counters run without bound.
\<close>

theorem uart_fifo:
  assumes "uart_run s written transmitted"
  shows "written = transmitted @ tx_bytes s \<and> length (tx_bytes s) \<le> 32"
  using uart_run_inv [OF assms] by (simp add: uart_ok_def UART_TX_BUF_SIZE_def)

theorem uart_fifo_witness:
  "\<exists>s. uart_run s [65] [65] \<and> [65] = [65] @ tx_bytes s \<and> length (tx_bytes s) \<le> 32"
proof -
  define s where "s = snd (uartinit \<lparr>tx_lock = initlock, tx_buf = (\<lambda>_. 0), tx_w = 0, tx_r = 0\<rparr>)"
  have r: "uart_run s [] []" unfolding s_def by (rule uart_begin)
  then have ok: "uart_ok s" using uart_run_inv by blast
  have nf: "length (tx_bytes s) \<noteq> UART_TX_BUF_SIZE"
    by (simp add: s_def uartinit_def tx_bytes_def UART_TX_BUF_SIZE_def)
  obtain cs t where p: "uartputc 0 False (\<lambda>_. True) 65 s = Done (Returned cs (woken_by cs)) t"
    "tx_bytes s @ [65] = cs @ tx_bytes t" "tx_bytes t = []"
    using uartputc_correct [OF ok, of 0 "\<lambda>_. True" 65] nf by metis
  then have "cs = [65]" by (simp add: s_def uartinit_def tx_bytes_def)
  then have "uart_run t [65] [65]" using uart_put [OF r p(1)] by simp
  then show ?thesis using uart_fifo [of t "[65]" "[65]"] by blast
qed

end
