(* ===== verification/Layout.thy ===== *)
theory Layout
  imports Prelude
begin

unbundle bit_operations_syntax

section \<open>Memory layout and page-table entries (memlayout.h, riscv.h)\<close>

text \<open>
  The constants of \<open>kernel/memlayout.h\<close>, \<open>kernel/riscv.h\<close> and \<open>kernel/param.h\<close>, and the
  macros on addresses and page-table entries.  Addresses are natural numbers below
  \<open>2 ^ 64\<close>; page-table entries are 64-bit words, since their flag bits are read and
  written with the bit operations.
\<close>

definition PGSIZE :: nat where "PGSIZE = 4096"
definition KERNBASE :: nat where "KERNBASE = 0x80000000"
definition PHYSTOP :: nat where "PHYSTOP = KERNBASE + 128 * 1024 * 1024"
definition MAXVA :: nat where "MAXVA = 2 ^ (9 + 9 + 9 + 12 - 1)"
definition TRAMPOLINE :: nat where "TRAMPOLINE = MAXVA - PGSIZE"
definition KSTACK :: "nat \<Rightarrow> nat" where "KSTACK p = TRAMPOLINE - (p + 1) * 2 * PGSIZE"
definition TRAPFRAME :: nat where "TRAPFRAME = TRAMPOLINE - PGSIZE"
definition SHMTOP :: nat where "SHMTOP = TRAPFRAME - PGSIZE"
definition HEAPTOP :: nat where "HEAPTOP = MAXVA - 2 ^ 30"

definition PGROUNDUP :: "nat \<Rightarrow> nat" where
  "PGROUNDUP sz = (sz + PGSIZE - 1) div PGSIZE * PGSIZE"

definition PGROUNDDOWN :: "nat \<Rightarrow> nat" where
  "PGROUNDDOWN a = a div PGSIZE * PGSIZE"

lemma PGROUNDDOWN_le: "PGROUNDDOWN a \<le> a"
  by (simp add: PGROUNDDOWN_def)

lemma PGROUNDUP_ge: "a \<le> PGROUNDUP a"
  by (simp add: PGROUNDUP_def PGSIZE_def)

lemma PGROUNDUP_aligned [simp]: "PGSIZE dvd PGROUNDUP a"
  by (simp add: PGROUNDUP_def)

lemma PGROUNDDOWN_aligned [simp]: "PGSIZE dvd PGROUNDDOWN a"
  by (simp add: PGROUNDDOWN_def)

end
