(* ===== verification/Buddy_Spec.thy ===== *)
theory Buddy_Spec
  imports Prelude
begin

unbundle bit_operations_syntax

section \<open>The buddy system on lists of page numbers\<close>

text \<open>
  The abstract allocator: one list of page numbers for each order, without pointers,
  addresses or bitmap.  Theory \<open>Buddy\<close> models \<open>kernel/kalloc.c\<close> itself and theory
  \<open>Buddy_Refine\<close> shows that the code implements this specification.  What makes a buddy
  system correct is proved here: blocks stay disjoint and inside the managed pages,
  allocation and release move exactly the pages of one block, two free buddies never
  coexist, and therefore the free lists are determined by the set of free pages.
\<close>

definition MAX_ORDER :: nat where "MAX_ORDER = 11"

type_synonym freelists = "nat \<Rightarrow> nat list"

definition blk :: "nat \<Rightarrow> nat \<Rightarrow> nat set" where
  "blk p k = {p ..< p + 2 ^ k}"

definition pages :: "freelists \<Rightarrow> nat set" where
  "pages fl = (\<Union>k\<in>{..MAX_ORDER}. \<Union>p\<in>set (fl k). blk p k)"

subsection \<open>Operations\<close>

function a_find :: "nat \<Rightarrow> freelists \<Rightarrow> nat" where
  "a_find k fl = (if k \<le> MAX_ORDER \<and> fl k = [] then a_find (Suc k) fl else k)"
  by pat_completeness auto
termination
  by (relation "measure (\<lambda>(k, fl). Suc MAX_ORDER - k)") auto

declare a_find.simps [simp del]

fun a_split :: "nat \<Rightarrow> nat \<Rightarrow> nat \<Rightarrow> freelists \<Rightarrow> freelists" where
  "a_split p order 0 fl = fl"
| "a_split p order (Suc k) fl =
     (if order < Suc k then a_split p order k (fl(k := (p + 2 ^ k) # fl k)) else fl)"

definition a_alloc :: "nat \<Rightarrow> freelists \<Rightarrow> nat option \<times> freelists" where
  "a_alloc order fl =
     (let k = a_find order fl in
      if MAX_ORDER < k then (None, fl)
      else (Some (hd (fl k)), a_split (hd (fl k)) order k (fl(k := tl (fl k)))))"

text \<open>\<open>N\<close> is the number of managed pages.\<close>

function a_free :: "nat \<Rightarrow> nat \<Rightarrow> nat \<Rightarrow> freelists \<Rightarrow> freelists" where
  "a_free N p k fl =
     (if k < MAX_ORDER \<and> p XOR 2 ^ k < N \<and> p XOR 2 ^ k \<in> set (fl k)
      then a_free N (unset_bit k p) (Suc k) (fl(k := remove1 (p XOR 2 ^ k) (fl k)))
      else fl(k := p # fl k))"
  by pat_completeness auto
termination
  by (relation "measure (\<lambda>(N, p, k, fl). Suc MAX_ORDER - k)") auto

declare a_free.simps [simp del]

subsection \<open>Invariants\<close>

definition wf_block :: "nat \<Rightarrow> nat \<Rightarrow> nat \<Rightarrow> bool" where
  "wf_block N p k \<longleftrightarrow> 2 ^ k dvd p \<and> p + 2 ^ k \<le> N"

definition wf_lists :: "nat \<Rightarrow> freelists \<Rightarrow> bool" where
  "wf_lists N fl \<longleftrightarrow>
     (\<forall>k\<le>MAX_ORDER. distinct (fl k) \<and> (\<forall>p\<in>set (fl k). wf_block N p k)) \<and>
     (\<forall>k\<le>MAX_ORDER. \<forall>j\<le>MAX_ORDER. \<forall>p\<in>set (fl k). \<forall>q\<in>set (fl j).
        (p, k) \<noteq> (q, j) \<longrightarrow> blk p k \<inter> blk q j = {})"

definition coalesced :: "freelists \<Rightarrow> bool" where
  "coalesced fl \<longleftrightarrow> (\<forall>k<MAX_ORDER. \<forall>p\<in>set (fl k). p XOR 2 ^ k \<notin> set (fl k))"

subsection \<open>Aligned blocks\<close>

lemma blk_mem [simp]: "p \<in> blk p k"
  by (simp add: blk_def)

lemma blk_half: "blk p (Suc k) = blk p k \<union> blk (p + 2 ^ k) k"
  by (auto simp: blk_def)

lemma blk_halves_disjoint: "blk p k \<inter> blk (p + 2 ^ k) k = {}"
  by (auto simp: blk_def)

text \<open>Two aligned blocks are nested or disjoint.\<close>

lemma aligned_div:
  assumes "2 ^ k dvd p" and "x \<in> blk p k"
  shows "p = x div 2 ^ k * 2 ^ k"
proof -
  obtain q where q: "p = q * 2 ^ k" using assms(1) by (metis dvd_div_mult_self)
  obtain d where d: "x = p + d" and "d < 2 ^ k"
    using assms(2) by (auto simp: blk_def le_iff_add)
  have "x div 2 ^ k = q" using \<open>d < 2 ^ k\<close> by (simp add: d q)
  then show ?thesis by (simp add: q)
qed

lemma aligned_nested:
  assumes "2 ^ k dvd p" "2 ^ j dvd q" "k \<le> j" and "x \<in> blk p k" "x \<in> blk q j"
  shows "blk p k \<subseteq> blk q j"
proof -
  have p: "p = x div 2 ^ k * 2 ^ k" and q: "q = x div 2 ^ j * 2 ^ j"
    using assms aligned_div by blast+
  have "2 ^ j = 2 ^ (j - k) * (2::nat) ^ k"
    using assms(3) by (simp add: flip: power_add)
  then obtain r where r: "q = r * 2 ^ k" and j: "2 ^ j = 2 ^ (j - k) * (2::nat) ^ k"
    using q by (metis mult.assoc)
  have "r \<le> x div 2 ^ k"
    using assms(5) r by (simp add: blk_def less_eq_div_iff_mult_less_eq)
  moreover have "x div 2 ^ k < r + 2 ^ (j - k)"
    using assms(5) r j by (simp add: blk_def div_less_iff_less_mult algebra_simps)
  ultimately have "r * 2 ^ k \<le> x div 2 ^ k * 2 ^ k"
    and "Suc (x div 2 ^ k) * 2 ^ k \<le> (r + 2 ^ (j - k)) * 2 ^ k"
    by (simp_all only: mult_le_mono1 Suc_leI)
  then show ?thesis
    unfolding blk_def using r j p by (auto simp: algebra_simps)
qed

lemma buddy_cases [consumes 1, case_names lower upper]:
  assumes "2 ^ k dvd (p::nat)"
  obtains (lower) "p XOR 2 ^ k = p + 2 ^ k" "unset_bit k p = p" "2 ^ Suc k dvd p"
    | (upper) "p = (p XOR 2 ^ k) + 2 ^ k" "unset_bit k p = p XOR 2 ^ k" "2 ^ Suc k dvd (p XOR 2 ^ k)"
proof (cases "even (p div 2 ^ k)")
  case True
  then have "2 * 2 ^ k dvd p div 2 ^ k * 2 ^ k"
    by (meson dvd_refl mult_dvd_mono)
  with True assms show ?thesis
    by (intro lower) (simp_all add: flip_aligned unset_bit_nat)
next
  case False
  then obtain r where r: "p div 2 ^ k = 2 * r + 1" by (auto elim: oddE)
  then have p: "p = r * 2 ^ Suc k + 2 ^ k"
    using assms by (metis dvd_div_mult_self Suc_eq_plus1 add.commute mult.commute
        mult.assoc mult_Suc power_Suc)
  then have "p XOR 2 ^ k = r * 2 ^ Suc k"
    using False assms by (simp add: flip_aligned)
  with p False show ?thesis
    by (intro upper) (simp_all add: unset_bit_nat)
qed

lemma buddy_aligned:
  assumes "2 ^ k dvd (p::nat)" shows "2 ^ k dvd p XOR 2 ^ k"
proof -
  have step: "2 ^ k dvd x" if "2 ^ Suc k dvd x" for x :: nat
    using that by (meson dvd_trans le_imp_power_dvd Suc_n_not_le_n nat_le_linear)
  show ?thesis
  using assms proof (cases rule: buddy_cases)
    case lower
    with assms show ?thesis by simp
  next
    case upper
    then show ?thesis by (simp add: step)
  qed
qed

lemma buddy_involution: "(p XOR q) XOR q = (p::nat)"
  by (simp add: xor.assoc)

lemma buddy_neq: "p XOR 2 ^ k \<noteq> (p::nat)"
proof
  assume "p XOR 2 ^ k = p"
  then have "p XOR (p XOR 2 ^ k) = 0" by simp
  then show False by (simp flip: xor.assoc)
qed

lemma merged_block:
  assumes "2 ^ k dvd p"
  shows "blk (unset_bit k p) (Suc k) = blk p k \<union> blk (p XOR 2 ^ k) k"
    and "2 ^ Suc k dvd unset_bit k p"
    and "blk p k \<inter> blk (p XOR 2 ^ k) k = {}"
proof -
  have "blk (unset_bit k p) (Suc k) = blk p k \<union> blk (p XOR 2 ^ k) k \<and>
        2 ^ Suc k dvd unset_bit k p \<and> blk p k \<inter> blk (p XOR 2 ^ k) k = {}"
  using assms proof (cases rule: buddy_cases)
    case lower
    then show ?thesis by (simp add: blk_half blk_halves_disjoint)
  next
    case upper
    obtain b where b: "p XOR 2 ^ k = b" by blast
    have "p = b + 2 ^ k" "unset_bit k p = b" "2 ^ Suc k dvd b"
      using upper unfolding b by blast+
    then show ?thesis unfolding b
      by (metis blk_half blk_halves_disjoint Un_commute Int_commute)
  qed
  then show "blk (unset_bit k p) (Suc k) = blk p k \<union> blk (p XOR 2 ^ k) k"
    and "2 ^ Suc k dvd unset_bit k p"
    and "blk p k \<inter> blk (p XOR 2 ^ k) k = {}"
    by auto
qed

lemma merged_mem:
  assumes "2 ^ k dvd p"
  shows "p \<in> blk (unset_bit k p) (Suc k)" and "p XOR 2 ^ k \<in> blk (unset_bit k p) (Suc k)"
  by (simp_all add: merged_block [OF assms])

lemma merged_end:
  assumes "2 ^ k dvd (p::nat)"
  shows "unset_bit k p + 2 ^ Suc k = max p (p XOR 2 ^ k) + 2 ^ k"
  using assms
proof (cases rule: buddy_cases)
  case lower
  then show ?thesis by simp
next
  case upper
  then have "p XOR 2 ^ k \<le> p" by linarith
  with upper show ?thesis by simp
qed

lemma aligned_inj:
  assumes "2 ^ k dvd p" "2 ^ k dvd q" "p \<in> blk q k"
  shows "p = q"
  using aligned_div [OF assms(2,3)] aligned_div [OF assms(1) blk_mem] by simp

subsection \<open>The free lists as sets of blocks\<close>

lemma pages_iff: "x \<in> pages fl \<longleftrightarrow> (\<exists>k\<le>MAX_ORDER. \<exists>p\<in>set (fl k). x \<in> blk p k)"
  by (auto simp: pages_def)

lemma pagesI: "k \<le> MAX_ORDER \<Longrightarrow> p \<in> set (fl k) \<Longrightarrow> x \<in> blk p k \<Longrightarrow> x \<in> pages fl"
  unfolding pages_iff by blast

lemma pagesE:
  assumes "x \<in> pages fl"
  obtains k p where "k \<le> MAX_ORDER" "p \<in> set (fl k)" "x \<in> blk p k"
  using assms unfolding pages_iff by blast

lemma wf_listsD:
  assumes "wf_lists N fl" "k \<le> MAX_ORDER"
  shows "distinct (fl k)" and "p \<in> set (fl k) \<Longrightarrow> 2 ^ k dvd p"
    and "p \<in> set (fl k) \<Longrightarrow> p + 2 ^ k \<le> N"
  using assms by (auto simp: wf_lists_def wf_block_def)

lemma wf_lists_disjoint:
  assumes "wf_lists N fl" "k \<le> MAX_ORDER" "j \<le> MAX_ORDER" "p \<in> set (fl k)" "q \<in> set (fl j)"
    and "x \<in> blk p k" "x \<in> blk q j"
  shows "p = q \<and> k = j"
  using assms unfolding wf_lists_def by blast

lemma pages_bound: "wf_lists N fl \<Longrightarrow> pages fl \<subseteq> {..<N}"
  by (fastforce simp: pages_def blk_def wf_lists_def wf_block_def)

text \<open>Inserting a block that is disjoint from the free pages.\<close>

lemma wf_lists_insert:
  assumes wf: "wf_lists N fl" and k: "k \<le> MAX_ORDER" and b: "wf_block N p k"
    and dis: "blk p k \<inter> pages fl = {}"
  shows "wf_lists N (fl(k := p # fl k))" and "pages (fl(k := p # fl k)) = pages fl \<union> blk p k"
proof -
  have new: "blk p k \<inter> blk q j = {}" if "j \<le> MAX_ORDER" "q \<in> set (fl j)" for q j
    using dis pagesI [of j q fl] that by blast
  have "p \<notin> set (fl k)" using new [OF k, of p] blk_mem [of p k] by blast
  then show "wf_lists N (fl(k := p # fl k))"
    using wf b new unfolding wf_lists_def
    by (simp add: Int_commute)
  show "pages (fl(k := p # fl k)) = pages fl \<union> blk p k"
  proof (intro set_eqI iffI)
    fix x assume "x \<in> pages (fl(k := p # fl k))"
    then obtain j q where "j \<le> MAX_ORDER" "q \<in> set ((fl(k := p # fl k)) j)" "x \<in> blk q j"
      by (rule pagesE)
    then show "x \<in> pages fl \<union> blk p k"
      by (auto split: if_splits intro: pagesI)
  next
    fix x assume "x \<in> pages fl \<union> blk p k"
    then consider "x \<in> blk p k" | j q where "j \<le> MAX_ORDER" "q \<in> set (fl j)" "x \<in> blk q j"
      by (auto elim: pagesE)
    then show "x \<in> pages (fl(k := p # fl k))"
      by cases (auto intro: pagesI [of k p] pagesI [OF k] pagesI simp: k)
  qed
qed

text \<open>Removing a free block.\<close>

lemma wf_lists_remove:
  assumes wf: "wf_lists N fl" and k: "k \<le> MAX_ORDER" and p: "p \<in> set (fl k)"
    and xs: "distinct xs" "set xs = set (fl k) - {p}"
  shows "wf_lists N (fl(k := xs))" and "pages (fl(k := xs)) = pages fl - blk p k"
proof -
  show "wf_lists N (fl(k := xs))"
    using wf xs unfolding wf_lists_def by auto
  show "pages (fl(k := xs)) = pages fl - blk p k"
  proof (intro set_eqI iffI)
    fix x assume "x \<in> pages (fl(k := xs))"
    then obtain j q where q: "j \<le> MAX_ORDER" "q \<in> set ((fl(k := xs)) j)" "x \<in> blk q j"
      by (auto simp: pages_iff)
    then have "q \<in> set (fl j)" "(q, j) \<noteq> (p, k)"
      using xs by (auto split: if_splits)
    then show "x \<in> pages fl - blk p k"
      using q wf_lists_disjoint [OF wf q(1) k _ p q(3)] by (auto simp: pages_iff)
  next
    fix x assume "x \<in> pages fl - blk p k"
    then obtain j q where "j \<le> MAX_ORDER" "q \<in> set (fl j)" "x \<in> blk q j" "(q, j) \<noteq> (p, k)"
      by (auto simp: pages_iff)
    then show "x \<in> pages (fl(k := xs))"
      using xs by (auto simp: pages_iff intro!: exI [of _ j] bexI [of _ q])
  qed
qed

lemma wf_lists_tl:
  assumes "wf_lists N fl" "k \<le> MAX_ORDER" "fl k \<noteq> []"
  shows "wf_lists N (fl(k := tl (fl k)))"
    and "pages (fl(k := tl (fl k))) = pages fl - blk (hd (fl k)) k"
proof -
  have d: "distinct (fl k)" using assms wf_listsD by blast
  have "distinct (tl (fl k))" "set (tl (fl k)) = set (fl k) - {hd (fl k)}" "hd (fl k) \<in> set (fl k)"
    using d assms(3) by (cases "fl k"; auto)+
  then show "wf_lists N (fl(k := tl (fl k)))"
    and "pages (fl(k := tl (fl k))) = pages fl - blk (hd (fl k)) k"
    using wf_lists_remove [OF assms(1,2)] by blast+
qed

lemma wf_lists_remove1:
  assumes "wf_lists N fl" "k \<le> MAX_ORDER" "p \<in> set (fl k)"
  shows "wf_lists N (fl(k := remove1 p (fl k)))"
    and "pages (fl(k := remove1 p (fl k))) = pages fl - blk p k"
proof -
  have d: "distinct (fl k)" using assms wf_listsD by blast
  have "distinct (remove1 p (fl k))" "set (remove1 p (fl k)) = set (fl k) - {p}"
    using d by auto
  then show "wf_lists N (fl(k := remove1 p (fl k)))"
    and "pages (fl(k := remove1 p (fl k))) = pages fl - blk p k"
    using wf_lists_remove [OF assms] by blast+
qed

subsection \<open>Allocation\<close>

lemma a_find_ge: "k \<le> a_find k fl"
proof (induction k fl rule: a_find.induct)
  case (1 k fl)
  then show ?case by (subst a_find.simps) (auto intro: Suc_leD)
qed

lemma a_find_nonempty: "a_find k fl \<le> MAX_ORDER \<Longrightarrow> fl (a_find k fl) \<noteq> []"
proof (induction k fl rule: a_find.induct)
  case (1 k fl)
  then show ?case
    by (cases "k \<le> MAX_ORDER \<and> fl k = []") (simp_all add: a_find.simps [of k fl])
qed

lemma a_find_below: "k \<le> j \<Longrightarrow> j < a_find k fl \<Longrightarrow> j \<le> MAX_ORDER \<Longrightarrow> fl j = []"
proof (induction k fl rule: a_find.induct)
  case (1 k fl)
  show ?case
  proof (cases "k \<le> MAX_ORDER \<and> fl k = []")
    case True
    with "1" show ?thesis by (cases "j = k") (simp_all add: a_find.simps [of k fl])
  next
    case False
    with "1" show ?thesis by (simp add: a_find.simps [of k fl])
  qed
qed

text \<open>
  Splitting a block \<open>p\<close> of order \<open>k\<close> that is not in the lists leaves its lowest
  \<open>2 ^ order\<close> pages out and puts the others into the lists.
\<close>

lemma blk_mono: "k \<le> j \<Longrightarrow> blk p k \<subseteq> blk p j"
  unfolding blk_def using power_increasing [of k j "2::nat"] by auto

lemma wf_block_halves:
  assumes "wf_block N p (Suc k)"
  shows "wf_block N p k" and "wf_block N (p + 2 ^ k) k"
proof -
  from assms have "2 ^ k * 2 dvd p" and le: "p + 2 ^ Suc k \<le> N"
    by (simp_all add: wf_block_def mult.commute)
  then have "2 ^ k dvd p" using dvd_mult_left by blast
  with le show "wf_block N p k" and "wf_block N (p + 2 ^ k) k"
    by (simp_all add: wf_block_def)
qed

lemma a_split_correct:
  assumes "wf_lists N fl" "k \<le> MAX_ORDER" "order \<le> k" "wf_block N p k"
    and "blk p k \<inter> pages fl = {}" "coalesced fl"
  shows "wf_lists N (a_split p order k fl) \<and>
         pages (a_split p order k fl) = pages fl \<union> (blk p k - blk p order) \<and>
         coalesced (a_split p order k fl) \<and> wf_block N p order"
  using assms
proof (induction p order k fl rule: a_split.induct)
  case (1 p order fl)
  then show ?case by simp
next
  case (2 p order k fl)
  show ?case
  proof (cases "order < Suc k")
    case True
    let ?fl = "fl(k := (p + 2 ^ k) # fl k)"
    have k: "k \<le> MAX_ORDER" "order \<le> k" using 2 True by simp_all
    have dis: "blk (p + 2 ^ k) k \<inter> pages fl = {}" "blk p k \<inter> pages fl = {}"
      using "2.prems"(5) by (auto simp: blk_half)
    note halves = wf_block_halves [OF "2.prems"(4)]
    note ins = wf_lists_insert [OF "2.prems"(1) k(1) halves(2) dis(1)]
    have al: "2 ^ Suc k dvd p" using "2.prems"(4) by (simp add: wf_block_def)
    then have "even (p div 2 ^ k)" "2 ^ k dvd p"
      by (metis dvd_div_iff_mult dvd_mult_right mult.commute power_Suc power_not_zero zero_neq_numeral,
          metis dvd_mult_left mult.commute power_Suc)
    then have buddy: "p XOR 2 ^ k = p + 2 ^ k" "(p + 2 ^ k) XOR 2 ^ k = p"
      by (metis flip_aligned, metis flip_aligned buddy_involution)
    have np: "p \<notin> set (fl k)"
      using dis(2) pagesI [OF k(1), of p fl p] blk_mem [of p k] by blast
    have "q XOR 2 ^ k \<noteq> p + 2 ^ k" if "q \<in> set (fl k)" for q
      using that np buddy(2) buddy_involution by metis
    then have "coalesced ?fl"
      using "2.prems"(6) np buddy(2) by (auto simp: coalesced_def)
    moreover have "blk p k \<inter> pages ?fl = {}"
      using dis blk_halves_disjoint ins(2) by blast
    ultimately have IH: "wf_lists N (a_split p order k ?fl) \<and>
         pages (a_split p order k ?fl) = pages ?fl \<union> (blk p k - blk p order) \<and>
         coalesced (a_split p order k ?fl) \<and> wf_block N p order"
      using "2.IH" [OF True ins(1) k halves(1)] by blast
    have "blk p order \<subseteq> blk p k" using k(2) by (rule blk_mono)
    then have "pages ?fl \<union> (blk p k - blk p order) = pages fl \<union> (blk p (Suc k) - blk p order)"
      using ins(2) blk_half [of p k] blk_halves_disjoint [of p k] by blast
    with IH True show ?thesis by simp
  next
    case False
    with 2 have "order = Suc k" by simp
    with 2 show ?thesis by simp
  qed
qed

lemma coalesced_subset:
  "coalesced fl \<Longrightarrow> (\<And>k. set (gl k) \<subseteq> set (fl k)) \<Longrightarrow> coalesced gl"
  unfolding coalesced_def by blast

lemma a_alloc_None:
  assumes "a_alloc order fl = (None, fl')" "order \<le> MAX_ORDER"
  shows "fl' = fl" and "\<And>k. order \<le> k \<Longrightarrow> k \<le> MAX_ORDER \<Longrightarrow> fl k = []"
  using assms a_find_below [of order _ fl] by (auto simp: a_alloc_def Let_def split: if_splits)

lemma a_alloc_Some:
  assumes wf: "wf_lists N fl" and co: "coalesced fl" and ord: "order \<le> MAX_ORDER"
    and al: "a_alloc order fl = (Some p, fl')"
  shows "wf_lists N fl' \<and> coalesced fl' \<and> wf_block N p order \<and>
         blk p order \<subseteq> pages fl \<and> pages fl' = pages fl - blk p order"
proof -
  define k where "k = a_find order fl"
  define gl where "gl = fl(k := tl (fl k))"
  have k: "k \<le> MAX_ORDER" and p: "p = hd (fl k)" and fl': "fl' = a_split p order k gl"
    using al by (auto simp: a_alloc_def Let_def k_def gl_def split: if_splits)
  have ne: "fl k \<noteq> []" and ordk: "order \<le> k"
    using k a_find_nonempty a_find_ge by (simp_all add: k_def)
  note tl = wf_lists_tl [OF wf k ne]
  have mem: "p \<in> set (fl k)" using ne p by simp
  then have "wf_block N p k" using wf k by (auto simp: wf_lists_def)
  moreover have "coalesced gl"
    using co by (rule coalesced_subset) (auto simp: gl_def dest: list.set_sel(2) [OF ne])
  ultimately have split: "wf_lists N fl' \<and> pages fl' = pages gl \<union> (blk p k - blk p order) \<and>
      coalesced fl' \<and> wf_block N p order"
    using a_split_correct [of N gl k order p] tl k ordk unfolding fl' gl_def p by blast
  have "blk p k \<subseteq> pages fl" using mem k by (auto intro: pagesI)
  with split tl(2) blk_mono [OF ordk, of p] show ?thesis
    unfolding gl_def p by blast
qed

subsection \<open>Release\<close>

lemma coalesced_insert:
  assumes "coalesced fl" and "k < MAX_ORDER \<Longrightarrow> p XOR 2 ^ k \<notin> set (fl k)"
  shows "coalesced (fl(k := p # fl k))"
  unfolding coalesced_def
proof (intro allI ballI impI)
  fix j q assume j: "j < MAX_ORDER" and q: "q \<in> set ((fl(k := p # fl k)) j)"
  show "q XOR 2 ^ j \<notin> set ((fl(k := p # fl k)) j)"
  proof (cases "j = k")
    case True
    have "q XOR 2 ^ k \<noteq> p" if "q \<in> set (fl k)"
      using that assms(2) j True buddy_involution by metis
    then show ?thesis
      using q j True assms buddy_neq [of p k] by (auto simp: coalesced_def)
  next
    case False
    with q j assms(1) show ?thesis by (simp add: coalesced_def)
  qed
qed

text \<open>Merging a block with its free buddy gives a block that may be inserted in turn.\<close>

lemma merge_step:
  assumes "wf_lists N fl" "k \<le> MAX_ORDER" "wf_block N p k" "blk p k \<inter> pages fl = {}"
    and b: "p XOR 2 ^ k \<in> set (fl k)"
  shows "wf_block N (unset_bit k p) (Suc k)"
    and "blk (unset_bit k p) (Suc k) \<inter> pages (fl(k := remove1 (p XOR 2 ^ k) (fl k))) = {}"
    and "pages (fl(k := remove1 (p XOR 2 ^ k) (fl k))) \<union> blk (unset_bit k p) (Suc k) =
         pages fl \<union> blk p k"
proof -
  have al: "2 ^ k dvd p" using assms(3) by (simp add: wf_block_def)
  note rem = wf_lists_remove1 [OF assms(1,2) b] and mg = merged_block [OF al]
  have "(p XOR 2 ^ k) + 2 ^ k \<le> N" using wf_listsD(3) [OF assms(1,2) b] .
  then show "wf_block N (unset_bit k p) (Suc k)"
    using assms(3) mg(2) merged_end [OF al] unfolding wf_block_def by (metis max_def)
  have bp: "blk (p XOR 2 ^ k) k \<subseteq> pages fl" using b assms(2) by (auto intro: pagesI)
  show "blk (unset_bit k p) (Suc k) \<inter> pages (fl(k := remove1 (p XOR 2 ^ k) (fl k))) = {}"
    using rem(2) assms(4) mg(1) by blast
  show "pages (fl(k := remove1 (p XOR 2 ^ k) (fl k))) \<union> blk (unset_bit k p) (Suc k) =
      pages fl \<union> blk p k"
    using rem(2) mg(1) bp by blast
qed

lemma a_free_correct:
  assumes "wf_lists N fl" "coalesced fl" "k \<le> MAX_ORDER" "wf_block N p k"
    and "blk p k \<inter> pages fl = {}"
  shows "wf_lists N (a_free N p k fl) \<and> coalesced (a_free N p k fl) \<and>
         pages (a_free N p k fl) = pages fl \<union> blk p k"
  using assms
proof (induction N p k fl rule: a_free.induct)
  case (1 N p k fl)
  let ?b = "p XOR 2 ^ k"
  show ?case
  proof (cases "k < MAX_ORDER \<and> ?b < N \<and> ?b \<in> set (fl k)")
    case True
    let ?q = "unset_bit k p" and ?fl = "fl(k := remove1 ?b (fl k))"
    have b: "?b \<in> set (fl k)" and k: "k < MAX_ORDER" using True by simp_all
    note rem = wf_lists_remove1 [OF "1.prems"(1,3) b]
    note mg = merge_step [OF "1.prems"(1,3,4,5) b]
    have "coalesced ?fl"
      using "1.prems"(2) by (rule coalesced_subset) (auto dest: set_remove1_subset [THEN subsetD])
    then have "wf_lists N (a_free N ?q (Suc k) ?fl) \<and> coalesced (a_free N ?q (Suc k) ?fl) \<and>
        pages (a_free N ?q (Suc k) ?fl) = pages fl \<union> blk p k"
      using "1.IH" [OF True rem(1) _ Suc_leI [OF k] mg(1,2)] mg(3) by metis
    moreover have "a_free N p k fl = a_free N ?q (Suc k) ?fl"
      using True by (simp add: a_free.simps [of N p k fl])
    ultimately show ?thesis by simp
  next
    case False
    have "?b \<notin> set (fl k)" if "k < MAX_ORDER"
    proof
      assume b: "?b \<in> set (fl k)"
      then have "?b + 2 ^ k \<le> N" using wf_listsD(3) [OF "1.prems"(1,3)] by blast
      moreover have "(0::nat) < 2 ^ k" by simp
      ultimately have "?b < N" by linarith
      with b that False show False by blast
    qed
    then have "coalesced (fl(k := p # fl k))" by (intro coalesced_insert "1.prems"(2))
    moreover have "a_free N p k fl = fl(k := p # fl k)"
      unfolding a_free.simps [of N p k fl] using False by (rule if_not_P)
    ultimately show ?thesis
      using wf_lists_insert [OF "1.prems"(1,3,4,5)] by metis
  qed
qed

subsection \<open>The free lists are determined by the free pages\<close>

text \<open>
  An aligned block all of whose pages are free lies inside one block of the lists: a
  smallest free block inside it would have its buddy free as well.
\<close>

lemma cover:
  assumes wf: "wf_lists N fl" and co: "coalesced fl"
    and k: "k \<le> MAX_ORDER" and al: "2 ^ k dvd x" and sub: "blk x k \<subseteq> pages fl"
  shows "\<exists>j q. k \<le> j \<and> j \<le> MAX_ORDER \<and> q \<in> set (fl j) \<and> blk x k \<subseteq> blk q j"
proof (rule ccontr)
  assume no: "\<not> ?thesis"
  have small: "j < k \<and> blk q j \<subseteq> blk x k"
    if "j \<le> MAX_ORDER" "q \<in> set (fl j)" "y \<in> blk x k" "y \<in> blk q j" for j q y
  proof -
    have q: "2 ^ j dvd q" using wf_listsD(2) [OF wf that(1)] that(2) by blast
    have "\<not> k \<le> j" using no that aligned_nested [OF al q _ that(3,4)] by blast
    then show ?thesis using aligned_nested [OF q al _ that(4,3)] by simp
  qed
  define J where "J j \<longleftrightarrow> j \<le> MAX_ORDER \<and> (\<exists>q\<in>set (fl j). blk q j \<subseteq> blk x k)" for j
  obtain j0 q0 where "j0 \<le> MAX_ORDER" "q0 \<in> set (fl j0)" "x \<in> blk q0 j0"
    using sub blk_mem pagesE by blast
  then have "J j0" using small [of j0 q0 x] by (auto simp: J_def)
  define j where "j = (LEAST j. J j)"
  have "J j" and least: "\<And>i. J i \<Longrightarrow> j \<le> i"
    using \<open>J j0\<close> unfolding j_def by (auto intro: LeastI Least_le)
  then obtain q where j: "j \<le> MAX_ORDER" and q: "q \<in> set (fl j)" "blk q j \<subseteq> blk x k"
    by (auto simp: J_def)
  have qx: "q \<in> blk x k" using q(2) blk_mem by blast
  have jk: "j < k" using small [OF j q(1) qx blk_mem] by blast
  have qal: "2 ^ j dvd q" using wf_listsD(2) [OF wf j q(1)] .
  let ?b = "q XOR 2 ^ j"
  note mg = merged_block [OF qal]
  have "blk (unset_bit j q) (Suc j) \<subseteq> blk x k"
    using jk by (intro aligned_nested [OF mg(2) al _ merged_mem(1) [OF qal] qx]) simp
  then have bsub: "blk ?b j \<subseteq> blk x k" using mg(1) by blast
  then obtain i r where i: "i \<le> MAX_ORDER" and r: "r \<in> set (fl i)" "?b \<in> blk r i"
    using sub blk_mem pagesE by blast
  have "?b \<in> blk x k" using bsub blk_mem by blast
  then have "J i" using small [OF i r(1) _ r(2)] i r(1) unfolding J_def by blast
  then have ji: "j \<le> i" by (rule least)
  have ral: "2 ^ i dvd r" using wf_listsD(2) [OF wf i r(1)] .
  show False
  proof (cases "i = j")
    case True
    then have "?b = r" using aligned_inj [OF buddy_aligned [OF qal]] ral r(2) by simp
    then have "?b \<in> set (fl j)" using r(1) True by simp
    moreover have "j < MAX_ORDER" using jk k by simp
    ultimately show False using co q(1) unfolding coalesced_def by blast
  next
    case False
    then have "blk (unset_bit j q) (Suc j) \<subseteq> blk r i"
      using ji by (intro aligned_nested [OF mg(2) ral _ merged_mem(2) [OF qal] r(2)]) simp
    then have "q \<in> blk r i" using merged_mem(1) [OF qal] by blast
    then show False using wf_lists_disjoint [OF wf j i q(1) r(1), of q] False by simp
  qed
qed

text \<open>
  A block is in the lists exactly when it is a maximal aligned block of free pages.
\<close>

lemma mem_lists_iff:
  assumes wf: "wf_lists N fl" and co: "coalesced fl" and k: "k \<le> MAX_ORDER"
  shows "p \<in> set (fl k) \<longleftrightarrow>
    2 ^ k dvd p \<and> blk p k \<subseteq> pages fl \<and>
    (k < MAX_ORDER \<longrightarrow> \<not> blk (unset_bit k p) (Suc k) \<subseteq> pages fl)"
proof (intro iffI conjI impI notI)
  assume p: "p \<in> set (fl k)"
  show al: "2 ^ k dvd p" using wf_listsD(2) [OF wf k p] .
  show "blk p k \<subseteq> pages fl" using p k pagesI by blast
  assume k': "k < MAX_ORDER" and "blk (unset_bit k p) (Suc k) \<subseteq> pages fl"
  then obtain j q where q: "Suc k \<le> j" "j \<le> MAX_ORDER" "q \<in> set (fl j)"
      "blk (unset_bit k p) (Suc k) \<subseteq> blk q j"
    using cover [OF wf co _ merged_block(2) [OF al]] Suc_leI by blast
  then have "p \<in> blk q j" using merged_mem(1) [OF al] by blast
  then show False using wf_lists_disjoint [OF wf k q(2) p q(3) blk_mem] q(1) by simp
next
  assume a: "2 ^ k dvd p \<and> blk p k \<subseteq> pages fl \<and>
    (k < MAX_ORDER \<longrightarrow> \<not> blk (unset_bit k p) (Suc k) \<subseteq> pages fl)"
  then obtain j q where q: "k \<le> j" "j \<le> MAX_ORDER" "q \<in> set (fl j)" "blk p k \<subseteq> blk q j"
    using cover [OF wf co k] by blast
  have qal: "2 ^ j dvd q" using wf_listsD(2) [OF wf q(2,3)] .
  have "p \<in> blk q j" using q(4) blk_mem by blast
  show "p \<in> set (fl k)"
  proof (cases "j = k")
    case True
    then have "p = q" using aligned_inj [of k p q] qal a \<open>p \<in> blk q j\<close> by simp
    with q True show ?thesis by simp
  next
    case False
    then have "Suc k \<le> j" and "k < MAX_ORDER" using q by simp_all
    have "2 ^ k dvd p" using a by blast
    then have "blk (unset_bit k p) (Suc k) \<subseteq> blk q j"
      using \<open>Suc k \<le> j\<close> \<open>p \<in> blk q j\<close> qal
      by (intro aligned_nested [of "Suc k" _ j q p] merged_block(2) merged_mem(1))
    moreover have "blk q j \<subseteq> pages fl" using q(2,3) pagesI by blast
    ultimately show ?thesis using a \<open>k < MAX_ORDER\<close> by blast
  qed
qed

lemma lists_canonical:
  assumes "wf_lists N fl" "coalesced fl" "wf_lists M gl" "coalesced gl"
    and "pages fl = pages gl" "k \<le> MAX_ORDER"
  shows "set (fl k) = set (gl k)"
  by (intro set_eqI)
    (simp add: mem_lists_iff [OF assms(1,2,6)] mem_lists_iff [OF assms(3,4,6)] assms(5))

subsection \<open>The initial lists\<close>

fun a_init_small :: "nat \<Rightarrow> nat \<Rightarrow> freelists" where
  "a_init_small N 0 = (\<lambda>_. [])"
| "a_init_small N (Suc i) =
     (let fl = a_init_small N i in
      if N AND 2 ^ i \<noteq> 0 then fl(i := push_bit (i + 1) (drop_bit (i + 1) N) # fl i) else fl)"

fun a_init_large :: "nat \<Rightarrow> nat \<Rightarrow> freelists" where
  "a_init_large N 0 = a_init_small N MAX_ORDER"
| "a_init_large N (Suc n) =
     (let fl = a_init_large N n in fl(MAX_ORDER := n * 2 ^ MAX_ORDER # fl MAX_ORDER))"

definition a_init :: "nat \<Rightarrow> freelists" where
  "a_init N = a_init_large N (N div 2 ^ MAX_ORDER)"

lemma and_exp_nat: "(N::nat) AND 2 ^ i = 0 \<longleftrightarrow> even (N div 2 ^ i)"
  by (metis and_exp_eq_0_iff_not_bit bit_iff_odd)

lemma div_exp_le: "(N::nat) div 2 ^ k * 2 ^ k \<le> N"
  by (rule div_times_less_eq_dividend)

lemma div_exp_Suc:
  "(N::nat) div 2 ^ i * 2 ^ i =
     N div 2 ^ Suc i * 2 ^ Suc i + (if odd (N div 2 ^ i) then 2 ^ i else 0)"
proof -
  have "N div 2 ^ Suc i = N div 2 ^ i div 2"
    by (metis div_mult2_eq mult.commute power_Suc)
  moreover have "N div 2 ^ i = 2 * (N div 2 ^ i div 2) + N div 2 ^ i mod 2" by simp
  ultimately have "N div 2 ^ i * 2 ^ i = (2 * (N div 2 ^ Suc i) + N div 2 ^ i mod 2) * 2 ^ i"
    by simp
  then show ?thesis by (simp add: algebra_simps odd_iff_mod_2_eq_one even_iff_mod_2_eq_zero)
qed

lemma init_small_block:
  assumes "(N::nat) AND 2 ^ i \<noteq> 0"
  shows "wf_block N (push_bit (i + 1) (drop_bit (i + 1) N)) i"
    and "blk (push_bit (i + 1) (drop_bit (i + 1) N)) i \<inter> {N div 2 ^ i * 2 ^ i ..< N} = {}"
    and "{N div 2 ^ i * 2 ^ i ..< N} \<union> blk (push_bit (i + 1) (drop_bit (i + 1) N)) i =
         {N div 2 ^ Suc i * 2 ^ Suc i ..< N}"
proof -
  have p: "push_bit (i + 1) (drop_bit (i + 1) N) = N div 2 ^ Suc i * 2 ^ Suc i"
    by (simp add: push_bit_eq_mult drop_bit_eq_div)
  have e: "N div 2 ^ i * 2 ^ i = N div 2 ^ Suc i * 2 ^ Suc i + 2 ^ i"
    using div_exp_Suc [of N i] assms by (simp add: and_exp_nat)
  moreover have "N div 2 ^ i * 2 ^ i \<le> N" by simp
  ultimately show "wf_block N (push_bit (i + 1) (drop_bit (i + 1) N)) i"
    and "blk (push_bit (i + 1) (drop_bit (i + 1) N)) i \<inter> {N div 2 ^ i * 2 ^ i ..< N} = {}"
    and "{N div 2 ^ i * 2 ^ i ..< N} \<union> blk (push_bit (i + 1) (drop_bit (i + 1) N)) i =
         {N div 2 ^ Suc i * 2 ^ Suc i ..< N}"
    unfolding wf_block_def p by (auto simp: blk_def)
qed

lemma init_large_block:
  assumes "Suc n \<le> N div 2 ^ MAX_ORDER"
  shows "wf_block N (n * 2 ^ MAX_ORDER) MAX_ORDER"
    and "blk (n * 2 ^ MAX_ORDER) MAX_ORDER \<inter>
         ({..< n * 2 ^ MAX_ORDER} \<union> {N div 2 ^ MAX_ORDER * 2 ^ MAX_ORDER ..< N}) = {}"
proof -
  let ?M = "2 ^ MAX_ORDER :: nat"
  have "Suc n * ?M \<le> N div ?M * ?M" using assms by (rule mult_le_mono1)
  then have le: "n * ?M + ?M \<le> N div ?M * ?M" by (simp add: add.commute)
  then have "n * ?M + ?M \<le> N" using div_exp_le [of N MAX_ORDER] by (rule order.trans)
  then show "wf_block N (n * ?M) MAX_ORDER" by (simp add: wf_block_def)
  show "blk (n * ?M) MAX_ORDER \<inter> ({..< n * ?M} \<union> {N div ?M * ?M ..< N}) = {}"
    using le by (auto simp: blk_def)
qed

lemma a_init_small_correct:
  assumes "i \<le> MAX_ORDER"
  shows "wf_lists N (a_init_small N i) \<and> coalesced (a_init_small N i) \<and>
         pages (a_init_small N i) = {N div 2 ^ i * 2 ^ i ..< N} \<and>
         (\<forall>j\<ge>i. a_init_small N i j = [])"
  using assms
proof (induction i)
  case 0
  then show ?case by (simp add: wf_lists_def coalesced_def pages_def)
next
  case (Suc i)
  let ?fl = "a_init_small N i" and ?p = "push_bit (i + 1) (drop_bit (i + 1) N)"
  have IH: "wf_lists N ?fl" "coalesced ?fl" "pages ?fl = {N div 2 ^ i * 2 ^ i ..< N}"
    and empty: "\<forall>j\<ge>i. ?fl j = []" and i: "i \<le> MAX_ORDER"
    using Suc by simp_all
  show ?case
  proof (cases "N AND 2 ^ i \<noteq> 0")
    case True
    note b = init_small_block [OF True, folded IH(3)]
    have "coalesced (?fl(i := ?p # ?fl i))"
      using empty by (intro coalesced_insert IH(2)) simp
    moreover have "a_init_small N (Suc i) = ?fl(i := ?p # ?fl i)"
      using True unfolding a_init_small.simps Let_def by (rule if_P)
    ultimately show ?thesis
      using wf_lists_insert [OF IH(1) i b(1,2)] b(3) empty
      by (metis Suc_leD fun_upd_other Suc_n_not_le_n)
  next
    case False
    then show ?thesis
      using IH empty div_exp_Suc [of N i] by (simp add: and_exp_nat Let_def del: power_Suc)
  qed
qed

lemma a_init_large_correct:
  assumes "n \<le> N div 2 ^ MAX_ORDER"
  shows "wf_lists N (a_init_large N n) \<and> coalesced (a_init_large N n) \<and>
         pages (a_init_large N n) =
           {..< n * 2 ^ MAX_ORDER} \<union> {N div 2 ^ MAX_ORDER * 2 ^ MAX_ORDER ..< N}"
  using assms
proof (induction n)
  case 0
  then show ?case using a_init_small_correct [of MAX_ORDER N] by simp
next
  case (Suc n)
  let ?M = "2 ^ MAX_ORDER :: nat" and ?fl = "a_init_large N n"
  have IH: "wf_lists N ?fl" "coalesced ?fl" "pages ?fl = {..< n * ?M} \<union> {N div ?M * ?M ..< N}"
    using Suc by simp_all
  note b = init_large_block [OF Suc.prems, folded IH(3)]
  have "coalesced (?fl(MAX_ORDER := n * ?M # ?fl MAX_ORDER))"
    by (intro coalesced_insert IH(2)) simp
  moreover have "pages ?fl \<union> blk (n * ?M) MAX_ORDER = {..< Suc n * ?M} \<union> {N div ?M * ?M ..< N}"
    unfolding IH(3) by (auto simp: blk_def)
  moreover have "a_init_large N (Suc n) = ?fl(MAX_ORDER := n * ?M # ?fl MAX_ORDER)"
    by (simp only: a_init_large.simps Let_def)
  ultimately show ?case
    using wf_lists_insert [OF IH(1) order.refl b] by metis
qed

lemma a_init_correct:
  "wf_lists N (a_init N)" "coalesced (a_init N)" "pages (a_init N) = {..<N}"
proof -
  have "{..< N div 2 ^ MAX_ORDER * 2 ^ MAX_ORDER} \<union> {N div 2 ^ MAX_ORDER * 2 ^ MAX_ORDER ..< N} = {..<N}"
    using div_exp_le [of N MAX_ORDER] by (intro ivl_disj_un) 
  then show "wf_lists N (a_init N)" "coalesced (a_init N)" "pages (a_init N) = {..<N}"
    using a_init_large_correct [of "N div 2 ^ MAX_ORDER" N] by (simp_all add: a_init_def)
qed

end
