(* ===== verification/Buddy.thy ===== *)
theory Buddy
  imports Layout Buddy_Spec
begin

unbundle bit_operations_syntax

section \<open>The buddy allocator of kernel/kalloc.c\<close>

text \<open>
  The first half of \<open>kernel/kalloc.c\<close>: free lists of blocks of \<open>2 ^ order\<close> pages,
  threaded through the free blocks themselves as doubly linked lists of \<open>struct run\<close>, and a
  bitmap with one bit for every block of every order (0: the block is in the free list
  of its order).  Page numbers and addresses are natural numbers: they stay below
  \<open>PHYSTOP\<close>, so the 64-bit arithmetic of the code does not wrap; the one subtraction of
  pointers that could go negative is done in \<open>int\<close> and converted as C does.
\<close>

subsection \<open>Data\<close>

text \<open>A \<open>struct run*\<close> is null, an element of \<open>freelist_page\<close>, or a free block.\<close>

datatype rptr = Null | Head nat | Block nat

record run =
  run_prev :: rptr
  run_next :: rptr

text \<open>
  \<open>runs\<close> is the memory seen as \<open>struct run\<close>: the list heads
  \<open>freelist_page[order]\<close> (\<open>Head order\<close>) and the first bytes of the free blocks
  (\<open>Block pa\<close>).
\<close>

record buddy_state =
  bitmap_page :: "nat \<Rightarrow> 8 word"
  runs :: "rptr \<Rightarrow> run"
  start :: nat
  pnum_max :: nat

definition set_next :: "rptr \<Rightarrow> rptr \<Rightarrow> buddy_state \<Rightarrow> buddy_state" where
  "set_next x v s = s\<lparr>runs := (runs s)(x := (runs s x)\<lparr>run_next := v\<rparr>)\<rparr>"

definition set_prev :: "rptr \<Rightarrow> rptr \<Rightarrow> buddy_state \<Rightarrow> buddy_state" where
  "set_prev x v s = s\<lparr>runs := (runs s)(x := (runs s x)\<lparr>run_prev := v\<rparr>)\<rparr>"

subsection \<open>Page numbers\<close>

definition pnum_to_pa :: "nat \<Rightarrow> buddy_state \<Rightarrow> (nat, buddy_state) outcome" where
  "pnum_to_pa pnum s =
     (if pnum_max s \<le> pnum then Panic ''pnum_to_pa''
      else Done (start s + pnum * PGSIZE) s)"

definition pa_to_pnum :: "nat \<Rightarrow> buddy_state \<Rightarrow> (nat, buddy_state) outcome" where
  "pa_to_pnum pa s =
     (if PHYSTOP \<le> pa then Panic ''pa_to_pnum''
      else Done (to_u64 (c_div (int pa - int (start s)) (int PGSIZE))) s)"

subsection \<open>The bitmap\<close>

definition buddy_bitmap_offset :: "nat list" where
  "buddy_bitmap_offset =
     [0x0000, 0x1000, 0x1800, 0x1c00, 0x1e00, 0x1f00, 0x1f80,
      0x1fc0, 0x1fe0, 0x1ff0, 0x1ff8, 0x1ffc, 0x1ffe]"

definition bit_index :: "nat \<Rightarrow> nat \<Rightarrow> nat" where
  "bit_index pnum order = buddy_bitmap_offset ! order + drop_bit order pnum div 8"

definition bit_mask :: "nat \<Rightarrow> nat \<Rightarrow> 8 word" where
  "bit_mask pnum order = push_bit (drop_bit order pnum mod 8) 1"

definition buddy_setbitmap ::
  "nat \<Rightarrow> nat \<Rightarrow> bool \<Rightarrow> buddy_state \<Rightarrow> (unit, buddy_state) outcome" where
  "buddy_setbitmap pnum order flag s =
     (if pnum AND (2 ^ order - 1) \<noteq> 0 then Panic ''buddy_setbitmap''
      else let i = bit_index pnum order; mask = bit_mask pnum order; b = bitmap_page s
           in Done () (s\<lparr>bitmap_page :=
                b(i := (if flag then b i OR mask else b i AND NOT mask))\<rparr>))"

definition buddy_getbitmap ::
  "nat \<Rightarrow> nat \<Rightarrow> buddy_state \<Rightarrow> (8 word, buddy_state) outcome" where
  "buddy_getbitmap pnum order s =
     (if pnum AND (2 ^ order - 1) \<noteq> 0 then Panic ''buddy_getbitmap''
      else Done (bitmap_page s (bit_index pnum order) AND bit_mask pnum order) s)"

subsection \<open>The free lists\<close>

definition buddy_getfirst :: "nat \<Rightarrow> buddy_state \<Rightarrow> rptr" where
  "buddy_getfirst order s = run_next (runs s (Head order))"

definition buddy_insertfirst :: "nat \<Rightarrow> nat \<Rightarrow> buddy_state \<Rightarrow> (unit, buddy_state) outcome" where
  "buddy_insertfirst newfirst order s =
     (let a = Block newfirst;
          s = set_prev a (Head order) s;
          s = set_next a (run_next (runs s (Head order))) s;
          s = (if run_next (runs s (Head order)) \<noteq> Null
               then set_prev (run_next (runs s (Head order))) a s else s);
          s = set_next (Head order) a s
      in bnd (pa_to_pnum newfirst s) (\<lambda>pnum s. buddy_setbitmap pnum order False s))"

definition buddy_erasefirst :: "nat \<Rightarrow> buddy_state \<Rightarrow> (nat, buddy_state) outcome" where
  "buddy_erasefirst order s =
     (case run_next (runs s (Head order)) of
        Null \<Rightarrow> Panic ''buddy_erasefirst.''
      | Head _ \<Rightarrow> Fault  \<comment> \<open>a list head is never an element of a list\<close>
      | Block a \<Rightarrow>
          (let nn = run_next (runs s (Block a));
               s = set_next (Head order) nn s;
               s = (if nn \<noteq> Null then set_prev (run_next (runs s (Head order))) (Head order) s else s)
           in bnd (pa_to_pnum a s) (\<lambda>pnum s.
              bnd (buddy_setbitmap pnum order True s) (\<lambda>_ s. Done a s))))"

definition buddy_erase :: "nat \<Rightarrow> nat \<Rightarrow> buddy_state \<Rightarrow> (unit, buddy_state) outcome" where
  "buddy_erase ptr order s =
     (let current = runs s (Block ptr) in
      if run_prev current = Null then Panic ''buddy_erase''
      else
        let s = set_next (run_prev current) (run_next current) s;
            s = (if run_next current \<noteq> Null then set_prev (run_next current) (run_prev current) s else s)
        in bnd (pa_to_pnum ptr s) (\<lambda>pnum s. buddy_setbitmap pnum order True s))"

subsection \<open>Allocation and release of blocks\<close>

text \<open>The search loop: the first order from \<open>free_order\<close> up whose list is not empty.\<close>

function find_order :: "nat \<Rightarrow> buddy_state \<Rightarrow> nat" where
  "find_order free_order s =
     (if free_order \<le> MAX_ORDER \<and> buddy_getfirst free_order s = Null
      then find_order (Suc free_order) s else free_order)"
  by pat_completeness auto
termination
  by (relation "measure (\<lambda>(k, s). Suc MAX_ORDER - k)") auto

declare find_order.simps [simp del]

text \<open>The split loop: the upper half goes to the list of the order below.\<close>

fun split_block :: "nat \<Rightarrow> nat \<Rightarrow> nat \<Rightarrow> buddy_state \<Rightarrow> (nat, buddy_state) outcome" where
  "split_block mem_block order 0 s = Done mem_block s"
| "split_block mem_block order (Suc k) s =
     (if order < Suc k
      then bnd (buddy_insertfirst (mem_block + 2 ^ k * PGSIZE) k s)
             (\<lambda>_ s. split_block mem_block order k s)
      else Done mem_block s)"

text \<open>The result is \<open>None\<close> for \<open>NULL\<close>.\<close>

definition buddy_alloc :: "nat \<Rightarrow> buddy_state \<Rightarrow> (nat option, buddy_state) outcome" where
  "buddy_alloc order s =
     (if MAX_ORDER < order then Panic ''buddy_alloc: order out of bound.''
      else let free_order = find_order order s in
        if MAX_ORDER < free_order then Done None s
        else bnd (buddy_erasefirst free_order s) (\<lambda>mem_block s.
             bnd (split_block mem_block order free_order s) (\<lambda>mem_block s.
             Done (Some mem_block) s)))"

text \<open>
  The merge loop.  On page numbers \<open>pnum ^ (1 << freeorder)\<close> is \<open>XOR\<close>, and
  \<open>pnum &= ~(1 << freeorder)\<close> clears a bit.
\<close>

function merge_loop :: "nat \<Rightarrow> nat \<Rightarrow> buddy_state \<Rightarrow> (nat \<times> nat, buddy_state) outcome" where
  "merge_loop pnum freeorder s =
     (if freeorder < MAX_ORDER then
        let buddy_pnum = pnum XOR 2 ^ freeorder;
            occupied = (\<lambda>s. bnd (pnum_to_pa pnum s) (\<lambda>pa s.
                            bnd (buddy_insertfirst pa freeorder s) (\<lambda>_ s.
                            Done (pnum, freeorder) s)))
        in if buddy_pnum < pnum_max s then
             bnd (buddy_getbitmap buddy_pnum freeorder s) (\<lambda>b s.
               if b = 0 then
                 bnd (pnum_to_pa buddy_pnum s) (\<lambda>buddy_ptr s.
                 bnd (buddy_erase buddy_ptr freeorder s) (\<lambda>_ s.
                 merge_loop (unset_bit freeorder pnum) (Suc freeorder) s))
               else occupied s)
           else occupied s
      else Done (pnum, freeorder) s)"
  by pat_completeness auto
termination
  by (relation "measure (\<lambda>(p, k, s). Suc MAX_ORDER - k)") auto

declare merge_loop.simps [simp del]

definition buddy_free :: "nat \<Rightarrow> nat \<Rightarrow> buddy_state \<Rightarrow> (unit, buddy_state) outcome" where
  "buddy_free block_start order s =
     bnd (pa_to_pnum block_start s) (\<lambda>pnum s.
       if pnum AND (2 ^ order - 1) \<noteq> 0 then Panic ''buddy_free''
       else bnd (merge_loop pnum order s) (\<lambda>(pnum, freeorder) s.
         if freeorder = MAX_ORDER
         then bnd (pnum_to_pa pnum s) (\<lambda>pa s. buddy_insertfirst pa freeorder s)
         else Done () s))"

subsection \<open>Initialisation\<close>

definition buddy_init_bitmap :: "buddy_state \<Rightarrow> buddy_state" where
  "buddy_init_bitmap s =
     s\<lparr>bitmap_page := (\<lambda>i. if i < 2 * PGSIZE then 255 else bitmap_page s i)\<rparr>"

fun init_heads :: "nat \<Rightarrow> buddy_state \<Rightarrow> buddy_state" where
  "init_heads 0 s = s"
| "init_heads (Suc n) s =
     (let s = init_heads n s in set_prev (Head n) Null (set_next (Head n) Null s))"

text \<open>
  The second loop inserts, for every bit \<open>i\<close> of \<open>pnum_max\<close>, the block that ends where
  the blocks of the higher bits begin: \<open>pnum_max & ~((1 << (i + 1)) - 1)\<close>.
\<close>

fun init_small :: "nat \<Rightarrow> buddy_state \<Rightarrow> (unit, buddy_state) outcome" where
  "init_small 0 s = Done () s"
| "init_small (Suc i) s =
     bnd (init_small i s) (\<lambda>_ s.
       if pnum_max s AND 2 ^ i \<noteq> 0
       then bnd (pnum_to_pa (push_bit (i + 1) (drop_bit (i + 1) (pnum_max s))) s)
              (\<lambda>pa s. buddy_insertfirst pa i s)
       else Done () s)"

text \<open>The third loop: \<open>n\<close> is the number of iterations done.\<close>

fun init_large :: "nat \<Rightarrow> buddy_state \<Rightarrow> (unit, buddy_state) outcome" where
  "init_large 0 s = Done () s"
| "init_large (Suc n) s =
     bnd (init_large n s) (\<lambda>_ s.
       bnd (pnum_to_pa (n * 2 ^ MAX_ORDER) s) (\<lambda>pa s. buddy_insertfirst pa MAX_ORDER s))"

definition buddy_init_freelist :: "buddy_state \<Rightarrow> (unit, buddy_state) outcome" where
  "buddy_init_freelist s =
     (let s = init_heads (Suc MAX_ORDER) s in
      bnd (init_small MAX_ORDER s) (\<lambda>_ s. init_large (pnum_max s div 2 ^ MAX_ORDER) s))"

text \<open>\<open>end\<close> is the first address after the kernel, fixed by the linker script.\<close>

definition buddy_init :: "nat \<Rightarrow> buddy_state \<Rightarrow> (unit, buddy_state) outcome" where
  "buddy_init kend s =
     (let s = s\<lparr>start := PGROUNDUP kend\<rparr>;
          s = s\<lparr>pnum_max := (PHYSTOP - start s) div PGSIZE\<rparr>
      in buddy_init_freelist (buddy_init_bitmap s))"

end
