(* ===== verification/Buddy_Refine.thy ===== *)
theory Buddy_Refine
  imports Buddy
begin

unbundle bit_operations_syntax

section \<open>The buddy allocator implements its specification\<close>

text \<open>
  The representation relation between the state of \<open>kernel/kalloc.c\<close> (links in the free
  blocks, bitmap, addresses) and the lists of theory \<open>Buddy_Spec\<close>, a simulation lemma
  for every operation, and the theorems on the code that follow.
\<close>

subsection \<open>Doubly linked lists in memory\<close>

primrec seg :: "(rptr \<Rightarrow> run) \<Rightarrow> rptr \<Rightarrow> nat list \<Rightarrow> bool" where
  "seg h p [] \<longleftrightarrow> True"
| "seg h p (a # as) \<longleftrightarrow>
     run_next (h p) = Block a \<and> run_prev (h (Block a)) = p \<and> seg h (Block a) as"

definition lastn :: "rptr \<Rightarrow> nat list \<Rightarrow> rptr" where
  "lastn p as = (if as = [] then p else Block (last as))"

definition dll :: "(rptr \<Rightarrow> run) \<Rightarrow> rptr \<Rightarrow> nat list \<Rightarrow> bool" where
  "dll h p as \<longleftrightarrow> seg h p as \<and> run_next (h (lastn p as)) = Null"

lemma lastn_simps [simp]: "lastn p [] = p" "lastn p (a # as) = lastn (Block a) as"
  by (auto simp: lastn_def)

lemma seg_append: "seg h p (as @ bs) \<longleftrightarrow> seg h p as \<and> seg h (lastn p as) bs"
  by (induction as arbitrary: p) auto

lemma lastn_append: "lastn p (as @ bs) = lastn (lastn p as) bs"
  by (induction as arbitrary: p) auto

lemma dll_Nil [simp]: "dll h p [] \<longleftrightarrow> run_next (h p) = Null"
  by (simp add: dll_def)

lemma dll_Cons [simp]:
  "dll h p (a # as) \<longleftrightarrow>
     run_next (h p) = Block a \<and> run_prev (h (Block a)) = p \<and> dll h (Block a) as"
  by (auto simp: dll_def)

lemma dll_append: "dll h p (as @ bs) \<longleftrightarrow> seg h p as \<and> dll h (lastn p as) bs"
  by (auto simp: dll_def seg_append lastn_append)

text \<open>A segment reads \<open>next\<close> of all its nodes but the last, and \<open>prev\<close> of all but the first.\<close>

lemma seg_cong:
  assumes "\<And>x. x \<in> set (p # map Block (butlast as)) \<Longrightarrow> as \<noteq> [] \<Longrightarrow> run_next (h' x) = run_next (h x)"
    and "\<And>a. a \<in> set as \<Longrightarrow> run_prev (h' (Block a)) = run_prev (h (Block a))"
  shows "seg h' p as = seg h p as"
  using assms
proof (induction as arbitrary: p)
  case Nil
  then show ?case by simp
next
  case (Cons a as)
  have "seg h' (Block a) as = seg h (Block a) as"
    using Cons.prems by (intro Cons.IH) (auto split: if_splits)
  then show ?case using Cons.prems by auto
qed

lemma dll_cong:
  assumes "run_next (h' p) = run_next (h p)"
    and "\<And>a. a \<in> set as \<Longrightarrow> run_next (h' (Block a)) = run_next (h (Block a)) \<and>
                 run_prev (h' (Block a)) = run_prev (h (Block a))"
  shows "dll h' p as = dll h p as"
  using assms by (induction as arbitrary: p) auto

subsection \<open>The bitmap\<close>

definition bit_pos :: "nat \<Rightarrow> nat \<Rightarrow> nat" where
  "bit_pos p k = buddy_bitmap_offset ! k * 8 + p div 2 ^ k"

lemma offset_closed_form:
  assumes "k \<le> MAX_ORDER" shows "buddy_bitmap_offset ! k * 8 = 2 ^ 16 - 2 ^ (16 - k)"
proof -
  have "k \<in> {0, 1, 2, 3, 4, 5, 6, 7, 8, 9, 10, 11}"
    using assms unfolding MAX_ORDER_def by (simp, presburger)
  then show ?thesis by (elim insertE) (simp_all add: buddy_bitmap_offset_def)
qed

lemma bit_pos_range:
  assumes "k \<le> MAX_ORDER" "p < 2 ^ 15"
  shows "2 ^ 16 - 2 ^ (16 - k) \<le> bit_pos p k" "bit_pos p k < 2 ^ 16 - 2 ^ (15 - k)"
proof -
  have k: "k \<le> 15" using assms(1) by (simp add: MAX_ORDER_def)
  have "p < 2 ^ (15 - k) * 2 ^ k" using assms(2) k by (simp flip: power_add)
  then have "p div 2 ^ k < 2 ^ (15 - k)" by (simp add: div_less_iff_less_mult)
  moreover have "(2::nat) ^ (16 - k) = 2 * 2 ^ (15 - k)"
    using k by (simp add: Suc_diff_le flip: power_Suc)
  moreover have "(2::nat) ^ (16 - k) \<le> 2 ^ 16" by (rule power_increasing) simp_all
  ultimately show "2 ^ 16 - 2 ^ (16 - k) \<le> bit_pos p k" "bit_pos p k < 2 ^ 16 - 2 ^ (15 - k)"
    using offset_closed_form [OF assms(1)] unfolding bit_pos_def by linarith+
qed

lemma bit_pos_less:
  assumes "k < j" "j \<le> MAX_ORDER" "p < 2 ^ 15" "q < 2 ^ 15"
  shows "bit_pos p k < bit_pos q j"
proof -
  have "bit_pos p k < 2 ^ 16 - 2 ^ (15 - k)" using bit_pos_range(2) [of k p] assms by simp
  also have "\<dots> \<le> 2 ^ 16 - 2 ^ (16 - j)"
    using assms(1,2) by (intro diff_le_mono2 power_increasing) (auto simp: MAX_ORDER_def)
  also have "\<dots> \<le> bit_pos q j" using bit_pos_range(1) assms by simp
  finally show ?thesis .
qed

lemma bit_pos_inj:
  assumes "k \<le> MAX_ORDER" "j \<le> MAX_ORDER" "p < 2 ^ 15" "q < 2 ^ 15"
    and "2 ^ k dvd p" "2 ^ j dvd q" "bit_pos p k = bit_pos q j"
  shows "p = q \<and> k = j"
proof -
  have "k = j" using bit_pos_less [of k j p q] bit_pos_less [of j k q p] assms
    by (metis linorder_neqE_nat less_irrefl)
  moreover from this have "p div 2 ^ k = q div 2 ^ k" using assms(7) by (simp add: bit_pos_def)
  ultimately show ?thesis using assms(5,6) by (metis dvd_div_mult_self)
qed

lemma bit_index_pos: "bit_index p k = bit_pos p k div 8"
  by (simp add: bit_index_def bit_pos_def drop_bit_eq_div)

lemma bit_mask_pos: "bit_mask p k = push_bit (bit_pos p k mod 8) 1"
  by (simp add: bit_mask_def bit_pos_def drop_bit_eq_div)

lemma aligned_mask: "2 ^ k dvd (p::nat) \<Longrightarrow> p AND (2 ^ k - 1) = 0"
  by (simp only: and_low_mask_nat dvd_eq_mod_eq_0)

text \<open>The free bit of block \<open>p\<close> of order \<open>k\<close>: clear means free.\<close>

definition free_bit :: "buddy_state \<Rightarrow> nat \<Rightarrow> nat \<Rightarrow> bool" where
  "free_bit s p k \<longleftrightarrow> \<not> bit (bitmap_page s (bit_pos p k div 8)) (bit_pos p k mod 8)"

lemma getbitmap_free:
  assumes "2 ^ k dvd p"
  shows "\<exists>b. buddy_getbitmap p k s = Done b s \<and> (b = 0 \<longleftrightarrow> free_bit s p k)"
  unfolding buddy_getbitmap_def aligned_mask [OF assms]
  by (simp add: free_bit_def bit_index_pos bit_mask_pos and_exp_eq_0_iff_not_bit)

lemma setbitmap_free:
  assumes "2 ^ k dvd p"
  obtains b where "buddy_setbitmap p k flag s = Done () (s\<lparr>bitmap_page := b\<rparr>)"
    "\<And>q j. bit_pos q j = bit_pos p k \<Longrightarrow> free_bit (s\<lparr>bitmap_page := b\<rparr>) q j = (\<not> flag)"
    "\<And>q j. bit_pos q j \<noteq> bit_pos p k \<Longrightarrow> free_bit (s\<lparr>bitmap_page := b\<rparr>) q j = free_bit s q j"
proof
  let ?i = "bit_pos p k div 8" and ?m = "push_bit (bit_pos p k mod 8) 1 :: 8 word"
  let ?b = "(bitmap_page s)(?i := (if flag then bitmap_page s ?i OR ?m else bitmap_page s ?i AND NOT ?m))"
  show "buddy_setbitmap p k flag s = Done () (s\<lparr>bitmap_page := ?b\<rparr>)"
    unfolding buddy_setbitmap_def aligned_mask [OF assms] by (simp add: bit_index_pos bit_mask_pos Let_def)
  have m: "bit_pos p k mod 8 < 8" by simp
  then show "free_bit (s\<lparr>bitmap_page := ?b\<rparr>) q j = (\<not> flag)" if "bit_pos q j = bit_pos p k" for q j
    using that by (simp add: free_bit_def bit_simps)
  show "free_bit (s\<lparr>bitmap_page := ?b\<rparr>) q j = free_bit s q j" if "bit_pos q j \<noteq> bit_pos p k" for q j
  proof -
    have "bit_pos q j div 8 \<noteq> ?i \<or> bit_pos q j mod 8 \<noteq> bit_pos p k mod 8"
      using that by (metis div_mult_mod_eq)
    then show ?thesis by (auto simp: free_bit_def bit_simps)
  qed
qed

subsection \<open>The representation relation\<close>

definition addr :: "buddy_state \<Rightarrow> nat \<Rightarrow> nat" where
  "addr s p = start s + p * PGSIZE"

definition geometry :: "buddy_state \<Rightarrow> bool" where
  "geometry s \<longleftrightarrow> KERNBASE \<le> start s \<and> start s + pnum_max s * PGSIZE = PHYSTOP"

definition links :: "buddy_state \<Rightarrow> freelists \<Rightarrow> bool" where
  "links s fl \<longleftrightarrow> (\<forall>k\<le>MAX_ORDER. dll (runs s) (Head k) (map (addr s) (fl k)))"

definition bits :: "buddy_state \<Rightarrow> freelists \<Rightarrow> bool" where
  "bits s fl \<longleftrightarrow> (\<forall>k\<le>MAX_ORDER. \<forall>p<pnum_max s.
     2 ^ k dvd p \<longrightarrow> free_bit s p k = (p \<in> set (fl k)))"

definition buddy_rep :: "buddy_state \<Rightarrow> freelists \<Rightarrow> bool" where
  "buddy_rep s fl \<longleftrightarrow> geometry s \<and> wf_lists (pnum_max s) fl \<and> links s fl \<and> bits s fl"

lemma linksD: "links s fl \<Longrightarrow> k \<le> MAX_ORDER \<Longrightarrow> dll (runs s) (Head k) (map (addr s) (fl k))"
  by (simp add: links_def)

lemma pnum_max_le: "geometry s \<Longrightarrow> pnum_max s \<le> 2 ^ 15"
  by (simp add: geometry_def PHYSTOP_def KERNBASE_def PGSIZE_def)

lemma addr_eq_iff [simp]: "addr s p = addr s q \<longleftrightarrow> p = q"
  by (simp add: addr_def PGSIZE_def)

lemma pa_to_pnum_addr:
  assumes "geometry s" "p < pnum_max s" shows "pa_to_pnum (addr s p) s = Done p s"
proof -
  have "addr s p < PHYSTOP"
    using assms by (simp add: geometry_def addr_def PGSIZE_def)
  moreover have "int (addr s p) - int (start s) = int (p * PGSIZE)" by (simp add: addr_def)
  moreover have "p < 2 ^ 64" using assms pnum_max_le [of s] by simp
  moreover have "c_div (int (p * PGSIZE)) (int PGSIZE) = int p"
    unfolding c_div_nat by (simp add: PGSIZE_def)
  ultimately show ?thesis by (simp add: pa_to_pnum_def to_u64_nat)
qed

lemma pnum_to_pa_addr: "p < pnum_max s \<Longrightarrow> pnum_to_pa p s = Done (addr s p) s"
  by (simp add: pnum_to_pa_def addr_def)

text \<open>Setting one bit is putting the block into its list or taking it out.\<close>

lemma setbitmap_bits:
  assumes "geometry s" "bits s fl" "k \<le> MAX_ORDER" "p < pnum_max s" "2 ^ k dvd p"
    and "set xs = (if flag then set (fl k) - {p} else insert p (set (fl k)))"
  obtains b where "buddy_setbitmap p k flag s = Done () (s\<lparr>bitmap_page := b\<rparr>)"
    "bits (s\<lparr>bitmap_page := b\<rparr>) (fl(k := xs))"
proof -
  obtain b where b: "buddy_setbitmap p k flag s = Done () (s\<lparr>bitmap_page := b\<rparr>)"
    "\<And>q j. bit_pos q j = bit_pos p k \<Longrightarrow> free_bit (s\<lparr>bitmap_page := b\<rparr>) q j = (\<not> flag)"
    "\<And>q j. bit_pos q j \<noteq> bit_pos p k \<Longrightarrow> free_bit (s\<lparr>bitmap_page := b\<rparr>) q j = free_bit s q j"
    using setbitmap_free [OF assms(5)] by blast
  have "free_bit (s\<lparr>bitmap_page := b\<rparr>) q j = (q \<in> set ((fl(k := xs)) j))"
    if "j \<le> MAX_ORDER" "q < pnum_max s" "2 ^ j dvd q" for q j
  proof (cases "bit_pos q j = bit_pos p k")
    case True
    then have "q = p" "j = k"
      using bit_pos_inj [of j k q p] that assms pnum_max_le [of s] by auto
    then show ?thesis using True b(2) assms(6) by auto
  next
    case False
    then have "(q, j) \<noteq> (p, k)" by blast
    then show ?thesis using False b(3) assms(2,6) that by (auto simp: bits_def)
  qed
  then show ?thesis using that b(1) by (simp add: bits_def)
qed

subsection \<open>The list operations\<close>

lemma not_linked:
  assumes "wf_lists N fl" "k \<le> MAX_ORDER" "p \<in> set (fl k)" "j \<le> MAX_ORDER" "j \<noteq> k"
  shows "p \<notin> set (fl j)"
  using wf_lists_disjoint [OF assms(1,2,4,3), of p p] assms(5) by auto

lemma not_free_block:
  assumes "blk p k \<inter> pages fl = {}" "j \<le> MAX_ORDER"
  shows "p \<notin> set (fl j)"
  using assms pagesI [of j p fl p] blk_mem [of p] by blast

lemma addr_simps [simp]:
  "addr (s\<lparr>runs := h\<rparr>) = addr s" "addr (s\<lparr>bitmap_page := b\<rparr>) = addr s"
  by (auto simp: addr_def fun_eq_iff)

lemma geometry_simps [simp]:
  "geometry (s\<lparr>runs := h\<rparr>) = geometry s" "geometry (s\<lparr>bitmap_page := b\<rparr>) = geometry s"
  by (auto simp: geometry_def)

lemma links_bitmap [simp]: "links (s\<lparr>bitmap_page := b\<rparr>) fl = links s fl"
  by (simp add: links_def)

lemma bits_runs [simp]: "bits (s\<lparr>runs := h\<rparr>) fl = bits s fl"
  by (simp add: bits_def free_bit_def)

text \<open>
  A change of the links of list \<open>k\<close> only: the other lists need their nodes unchanged.
\<close>

lemma links_update:
  assumes "links s fl" "dll h (Head k) (map (addr s) xs)"
    and "\<And>j. j \<le> MAX_ORDER \<Longrightarrow> j \<noteq> k \<Longrightarrow> run_next (h (Head j)) = run_next (runs s (Head j))"
    and "\<And>j q. j \<le> MAX_ORDER \<Longrightarrow> j \<noteq> k \<Longrightarrow> q \<in> set (fl j) \<Longrightarrow>
           run_next (h (Block (addr s q))) = run_next (runs s (Block (addr s q))) \<and>
           run_prev (h (Block (addr s q))) = run_prev (runs s (Block (addr s q)))"
  shows "links (s\<lparr>runs := h\<rparr>) (fl(k := xs))"
  unfolding links_def
proof (intro allI impI)
  fix j assume j: "j \<le> MAX_ORDER"
  show "dll (runs (s\<lparr>runs := h\<rparr>)) (Head j) (map (addr (s\<lparr>runs := h\<rparr>)) ((fl(k := xs)) j))"
  proof (cases "j = k")
    case True
    then show ?thesis using assms(2) by simp
  next
    case False
    then have "dll h (Head j) (map (addr s) (fl j)) = dll (runs s) (Head j) (map (addr s) (fl j))"
      using assms(3,4) j by (intro dll_cong) auto
    then show ?thesis using assms(1) False j by (simp add: links_def)
  qed
qed

text \<open>
  The states an operation of the allocator may lead to: same geometry, new lists.
\<close>

definition same_geometry :: "buddy_state \<Rightarrow> buddy_state \<Rightarrow> bool" where
  "same_geometry s t \<longleftrightarrow> start t = start s \<and> pnum_max t = pnum_max s"

lemma same_geometry_simps [simp]:
  "same_geometry s s" "same_geometry s (t\<lparr>runs := h\<rparr>) = same_geometry s t"
  "same_geometry s (t\<lparr>bitmap_page := b\<rparr>) = same_geometry s t"
  by (auto simp: same_geometry_def)

lemma same_geometry_trans: "same_geometry s t \<Longrightarrow> same_geometry t u \<Longrightarrow> same_geometry s u"
  by (simp add: same_geometry_def)

lemma same_geometryD:
  "same_geometry s t \<Longrightarrow> addr t = addr s" "same_geometry s t \<Longrightarrow> pnum_max t = pnum_max s"
  by (auto simp: same_geometry_def addr_def fun_eq_iff)

definition sim :: "('a, buddy_state) outcome \<Rightarrow> buddy_state \<Rightarrow> 'a \<Rightarrow> freelists \<Rightarrow> bool" where
  "sim m s r fl \<longleftrightarrow> (\<exists>t. m = Done r t \<and> same_geometry s t \<and> buddy_rep t fl)"

lemma simE:
  assumes "sim m s r fl" obtains t where "m = Done r t" "same_geometry s t" "buddy_rep t fl"
  using assms by (auto simp: sim_def)

lemma sim_bnd:
  assumes "sim m s r fl" "\<And>t. same_geometry s t \<Longrightarrow> buddy_rep t fl \<Longrightarrow> sim (f r t) t r' fl'"
  shows "sim (bnd m f) s r' fl'"
  using assms by (fastforce simp: sim_def intro: same_geometry_trans)

lemma sim_Done: "buddy_rep t fl \<Longrightarrow> sim (Done r t) t r fl"
  by (auto simp: sim_def)

lemma wf_blockD: "wf_block N p k \<Longrightarrow> p < N" "wf_block N p k \<Longrightarrow> 2 ^ k dvd p"
  by (auto simp: wf_block_def intro: less_le_trans [of p "p + 2 ^ k"])

text \<open>Every list operation ends by marking the block it has linked or unlinked.\<close>

lemma mark_sim:
  assumes "buddy_rep s fl" "k \<le> MAX_ORDER" "wf_block (pnum_max s) p k"
    and "links (s\<lparr>runs := h\<rparr>) (fl(k := xs))" "wf_lists (pnum_max s) (fl(k := xs))"
    and "set xs = (if flag then set (fl k) - {p} else insert p (set (fl k)))"
  shows "sim (bnd (pa_to_pnum (addr s p) (s\<lparr>runs := h\<rparr>))
           (\<lambda>pnum s. buddy_setbitmap pnum k flag s)) s () (fl(k := xs))"
proof -
  let ?s = "s\<lparr>runs := h\<rparr>"
  have g: "geometry ?s" "bits ?s fl" "p < pnum_max ?s" "2 ^ k dvd p"
    using assms(1,3) by (auto simp: buddy_rep_def wf_blockD)
  obtain b where "buddy_setbitmap p k flag ?s = Done () (?s\<lparr>bitmap_page := b\<rparr>)"
    "bits (?s\<lparr>bitmap_page := b\<rparr>) (fl(k := xs))"
    using setbitmap_bits [OF g(1,2) assms(2) g(3,4) assms(6)] by blast
  then show ?thesis
    using assms(4,5) g pa_to_pnum_addr [OF g(1,3)] links_bitmap [of _ ?s]
    by (simp add: sim_def buddy_rep_def)
qed

text \<open>The writes of the three operations on the links, as functions of the memory.\<close>

definition h_next :: "rptr \<Rightarrow> rptr \<Rightarrow> (rptr \<Rightarrow> run) \<Rightarrow> rptr \<Rightarrow> run" where
  "h_next x v h = h(x := (h x)\<lparr>run_next := v\<rparr>)"

definition h_prev :: "rptr \<Rightarrow> rptr \<Rightarrow> (rptr \<Rightarrow> run) \<Rightarrow> rptr \<Rightarrow> run" where
  "h_prev x v h = h(x := (h x)\<lparr>run_prev := v\<rparr>)"

lemma h_simps [simp]:
  "run_next (h_next x v h y) = (if y = x then v else run_next (h y))"
  "run_prev (h_next x v h y) = run_prev (h y)"
  "run_prev (h_prev x v h y) = (if y = x then v else run_prev (h y))"
  "run_next (h_prev x v h y) = run_next (h y)"
  by (simp_all add: h_next_def h_prev_def)

definition h_insert :: "nat \<Rightarrow> rptr \<Rightarrow> (rptr \<Rightarrow> run) \<Rightarrow> rptr \<Rightarrow> run" where
  "h_insert a p h =
     (let n = run_next (h p); h = h_next (Block a) n (h_prev (Block a) p h)
      in h_next p (Block a) (if n \<noteq> Null then h_prev n (Block a) h else h))"

definition h_erase :: "rptr \<Rightarrow> rptr \<Rightarrow> (rptr \<Rightarrow> run) \<Rightarrow> rptr \<Rightarrow> run" where
  "h_erase p n h = (let h = h_next p n h in if n \<noteq> Null then h_prev n p h else h)"

lemma insertfirst_heap:
  "buddy_insertfirst a k s =
     bnd (pa_to_pnum a (s\<lparr>runs := h_insert a (Head k) (runs s)\<rparr>))
       (\<lambda>pnum s. buddy_setbitmap pnum k False s)"
  by (simp add: buddy_insertfirst_def set_prev_def set_next_def h_insert_def h_next_def h_prev_def
      Let_def)

lemma erasefirst_heap:
  "run_next (runs s (Head k)) = Block a \<Longrightarrow>
   buddy_erasefirst k s =
     bnd (bnd (pa_to_pnum a (s\<lparr>runs := h_erase (Head k) (run_next (runs s (Block a))) (runs s)\<rparr>))
       (\<lambda>pnum s. buddy_setbitmap pnum k True s)) (\<lambda>_ s. Done a s)"
  by (simp add: buddy_erasefirst_def set_prev_def set_next_def h_erase_def h_next_def h_prev_def
      Let_def bnd_assoc)

lemma erase_heap:
  "run_prev (runs s (Block a)) = p \<Longrightarrow> p \<noteq> Null \<Longrightarrow>
   buddy_erase a k s =
     bnd (pa_to_pnum a (s\<lparr>runs := h_erase p (run_next (runs s (Block a))) (runs s)\<rparr>))
       (\<lambda>pnum s. buddy_setbitmap pnum k True s)"
  by (simp add: buddy_erase_def set_prev_def set_next_def h_erase_def h_next_def h_prev_def
      Let_def)

lemma dll_insert:
  assumes "dll h (Head k) as" "a \<notin> set as" "distinct as"
  shows "dll (h_insert a (Head k) h) (Head k) (a # as)"
proof (cases as)
  case Nil
  then show ?thesis using assms by (simp add: h_insert_def)
next
  case (Cons b bs)
  have "dll (h_insert a (Head k) h) (Block b) bs = dll h (Block b) bs"
    using assms Cons by (intro dll_cong) (auto simp: h_insert_def Let_def)
  then show ?thesis using assms Cons by (auto simp: h_insert_def Let_def)
qed

lemma dll_erase:
  assumes "dll h (Head k) (as @ a # bs)" "distinct (as @ a # bs)"
  shows "dll (h_erase (lastn (Head k) as) (run_next (h (Block a))) h) (Head k) (as @ bs)"
proof -
  let ?l = "lastn (Head k) as" and ?n = "run_next (h (Block a))"
  let ?h = "h_erase ?l ?n h"
  have h: "seg h (Head k) as" "dll h (Block a) bs" using assms(1) by (auto simp: dll_append)
  have n: "?n = (if bs = [] then Null else Block (hd bs))" using h(2) by (cases bs) auto
  have l: "?l = (if as = [] then Head k else Block (last as))" by (simp add: lastn_def)
  have nl: "last as \<notin> set bs" if "as \<noteq> []" using assms(2) last_in_set [OF that] by auto
  have "last as \<notin> set (butlast as)" if "as \<noteq> []"
    using assms(2) that by (metis append_butlast_last_id distinct_append not_distinct_conv_prefix)
  then have "seg ?h (Head k) as"
    using h(1) assms(2) n l
    by (subst seg_cong [of _ _ _ h]) (auto simp: h_erase_def Let_def dest: in_set_butlastD)
  moreover have "dll ?h ?l bs"
  proof (cases bs)
    case Nil
    then show ?thesis using n by (simp add: h_erase_def)
  next
    case (Cons c cs)
    have "dll ?h (Block c) cs = dll h (Block c) cs"
      using assms(2) Cons l n nl
      by (intro dll_cong) (auto simp: h_erase_def Let_def)
    then show ?thesis using h(2) Cons n l assms(2) by (auto simp: h_erase_def Let_def)
  qed
  ultimately show ?thesis by (simp add: dll_append)
qed

lemma insertfirst_sim:
  assumes rep: "buddy_rep s fl" and k: "k \<le> MAX_ORDER" and b: "wf_block (pnum_max s) p k"
    and dis: "blk p k \<inter> pages fl = {}"
  shows "sim (buddy_insertfirst (addr s p) k s) s () (fl(k := p # fl k))"
proof -
  let ?h = "h_insert (addr s p) (Head k) (runs s)"
  have wf: "wf_lists (pnum_max s) fl" and l: "links s fl" using rep by (auto simp: buddy_rep_def)
  have new: "p \<notin> set (fl j)" if "j \<le> MAX_ORDER" for j by (rule not_free_block [OF dis that])
  have dk: "dll (runs s) (Head k) (map (addr s) (fl k))" by (rule linksD [OF l k])
  have n: "run_next (runs s (Head k)) = Null \<or>
    (\<exists>b\<in>set (fl k). run_next (runs s (Head k)) = Block (addr s b))"
    using dk by (cases "fl k") auto
  have "links (s\<lparr>runs := ?h\<rparr>) (fl(k := p # fl k))"
  proof (rule links_update [OF l])
    show "dll ?h (Head k) (map (addr s) (p # fl k))"
      using dll_insert [OF dk, of "addr s p"] new [OF k] wf_listsD(1) [OF wf k]
      by (simp add: distinct_map inj_on_def inj_image_mem_iff inj_def)
  next
    fix j assume j: "j \<le> MAX_ORDER" "j \<noteq> k"
    show "run_next (?h (Head j)) = run_next (runs s (Head j))"
      using j by (simp add: h_insert_def Let_def)
    fix q assume q: "q \<in> set (fl j)"
    then have "q \<noteq> p" "q \<notin> set (fl k)" using new j not_linked [OF wf j(1) q k] by auto
    then show "run_next (?h (Block (addr s q))) = run_next (runs s (Block (addr s q))) \<and>
        run_prev (?h (Block (addr s q))) = run_prev (runs s (Block (addr s q)))"
      using n by (auto simp: h_insert_def Let_def)
  qed
  then show ?thesis
    using mark_sim [OF rep k b, of ?h "p # fl k" False] wf_lists_insert(1) [OF wf k b dis]
    by (simp add: insertfirst_heap)
qed

text \<open>Unlinking any block of a list, wherever it is.\<close>

lemma unlink_links:
  assumes wf: "wf_lists (pnum_max s) fl" and l: "links s fl" and k: "k \<le> MAX_ORDER"
    and fl: "fl k = as @ p # bs"
  shows "links (s\<lparr>runs := h_erase (lastn (Head k) (map (addr s) as))
           (run_next (runs s (Block (addr s p)))) (runs s)\<rparr>) (fl(k := as @ bs))"
    (is "links (s\<lparr>runs := ?h\<rparr>) _")
proof (rule links_update [OF l])
  have dk: "dll (runs s) (Head k) (map (addr s) as @ addr s p # map (addr s) bs)"
    using linksD [OF l k] fl by simp
  have d: "distinct (as @ p # bs)" using wf_listsD(1) [OF wf k] fl by simp
  have "distinct (map (addr s) (as @ p # bs))"
    using d by (simp only: distinct_map) (simp add: inj_on_def)
  then show "dll ?h (Head k) (map (addr s) (as @ bs))"
    using dll_erase [OF dk] by simp
  fix j assume j: "j \<le> MAX_ORDER" "j \<noteq> k"
  have "last as \<in> set as" if "as \<noteq> []" using that by simp
  then have m: "lastn (Head k) (map (addr s) as) = Head k \<or>
      (\<exists>b\<in>set (fl k). lastn (Head k) (map (addr s) as) = Block (addr s b))"
    using fl by (auto simp: lastn_def last_map)
  have n: "run_next (runs s (Block (addr s p))) = Null \<or>
      (\<exists>b\<in>set (fl k). run_next (runs s (Block (addr s p))) = Block (addr s b))"
    using dk fl by (cases bs) (auto simp: dll_append)
  show "run_next (?h (Head j)) = run_next (runs s (Head j))"
    using j m by (auto simp: h_erase_def Let_def)
  fix q assume q: "q \<in> set (fl j)"
  have "q \<notin> set (fl k)" using j not_linked [OF wf j(1) q k] by auto
  then show "run_next (?h (Block (addr s q))) = run_next (runs s (Block (addr s q))) \<and>
      run_prev (?h (Block (addr s q))) = run_prev (runs s (Block (addr s q)))"
    using m n by (auto simp: h_erase_def Let_def)
qed

lemma wf_lists_block: "wf_lists N fl \<Longrightarrow> k \<le> MAX_ORDER \<Longrightarrow> p \<in> set (fl k) \<Longrightarrow> wf_block N p k"
  by (auto simp: wf_lists_def)

lemma erasefirst_sim:
  assumes rep: "buddy_rep s fl" and k: "k \<le> MAX_ORDER" and ne: "fl k = p # ps"
  shows "sim (buddy_erasefirst k s) s (addr s p) (fl(k := ps))"
proof -
  have wf: "wf_lists (pnum_max s) fl" and l: "links s fl" using rep by (auto simp: buddy_rep_def)
  have first: "run_next (runs s (Head k)) = Block (addr s p)"
    using linksD [OF l k] ne by simp
  have "sim (bnd (pa_to_pnum (addr s p) (s\<lparr>runs :=
         h_erase (Head k) (run_next (runs s (Block (addr s p)))) (runs s)\<rparr>))
       (\<lambda>pnum s. buddy_setbitmap pnum k True s)) s () (fl(k := ps))"
    using unlink_links [OF wf l k, of "[]" p ps] wf_lists_tl(1) [OF wf k] wf_listsD(1) [OF wf k]
      wf_lists_block [OF wf k, of p] ne
    by (intro mark_sim [OF rep k]) auto
  then show ?thesis
    unfolding erasefirst_heap [OF first] by (rule sim_bnd) (simp add: sim_Done)
qed

lemma erase_sim:
  assumes rep: "buddy_rep s fl" and k: "k \<le> MAX_ORDER" and p: "p \<in> set (fl k)"
  shows "sim (buddy_erase (addr s p) k s) s () (fl(k := remove1 p (fl k)))"
proof -
  have wf: "wf_lists (pnum_max s) fl" and l: "links s fl" using rep by (auto simp: buddy_rep_def)
  obtain as bs where ab: "fl k = as @ p # bs" using split_list [OF p] by blast
  then have d: "p \<notin> set as" "distinct (as @ p # bs)" using wf_listsD(1) [OF wf k] by auto
  have r: "remove1 p (fl k) = as @ bs" using ab d by (simp add: remove1_append)
  have prv: "run_prev (runs s (Block (addr s p))) = lastn (Head k) (map (addr s) as)"
    using linksD [OF l k] ab by (simp add: dll_append)
  have nn: "lastn (Head k) (map (addr s) as) \<noteq> Null" by (simp add: lastn_def)
  show ?thesis
    unfolding erase_heap [OF prv nn]
    using unlink_links [OF wf l k ab] wf_lists_remove1(1) [OF wf k p] d ab
      wf_lists_block [OF wf k p] r
    by (intro mark_sim [OF rep k]) auto
qed

subsection \<open>Allocation\<close>

lemma getfirst_Null:
  "buddy_rep s fl \<Longrightarrow> k \<le> MAX_ORDER \<Longrightarrow> buddy_getfirst k s = Null \<longleftrightarrow> fl k = []"
  using linksD [of s fl k] by (cases "fl k") (auto simp: buddy_rep_def buddy_getfirst_def)

lemma find_order_sim: "buddy_rep s fl \<Longrightarrow> find_order k s = a_find k fl"
proof (induction k s rule: find_order.induct)
  case (1 k s)
  then show ?case
    by (subst find_order.simps, subst a_find.simps) (simp add: getfirst_Null cong: conj_cong)
qed

lemma split_sim:
  assumes "buddy_rep s fl" "k \<le> MAX_ORDER" "order \<le> k" "wf_block (pnum_max s) p k"
    and "blk p k \<inter> pages fl = {}"
  shows "sim (split_block (addr s p) order k s) s (addr s p) (a_split p order k fl)"
  using assms
proof (induction p order k fl arbitrary: s rule: a_split.induct)
  case (1 p order fl)
  then show ?case by (simp add: sim_Done)
next
  case (2 p order k fl)
  show ?case
  proof (cases "order < Suc k")
    case True
    note h = wf_block_halves [OF "2.prems"(4)]
    have up: "blk (p + 2 ^ k) k \<inter> pages fl = {}" and lo: "blk p k \<inter> pages fl = {}"
      using "2.prems"(5) by (auto simp: blk_half)
    have k: "k \<le> MAX_ORDER" using "2.prems"(2) by simp
    have wf: "wf_lists (pnum_max s) fl" using "2.prems"(1) by (simp add: buddy_rep_def)
    have pg: "pages (fl(k := (p + 2 ^ k) # fl k)) = pages fl \<union> blk (p + 2 ^ k) k"
      by (rule wf_lists_insert(2) [OF wf k h(2) up])
    have dis: "blk p k \<inter> pages (fl(k := (p + 2 ^ k) # fl k)) = {}"
      unfolding pg using lo blk_halves_disjoint [of p k] by blast
    have ad: "addr s p + 2 ^ k * PGSIZE = addr s (p + 2 ^ k)" by (simp add: addr_def algebra_simps)
    have ins: "sim (buddy_insertfirst (addr s p + 2 ^ k * PGSIZE) k s) s ()
        (fl(k := (p + 2 ^ k) # fl k))"
      unfolding ad by (rule insertfirst_sim [OF "2.prems"(1) k h(2) up])
    have "sim (bnd (buddy_insertfirst (addr s p + 2 ^ k * PGSIZE) k s)
             (\<lambda>_ s'. split_block (addr s p) order k s')) s (addr s p)
             (a_split p order k (fl(k := (p + 2 ^ k) # fl k)))"
    proof (rule sim_bnd [OF ins])
      fix t assume t: "same_geometry s t" "buddy_rep t (fl(k := (p + 2 ^ k) # fl k))"
      show "sim (split_block (addr s p) order k t) t (addr s p)
              (a_split p order k (fl(k := (p + 2 ^ k) # fl k)))"
        using "2.IH" [OF True t(2) k _ _ dis] True h(1) same_geometryD [OF t(1)]
        by (simp only: less_Suc_eq_le)
    qed
    then show ?thesis using True by simp
  next
    case False
    then show ?thesis using "2.prems" by (simp add: sim_Done)
  qed
qed

lemma alloc_sim:
  assumes rep: "buddy_rep s fl" and ord: "order \<le> MAX_ORDER"
  shows "sim (buddy_alloc order s) s (map_option (addr s) (fst (a_alloc order fl)))
           (snd (a_alloc order fl))"
proof -
  define k where "k = a_find order fl"
  have fo: "find_order order s = k" unfolding k_def by (rule find_order_sim [OF rep])
  show ?thesis
  proof (cases "MAX_ORDER < k")
    case True
    then show ?thesis
      using ord rep by (simp add: buddy_alloc_def fo a_alloc_def flip: k_def add: sim_Done)
  next
    case False
    then have k: "k \<le> MAX_ORDER" by simp
    then obtain p ps where ne: "fl k = p # ps"
      using a_find_nonempty [of order fl] by (auto simp: k_def neq_Nil_conv)
    have wf: "wf_lists (pnum_max s) fl" using rep by (simp add: buddy_rep_def)
    have b: "wf_block (pnum_max s) p k" using wf_lists_block [OF wf k] ne by simp
    have pg: "blk p k \<inter> pages (fl(k := ps)) = {}" using wf_lists_tl(2) [OF wf k] ne by auto
    have ge: "order \<le> k" unfolding k_def by (rule a_find_ge)
    have "sim (bnd (buddy_erasefirst k s) (\<lambda>mem_block s.
             bnd (split_block mem_block order k s) (\<lambda>mem_block s. Done (Some mem_block) s)))
           s (Some (addr s p)) (a_split p order k (fl(k := ps)))"
    proof (rule sim_bnd [OF erasefirst_sim [OF rep k ne]])
      fix t assume t: "same_geometry s t" "buddy_rep t (fl(k := ps))"
      show "sim (bnd (split_block (addr s p) order k t) (\<lambda>mem_block s. Done (Some mem_block) s))
              t (Some (addr s p)) (a_split p order k (fl(k := ps)))"
        using split_sim [OF t(2) k ge _ pg] b same_geometryD [OF t(1)]
        by (intro sim_bnd [of _ t "addr s p"] sim_Done) simp_all
    qed
    then have "sim (buddy_alloc order s) s (Some (addr s p)) (a_split p order k (fl(k := ps)))"
      using ord k by (simp add: buddy_alloc_def fo)
    then show ?thesis using k ne by (simp add: a_alloc_def Let_def flip: k_def)
  qed
qed

subsection \<open>Release\<close>

definition free_rest :: "nat \<times> nat \<Rightarrow> buddy_state \<Rightarrow> (unit, buddy_state) outcome" where
  "free_rest = (\<lambda>(pnum, freeorder) s.
     if freeorder = MAX_ORDER
     then bnd (pnum_to_pa pnum s) (\<lambda>pa s. buddy_insertfirst pa freeorder s) else Done () s)"

lemma merge_occupied:
  assumes rep: "buddy_rep s fl" and k: "k < MAX_ORDER" and b: "wf_block (pnum_max s) p k"
    and dis: "blk p k \<inter> pages fl = {}"
    and no: "\<not> (p XOR 2 ^ k < pnum_max s \<and> p XOR 2 ^ k \<in> set (fl k))"
  shows "sim (bnd (merge_loop p k s) free_rest) s () (fl(k := p # fl k))"
proof -
  have p: "pnum_to_pa p s = Done (addr s p) s"
    using wf_blockD(1) [OF b] by (rule pnum_to_pa_addr)
  have ins: "sim (buddy_insertfirst (addr s p) k s) s () (fl(k := p # fl k))"
    using insertfirst_sim [OF rep _ b dis] k by simp
  have al: "2 ^ k dvd p XOR 2 ^ k" by (rule buddy_aligned [OF wf_blockD(2) [OF b]])
  obtain v where "buddy_getbitmap (p XOR 2 ^ k) k s = Done v s"
    "v = 0 \<longleftrightarrow> free_bit s (p XOR 2 ^ k) k" using getbitmap_free [OF al] by blast
  then have "merge_loop p k s =
      bnd (buddy_insertfirst (addr s p) k s) (\<lambda>_ s. Done (p, k) s)"
    using rep k no al p
    by (simp add: merge_loop.simps [of p k s] Let_def buddy_rep_def bits_def)
  then show ?thesis
    using k by (auto simp: bnd_assoc free_rest_def intro!: sim_bnd [OF ins] sim_Done)
qed

lemma merge_buddy_free:
  assumes rep: "buddy_rep s fl" and k: "k < MAX_ORDER" and b: "wf_block (pnum_max s) p k"
    and yes: "p XOR 2 ^ k < pnum_max s" "p XOR 2 ^ k \<in> set (fl k)"
  shows "merge_loop p k s = bnd (buddy_erase (addr s (p XOR 2 ^ k)) k s)
           (\<lambda>_ s. merge_loop (unset_bit k p) (Suc k) s)"
proof -
  have al: "2 ^ k dvd p XOR 2 ^ k" by (rule buddy_aligned [OF wf_blockD(2) [OF b]])
  obtain v where "buddy_getbitmap (p XOR 2 ^ k) k s = Done v s"
    "v = 0 \<longleftrightarrow> free_bit s (p XOR 2 ^ k) k" using getbitmap_free [OF al] by blast
  then show ?thesis
    using rep k yes al pnum_to_pa_addr [OF yes(1)]
    by (simp add: merge_loop.simps [of p k s] Let_def buddy_rep_def bits_def)
qed

lemma merge_sim:
  assumes "buddy_rep s fl" "k \<le> MAX_ORDER" "wf_block (pnum_max s) p k"
    and "blk p k \<inter> pages fl = {}"
  shows "sim (bnd (merge_loop p k s) free_rest) s () (a_free (pnum_max s) p k fl)"
  using assms
proof (induction "pnum_max s" p k fl arbitrary: s rule: a_free.induct)
  case (1 p k fl)
  let ?b = "p XOR 2 ^ k" and ?N = "pnum_max s"
  have wf: "wf_lists ?N fl" using "1.prems"(1) by (simp add: buddy_rep_def)
  consider (top) "k = MAX_ORDER" | (merge) "k < MAX_ORDER \<and> ?b < ?N \<and> ?b \<in> set (fl k)"
    | (occupied) "k < MAX_ORDER" "\<not> (?b < ?N \<and> ?b \<in> set (fl k))"
    using "1.prems"(2) by (auto simp: le_less)
  then show ?case
  proof cases
    case top
    then have "merge_loop p k s = Done (p, k) s" by (simp add: merge_loop.simps)
    moreover have "a_free ?N p k fl = fl(k := p # fl k)" using top by (simp add: a_free.simps)
    ultimately show ?thesis
      using insertfirst_sim [OF "1.prems"] top pnum_to_pa_addr [OF wf_blockD(1) [OF "1.prems"(3)]]
      by (simp add: free_rest_def)
  next
    case merge
    have b: "?b \<in> set (fl k)" using merge by simp
    let ?q = "unset_bit k p" and ?fl = "fl(k := remove1 ?b (fl k))"
    note mg = merge_step [OF wf "1.prems"(2,3,4) b]
    have step: "sim (bnd (merge_loop ?q (Suc k) t) free_rest) t () (a_free ?N ?q (Suc k) ?fl)"
      if t: "same_geometry s t" "buddy_rep t ?fl" for t
    proof -
      have N: "pnum_max t = ?N" by (rule same_geometryD(2) [OF t(1)])
      have "sim (bnd (merge_loop ?q (Suc k) t) free_rest) t () (a_free (pnum_max t) ?q (Suc k) ?fl)"
        using "1.hyps" [OF merge N [symmetric] t(2)] mg(1,2) merge N by (metis Suc_leI)
      then show ?thesis by (simp only: N)
    qed
    have "merge_loop p k s = bnd (buddy_erase (addr s ?b) k s) (\<lambda>_ s. merge_loop ?q (Suc k) s)"
      using merge by (intro merge_buddy_free [OF "1.prems"(1) _ "1.prems"(3)]) auto
    moreover have "a_free ?N p k fl = a_free ?N ?q (Suc k) ?fl"
      using merge by (simp add: a_free.simps [of _ p k fl])
    ultimately show ?thesis
      using sim_bnd [OF erase_sim [OF "1.prems"(1,2) b] step] by (simp only: bnd_assoc)
  next
    case occupied
    then have "a_free ?N p k fl = fl(k := p # fl k)"
      by (simp only: a_free.simps [of _ p k fl] simp_thms if_False)
    then show ?thesis
      using merge_occupied [OF "1.prems"(1) occupied(1) "1.prems"(3,4) occupied(2)] by simp
  qed
qed

lemma free_sim:
  assumes rep: "buddy_rep s fl" and k: "k \<le> MAX_ORDER" and b: "wf_block (pnum_max s) p k"
    and dis: "blk p k \<inter> pages fl = {}"
  shows "sim (buddy_free (addr s p) k s) s () (a_free (pnum_max s) p k fl)"
proof -
  have "pa_to_pnum (addr s p) s = Done p s"
    using rep wf_blockD(1) [OF b] by (auto simp: buddy_rep_def intro: pa_to_pnum_addr)
  moreover have "p AND (2 ^ k - 1) = 0" by (rule aligned_mask [OF wf_blockD(2) [OF b]])
  ultimately have "buddy_free (addr s p) k s = bnd (merge_loop p k s) free_rest"
    unfolding buddy_free_def free_rest_def by simp
  then show ?thesis using merge_sim [OF assms] by simp
qed

subsection \<open>Initialisation\<close>

lemma init_heads_null: "k < n \<Longrightarrow> run_next (runs (init_heads n s) (Head k)) = Null"
  by (induction n) (auto simp: Let_def set_prev_def set_next_def less_Suc_eq)

lemma init_heads_fields [simp]:
  "bitmap_page (init_heads n s) = bitmap_page s"
  "start (init_heads n s) = start s" "pnum_max (init_heads n s) = pnum_max s"
  by (induction n) (auto simp: Let_def set_prev_def set_next_def)

declare init_heads.simps [simp del]

lemma init_empty:
  assumes "geometry s"
  shows "buddy_rep (init_heads (Suc MAX_ORDER) (buddy_init_bitmap s)) (\<lambda>_. [])"
proof -
  let ?s = "init_heads (Suc MAX_ORDER) (buddy_init_bitmap s)"
  have "\<not> free_bit ?s p k" if "k \<le> MAX_ORDER" "p < pnum_max s" for p k
  proof -
    have "bit_pos p k < 2 ^ 16"
      using bit_pos_range(2) [OF that(1), of p] that(2) pnum_max_le [OF assms] by simp
    then have "bit_pos p k div 8 < 2 * PGSIZE" by (simp add: PGSIZE_def)
    moreover have "bit (255 :: 8 word) i" if "i < 8" for i
    proof -
      have "(255 :: 8 word) = - 1" by simp
      then show ?thesis using that by (simp only: bit_minus_1_iff) simp
    qed
    ultimately show ?thesis by (simp add: free_bit_def buddy_init_bitmap_def)
  qed
  moreover have "wf_lists (pnum_max s) (\<lambda>_. [])" by (simp add: wf_lists_def)
  ultimately show ?thesis
    using assms init_heads_null [of _ "Suc MAX_ORDER" "buddy_init_bitmap s"]
    by (auto simp: buddy_rep_def links_def bits_def geometry_def buddy_init_bitmap_def)
qed

lemma init_small_sim:
  assumes "buddy_rep s (\<lambda>_. [])" "i \<le> MAX_ORDER"
  shows "sim (init_small i s) s () (a_init_small (pnum_max s) i)"
  using assms
proof (induction i)
  case 0
  then show ?case by (simp add: sim_Done)
next
  case (Suc i)
  let ?N = "pnum_max s" and ?q = "push_bit (i + 1) (drop_bit (i + 1) (pnum_max s))"
  have i: "i \<le> MAX_ORDER" using Suc.prems by simp
  note ab = a_init_small_correct [of i ?N]
  show ?case
  proof (cases "?N AND 2 ^ i = 0")
    case True
    then show ?thesis
      using Suc by (auto intro!: sim_bnd [OF Suc.IH] sim_Done simp: same_geometryD Let_def)
  next
    case False
    then have b: "wf_block ?N ?q i" "blk ?q i \<inter> pages (a_init_small ?N i) = {}"
      using init_small_block(1,2) [OF False] ab i by (simp_all del: push_bit_of_nat)
    have "sim (bnd (pnum_to_pa ?q t) (\<lambda>pa s. buddy_insertfirst pa i s)) t ()
        ((a_init_small ?N i)(i := ?q # a_init_small ?N i i))"
      if t: "same_geometry s t" "buddy_rep t (a_init_small ?N i)" for t
      using insertfirst_sim [OF t(2) i, of ?q] b same_geometryD [OF t(1)]
        pnum_to_pa_addr [of ?q t] wf_blockD(1) [OF b(1)]
      by simp
    then have "sim (if pnum_max t AND 2 ^ i \<noteq> 0
        then bnd (pnum_to_pa (push_bit (i + 1) (drop_bit (i + 1) (pnum_max t))) t)
               (\<lambda>pa s. buddy_insertfirst pa i s)
        else Done () t) t () (a_init_small ?N (Suc i))"
      if "same_geometry s t" "buddy_rep t (a_init_small ?N i)" for t
      using that unfolding a_init_small.simps Let_def same_geometryD(2) [OF that(1)] if_P [OF False]
      by blast
    then show ?thesis
      unfolding init_small.simps by (rule sim_bnd [OF Suc.IH [OF Suc.prems(1) i]])
  qed
qed

lemma init_large_sim:
  assumes "buddy_rep s (\<lambda>_. [])" "n \<le> pnum_max s div 2 ^ MAX_ORDER"
  shows "sim (bnd (init_small MAX_ORDER s) (\<lambda>_ s. init_large n s)) s () (a_init_large (pnum_max s) n)"
  using assms(2)
proof (induction n)
  case 0
  then show ?case
    by (auto intro!: sim_bnd [OF init_small_sim [OF assms(1) order.refl]] sim_Done)
next
  case (Suc n)
  let ?N = "pnum_max s" and ?q = "n * 2 ^ MAX_ORDER"
  have IH: "sim (bnd (init_small MAX_ORDER s) (\<lambda>_ s. init_large n s)) s () (a_init_large ?N n)"
    using Suc by simp
  have b: "wf_block ?N ?q MAX_ORDER" "blk ?q MAX_ORDER \<inter> pages (a_init_large ?N n) = {}"
    using init_large_block [OF Suc.prems] a_init_large_correct [of n ?N] Suc.prems by simp_all
  have step: "sim (bnd (pnum_to_pa ?q t) (\<lambda>pa s. buddy_insertfirst pa MAX_ORDER s)) t ()
      (a_init_large ?N (Suc n))"
    if t: "same_geometry s t" "buddy_rep t (a_init_large ?N n)" for t
    using insertfirst_sim [OF t(2) order.refl, of ?q] b same_geometryD [OF t(1)]
      pnum_to_pa_addr [of ?q t] wf_blockD(1) [OF b(1)]
    by (simp add: Let_def)
  show ?case using sim_bnd [OF IH step] by (simp add: bnd_assoc)
qed

lemma init_sim:
  assumes "KERNBASE \<le> kend" "PGROUNDUP kend \<le> PHYSTOP"
  shows "\<exists>t. buddy_init kend s = Done () t \<and> start t = PGROUNDUP kend \<and>
    pnum_max t = (PHYSTOP - PGROUNDUP kend) div PGSIZE \<and> buddy_rep t (a_init (pnum_max t))"
proof -
  define s0 where "s0 = s\<lparr>start := PGROUNDUP kend, pnum_max := (PHYSTOP - PGROUNDUP kend) div PGSIZE\<rparr>"
  define s1 where "s1 = init_heads (Suc MAX_ORDER) (buddy_init_bitmap s0)"
  have "PGSIZE dvd PHYSTOP - PGROUNDUP kend"
    by (intro dvd_diff_nat PGROUNDUP_aligned) (simp add: PGSIZE_def PHYSTOP_def KERNBASE_def)
  then have "geometry s0"
    using assms PGROUNDUP_ge [of kend] by (simp add: s0_def geometry_def)
  then have rep: "buddy_rep s1 (\<lambda>_. [])" unfolding s1_def by (rule init_empty)
  obtain t where "init_small MAX_ORDER s1 = Done () t" "pnum_max t = pnum_max s1"
    using init_small_sim [OF rep order.refl] by (auto simp: sim_def same_geometry_def)
  then have "sim (buddy_init kend s) s1 () (a_init (pnum_max s1))"
    using init_large_sim [OF rep order.refl]
    by (simp add: buddy_init_def buddy_init_freelist_def a_init_def flip: s1_def s0_def)
  then show ?thesis
    by (auto simp: sim_def same_geometry_def s1_def s0_def buddy_init_bitmap_def)
qed

end
