(* ===== verification/Allocator.thy ===== *)
theory Allocator
  imports Prelude
begin

section \<open>The contract of an allocator\<close>

text \<open>
  What the clients of the memory allocators rely on, as a locale, and its consequence for
  every history of calls.  A block \<open>b\<close> obtained by request \<open>q\<close> occupies the units
  \<open>cells b q\<close> (page frames for the page allocator, cells of a slab for the object
  allocator).  The locale is interpreted on the buddy allocator (theory
  \<open>Buddy_Correct\<close>) and on \<open>kalloc\<close>/\<open>kfree\<close> (theory \<open>Kalloc\<close>).
\<close>

text \<open>
  A history of calls: \<open>own\<close> lists the blocks handed out and not yet given back.
\<close>

inductive alloc_run ::
  "('q \<Rightarrow> 's \<Rightarrow> ('b option, 's) outcome) \<Rightarrow> ('b \<Rightarrow> 'q \<Rightarrow> 's \<Rightarrow> (unit, 's) outcome) \<Rightarrow>
   ('q \<Rightarrow> bool) \<Rightarrow> 's \<Rightarrow> 's \<Rightarrow> ('b \<times> 'q) list \<Rightarrow> bool"
  for alloc dealloc req s0 where
  begin_run: "alloc_run alloc dealloc req s0 s0 []"
| take_block: "alloc_run alloc dealloc req s0 s own \<Longrightarrow> req q \<Longrightarrow> alloc q s = Done (Some b) t \<Longrightarrow>
    alloc_run alloc dealloc req s0 t ((b, q) # own)"
| take_none: "alloc_run alloc dealloc req s0 s own \<Longrightarrow> req q \<Longrightarrow> alloc q s = Done None t \<Longrightarrow>
    alloc_run alloc dealloc req s0 t own"
| give_back: "alloc_run alloc dealloc req s0 s (xs @ (b, q) # ys) \<Longrightarrow> dealloc b q s = Done () t \<Longrightarrow>
    alloc_run alloc dealloc req s0 t (xs @ ys)"

text \<open>The blocks of a list occupy pairwise disjoint units.\<close>

fun disjoint_blocks :: "('b \<Rightarrow> 'q \<Rightarrow> 'x set) \<Rightarrow> ('b \<times> 'q) list \<Rightarrow> bool" where
  "disjoint_blocks cells [] \<longleftrightarrow> True"
| "disjoint_blocks cells ((b, q) # own) \<longleftrightarrow>
     (\<forall>(c, r)\<in>set own. cells b q \<inter> cells c r = {}) \<and> disjoint_blocks cells own"

definition occupied :: "('b \<Rightarrow> 'q \<Rightarrow> 'x set) \<Rightarrow> ('b \<times> 'q) list \<Rightarrow> 'x set" where
  "occupied cells own = (\<Union>(b, q)\<in>set own. cells b q)"

lemma occupied_simps [simp]:
  "occupied cells [] = {}" "occupied cells ((b, q) # own) = cells b q \<union> occupied cells own"
  "occupied cells (xs @ ys) = occupied cells xs \<union> occupied cells ys"
  by (auto simp: occupied_def)

lemma occupied_mem: "(b, q) \<in> set own \<Longrightarrow> cells b q \<subseteq> occupied cells own"
  by (auto simp: occupied_def)

lemma disjoint_blocks_Cons:
  "disjoint_blocks cells ((b, q) # own) \<longleftrightarrow>
     cells b q \<inter> occupied cells own = {} \<and> disjoint_blocks cells own"
  by (auto simp: occupied_def)

declare disjoint_blocks.simps(2) [simp del]
declare disjoint_blocks_Cons [simp]

lemma disjoint_blocks_append:
  "disjoint_blocks cells (xs @ ys) \<longleftrightarrow> disjoint_blocks cells xs \<and> disjoint_blocks cells ys \<and>
     occupied cells xs \<inter> occupied cells ys = {}"
  by (induction xs) auto

lemma disjoint_blocks_nth:
  assumes "disjoint_blocks cells own" "i < j" "j < length own"
  shows "cells (fst (own ! i)) (snd (own ! i)) \<inter> cells (fst (own ! j)) (snd (own ! j)) = {}"
  using assms
proof (induction own arbitrary: i j)
  case Nil
  then show ?case by simp
next
  case (Cons x own)
  then obtain j' where j: "j = Suc j'" by (cases j) auto
  show ?case
  proof (cases i)
    case 0
    have "own ! j' \<in> set own" using Cons.prems j by simp
    then have "cells (fst (own ! j')) (snd (own ! j')) \<subseteq> occupied cells own"
      by (intro occupied_mem) simp
    then show ?thesis using Cons.prems(1) 0 j by (cases x) auto
  next
    case (Suc i')
    then show ?thesis using Cons.IH [of i' j'] Cons.prems j by (cases x) auto
  qed
qed

locale allocator =
  fixes ok :: "'s \<Rightarrow> bool"
    and free :: "'s \<Rightarrow> 'x set"
    and good :: "'s \<Rightarrow> 'b \<Rightarrow> 'q \<Rightarrow> bool"
    and cells :: "'b \<Rightarrow> 'q \<Rightarrow> 'x set"
    and req :: "'q \<Rightarrow> bool"
    and exhausted :: "'q \<Rightarrow> 's \<Rightarrow> bool"
    and alloc :: "'q \<Rightarrow> 's \<Rightarrow> ('b option, 's) outcome"
    and dealloc :: "'b \<Rightarrow> 'q \<Rightarrow> 's \<Rightarrow> (unit, 's) outcome"
  assumes alloc_law: "ok s \<Longrightarrow> req q \<Longrightarrow> \<not> exhausted q s \<Longrightarrow>
      \<exists>b t. alloc q s = Done (Some b) t \<and> ok t \<and> good t b q \<and> cells b q \<subseteq> free s \<and>
        free t = free s - cells b q \<and>
        (\<forall>c r. good s c r \<and> cells c r \<inter> free s = {} \<longrightarrow> good t c r)"
    and alloc_none_law: "ok s \<Longrightarrow> req q \<Longrightarrow> exhausted q s \<Longrightarrow> alloc q s = Done r t \<Longrightarrow>
      r = None \<and> t = s"
    and dealloc_law: "ok s \<Longrightarrow> good s b q \<Longrightarrow> cells b q \<inter> free s = {} \<Longrightarrow>
      \<exists>t. dealloc b q s = Done () t \<and> ok t \<and> free t = free s \<union> cells b q \<and>
        (\<forall>c r. good s c r \<and> cells c r \<inter> cells b q = {} \<longrightarrow> good t c r)"
begin

text \<open>
  The units are always partitioned into the free ones and those of the blocks handed
  out.
\<close>

lemma run_invariant:
  assumes "alloc_run alloc dealloc req s0 s own" "ok s0"
  shows "ok s \<and> disjoint_blocks cells own \<and> occupied cells own \<inter> free s = {} \<and>
         free s \<union> occupied cells own = free s0 \<and> (\<forall>(b, q)\<in>set own. good s b q)"
  using assms
proof (induction rule: alloc_run.induct)
  case begin_run
  then show ?case by simp
next
  case (take_block s own q b t)
  then have ok: "ok s" and IH: "disjoint_blocks cells own" "occupied cells own \<inter> free s = {}"
    "free s \<union> occupied cells own = free s0" "\<forall>(b, q)\<in>set own. good s b q" by blast+
  have "\<not> exhausted q s" using alloc_none_law [OF ok take_block.hyps(2)] take_block.hyps(3) by blast
  then have t: "ok t" "good t b q" "cells b q \<subseteq> free s" "free t = free s - cells b q"
    "\<And>c r. good s c r \<Longrightarrow> cells c r \<inter> free s = {} \<Longrightarrow> good t c r"
    using alloc_law [OF ok take_block.hyps(2)] take_block.hyps(3) by auto
  have "good t c r" if "(c, r) \<in> set own" for c r
  proof (rule t(5))
    show "good s c r" using IH(4) that by blast
    show "cells c r \<inter> free s = {}" using IH(2) occupied_mem [OF that, of cells] by blast
  qed
  moreover have "free t \<union> occupied cells ((b, q) # own) = free s0"
    using IH(3) t(3,4) by (simp only: occupied_simps) blast
  moreover have "occupied cells ((b, q) # own) \<inter> free t = {}" "disjoint_blocks cells ((b, q) # own)"
    using IH(1,2) t(3,4) by auto
  ultimately show ?case using t(1,2) by (simp only: list.set) blast
next
  case (take_none s own q t)
  then have ok: "ok s" by simp
  have "exhausted q s" using alloc_law [OF ok take_none.hyps(2)] take_none.hyps(3) by auto
  then show ?case using alloc_none_law [OF ok take_none.hyps(2) _ take_none.hyps(3)] take_none by simp
next
  case (give_back s xs b q ys t)
  then have ok: "ok s" and IH: "disjoint_blocks cells (xs @ (b, q) # ys)"
    "occupied cells (xs @ (b, q) # ys) \<inter> free s = {}"
    "free s \<union> occupied cells (xs @ (b, q) # ys) = free s0"
    "\<forall>(b, q)\<in>set (xs @ (b, q) # ys). good s b q" by blast+
  have dis: "cells b q \<inter> free s = {}" and gd: "good s b q"
    and own: "cells b q \<inter> occupied cells (xs @ ys) = {}"
    using IH(1,2,4) by (auto simp: disjoint_blocks_append)
  then have t: "ok t" "free t = free s \<union> cells b q"
    "\<And>c r. good s c r \<Longrightarrow> cells c r \<inter> cells b q = {} \<Longrightarrow> good t c r"
    using dealloc_law [OF ok gd dis] give_back.hyps(2) by auto
  have "good t c r" if "(c, r) \<in> set (xs @ ys)" for c r
  proof (rule t(3))
    show "good s c r" using IH(4) that by auto
    show "cells c r \<inter> cells b q = {}" using own occupied_mem [OF that, of cells] by blast
  qed
  moreover have "disjoint_blocks cells (xs @ ys)" using IH(1) by (auto simp: disjoint_blocks_append)
  moreover have "free t \<union> occupied cells (xs @ ys) = free s0"
    using IH(3) t(2) by (simp only: occupied_simps) blast
  moreover have "occupied cells (xs @ ys) \<inter> free t = {}"
    using IH(2) t(2) own by (simp only: occupied_simps) blast
  ultimately show ?case using t(1) by blast
qed

text \<open>No call of a history fails: a request that is not exhausted succeeds, a block is taken back.\<close>

lemma run_progress:
  assumes run: "alloc_run alloc dealloc req s0 s own" and "ok s0"
  shows "req q \<Longrightarrow> \<not> exhausted q s \<Longrightarrow> \<exists>b t. alloc q s = Done (Some b) t"
    and "(b, q) \<in> set own \<Longrightarrow> \<exists>t. dealloc b q s = Done () t"
proof -
  note inv = run_invariant [OF assms]
  show "\<exists>b t. alloc q s = Done (Some b) t" if "req q" "\<not> exhausted q s"
    using alloc_law [OF conjunct1 [OF inv] that] by blast
  assume b: "(b, q) \<in> set own"
  then have "cells b q \<inter> free s = {}" "good s b q" "ok s"
    using inv occupied_mem [OF b, of cells] by blast+
  then show "\<exists>t. dealloc b q s = Done () t" using dealloc_law [of s b q] by blast
qed

end

subsection \<open>Objects of many sizes\<close>

text \<open>
  The allocator of kernel objects hands out addresses for requests of many sizes, and its
  clients write to what they own.  A history: \<open>own\<close> lists the addresses handed out with the
  requests, \<open>h\<close> ranges over the harts.
\<close>

inductive heap_run ::
  "('h \<Rightarrow> 'q \<Rightarrow> 's \<Rightarrow> (nat option, 's) outcome) \<Rightarrow> ('h \<Rightarrow> nat \<Rightarrow> 'q \<Rightarrow> 's \<Rightarrow> (unit, 's) outcome) \<Rightarrow>
   (nat \<Rightarrow> 'v \<Rightarrow> 's \<Rightarrow> 's) \<Rightarrow> (nat \<Rightarrow> 'q \<Rightarrow> nat set) \<Rightarrow> ('q \<Rightarrow> 's \<Rightarrow> bool) \<Rightarrow> 's \<Rightarrow> 's \<Rightarrow> (nat \<times> 'q) list \<Rightarrow> bool"
  for alloc dealloc store span req s0 where
  heap_start: "heap_run alloc dealloc store span req s0 s0 []"
| heap_take: "heap_run alloc dealloc store span req s0 s own \<Longrightarrow> req q s \<Longrightarrow> alloc h q s = Done (Some a) t \<Longrightarrow>
    heap_run alloc dealloc store span req s0 t ((a, q) # own)"
| heap_none: "heap_run alloc dealloc store span req s0 s own \<Longrightarrow> req q s \<Longrightarrow> alloc h q s = Done None t \<Longrightarrow>
    heap_run alloc dealloc store span req s0 t own"
| heap_write: "heap_run alloc dealloc store span req s0 s own \<Longrightarrow> (a, q) \<in> set own \<Longrightarrow> x \<in> span a q \<Longrightarrow>
    heap_run alloc dealloc store span req s0 (store x v s) own"
| heap_give: "heap_run alloc dealloc store span req s0 s (xs @ (a, q) # ys) \<Longrightarrow> dealloc h a q s = Done () t \<Longrightarrow>
    heap_run alloc dealloc store span req s0 t (xs @ ys)"

text \<open>
  The contract: \<open>inv s L\<close> says that the state is well formed and that the objects handed out
  in every class are those of \<open>L\<close>.
\<close>

locale heap_allocator =
  fixes inv :: "'s \<Rightarrow> ('c \<Rightarrow> nat set) \<Rightarrow> bool"
    and cls :: "'q \<Rightarrow> 'c"
    and span :: "nat \<Rightarrow> 'q \<Rightarrow> nat set"
    and req :: "'q \<Rightarrow> 's \<Rightarrow> bool"
    and size_ok :: "'q \<Rightarrow> bool"
    and alloc :: "'h \<Rightarrow> 'q \<Rightarrow> 's \<Rightarrow> (nat option, 's) outcome"
    and dealloc :: "'h \<Rightarrow> nat \<Rightarrow> 'q \<Rightarrow> 's \<Rightarrow> (unit, 's) outcome"
    and store :: "nat \<Rightarrow> 'v \<Rightarrow> 's \<Rightarrow> 's"
  assumes req_size: "req q s \<Longrightarrow> size_ok q"
    and alloc_some: "inv s L \<Longrightarrow> req q s \<Longrightarrow> alloc h q s = Done (Some a) t \<Longrightarrow>
      a \<notin> L (cls q) \<and> inv t (L(cls q := insert a (L (cls q))))"
    and alloc_no: "inv s L \<Longrightarrow> req q s \<Longrightarrow> alloc h q s = Done None t \<Longrightarrow> inv t L"
    and store_own: "inv s L \<Longrightarrow> size_ok q \<Longrightarrow> a \<in> L (cls q) \<Longrightarrow> x \<in> span a q \<Longrightarrow> inv (store x v s) L"
    and give_back: "inv s L \<Longrightarrow> size_ok q \<Longrightarrow> a \<in> L (cls q) \<Longrightarrow>
      \<exists>t. dealloc h a q s = Done () t \<and> inv t (L(cls q := L (cls q) - {a}))"
    and spans_apart: "inv s L \<Longrightarrow> size_ok q \<Longrightarrow> size_ok r \<Longrightarrow> a \<in> L (cls q) \<Longrightarrow> b \<in> L (cls r) \<Longrightarrow>
      (a, cls q) \<noteq> (b, cls r) \<Longrightarrow> span a q \<inter> span b r = {}"
begin

definition owned :: "(nat \<times> 'q) list \<Rightarrow> 'c \<Rightarrow> nat set" where
  "owned own c = {a. \<exists>q. (a, q) \<in> set own \<and> cls q = c}"

lemma owned_Cons: "owned ((a, q) # own) = (owned own)(cls q := insert a (owned own (cls q)))"
  by (auto simp: owned_def fun_eq_iff)

text \<open>The history may start with objects \<open>L0\<close> in use; they stay in use.\<close>

lemma heap_invariant:
  assumes "heap_run alloc dealloc store span req s0 s own" "inv s0 L0"
  shows "inv s (\<lambda>c. L0 c \<union> owned own c) \<and> (\<forall>c. L0 c \<inter> owned own c = {}) \<and>
    distinct (map (\<lambda>(a, q). (a, cls q)) own) \<and> (\<forall>(a, q)\<in>set own. size_ok q)"
  using assms
proof (induction rule: heap_run.induct)
  case heap_start
  then show ?case by (simp add: owned_def)
next
  case (heap_take s own q h a t)
  let ?L = "\<lambda>c. L0 c \<union> owned own c"
  have al: "a \<notin> ?L (cls q)" "inv t (?L(cls q := insert a (?L (cls q))))"
    using alloc_some [of s ?L q h a t] heap_take by simp_all
  have "?L(cls q := insert a (?L (cls q))) = (\<lambda>c. L0 c \<union> owned ((a, q) # own) c)"
    by (auto simp: owned_Cons fun_eq_iff)
  then have "inv t (\<lambda>c. L0 c \<union> owned ((a, q) # own) c)" using al(2) by simp
  moreover have "(a, cls q) \<notin> set (map (\<lambda>(a, q). (a, cls q)) own)" using al(1) by (auto simp: owned_def)
  moreover have "\<forall>c. L0 c \<inter> owned ((a, q) # own) c = {}" using heap_take al(1) by (auto simp: owned_Cons)
  ultimately show ?case using heap_take req_size by simp
next
  case (heap_none s own q h t)
  then show ?case using alloc_no by blast
next
  case (heap_write s own a q x v)
  then have "a \<in> L0 (cls q) \<union> owned own (cls q)" "size_ok q" by (auto simp: owned_def)
  then show ?case using heap_write store_own by blast
next
  case (heap_give s xs a q ys h t)
  let ?own = "xs @ (a, q) # ys"
  let ?L = "\<lambda>c. L0 c \<union> owned ?own c"
  have IH: "inv s ?L" "distinct (map (\<lambda>(a, q). (a, cls q)) ?own)" "\<forall>(a, q)\<in>set ?own. size_ok q"
    "\<forall>c. L0 c \<inter> owned ?own c = {}"
    using heap_give by simp_all
  have a: "a \<in> owned ?own (cls q)" "size_ok q" using IH(3) by (auto simp: owned_def)
  have na: "cls r \<noteq> cls q" if "(a, r) \<in> set (xs @ ys)" for r
  proof
    assume "cls r = cls q"
    then have "(a, cls q) \<in> (\<lambda>(a, q). (a, cls q)) ` set (xs @ ys)" using that by (intro image_eqI [of _ _ "(a, r)"]) auto
    then show False using IH(2) by auto
  qed
  have eq: "(\<lambda>c. L0 c \<union> owned (xs @ ys) c) = ?L(cls q := ?L (cls q) - {a})"
  proof
    have "a \<notin> L0 (cls q)" using a(1) IH(4) by blast
    then show "L0 c \<union> owned (xs @ ys) c = (?L(cls q := ?L (cls q) - {a})) c" for c
      using na by (auto simp: owned_def)
  qed
  have "inv t (\<lambda>c. L0 c \<union> owned (xs @ ys) c)"
    unfolding eq using give_back [OF IH(1) a(2), of a h] a(1) heap_give(2) by auto
  moreover have "owned (xs @ ys) c \<subseteq> owned ?own c" for c by (auto simp: owned_def)
  ultimately show ?case using IH(2,3,4) by fastforce
qed

lemma heap_safe:
  assumes run: "heap_run alloc dealloc store span req s0 s own" and "inv s0 (\<lambda>_. {})"
  shows "disjoint_blocks span own" and "(a, q) \<in> set own \<Longrightarrow> \<exists>t. dealloc h a q s = Done () t"
proof -
  have i: "inv s (owned own)" "distinct (map (\<lambda>(a, q). (a, cls q)) own)" "\<forall>(a, q)\<in>set own. size_ok q"
    using heap_invariant [OF assms] by simp_all
  have "disjoint_blocks span ys" if "own = xs @ ys" for xs ys
    using that
  proof (induction ys arbitrary: xs)
    case (Cons y ys)
    obtain a q where y: "y = (a, q)" by (cases y)
    have "span a q \<inter> span b r = {}" if "(b, r) \<in> set ys" for b r
    proof (rule spans_apart [OF i(1)])
      show "size_ok q" "size_ok r" "a \<in> owned own (cls q)" "b \<in> owned own (cls r)" "(a, cls q) \<noteq> (b, cls r)"
        using i(2,3) Cons.prems y that by (force simp: owned_def)+
    qed
    then show ?case using Cons.IH [of "xs @ [y]"] Cons.prems y by (auto simp: occupied_def)
  qed simp
  then show "disjoint_blocks span own" by simp
  show "\<exists>t. dealloc h a q s = Done () t" if "(a, q) \<in> set own"
    using give_back [OF i(1), of q a h] i(3) that by (auto simp: owned_def)
qed

end

end
