(* ===== verification/Buddy_Correct.thy ===== *)
theory Buddy_Correct
  imports Buddy_Refine Allocator
begin

unbundle bit_operations_syntax

section \<open>Correctness of the buddy allocator\<close>

text \<open>
  The theorems on \<open>buddy_alloc\<close>, \<open>buddy_free\<close> and \<open>buddy_init\<close>, stated over the
  state of the code: the free pages are read off the bitmap.
\<close>

definition free_pages :: "buddy_state \<Rightarrow> nat set" where
  "free_pages s = {x. \<exists>k\<le>MAX_ORDER. \<exists>p<pnum_max s. 2 ^ k dvd p \<and> free_bit s p k \<and> x \<in> blk p k}"

text \<open>
  The allocator's invariant: the linked lists and the bitmap describe the same disjoint,
  aligned blocks inside the managed memory, and no two free blocks are buddies.
\<close>

definition buddy_ok :: "buddy_state \<Rightarrow> bool" where
  "buddy_ok s \<longleftrightarrow> (\<exists>fl. buddy_rep s fl \<and> coalesced fl)"

lemma free_pages_rep:
  assumes "buddy_rep s fl" shows "free_pages s = pages fl"
proof -
  have wf: "wf_lists (pnum_max s) fl" and b: "bits s fl" using assms by (auto simp: buddy_rep_def)
  have "p < pnum_max s \<and> 2 ^ k dvd p" if "k \<le> MAX_ORDER" "p \<in> set (fl k)" for k p
    using wf_lists_block [OF wf that] wf_blockD by blast
  then show ?thesis using b unfolding free_pages_def bits_def set_eq_iff pages_iff by fastforce
qed

lemma buddy_okE:
  assumes "buddy_ok s"
  obtains fl where "buddy_rep s fl" "coalesced fl" "wf_lists (pnum_max s) fl" "free_pages s = pages fl"
  using assms free_pages_rep by (auto simp: buddy_ok_def buddy_rep_def)

lemma buddy_okI: "buddy_rep s fl \<Longrightarrow> coalesced fl \<Longrightarrow> buddy_ok s"
  by (auto simp: buddy_ok_def)

text \<open>There is no aligned free block of the order asked for.\<close>

definition no_block :: "nat \<Rightarrow> buddy_state \<Rightarrow> bool" where
  "no_block k s \<longleftrightarrow> (\<forall>p. 2 ^ k dvd p \<longrightarrow> \<not> blk p k \<subseteq> free_pages s)"

lemma a_alloc_complete:
  assumes "wf_lists N fl" "coalesced fl" "k \<le> MAX_ORDER"
  shows "fst (a_alloc k fl) = None \<longleftrightarrow> (\<forall>p. 2 ^ k dvd p \<longrightarrow> \<not> blk p k \<subseteq> pages fl)"
proof (cases "a_alloc k fl")
  case (Pair r fl')
  show ?thesis
  proof (cases r)
    case None
    have "\<not> blk p k \<subseteq> pages fl" if "2 ^ k dvd p" for p
      using cover [OF assms that] a_alloc_None(2) [OF Pair [unfolded None] assms(3)] by fastforce
    then show ?thesis using Pair None by simp
  next
    case (Some p)
    then have "wf_block N p k" "blk p k \<subseteq> pages fl"
      using a_alloc_Some [OF assms] Pair by auto
    then show ?thesis using Pair Some by (auto simp: wf_block_def)
  qed
qed

lemma alloc_cases:
  assumes ok: "buddy_ok s" and k: "k \<le> MAX_ORDER"
  shows "no_block k s \<Longrightarrow> buddy_alloc k s = Done None s"
    and "\<not> no_block k s \<Longrightarrow> \<exists>p t. buddy_alloc k s = Done (Some (addr s p)) t \<and> buddy_ok t \<and>
           same_geometry s t \<and> wf_block (pnum_max s) p k \<and> blk p k \<subseteq> free_pages s \<and>
           free_pages t = free_pages s - blk p k"
proof -
  obtain fl where fl: "buddy_rep s fl" "coalesced fl" "wf_lists (pnum_max s) fl" "free_pages s = pages fl"
    using buddy_okE [OF ok] .
  obtain r fl' where al: "a_alloc k fl = (r, fl')" by fastforce
  then obtain t where t: "buddy_alloc k s = Done (map_option (addr s) r) t" "same_geometry s t" "buddy_rep t fl'"
    using alloc_sim [OF fl(1) k] by (auto elim!: simE)
  have nb: "no_block k s \<longleftrightarrow> r = None"
    using a_alloc_complete [OF fl(3,2) k] al by (simp add: no_block_def fl(4))
  show "buddy_alloc k s = Done None s" if "no_block k s"
  proof -
    have "MAX_ORDER < a_find k fl" using that nb al by (auto simp: a_alloc_def Let_def split: if_splits)
    then show ?thesis using k find_order_sim [OF fl(1)] by (simp add: buddy_alloc_def)
  qed
  assume "\<not> no_block k s"
  then obtain p where p: "r = Some p" using nb by auto
  have "wf_lists (pnum_max s) fl'" "coalesced fl'" "wf_block (pnum_max s) p k" "blk p k \<subseteq> pages fl"
    "pages fl' = pages fl - blk p k"
    using a_alloc_Some [OF fl(3,2) k] al p by auto
  then show "\<exists>p t. buddy_alloc k s = Done (Some (addr s p)) t \<and> buddy_ok t \<and>
      same_geometry s t \<and> wf_block (pnum_max s) p k \<and> blk p k \<subseteq> free_pages s \<and>
      free_pages t = free_pages s - blk p k"
    using t p fl(4) free_pages_rep [OF t(3)] buddy_okI [OF t(3)] by auto
qed

lemma free_cases:
  assumes ok: "buddy_ok s" and k: "k \<le> MAX_ORDER" and b: "wf_block (pnum_max s) p k"
    and dis: "blk p k \<inter> free_pages s = {}"
  shows "\<exists>t. buddy_free (addr s p) k s = Done () t \<and> buddy_ok t \<and> same_geometry s t \<and>
           free_pages t = free_pages s \<union> blk p k"
proof -
  obtain fl where fl: "buddy_rep s fl" "coalesced fl" "wf_lists (pnum_max s) fl" "free_pages s = pages fl"
    using buddy_okE [OF ok] .
  have dis': "blk p k \<inter> pages fl = {}" using dis fl(4) by simp
  obtain t where t: "buddy_free (addr s p) k s = Done () t" "same_geometry s t"
    "buddy_rep t (a_free (pnum_max s) p k fl)"
    using free_sim [OF fl(1) k b dis'] by (auto elim!: simE)
  then show ?thesis
    using a_free_correct [OF fl(3,2) k b dis'] free_pages_rep [OF t(3)] buddy_okI [OF t(3)] fl(4)
    by auto
qed

subsection \<open>The buddy allocator as an allocator of page frames\<close>

definition frames :: "nat \<Rightarrow> nat \<Rightarrow> nat set" where
  "frames a k = {a div PGSIZE ..< a div PGSIZE + 2 ^ k}"

definition free_frames :: "buddy_state \<Rightarrow> nat set" where
  "free_frames s = (\<lambda>p. start s div PGSIZE + p) ` free_pages s"

definition buddy_good :: "buddy_state \<Rightarrow> nat \<Rightarrow> nat \<Rightarrow> bool" where
  "buddy_good s a k \<longleftrightarrow> k \<le> MAX_ORDER \<and> (\<exists>p. a = addr s p \<and> wf_block (pnum_max s) p k)"

lemma start_aligned: "geometry s \<Longrightarrow> PGSIZE dvd start s"
proof -
  assume "geometry s"
  then have "start s + pnum_max s * PGSIZE = PHYSTOP" by (simp add: geometry_def)
  moreover have "PGSIZE dvd PHYSTOP" by (simp add: PGSIZE_def PHYSTOP_def KERNBASE_def)
  ultimately show ?thesis by (metis dvd_add_left_iff dvd_triv_right)
qed

lemma addr_div: "geometry s \<Longrightarrow> addr s p div PGSIZE = start s div PGSIZE + p"
  using start_aligned [of s] by (auto simp: addr_def PGSIZE_def elim!: dvdE)

lemma frames_addr:
  assumes "geometry s"
  shows "frames (addr s p) k = (\<lambda>q. start s div PGSIZE + q) ` blk p k"
  unfolding frames_def addr_div [OF assms] blk_def by (simp add: image_add_atLeastLessThan ac_simps)

lemma buddy_ok_geometry: "buddy_ok s \<Longrightarrow> geometry s"
  by (auto simp: buddy_ok_def buddy_rep_def)

lemma shift_Int: "((\<lambda>q. (c::nat) + q) ` A) \<inter> ((\<lambda>q. c + q) ` B) = (\<lambda>q. c + q) ` (A \<inter> B)"
  by (rule image_Int [symmetric]) simp

lemma shift_Diff: "(\<lambda>q. (c::nat) + q) ` (A - B) = (\<lambda>q. c + q) ` A - (\<lambda>q. c + q) ` B"
  by (rule image_set_diff) simp

lemma good_geometry: "same_geometry s t \<Longrightarrow> buddy_good t a k = buddy_good s a k"
  by (simp add: buddy_good_def same_geometry_def addr_def)

interpretation bud: allocator buddy_ok free_frames buddy_good frames
  "\<lambda>k. k \<le> MAX_ORDER" no_block buddy_alloc buddy_free
proof
  fix s k assume s: "buddy_ok s" "k \<le> MAX_ORDER" "\<not> no_block k s"
  then obtain p t where t: "buddy_alloc k s = Done (Some (addr s p)) t" "buddy_ok t"
    "same_geometry s t" "wf_block (pnum_max s) p k" "blk p k \<subseteq> free_pages s"
    "free_pages t = free_pages s - blk p k"
    using alloc_cases(2) by blast
  have "frames (addr s p) k \<subseteq> free_frames s" "free_frames t = free_frames s - frames (addr s p) k"
    using t(3,5,6) frames_addr [OF buddy_ok_geometry [OF s(1)]]
    by (auto simp: free_frames_def shift_Diff same_geometry_def)
  moreover have "buddy_good t (addr s p) k" using good_geometry [OF t(3)] t(4) s(2) by (auto simp: buddy_good_def)
  ultimately show "\<exists>b t. buddy_alloc k s = Done (Some b) t \<and> buddy_ok t \<and> buddy_good t b k \<and>
      frames b k \<subseteq> free_frames s \<and> free_frames t = free_frames s - frames b k \<and>
      (\<forall>c r. buddy_good s c r \<and> frames c r \<inter> free_frames s = {} \<longrightarrow> buddy_good t c r)"
    using t(1,2) good_geometry [OF t(3)] by blast
next
  fix s t k r assume "buddy_ok s" "k \<le> MAX_ORDER" "no_block k s" "buddy_alloc k s = Done r t"
  then show "r = None \<and> t = s" using alloc_cases(1) [of s k] by simp
next
  fix s a k assume s: "buddy_ok s" "buddy_good s a k" "frames a k \<inter> free_frames s = {}"
  then obtain p where p: "a = addr s p" "wf_block (pnum_max s) p k" "k \<le> MAX_ORDER"
    by (auto simp: buddy_good_def)
  have "blk p k \<inter> free_pages s = {}"
    using s(3) frames_addr [OF buddy_ok_geometry [OF s(1)], of p k] p(1)
    by (simp add: free_frames_def shift_Int)
  then obtain t where t: "buddy_free a k s = Done () t" "buddy_ok t" "same_geometry s t"
    "free_pages t = free_pages s \<union> blk p k"
    using free_cases [OF s(1) p(3,2)] p(1) by blast
  have "free_frames t = free_frames s \<union> frames a k"
    using t(3,4) frames_addr [OF buddy_ok_geometry [OF s(1)], of p k] p(1)
    by (simp add: free_frames_def image_Un same_geometry_def)
  then show "\<exists>t. buddy_free a k s = Done () t \<and> buddy_ok t \<and> free_frames t = free_frames s \<union> frames a k \<and>
      (\<forall>c r. buddy_good s c r \<and> frames c r \<inter> frames a k = {} \<longrightarrow> buddy_good t c r)"
    using t(1,2) good_geometry [OF t(3)] by blast
qed

subsection \<open>Properties\<close>

text \<open>The state of the allocator before \<open>kinit\<close>: the zeroed \<open>.bss\<close>.\<close>

definition boot_state :: buddy_state where
  "boot_state = \<lparr>bitmap_page = (\<lambda>_. 0), runs = (\<lambda>_. \<lparr>run_prev = Null, run_next = Null\<rparr>),
     start = 0, pnum_max = 0\<rparr>"

lemma init_ok:
  assumes "KERNBASE \<le> kend" "PGROUNDUP kend \<le> PHYSTOP"
  obtains t where "buddy_init kend s = Done () t" "buddy_ok t" "start t = PGROUNDUP kend"
    "pnum_max t = (PHYSTOP - PGROUNDUP kend) div PGSIZE" "free_pages t = {..<pnum_max t}"
proof -
  obtain t where t: "buddy_init kend s = Done () t" "start t = PGROUNDUP kend"
    "pnum_max t = (PHYSTOP - PGROUNDUP kend) div PGSIZE" "buddy_rep t (a_init (pnum_max t))"
    using init_sim [OF assms] by blast
  then show ?thesis
    using that a_init_correct [of "pnum_max t"] buddy_okI [OF t(4)] free_pages_rep [OF t(4)] by auto
qed

lemma boot_ok:
  obtains s where "buddy_init 0x80021000 boot_state = Done () s" "buddy_ok s"
    "start s = 0x80021000" "pnum_max s = 32735" "free_pages s = {..<pnum_max s}"
proof -
  have pg: "PGROUNDUP 0x80021000 = 0x80021000" by (simp add: PGROUNDUP_def PGSIZE_def)
  have "KERNBASE \<le> 0x80021000" "PGROUNDUP 0x80021000 \<le> PHYSTOP"
    by (simp_all add: pg KERNBASE_def PHYSTOP_def)
  then obtain t where "buddy_init 0x80021000 boot_state = Done () t" "buddy_ok t"
    "start t = PGROUNDUP 0x80021000" "pnum_max t = (PHYSTOP - PGROUNDUP 0x80021000) div PGSIZE"
    "free_pages t = {..<pnum_max t}" using init_ok [where s = boot_state] by blast
  moreover have "(PHYSTOP - PGROUNDUP 0x80021000) div PGSIZE = 32735"
    by (simp add: pg KERNBASE_def PHYSTOP_def PGSIZE_def)
  ultimately show ?thesis using that pg by metis
qed

lemma boot_block:
  assumes "free_pages s = {..<pnum_max s}" "pnum_max s = 32735"
  shows "2 ^ 3 dvd (0::nat) \<and> blk 0 3 \<subseteq> free_pages s" "\<not> no_block 3 s"
proof -
  show "2 ^ 3 dvd (0::nat) \<and> blk 0 3 \<subseteq> free_pages s"
    using assms(2) unfolding assms(1) blk_def by (simp add: subset_iff)
  then show "\<not> no_block 3 s" unfolding no_block_def by blast
qed

text \<open>C2. \<open>buddy_alloc\<close> on a well-formed allocator, for every order the code accepts:
  it never panics or faults; if it returns a block, the block is aligned to its size, all
  of its pages were free, exactly its pages are no longer free, and the invariant
  (lists and bitmap agree, blocks disjoint, buddies merged) holds again; if it returns
  \<open>NULL\<close> nothing has changed and no aligned run of \<open>2 ^ k\<close> free pages exists.\<close>

theorem buddy_alloc_correct:
  assumes "buddy_ok s" "k \<le> MAX_ORDER"
  shows "(\<exists>p t. buddy_alloc k s = Done (Some (start s + p * PGSIZE)) t \<and> buddy_ok t \<and>
            2 ^ k dvd p \<and> p + 2 ^ k \<le> pnum_max s \<and> blk p k \<subseteq> free_pages s \<and>
            free_pages t = free_pages s - blk p k) \<or>
         (buddy_alloc k s = Done None s \<and> (\<nexists>p. 2 ^ k dvd p \<and> blk p k \<subseteq> free_pages s))"
  using alloc_cases [OF assms] by (cases "no_block k s") (auto simp: no_block_def wf_block_def addr_def)

theorem buddy_alloc_correct_witness:
  "\<exists>s p t. buddy_init 0x80021000 boot_state = Done () s \<and>
     buddy_alloc 3 s = Done (Some (start s + p * PGSIZE)) t \<and>
     8 dvd p \<and> free_pages t = free_pages s - blk p 3"
proof -
  obtain s where s: "buddy_init 0x80021000 boot_state = Done () s" "buddy_ok s"
    "pnum_max s = 32735" "free_pages s = {..<pnum_max s}"
    using boot_ok .
  have "3 \<le> MAX_ORDER" by (simp add: MAX_ORDER_def)
  from buddy_alloc_correct [OF s(2) this] show ?thesis
    using boot_block(1) [OF s(4,3)] s(1) by fastforce
qed

text \<open>C5. \<open>buddy_free\<close> of an aligned block none of whose pages is free never panics: the
  pages of the block become free, no other page changes, and the invariant holds again; in
  particular the block is merged with its buddies as far as possible.\<close>

theorem buddy_free_correct:
  assumes "buddy_ok s" "k \<le> MAX_ORDER" "2 ^ k dvd p" "p + 2 ^ k \<le> pnum_max s"
    and "blk p k \<inter> free_pages s = {}"
  shows "\<exists>t. buddy_free (start s + p * PGSIZE) k s = Done () t \<and> buddy_ok t \<and>
           free_pages t = free_pages s \<union> blk p k"
  using free_cases [OF assms(1,2) _ assms(5)] assms(3,4) by (auto simp: wf_block_def addr_def)

theorem buddy_free_correct_witness:
  "\<exists>s p t u. buddy_init 0x80021000 boot_state = Done () s \<and>
     buddy_alloc 3 s = Done (Some (start s + p * PGSIZE)) t \<and>
     buddy_free (start t + p * PGSIZE) 3 t = Done () u \<and> free_pages u = free_pages s"
proof -
  obtain s where s: "buddy_init 0x80021000 boot_state = Done () s" "buddy_ok s"
    "pnum_max s = 32735" "free_pages s = {..<pnum_max s}"
    using boot_ok .
  obtain p t where t: "buddy_alloc 3 s = Done (Some (start s + p * PGSIZE)) t" "buddy_ok t"
    "same_geometry s t" "wf_block (pnum_max s) p 3" "blk p 3 \<subseteq> free_pages s"
    "free_pages t = free_pages s - blk p 3"
    using alloc_cases(2) [OF s(2) _ boot_block(2) [OF s(4,3)]] by (auto simp: MAX_ORDER_def addr_def)
  have "2 ^ 3 dvd p" "p + 2 ^ 3 \<le> pnum_max t" "blk p 3 \<inter> free_pages t = {}"
    using t by (auto simp: wf_block_def same_geometry_def)
  then obtain u where "buddy_free (start t + p * PGSIZE) 3 t = Done () u"
    "free_pages u = free_pages t \<union> blk p 3"
    using buddy_free_correct [OF t(2), of 3 p] by (auto simp: MAX_ORDER_def)
  then show ?thesis using s(1) t(1,5,6) by blast
qed

text \<open>The free lists are determined by the free pages, bit for bit.\<close>

lemma free_bits_canonical:
  assumes "buddy_ok s" "buddy_ok t" "same_geometry s t" "free_pages s = free_pages t"
    and "j \<le> MAX_ORDER" "q < pnum_max s" "2 ^ j dvd q"
  shows "free_bit t q j = free_bit s q j"
proof -
  obtain fl where fl: "buddy_rep s fl" "coalesced fl" "wf_lists (pnum_max s) fl" "free_pages s = pages fl"
    using buddy_okE [OF assms(1)] .
  obtain gl where gl: "buddy_rep t gl" "coalesced gl" "wf_lists (pnum_max t) gl" "free_pages t = pages gl"
    using buddy_okE [OF assms(2)] .
  have "set (fl j) = set (gl j)"
    using lists_canonical [OF fl(3,2) gl(3,2) _ assms(5)] fl(4) gl(4) assms(4) by simp
  moreover have "bits s fl" "bits t gl" "pnum_max t = pnum_max s"
    using fl(1) gl(1) assms(3) by (auto simp: buddy_rep_def same_geometry_def)
  ultimately show ?thesis using assms(5,6,7) by (simp add: bits_def)
qed

text \<open>C6. Splitting and merging are inverse: giving back the block that \<open>buddy_alloc\<close>
  returned succeeds and restores the bitmap, so that every block of every order is free
  afterwards if and only if it was free before.\<close>

theorem buddy_alloc_free_roundtrip:
  assumes "buddy_ok s" "k \<le> MAX_ORDER" "buddy_alloc k s = Done (Some a) t"
  shows "\<exists>u. buddy_free a k t = Done () u \<and> buddy_ok u \<and> free_pages u = free_pages s \<and>
           (\<forall>j\<le>MAX_ORDER. \<forall>q<pnum_max s. 2 ^ j dvd q \<longrightarrow> free_bit u q j = free_bit s q j)"
proof -
  have "\<not> no_block k s" using alloc_cases(1) [OF assms(1,2)] assms(3) by auto
  then obtain p where p: "a = addr s p" "buddy_ok t" "same_geometry s t"
    "wf_block (pnum_max s) p k" "blk p k \<subseteq> free_pages s" "free_pages t = free_pages s - blk p k"
    using alloc_cases(2) [OF assms(1,2)] assms(3) by auto
  obtain u where u: "buddy_free a k t = Done () u" "buddy_ok u" "same_geometry t u"
    "free_pages u = free_pages t \<union> blk p k"
    using free_cases [OF p(2) assms(2), of p] p(1,4,6) same_geometryD [OF p(3)] by auto
  have eq: "free_pages u = free_pages s" using u(4) p(5,6) by blast
  moreover have "same_geometry s u" using p(3) u(3) by (rule same_geometry_trans)
  ultimately show ?thesis using u(1,2) free_bits_canonical [OF assms(1) u(2)] by auto
qed

theorem buddy_alloc_free_roundtrip_witness:
  "\<exists>s a t u. buddy_init 0x80021000 boot_state = Done () s \<and> buddy_alloc 3 s = Done (Some a) t \<and>
     buddy_free a 3 t = Done () u \<and> free_bit u 0 11 = free_bit s 0 11"
proof -
  obtain s where s: "buddy_init 0x80021000 boot_state = Done () s" "buddy_ok s"
    "pnum_max s = 32735" "free_pages s = {..<pnum_max s}"
    using boot_ok .
  have k: "3 \<le> MAX_ORDER" and j: "11 \<le> MAX_ORDER" by (simp_all add: MAX_ORDER_def)
  obtain p t where t: "buddy_alloc 3 s = Done (Some (addr s p)) t"
    using alloc_cases(2) [OF s(2) k boot_block(2) [OF s(4,3)]] by blast
  obtain u where u: "buddy_free (addr s p) 3 t = Done () u"
    "\<forall>j\<le>MAX_ORDER. \<forall>q<pnum_max s. 2 ^ j dvd q \<longrightarrow> free_bit u q j = free_bit s q j"
    using buddy_alloc_free_roundtrip [OF s(2) k t] by blast
  moreover have "0 < pnum_max s" using s(3) by simp
  ultimately have "free_bit u 0 11 = free_bit s 0 11" using j by (metis dvd_0_right)
  then show ?thesis using s(1) t u(1) by blast
qed

text \<open>C7. \<open>buddy_init\<close> makes every page between the end of the kernel and
  \<open>PHYSTOP\<close> free exactly once and establishes the invariant, whatever the memory
  contained.  (The blocks of the lower orders lie after the blocks of order
  \<open>MAX_ORDER\<close>.)\<close>

theorem buddy_init_correct:
  assumes "KERNBASE \<le> kend" "PGROUNDUP kend \<le> PHYSTOP"
  shows "\<exists>t. buddy_init kend s = Done () t \<and> buddy_ok t \<and> start t = PGROUNDUP kend \<and>
           start t + pnum_max t * PGSIZE = PHYSTOP \<and> free_pages t = {..<pnum_max t}"
proof -
  obtain t where t: "buddy_init kend s = Done () t" "buddy_ok t" "start t = PGROUNDUP kend"
    "free_pages t = {..<pnum_max t}"
    using init_ok [OF assms, where s = s] by metis
  then show ?thesis using buddy_ok_geometry [OF t(2)] by (auto simp: geometry_def)
qed

theorem buddy_init_correct_witness:
  "\<exists>t. buddy_init 0x80021000 boot_state = Done () t \<and> buddy_ok t \<and> free_pages t = {..<pnum_max t}"
proof -
  have "KERNBASE \<le> 0x80021000" "PGROUNDUP 0x80021000 \<le> PHYSTOP"
    by (simp_all add: KERNBASE_def PHYSTOP_def PGROUNDUP_def PGSIZE_def)
  from buddy_init_correct [OF this, of boot_state] show ?thesis by blast
qed

text \<open>C1. Every history of \<open>buddy_alloc\<close> and \<open>buddy_free\<close> from boot: at any moment the
  blocks handed out and not yet given back are pairwise disjoint, disjoint from the free
  memory, and together with it make up all of the memory from the end of the kernel to
  \<open>PHYSTOP\<close>; giving any of them back succeeds.\<close>

theorem buddy_history_safe:
  assumes "KERNBASE \<le> kend" "PGROUNDUP kend \<le> PHYSTOP" "buddy_init kend s0 = Done () s1"
    and "alloc_run buddy_alloc buddy_free (\<lambda>k. k \<le> MAX_ORDER) s1 s own"
  shows "disjoint_blocks frames own \<and> occupied frames own \<inter> free_frames s = {} \<and>
         free_frames s \<union> occupied frames own = {PGROUNDUP kend div PGSIZE ..< PHYSTOP div PGSIZE} \<and>
         (\<forall>(a, k)\<in>set own. \<exists>t. buddy_free a k s = Done () t)"
proof -
  obtain t where "buddy_init kend s0 = Done () t" and t: "buddy_ok t" "start t = PGROUNDUP kend"
    "free_pages t = {..<pnum_max t}"
    using init_ok [OF assms(1,2), where s = s0] by metis
  then have "t = s1" using assms(3) by simp
  note s1 = t [unfolded this]
  have "start s1 + pnum_max s1 * PGSIZE = PHYSTOP"
    using buddy_ok_geometry [OF s1(1)] by (simp add: geometry_def)
  then have "PHYSTOP div PGSIZE = start s1 div PGSIZE + pnum_max s1"
    by (auto simp: PGSIZE_def)
  moreover have "(\<lambda>p. (c::nat) + p) ` {..<n} = {c..<c + n}" for c n
    using image_add_atLeastLessThan [of c 0 n] by (simp add: lessThan_atLeast0 add.commute)
  ultimately have "free_frames s1 = {PGROUNDUP kend div PGSIZE ..< PHYSTOP div PGSIZE}"
    using s1(2,3) by (simp add: free_frames_def)
  then show ?thesis
    using bud.run_invariant [OF assms(4) s1(1)] bud.run_progress(2) [OF assms(4) s1(1)] by auto
qed

theorem buddy_history_safe_witness:
  "\<exists>s0 s a b. buddy_init 0x80021000 boot_state = Done () s0 \<and>
     alloc_run buddy_alloc buddy_free (\<lambda>k. k \<le> MAX_ORDER) s0 s [(b, 3), (a, 3)] \<and>
     frames b 3 \<inter> frames a 3 = {}"
proof -
  obtain s where s: "buddy_init 0x80021000 boot_state = Done () s" "buddy_ok s"
    "pnum_max s = 32735" "free_pages s = {..<pnum_max s}"
    using boot_ok .
  have k: "3 \<le> MAX_ORDER" by (simp add: MAX_ORDER_def)
  have kend: "KERNBASE \<le> 0x80021000" "PGROUNDUP 0x80021000 \<le> PHYSTOP"
    by (simp_all add: KERNBASE_def PHYSTOP_def PGROUNDUP_def PGSIZE_def)
  obtain p t where t: "buddy_alloc 3 s = Done (Some (addr s p)) t" "buddy_ok t"
    "free_pages t = free_pages s - blk p 3" "wf_block (pnum_max s) p 3"
    using alloc_cases(2) [OF s(2) k boot_block(2) [OF s(4,3)]] by blast
  have n: "16 \<le> pnum_max s" using s(3) by simp
  have "blk (if p = 0 then 8 else 0) 3 \<subseteq> free_pages t" "2 ^ 3 dvd (if p = 0 then 8 else 0 :: nat)"
    using t(4) n unfolding t(3) s(4) blk_def wf_block_def by (auto dest!: dvd_imp_le)
  then have "\<not> no_block 3 t" unfolding no_block_def by blast
  then obtain q u where u: "buddy_alloc 3 t = Done (Some (addr t q)) u"
    using alloc_cases(2) [OF t(2) k] by blast
  have run: "alloc_run buddy_alloc buddy_free (\<lambda>k. k \<le> MAX_ORDER) s u [(addr t q, 3), (addr s p, 3)]"
    using take_block [where alloc = buddy_alloc and q = "3::nat" and t = u]
      take_block [where alloc = buddy_alloc and q = "3::nat" and t = t] begin_run k u t(1) by metis
  have "disjoint_blocks frames [(addr t q, 3), (addr s p, 3)]"
    using buddy_history_safe [OF kend s(1) run] by blast
  then show ?thesis using s(1) run by auto
qed

end
