(* ===== verification/Kalloc.thy ===== *)
theory Kalloc
  imports Buddy_Correct Spinlock
begin

section \<open>Reference-counted pages (kernel/kalloc.c, second half)\<close>

text \<open>
  \<open>kalloc\<close>, \<open>kfree\<close> and \<open>kaddrefcnt\<close>: single pages of the buddy allocator with a
  reference count per page frame, used for copy on write; \<open>kbuddy_alloc\<close> and
  \<open>kbuddy_free\<close> hand out larger blocks without counts.  The state has the allocator and
  its lock, the counts and theirs, and the bytes of physical memory.  The links of the free
  lists are stored in the pages, so \<open>memset\<close> on a page changes both views of it.
\<close>

record kmem =
  buddy :: buddy_state
  buddy_lock :: spinlock
  ref_cnt :: "nat \<Rightarrow> 32 word"
  ref_lock :: spinlock
  phys :: "nat \<Rightarrow> 8 word"
  kend :: nat

definition acquire_buddy :: "nat \<Rightarrow> kmem \<Rightarrow> (unit, kmem) outcome" where
  "acquire_buddy = lock_in buddy_lock (\<lambda>l s. s\<lparr>buddy_lock := l\<rparr>)"

definition release_buddy :: "nat \<Rightarrow> kmem \<Rightarrow> (unit, kmem) outcome" where
  "release_buddy = unlock_in buddy_lock (\<lambda>l s. s\<lparr>buddy_lock := l\<rparr>)"

definition acquire_ref :: "nat \<Rightarrow> kmem \<Rightarrow> (unit, kmem) outcome" where
  "acquire_ref = lock_in ref_lock (\<lambda>l s. s\<lparr>ref_lock := l\<rparr>)"

definition release_ref :: "nat \<Rightarrow> kmem \<Rightarrow> (unit, kmem) outcome" where
  "release_ref = unlock_in ref_lock (\<lambda>l s. s\<lparr>ref_lock := l\<rparr>)"

definition on_buddy :: "(buddy_state \<Rightarrow> ('a, buddy_state) outcome) \<Rightarrow> kmem \<Rightarrow> ('a, kmem) outcome" where
  "on_buddy = zoom buddy (\<lambda>b s. s\<lparr>buddy := b\<rparr>)"

lemmas kmem_lens = acquire_buddy_def release_buddy_def acquire_ref_def release_ref_def on_buddy_def

text \<open>
  \<open>memset(pa, c, PGSIZE)\<close>.  The pointer made of eight bytes \<open>c\<close> is null for \<open>c = 0\<close>
  and an address far above \<open>PHYSTOP\<close> otherwise.
\<close>

definition junk_ptr :: "8 word \<Rightarrow> rptr" where
  "junk_ptr c = (if c = 0 then Null else Block (unat c * 0x0101010101010101))"

definition memset_page :: "nat \<Rightarrow> 8 word \<Rightarrow> kmem \<Rightarrow> kmem" where
  "memset_page pa c s =
     s\<lparr>phys := (\<lambda>a. if pa \<le> a \<and> a < pa + PGSIZE then c else phys s a),
       buddy := (buddy s)\<lparr>runs := (\<lambda>x. case x of
           Block a \<Rightarrow> if pa \<le> a \<and> a < pa + PGSIZE
                      then \<lparr>run_prev = junk_ptr c, run_next = junk_ptr c\<rparr> else runs (buddy s) x
         | _ \<Rightarrow> runs (buddy s) x)\<rparr>\<rparr>"

definition kinit :: "kmem \<Rightarrow> (unit, kmem) outcome" where
  "kinit s =
     (let s = s\<lparr>ref_lock := initlock, buddy_lock := initlock\<rparr>
      in on_buddy (buddy_init (kend s)) s)"

definition kfree :: "nat \<Rightarrow> nat \<Rightarrow> kmem \<Rightarrow> (unit, kmem) outcome" where
  "kfree me pa s =
     (if pa mod PGSIZE \<noteq> 0 \<or> pa < kend s \<or> PHYSTOP \<le> pa then Panic ''kfree''
      else bnd (acquire_ref me s) (\<lambda>_ s.
        let s = s\<lparr>ref_cnt := (ref_cnt s)(pa div PGSIZE := ref_cnt s (pa div PGSIZE) - 1)\<rparr> in
        if ref_cnt s (pa div PGSIZE) = 0
        then bnd (release_ref me s) (\<lambda>_ s.
             bnd (acquire_buddy me (memset_page pa 1 s)) (\<lambda>_ s.
             bnd (on_buddy (buddy_free pa 0) s) (\<lambda>_ s.
             release_buddy me s)))
        else release_ref me s))"

text \<open>
  \<open>kalloc\<close> does not test the result of \<open>buddy_alloc\<close>: for a null pointer it sets
  the count of frame 0, and the \<open>memset\<close> of the unmapped page 0 faults.
\<close>

definition kalloc :: "nat \<Rightarrow> kmem \<Rightarrow> (nat, kmem) outcome" where
  "kalloc me s =
     bnd (acquire_buddy me s) (\<lambda>_ s.
     bnd (on_buddy (buddy_alloc 0) s) (\<lambda>result s.
     bnd (release_buddy me s) (\<lambda>_ s.
     bnd (acquire_ref me s) (\<lambda>_ s.
     let frame = (case result of None \<Rightarrow> 0 | Some pa \<Rightarrow> pa div PGSIZE);
         s = s\<lparr>ref_cnt := (ref_cnt s)(frame := 1)\<rparr> in
     bnd (release_ref me s) (\<lambda>_ s.
     case result of None \<Rightarrow> Fault | Some pa \<Rightarrow> Done pa (memset_page pa 0 s))))))"

definition kbuddy_alloc :: "nat \<Rightarrow> nat \<Rightarrow> kmem \<Rightarrow> (nat option, kmem) outcome" where
  "kbuddy_alloc me order s =
     bnd (acquire_buddy me s) (\<lambda>_ s.
     bnd (on_buddy (buddy_alloc order) s) (\<lambda>result s.
     bnd (release_buddy me s) (\<lambda>_ s. Done result s)))"

definition kbuddy_free :: "nat \<Rightarrow> nat \<Rightarrow> nat \<Rightarrow> kmem \<Rightarrow> (unit, kmem) outcome" where
  "kbuddy_free me pa order s =
     bnd (acquire_buddy me s) (\<lambda>_ s.
     bnd (on_buddy (buddy_free pa order) s) (\<lambda>_ s.
     release_buddy me s))"

definition krefcnt :: "nat \<Rightarrow> kmem \<Rightarrow> 32 word" where
  "krefcnt pa s = ref_cnt s (pa div PGSIZE)"

definition kaddrefcnt :: "nat \<Rightarrow> nat \<Rightarrow> kmem \<Rightarrow> (int, kmem) outcome" where
  "kaddrefcnt me pa s =
     (if pa mod PGSIZE \<noteq> 0 \<or> pa < kend s \<or> PHYSTOP \<le> pa then Done (-1) s
      else bnd (acquire_ref me s) (\<lambda>_ s.
        let s = s\<lparr>ref_cnt := (ref_cnt s)(pa div PGSIZE := ref_cnt s (pa div PGSIZE) + 1)\<rparr> in
        bnd (release_ref me s) (\<lambda>_ s. Done 0 s)))"

subsection \<open>The invariant\<close>

text \<open>
  Between calls no lock is held, the allocator is well formed, it manages the memory from
  the end of the kernel on, and a free page has no references.
\<close>

definition kmem_ok :: "kmem \<Rightarrow> bool" where
  "kmem_ok s \<longleftrightarrow> buddy_ok (buddy s) \<and> unheld (buddy_lock s) \<and> unheld (ref_lock s) \<and>
     start (buddy s) = PGROUNDUP (kend s) \<and> (\<forall>f\<in>free_frames (buddy s). ref_cnt s f = 0)"

definition free_mem :: "kmem \<Rightarrow> nat set" where
  "free_mem s = free_frames (buddy s)"

text \<open>The addresses \<open>kfree\<close> and \<open>kaddrefcnt\<close> accept.\<close>

definition page_addr :: "kmem \<Rightarrow> nat \<Rightarrow> bool" where
  "page_addr s pa \<longleftrightarrow> PGSIZE dvd pa \<and> kend s \<le> pa \<and> pa < PHYSTOP"

lemma page_addr_good:
  assumes "kmem_ok s" "page_addr s pa" shows "buddy_good (buddy s) pa 0"
proof -
  have g: "geometry (buddy s)" and st: "start (buddy s) = PGROUNDUP (kend s)"
    using assms(1) buddy_ok_geometry by (auto simp: kmem_ok_def)
  obtain f where f: "pa = f * PGSIZE" using assms(2) by (metis page_addr_def dvd_div_mult_self)
  obtain c where c: "start (buddy s) = c * PGSIZE" using start_aligned [OF g] by (metis dvd_div_mult_self)
  have "c = (kend s + PGSIZE - 1) div PGSIZE" using c st by (simp add: PGROUNDUP_def PGSIZE_def)
  moreover have "kend s \<le> f * PGSIZE" using assms(2) f by (simp add: page_addr_def)
  ultimately have "c \<le> f" unfolding PGSIZE_def by linarith
  moreover have "f < c + pnum_max (buddy s)"
    using g assms(2) f c by (simp add: geometry_def page_addr_def PGSIZE_def)
  ultimately have "pa = addr (buddy s) (f - c)" "f - c < pnum_max (buddy s)"
    using f c by (auto simp: addr_def PGSIZE_def)
  then show ?thesis by (auto simp: buddy_good_def wf_block_def)
qed

lemma good_page_addr:
  assumes "kmem_ok s" "buddy_good (buddy s) pa 0" shows "page_addr s pa"
proof -
  have g: "geometry (buddy s)" and st: "start (buddy s) = PGROUNDUP (kend s)"
    using assms(1) buddy_ok_geometry by (auto simp: kmem_ok_def)
  obtain p where p: "pa = addr (buddy s) p" "p < pnum_max (buddy s)"
    using assms(2) by (auto simp: buddy_good_def wf_block_def)
  then show ?thesis
    using g st start_aligned [OF g] PGROUNDUP_ge [of "kend s"]
    by (auto simp: page_addr_def addr_def geometry_def PGSIZE_def)
qed

lemma page_addr_checks:
  "page_addr s pa \<longleftrightarrow> \<not> (pa mod PGSIZE \<noteq> 0 \<or> pa < kend s \<or> PHYSTOP \<le> pa)"
  by (auto simp: page_addr_def dvd_eq_mod_eq_0)

text \<open>Filling a page that is not free leaves the allocator alone.\<close>

lemma fill_page_ok:
  assumes ok: "buddy_ok b" and nf: "pa div PGSIZE \<notin> free_frames b" and al: "PGSIZE dvd pa"
    and h: "\<And>x. (\<And>a. x = Block a \<Longrightarrow> \<not> (pa \<le> a \<and> a < pa + PGSIZE)) \<Longrightarrow> h x = runs b x"
  shows "buddy_ok (b\<lparr>runs := h\<rparr>) \<and> free_frames (b\<lparr>runs := h\<rparr>) = free_frames b"
proof -
  obtain fl where fl: "buddy_rep b fl" "coalesced fl" "wf_lists (pnum_max b) fl" "free_pages b = pages fl"
    using buddy_okE [OF ok] .
  have g: "geometry b" using fl(1) by (simp add: buddy_rep_def)
  have same: "h (Block (addr b q)) = runs b (Block (addr b q))" if "k \<le> MAX_ORDER" "q \<in> set (fl k)" for k q
  proof (rule h, rule notI)
    fix a assume "Block (addr b q) = Block a" and r: "pa \<le> a \<and> a < pa + PGSIZE"
    then have "addr b q = a" by simp
    moreover have "a div PGSIZE = pa div PGSIZE"
      using r al by (auto simp: PGSIZE_def elim!: dvdE)
    moreover have "q \<in> free_pages b" using pagesI [of k q fl q] that blk_mem fl(4) by blast
    then have "addr b q div PGSIZE \<in> free_frames b" by (simp add: addr_div [OF g] free_frames_def)
    ultimately show False using nf by simp
  qed
  have "dll h (Head k) (map (addr b) (fl k)) = dll (runs b) (Head k) (map (addr b) (fl k))"
    if "k \<le> MAX_ORDER" for k
    using same [OF that] h [of "Head k"] by (intro dll_cong) auto
  then have "links (b\<lparr>runs := h\<rparr>) fl" using fl(1) by (simp add: buddy_rep_def links_def)
  then have "buddy_rep (b\<lparr>runs := h\<rparr>) fl" using fl(1) by (simp add: buddy_rep_def)
  then show ?thesis
    using buddy_okI fl(2) by (auto simp: free_frames_def free_pages_def free_bit_def)
qed

lemma memset_page_ok:
  assumes "buddy_ok (buddy s)" "pa div PGSIZE \<notin> free_mem s" "PGSIZE dvd pa"
  shows "buddy_ok (buddy (memset_page pa c s))" "free_mem (memset_page pa c s) = free_mem s"
proof -
  let ?h = "runs (buddy (memset_page pa c s))"
  have "buddy_ok ((buddy s)\<lparr>runs := ?h\<rparr>) \<and> free_frames ((buddy s)\<lparr>runs := ?h\<rparr>) = free_frames (buddy s)"
  proof (rule fill_page_ok [OF assms(1) assms(2) [unfolded free_mem_def] assms(3)])
    fix x assume "\<And>a. x = Block a \<Longrightarrow> \<not> (pa \<le> a \<and> a < pa + PGSIZE)"
    then show "?h x = runs (buddy s) x" by (cases x) (auto simp: memset_page_def)
  qed
  moreover have "buddy (memset_page pa c s) = (buddy s)\<lparr>runs := ?h\<rparr>" by (simp add: memset_page_def)
  ultimately show "buddy_ok (buddy (memset_page pa c s))" "free_mem (memset_page pa c s) = free_mem s"
    by (simp_all add: free_mem_def)
qed

lemma memset_page_fields [simp]:
  "buddy_lock (memset_page pa c s) = buddy_lock s" "ref_lock (memset_page pa c s) = ref_lock s"
  "ref_cnt (memset_page pa c s) = ref_cnt s" "kend (memset_page pa c s) = kend s"
  "start (buddy (memset_page pa c s)) = start (buddy s)"
  "pnum_max (buddy (memset_page pa c s)) = pnum_max (buddy s)"
  "phys (memset_page pa c s) a = (if pa \<le> a \<and> a < pa + PGSIZE then c else phys s a)"
  by (simp_all add: memset_page_def)

lemma kmem_okD:
  assumes "kmem_ok s"
  shows "buddy_ok (buddy s)" "unheld (buddy_lock s)" "unheld (ref_lock s)"
    "start (buddy s) = PGROUNDUP (kend s)" "\<And>f. f \<in> free_mem s \<Longrightarrow> ref_cnt s f = 0"
  using assms by (auto simp: kmem_ok_def free_mem_def)

lemma kmem_okI:
  assumes "buddy_ok (buddy s)" "buddy_lock s = initlock" "ref_lock s = initlock"
    "start (buddy s) = PGROUNDUP (kend s)" "\<And>f. f \<in> free_mem s \<Longrightarrow> ref_cnt s f = 0"
  shows "kmem_ok s"
  using assms by (auto simp: kmem_ok_def free_mem_def)

lemma frames_0 [simp]: "frames pa 0 = {pa div PGSIZE}"
  by (auto simp: frames_def)

lemma no_block_0: "no_block 0 b \<longleftrightarrow> free_frames b = {}"
  by (auto simp: no_block_def blk_def free_frames_def subset_iff)

text \<open>What the allocator does for the single pages.\<close>

lemma buddy_alloc_page:
  assumes "buddy_ok b" "free_frames b \<noteq> {}"
  obtains pa t where "buddy_alloc 0 b = Done (Some pa) t" "buddy_ok t" "same_geometry b t"
    "buddy_good b pa 0" "pa div PGSIZE \<in> free_frames b" "free_frames t = free_frames b - {pa div PGSIZE}"
proof -
  obtain p t where t: "buddy_alloc 0 b = Done (Some (addr b p)) t" "buddy_ok t" "same_geometry b t"
    "wf_block (pnum_max b) p 0" "blk p 0 \<subseteq> free_pages b" "free_pages t = free_pages b - blk p 0"
    using alloc_cases(2) [OF assms(1), of 0] assms(2) no_block_0 by blast
  have g: "geometry b" by (rule buddy_ok_geometry [OF assms(1)])
  have "blk p 0 = {p}" by (auto simp: blk_def)
  then have "addr b p div PGSIZE \<in> free_frames b" "free_frames t = free_frames b - {addr b p div PGSIZE}"
    using t(3,5,6) by (simp_all add: free_frames_def addr_div [OF g] same_geometry_def shift_Diff)
  moreover have "buddy_good b (addr b p) 0" using t(4) by (auto simp: buddy_good_def)
  ultimately show ?thesis using that t by blast
qed

lemma buddy_free_page:
  assumes "buddy_ok b" "buddy_good b pa 0" "pa div PGSIZE \<notin> free_frames b"
  obtains t where "buddy_free pa 0 b = Done () t" "buddy_ok t" "same_geometry b t"
    "free_frames t = insert (pa div PGSIZE) (free_frames b)"
proof -
  have g: "geometry b" by (rule buddy_ok_geometry [OF assms(1)])
  obtain p where p: "pa = addr b p" "wf_block (pnum_max b) p 0" using assms(2) by (auto simp: buddy_good_def)
  have b: "blk p 0 = {p}" by (auto simp: blk_def)
  have "blk p 0 \<inter> free_pages b = {}"
    using assms(3) p(1) by (auto simp: b free_frames_def addr_div [OF g])
  then obtain t where "buddy_free pa 0 b = Done () t" "buddy_ok t" "same_geometry b t"
    "free_pages t = free_pages b \<union> blk p 0"
    using free_cases [OF assms(1) _ p(2)] p(1) by auto
  then show ?thesis using that p(1) by (auto simp: free_frames_def b addr_div [OF g] same_geometry_def)
qed

lemma kalloc_ok:
  assumes ok: "kmem_ok s" and ne: "free_mem s \<noteq> {}"
  obtains pa t where "kalloc me s = Done pa t" "kmem_ok t" "page_addr s pa" "kend t = kend s"
    "pa div PGSIZE \<in> free_mem s" "free_mem t = free_mem s - {pa div PGSIZE}"
    "ref_cnt t = (ref_cnt s)(pa div PGSIZE := 1)"
    "\<And>a. phys t a = (if pa \<le> a \<and> a < pa + PGSIZE then 0 else phys s a)"
proof -
  note o = kmem_okD [OF ok]
  obtain pa b where b: "buddy_alloc 0 (buddy s) = Done (Some pa) b" "buddy_ok b" "same_geometry (buddy s) b"
    "buddy_good (buddy s) pa 0" "pa div PGSIZE \<in> free_mem s" "free_frames b = free_mem s - {pa div PGSIZE}"
    using buddy_alloc_page [OF o(1)] ne unfolding free_mem_def by metis
  let ?s = "s\<lparr>buddy := b, buddy_lock := initlock,
    ref_cnt := (ref_cnt s)(pa div PGSIZE := 1), ref_lock := initlock\<rparr>"
  have k: "kalloc me s = Done pa (memset_page pa 0 ?s)"
    using o(2,3) b(1) by (simp add: kalloc_def kmem_lens)
  have pg: "page_addr s pa" by (rule good_page_addr [OF ok b(4)])
  have st: "start b = PGROUNDUP (kend s)" using b(3) o(4) by (simp add: same_geometry_def)
  have m: "buddy_ok (buddy (memset_page pa 0 ?s))" "free_mem (memset_page pa 0 ?s) = free_frames b"
    using memset_page_ok [of ?s pa 0] b(2,6) pg by (auto simp: free_mem_def page_addr_def)
  have "kmem_ok (memset_page pa 0 ?s)"
    using m b(6) o(5) st by (intro kmem_okI) auto
  then show ?thesis using that [OF k _ pg] b(5,6) m by auto
qed

lemma kalloc_oom:
  assumes "kmem_ok s" "free_mem s = {}" shows "kalloc me s = Fault"
proof -
  have "buddy_alloc 0 (buddy s) = Done None (buddy s)"
    using alloc_cases(1) [of "buddy s" 0] assms no_block_0 by (simp add: kmem_ok_def free_mem_def)
  then show ?thesis using kmem_okD [OF assms(1)] by (simp add: kalloc_def kmem_lens)
qed

lemma kmem_ok_cnt:
  "kmem_ok s \<Longrightarrow> f \<notin> free_mem s \<Longrightarrow> kmem_ok (s\<lparr>ref_cnt := (ref_cnt s)(f := c)\<rparr>)"
  by (auto simp: kmem_ok_def free_mem_def)

lemma kfree_shared:
  assumes ok: "kmem_ok s" and pa: "page_addr s pa" and c: "ref_cnt s (pa div PGSIZE) \<noteq> 1"
  shows "kfree me pa s = Done () (s\<lparr>ref_cnt := (ref_cnt s)(pa div PGSIZE := ref_cnt s (pa div PGSIZE) - 1)\<rparr>)"
  using kmem_okD(2,3) [OF ok] pa c
  by (cases s) (simp add: kfree_def page_addr_checks kmem_lens unheld_def)

lemma kfree_last:
  assumes ok: "kmem_ok s" and pa: "page_addr s pa" and c: "ref_cnt s (pa div PGSIZE) = 1"
  obtains t where "kfree me pa s = Done () t" "kmem_ok t" "kend t = kend s"
    "pa div PGSIZE \<notin> free_mem s" "free_mem t = insert (pa div PGSIZE) (free_mem s)"
    "ref_cnt t = (ref_cnt s)(pa div PGSIZE := 0)"
proof -
  note o = kmem_okD [OF ok]
  have nf: "pa div PGSIZE \<notin> free_mem s" using o(5) [of "pa div PGSIZE"] c by auto
  let ?s = "memset_page pa 1 (s\<lparr>ref_cnt := (ref_cnt s)(pa div PGSIZE := 0), ref_lock := initlock\<rparr>)"
  have m: "buddy_ok (buddy ?s)" "free_mem ?s = free_mem s"
    using memset_page_ok [of "s\<lparr>ref_cnt := (ref_cnt s)(pa div PGSIZE := 0), ref_lock := initlock\<rparr>" pa 1]
      o(1) nf pa by (auto simp: free_mem_def page_addr_def)
  have "buddy_good (buddy ?s) pa 0"
    using page_addr_good [OF ok pa] by (simp add: buddy_good_def addr_def)
  then obtain b where b: "buddy_free pa 0 (buddy ?s) = Done () b" "buddy_ok b"
    "same_geometry (buddy ?s) b" "free_frames b = insert (pa div PGSIZE) (free_mem s)"
    using buddy_free_page [OF m(1)] nf m(2) unfolding free_mem_def by metis
  let ?t = "?s\<lparr>buddy := b, buddy_lock := initlock\<rparr>"
  have "kfree me pa s = Done () ?t"
    using o(2,3) pa c b(1) by (simp add: kfree_def page_addr_checks kmem_lens)
  moreover have "kmem_ok ?t"
    using b(2,3,4) o(4,5) by (intro kmem_okI) (auto simp: free_mem_def same_geometry_def)
  ultimately show ?thesis using that nf b(4) by (simp add: free_mem_def)
qed

lemma kaddrefcnt_ok:
  assumes ok: "kmem_ok s" and pa: "page_addr s pa"
  shows "kaddrefcnt me pa s =
      Done 0 (s\<lparr>ref_cnt := (ref_cnt s)(pa div PGSIZE := ref_cnt s (pa div PGSIZE) + 1)\<rparr>)"
  using kmem_okD(2,3) [OF ok] pa
  by (cases s) (simp add: kaddrefcnt_def page_addr_checks kmem_lens unheld_def)

subsection \<open>Pages as blocks of an allocator\<close>

definition kalloc_page :: "nat \<Rightarrow> unit \<Rightarrow> kmem \<Rightarrow> (nat option, kmem) outcome" where
  "kalloc_page me u s = bnd (kalloc me s) (\<lambda>pa s. Done (Some pa) s)"

definition kfree_page :: "nat \<Rightarrow> nat \<Rightarrow> unit \<Rightarrow> kmem \<Rightarrow> (unit, kmem) outcome" where
  "kfree_page me pa u s = kfree me pa s"

definition sole_page :: "kmem \<Rightarrow> nat \<Rightarrow> unit \<Rightarrow> bool" where
  "sole_page s pa u \<longleftrightarrow> page_addr s pa \<and> ref_cnt s (pa div PGSIZE) = 1"

interpretation kpages: allocator kmem_ok free_mem sole_page "\<lambda>pa u. {pa div PGSIZE}"
  "\<lambda>u. True" "\<lambda>u s. free_mem s = {}" "kalloc_page me" "kfree_page me" for me
proof
  fix s u assume s: "kmem_ok s" "free_mem s \<noteq> {}"
  obtain pa t where "kalloc me s = Done pa t" "kmem_ok t" "page_addr s pa" "kend t = kend s"
    "pa div PGSIZE \<in> free_mem s" "free_mem t = free_mem s - {pa div PGSIZE}"
    "ref_cnt t = (ref_cnt s)(pa div PGSIZE := 1)"
    using kalloc_ok [OF s] .
  then show "\<exists>b t. kalloc_page me u s = Done (Some b) t \<and> kmem_ok t \<and> sole_page t b u \<and>
      {b div PGSIZE} \<subseteq> free_mem s \<and> free_mem t = free_mem s - {b div PGSIZE} \<and>
      (\<forall>c r. sole_page s c r \<and> {c div PGSIZE} \<inter> free_mem s = {} \<longrightarrow> sole_page t c r)"
    by (auto simp: kalloc_page_def sole_page_def page_addr_def)
next
  fix s u r t assume "kmem_ok s" "free_mem s = {}" "kalloc_page me u s = Done r t"
  then show "r = None \<and> t = s" using kalloc_oom [of s me] by (simp add: kalloc_page_def)
next
  fix s pa u assume s: "kmem_ok s" "sole_page s pa u"
  then obtain t where "kfree me pa s = Done () t" "kmem_ok t" "kend t = kend s"
    "free_mem t = insert (pa div PGSIZE) (free_mem s)" "ref_cnt t = (ref_cnt s)(pa div PGSIZE := 0)"
    using kfree_last [OF s(1), of pa me] by (auto simp: sole_page_def)
  then show "\<exists>t. kfree_page me pa u s = Done () t \<and> kmem_ok t \<and> free_mem t = free_mem s \<union> {pa div PGSIZE} \<and>
      (\<forall>c r. sole_page s c r \<and> {c div PGSIZE} \<inter> {pa div PGSIZE} = {} \<longrightarrow> sole_page t c r)"
    by (auto simp: kfree_page_def sole_page_def page_addr_def)
qed

subsection \<open>Shared pages\<close>

text \<open>
  A history of calls by any harts.  \<open>own\<close> has an entry for every reference: \<open>kalloc\<close>
  gives one, \<open>kaddrefcnt\<close> on a referenced page another one, \<open>kfree\<close> gives one up.
  The count is an \<open>int\<close>, hence the bound on the references to one page.
\<close>

inductive page_run :: "kmem \<Rightarrow> kmem \<Rightarrow> nat list \<Rightarrow> bool" for s0 where
  run_start: "page_run s0 s0 []"
| run_kalloc: "page_run s0 s own \<Longrightarrow> kalloc me s = Done pa t \<Longrightarrow> page_run s0 t (pa # own)"
| run_share: "page_run s0 s own \<Longrightarrow> pa \<in> set own \<Longrightarrow> count_list own pa < 2 ^ 31 - 1 \<Longrightarrow>
    kaddrefcnt me pa s = Done r t \<Longrightarrow> page_run s0 t (pa # own)"
| run_kfree: "page_run s0 s (xs @ pa # ys) \<Longrightarrow> kfree me pa s = Done () t \<Longrightarrow> page_run s0 t (xs @ ys)"

definition refs_ok :: "kmem \<Rightarrow> kmem \<Rightarrow> nat list \<Rightarrow> bool" where
  "refs_ok s0 s own \<longleftrightarrow> kmem_ok s \<and> kend s = kend s0 \<and>
     (\<forall>pa\<in>set own. page_addr s0 pa \<and> pa div PGSIZE \<in> free_mem s0) \<and>
     (\<forall>pa. page_addr s0 pa \<longrightarrow> unat (ref_cnt s (pa div PGSIZE)) = count_list own pa) \<and>
     free_mem s = free_mem s0 - (\<lambda>pa. pa div PGSIZE) ` set own"

lemma page_addr_frame_inj:
  "page_addr s pa \<Longrightarrow> page_addr s qa \<Longrightarrow> pa div PGSIZE = qa div PGSIZE \<Longrightarrow> pa = qa"
  by (metis page_addr_def dvd_div_mult_self)

lemma page_addr_kend: "kend t = kend s \<Longrightarrow> page_addr t pa = page_addr s pa"
  by (simp add: page_addr_def)

lemma refs_okD:
  assumes "refs_ok s0 s own"
  shows "kmem_ok s" "kend s = kend s0" "\<And>pa. pa \<in> set own \<Longrightarrow> page_addr s0 pa"
    "\<And>pa. page_addr s0 pa \<Longrightarrow> unat (ref_cnt s (pa div PGSIZE)) = count_list own pa"
    "free_mem s = free_mem s0 - (\<lambda>pa. pa div PGSIZE) ` set own"
    "\<And>pa. pa \<in> set own \<Longrightarrow> pa div PGSIZE \<in> free_mem s0"
  using assms by (auto simp: refs_ok_def)

lemma refs_okI:
  assumes "kmem_ok s" "kend s = kend s0"
    "\<And>pa. pa \<in> set own \<Longrightarrow> page_addr s0 pa \<and> pa div PGSIZE \<in> free_mem s0"
    "\<And>pa. page_addr s0 pa \<Longrightarrow> unat (ref_cnt s (pa div PGSIZE)) = count_list own pa"
    "free_mem s = free_mem s0 - (\<lambda>pa. pa div PGSIZE) ` set own"
  shows "refs_ok s0 s own"
  using assms by (simp add: refs_ok_def)

text \<open>A change of the count of one page, with that of its references.\<close>

lemma refs_update:
  assumes r: "refs_ok s0 s own" and pg: "page_addr s0 pa" and t: "kmem_ok t" "kend t = kend s"
    and c: "ref_cnt t = (ref_cnt s)(pa div PGSIZE := c)" "unat c = count_list own' pa"
    and own: "\<And>qa. qa \<noteq> pa \<Longrightarrow> count_list own' qa = count_list own qa"
    and fr: "pa \<in> set own' \<Longrightarrow> pa div PGSIZE \<in> free_mem s0"
    and mem: "free_mem t = free_mem s0 - (\<lambda>pa. pa div PGSIZE) ` set own'"
  shows "refs_ok s0 t own'"
proof (rule refs_okI)
  note d = refs_okD [OF r]
  show "kend t = kend s0" using t(2) d(2) by simp
  show "page_addr s0 qa \<and> qa div PGSIZE \<in> free_mem s0" if "qa \<in> set own'" for qa
  proof (cases "qa = pa")
    case False
    then have "qa \<in> set own" using that own [of qa] by (metis count_list_0_iff)
    then show ?thesis using d(3,6) by blast
  qed (use that pg fr in simp)
  show "unat (ref_cnt t (qa div PGSIZE)) = count_list own' qa" if "page_addr s0 qa" for qa
  proof (cases "qa = pa")
    case False
    then have "qa div PGSIZE \<noteq> pa div PGSIZE" using page_addr_frame_inj that pg by blast
    then show ?thesis using d(4) [OF that] own [OF False] c(1) by simp
  qed (use c in simp)
qed (use t mem in simp_all)

lemma refs_kalloc:
  assumes r: "refs_ok s0 s own" and k: "kalloc me s = Done pa t"
  shows "refs_ok s0 t (pa # own)"
proof -
  note d = refs_okD [OF r]
  have "free_mem s \<noteq> {}" using kalloc_oom [OF d(1)] k by auto
  then have t: "kmem_ok t" "page_addr s pa" "kend t = kend s" "pa div PGSIZE \<in> free_mem s"
    "free_mem t = free_mem s - {pa div PGSIZE}" "ref_cnt t = (ref_cnt s)(pa div PGSIZE := 1)"
    using kalloc_ok [OF d(1), of me] k by (metis outcome.inject(1))+
  have pg: "page_addr s0 pa" using t(2) d(2) by (simp add: page_addr_def)
  have "pa \<notin> set own" using t(4) d(5) by blast
  then show ?thesis
    using t d(5) by (intro refs_update [OF r pg t(1,3,6)]) (auto simp: count_list_0_iff)
qed

lemma unat_succ: "unat (c :: 32 word) < 2 ^ 32 - 1 \<Longrightarrow> unat (c + 1) = Suc (unat c)"
  by (simp add: unat_word_ariths)

lemma refs_share:
  assumes r: "refs_ok s0 s own" and pa: "pa \<in> set own" and b: "count_list own pa < 2 ^ 31 - 1"
    and k: "kaddrefcnt me pa s = Done v t"
  shows "refs_ok s0 t (pa # own)"
proof -
  note d = refs_okD [OF r]
  let ?f = "pa div PGSIZE"
  have pg: "page_addr s0 pa" "page_addr s pa" using d(2) d(3) [OF pa] by (auto simp: page_addr_def)
  have t: "t = s\<lparr>ref_cnt := (ref_cnt s)(?f := ref_cnt s ?f + 1)\<rparr>"
    using kaddrefcnt_ok [OF d(1) pg(2), of me] k by simp
  have nf: "?f \<notin> free_mem s" using d(5) pa by blast
  have "unat (ref_cnt s ?f + 1) = Suc (count_list own pa)"
    using unat_succ [of "ref_cnt s ?f"] d(4) [OF pg(1)] b by simp
  moreover have "free_mem t = free_mem s" by (simp add: t free_mem_def)
  ultimately show ?thesis
    using kmem_ok_cnt [OF d(1) nf] d(5,6) pa
    by (intro refs_update [OF r pg(1)]) (auto simp: t insert_absorb)
qed

lemma refs_kfree:
  assumes r: "refs_ok s0 s (xs @ pa # ys)"
  shows "\<exists>t. kfree me pa s = Done () t \<and> refs_ok s0 t (xs @ ys)"
proof -
  note d = refs_okD [OF r]
  let ?f = "pa div PGSIZE" and ?c = "count_list (xs @ ys)"
  have pg: "page_addr s0 pa" "page_addr s pa" and f0: "?f \<in> free_mem s0"
    using d(2,3,6) by (auto simp: page_addr_def)
  have cnt: "unat (ref_cnt s ?f) = Suc (?c pa)" using d(4) [OF pg(1)] by simp
  note upd = refs_update [OF r pg(1)]
  show ?thesis
  proof (cases "ref_cnt s ?f = 1")
    case True
    obtain t where t: "kfree me pa s = Done () t" "kmem_ok t" "kend t = kend s"
      "free_mem t = insert ?f (free_mem s)" "ref_cnt t = (ref_cnt s)(?f := 0)"
      using kfree_last [OF d(1) pg(2) True, of me] by metis
    have no: "pa \<notin> set (xs @ ys)" using cnt True by (metis count_list_0_iff nat.inject One_nat_def unat_1)
    have "?f \<notin> (\<lambda>pa. pa div PGSIZE) ` set (xs @ ys)"
    proof
      assume "?f \<in> (\<lambda>pa. pa div PGSIZE) ` set (xs @ ys)"
      then obtain qa where "qa \<in> set (xs @ ys)" "qa div PGSIZE = ?f" by (metis imageE)
      then show False using no page_addr_frame_inj [OF _ pg(1)] d(3) [of qa] by auto
    qed
    then have "free_mem t = free_mem s0 - (\<lambda>pa. pa div PGSIZE) ` set (xs @ ys)"
      using t(4) d(5) f0 by auto
    then have "refs_ok s0 t (xs @ ys)"
      using no t(2,3,5) f0 cnt by (intro upd) (auto simp: count_list_0_iff)
    then show ?thesis using t(1) by blast
  next
    case False
    let ?t = "s\<lparr>ref_cnt := (ref_cnt s)(?f := ref_cnt s ?f - 1)\<rparr>"
    have nf: "?f \<notin> free_mem s" using d(5) by simp
    have "?c pa \<noteq> 0" using False cnt by (metis One_nat_def unat_1 word_unat_eq_iff)
    then have "pa \<in> set (xs @ ys)" by (metis count_list_0_iff)
    then have mem: "free_mem ?t = free_mem s0 - (\<lambda>pa. pa div PGSIZE) ` set (xs @ ys)"
      using d(5) by (auto simp: free_mem_def)
    have "unat (ref_cnt s ?f - 1) = ?c pa"
      using cnt by (subst unat_minus_one) auto
    then have "refs_ok s0 ?t (xs @ ys)"
      using kmem_ok_cnt [OF d(1) nf] f0 mem by (intro upd [where c = "ref_cnt s ?f - 1"]) auto
    then show ?thesis using kfree_shared [OF d(1) pg(2) False, of me] by blast
  qed
qed

lemma page_run_refs:
  assumes "page_run s0 s own" "refs_ok s0 s0 []" shows "refs_ok s0 s own"
  using assms
proof (induction rule: page_run.induct)
  case (run_kfree s xs pa ys me t)
  then show ?case using refs_kfree [of s0 s xs pa ys me] by auto
qed (auto intro: refs_kalloc refs_share)

subsection \<open>Properties\<close>

text \<open>The state the loader leaves, with the kernel ending at \<open>0x80021000\<close>.\<close>

definition boot_kmem :: kmem where
  "boot_kmem = \<lparr>buddy = boot_state, buddy_lock = initlock, ref_cnt = (\<lambda>_. 0), ref_lock = initlock,
     phys = (\<lambda>_. 0), kend = 0x80021000\<rparr>"

lemma kinit_ok:
  assumes "KERNBASE \<le> kend s" "PGROUNDUP (kend s) \<le> PHYSTOP" "ref_cnt s = (\<lambda>_. 0)"
  obtains t where "kinit s = Done () t" "refs_ok t t []" "kend t = kend s"
    "free_mem t = {PGROUNDUP (kend s) div PGSIZE ..< PHYSTOP div PGSIZE}"
proof -
  obtain b where b: "buddy_init (kend s) (buddy s) = Done () b" "buddy_ok b"
    "start b = PGROUNDUP (kend s)" "free_pages b = {..<pnum_max b}"
    using init_ok [OF assms(1,2), where s = "buddy s"] by metis
  let ?t = "s\<lparr>buddy := b, buddy_lock := initlock, ref_lock := initlock\<rparr>"
  have k: "kinit s = Done () ?t" using b(1) by (simp add: kinit_def on_buddy_def)
  have ok: "kmem_ok ?t" using b(2,3) assms(3) by (intro kmem_okI) auto
  have "start b + pnum_max b * PGSIZE = PHYSTOP"
    using buddy_ok_geometry [OF b(2)] by (simp add: geometry_def)
  then have "PHYSTOP div PGSIZE = start b div PGSIZE + pnum_max b" by (auto simp: PGSIZE_def)
  moreover have "(\<lambda>p. (c::nat) + p) ` {..<n} = {c..<c + n}" for c n
    using image_add_atLeastLessThan [of c 0 n] by (simp add: lessThan_atLeast0 add.commute)
  ultimately have "free_mem ?t = {PGROUNDUP (kend s) div PGSIZE ..< PHYSTOP div PGSIZE}"
    using b(3,4) by (simp add: free_frames_def free_mem_def)
  moreover have "refs_ok ?t ?t []" using ok assms(3) by (simp add: refs_ok_def)
  ultimately show ?thesis using that k by simp
qed

lemma boot_kmem_ok:
  obtains s where "kinit boot_kmem = Done () s" "refs_ok s s []" "kmem_ok s" "free_mem s \<noteq> {}"
proof -
  have pg: "PGROUNDUP 0x80021000 = 0x80021000" by (simp add: PGROUNDUP_def PGSIZE_def)
  obtain s where "kinit boot_kmem = Done () s" "refs_ok s s []"
    and f: "free_mem s = {PGROUNDUP (kend boot_kmem) div PGSIZE ..< PHYSTOP div PGSIZE}"
    using kinit_ok [of boot_kmem] by (auto simp: boot_kmem_def pg KERNBASE_def PHYSTOP_def)
  moreover have "0x80021000 div PGSIZE \<in> free_mem s"
    unfolding f by (simp add: boot_kmem_def pg PHYSTOP_def KERNBASE_def PGSIZE_def)
  ultimately show ?thesis using that refs_okD(1) by blast
qed



text \<open>C9. \<open>kalloc\<close> when no page is free: the null pointer of \<open>buddy_alloc\<close> is used as the
  page, and the kernel faults in \<open>memset\<close>.  No caller ever sees a null result, so the
  tests of the result in \<open>vm.c\<close>, \<open>proc.c\<close> and \<open>pipe.c\<close> do not report a shortage of
  memory.\<close>

theorem kalloc_exhausted_faults:
  assumes "kmem_ok s" "free_mem s = {}"
  shows "kalloc me s = Fault"
  by (rule kalloc_oom [OF assms])

text \<open>A machine whose kernel ends at \<open>PHYSTOP\<close> has no page to give.\<close>

theorem kalloc_exhausted_faults_witness:
  "\<exists>s. kinit (boot_kmem\<lparr>kend := PHYSTOP\<rparr>) = Done () s \<and> kalloc 0 s = Fault"
proof -
  have pg: "PGROUNDUP PHYSTOP = PHYSTOP" by (simp add: PGROUNDUP_def PGSIZE_def PHYSTOP_def KERNBASE_def)
  let ?b = "boot_kmem\<lparr>kend := PHYSTOP\<rparr>"
  have "KERNBASE \<le> kend ?b" by (simp add: PHYSTOP_def)
  moreover have "PGROUNDUP (kend ?b) \<le> PHYSTOP" "ref_cnt ?b = (\<lambda>_. 0)" by (simp_all add: pg boot_kmem_def)
  ultimately obtain s where s: "kinit ?b = Done () s" "refs_ok s s []"
    "free_mem s = {PGROUNDUP (kend ?b) div PGSIZE ..< PHYSTOP div PGSIZE}"
    using kinit_ok by metis
  then have "free_mem s = {}" by (simp add: pg)
  then show ?thesis using kalloc_exhausted_faults [OF refs_okD(1) [OF s(2)]] s(1) by blast
qed

text \<open>C3. Reference-counted pages, over every history of \<open>kalloc\<close>, \<open>kaddrefcnt\<close> and
  \<open>kfree\<close> after \<open>kinit\<close>: the count of a page is always the number of references given
  out and not given back, a page is free if and only if it has none (so a shared page is
  never reused early and none is lost), and giving up any reference succeeds.\<close>

theorem page_sharing_safe:
  assumes "KERNBASE \<le> kend s" "PGROUNDUP (kend s) \<le> PHYSTOP" "ref_cnt s = (\<lambda>_. 0)"
    and "kinit s = Done () s0" "page_run s0 t own"
  shows "free_mem t = {PGROUNDUP (kend s) div PGSIZE ..< PHYSTOP div PGSIZE} - (\<lambda>pa. pa div PGSIZE) ` set own \<and>
    (\<forall>pa\<in>set own. unat (krefcnt pa t) = count_list own pa \<and> (\<exists>u. kfree me pa t = Done () u))"
proof -
  obtain u where "kinit s = Done () u" "refs_ok u u []"
    "free_mem u = {PGROUNDUP (kend s) div PGSIZE ..< PHYSTOP div PGSIZE}"
    using kinit_ok [OF assms(1-3)] by metis
  then have s0: "refs_ok s0 s0 []" "free_mem s0 = {PGROUNDUP (kend s) div PGSIZE ..< PHYSTOP div PGSIZE}"
    using assms(4) by simp_all
  have r: "refs_ok s0 t own" by (rule page_run_refs [OF assms(5) s0(1)])
  note d = refs_okD [OF r]
  have "\<exists>u. kfree me pa t = Done () u" if pa: "pa \<in> set own" for pa
    using split_list [OF pa] refs_kfree [of s0 t _ pa _ me] r by blast
  then show ?thesis using d(3,4,5) s0(2) by (auto simp: krefcnt_def)
qed

theorem page_sharing_safe_witness:
  "\<exists>s0 pa t u. kinit boot_kmem = Done () s0 \<and> kalloc 0 s0 = Done pa t \<and> kaddrefcnt 1 pa t = Done 0 u \<and>
     unat (krefcnt pa u) = 2 \<and> pa div PGSIZE \<notin> free_mem u"
proof -
  have k: "KERNBASE \<le> kend boot_kmem" "PGROUNDUP (kend boot_kmem) \<le> PHYSTOP" "ref_cnt boot_kmem = (\<lambda>_. 0)"
    by (simp_all add: boot_kmem_def KERNBASE_def PHYSTOP_def PGROUNDUP_def PGSIZE_def)
  obtain s0 where s0: "kinit boot_kmem = Done () s0" "refs_ok s0 s0 []" "kmem_ok s0" "free_mem s0 \<noteq> {}"
    using boot_kmem_ok .
  obtain pa t where t: "kalloc 0 s0 = Done pa t" "kmem_ok t" "page_addr s0 pa" "kend t = kend s0"
    using kalloc_ok [OF s0(3,4), of 0] by metis
  have pg: "page_addr t pa" using t(3,4) by (simp add: page_addr_def)
  obtain u where u: "kaddrefcnt 1 pa t = Done 0 u" using kaddrefcnt_ok [OF t(2) pg] by blast
  have "page_run s0 t [pa]" by (rule run_kalloc [OF run_start t(1)])
  then have run: "page_run s0 u [pa, pa]" by (rule run_share [OF _ _ _ u]) simp_all
  show ?thesis
    using page_sharing_safe [OF k s0(1) run, of 0] s0(1) t(1) u by auto
qed

end
