(* ===== verification/Pmem.thy ===== *)
theory Pmem
  imports Kalloc
begin

section \<open>Words in physical memory\<close>

text \<open>
  Kernel data structures that live in pages of \<open>kalloc\<close> (free objects of the slabs, page
  tables) are read and written as 64-bit words.  \<open>pmem\<close> adds to the page allocator the
  word at every address that is used as one; \<open>kalloc\<close> clears the words of the page it
  returns and \<open>kfree\<close> fills those of a page it releases with the byte 1.  A word is a
  natural number below \<open>2 ^ 64\<close>; the null pointer is 0.
\<close>

record pmem =
  km :: kmem
  word_at :: "nat \<Rightarrow> nat"

definition in_page :: "nat \<Rightarrow> nat \<Rightarrow> bool" where
  "in_page pa a \<longleftrightarrow> pa \<le> a \<and> a < pa + PGSIZE"

definition fill_words :: "nat \<Rightarrow> nat \<Rightarrow> (nat \<Rightarrow> nat) \<Rightarrow> nat \<Rightarrow> nat" where
  "fill_words pa v h = (\<lambda>a. if in_page pa a then v else h a)"

definition poke :: "nat \<Rightarrow> nat \<Rightarrow> 'a pmem_scheme \<Rightarrow> 'a pmem_scheme" where
  "poke a v s = s\<lparr>word_at := (word_at s)(a := v)\<rparr>"

definition pm_kalloc :: "nat \<Rightarrow> 'a pmem_scheme \<Rightarrow> (nat, 'a pmem_scheme) outcome" where
  "pm_kalloc me s =
     bnd (zoom km (\<lambda>k s. s\<lparr>km := k\<rparr>) (kalloc me) s) (\<lambda>pa s.
     Done pa (s\<lparr>word_at := fill_words pa 0 (word_at s)\<rparr>))"

definition pm_kfree :: "nat \<Rightarrow> nat \<Rightarrow> 'a pmem_scheme \<Rightarrow> (unit, 'a pmem_scheme) outcome" where
  "pm_kfree me pa s =
     bnd (zoom km (\<lambda>k s. s\<lparr>km := k\<rparr>) (kfree me pa) s) (\<lambda>_ t.
     Done () (if ref_cnt (km s) (pa div PGSIZE) = 1
              then t\<lparr>word_at := fill_words pa 0x0101010101010101 (word_at t)\<rparr> else t))"

lemma poke_fields [simp]:
  "km (poke a v s) = km s" "word_at (poke a v s) = (word_at s)(a := v)"
  "pmem.more (poke a v s) = pmem.more s"
  by (simp_all add: poke_def)

lemma fill_words_out [simp]: "\<not> in_page pa a \<Longrightarrow> fill_words pa v h a = h a"
  and fill_words_in: "in_page pa a \<Longrightarrow> fill_words pa v h a = v"
  by (simp_all add: fill_words_def)

lemma in_page_frame:
  assumes "PGSIZE dvd pa" shows "in_page pa a \<longleftrightarrow> a div PGSIZE = pa div PGSIZE"
  using assms by (auto simp: in_page_def PGSIZE_def elim!: dvdE)

lemma pm_kalloc_ok:
  assumes "kmem_ok (km s)" "free_mem (km s) \<noteq> {}"
  obtains pa k where "pm_kalloc me s = Done pa (s\<lparr>km := k, word_at := fill_words pa 0 (word_at s)\<rparr>)"
    "kmem_ok k" "page_addr (km s) pa" "kend k = kend (km s)"
    "pa div PGSIZE \<in> free_mem (km s)" "free_mem k = free_mem (km s) - {pa div PGSIZE}"
    "ref_cnt k = (ref_cnt (km s))(pa div PGSIZE := 1)"
    "\<And>a. phys k a = (if in_page pa a then 0 else phys (km s) a)"
proof -
  obtain pa k where k: "kalloc me (km s) = Done pa k" "kmem_ok k" "page_addr (km s) pa" "kend k = kend (km s)"
    "pa div PGSIZE \<in> free_mem (km s)" "free_mem k = free_mem (km s) - {pa div PGSIZE}"
    "ref_cnt k = (ref_cnt (km s))(pa div PGSIZE := 1)"
    "\<And>a. phys k a = (if pa \<le> a \<and> a < pa + PGSIZE then 0 else phys (km s) a)"
    using kalloc_ok [OF assms, of me] by metis
  have "pm_kalloc me s = Done pa (s\<lparr>km := k, word_at := fill_words pa 0 (word_at s)\<rparr>)"
    using k(1) by (simp add: pm_kalloc_def)
  then show ?thesis using that k(2-8) by (simp add: in_page_def)
qed

lemma pm_kalloc_Done:
  assumes "kmem_ok (km s)" "pm_kalloc me s = Done pa t"
  obtains k where "t = s\<lparr>km := k, word_at := fill_words pa 0 (word_at s)\<rparr>"
    "kmem_ok k" "page_addr (km s) pa" "kend k = kend (km s)"
    "pa div PGSIZE \<in> free_mem (km s)" "free_mem k = free_mem (km s) - {pa div PGSIZE}"
    "ref_cnt k = (ref_cnt (km s))(pa div PGSIZE := 1)"
    "\<And>a. phys k a = (if in_page pa a then 0 else phys (km s) a)"
proof -
  have "free_mem (km s) \<noteq> {}"
    using assms(2) kalloc_oom [OF assms(1), of me] by (auto simp: pm_kalloc_def)
  then show ?thesis
    using that assms(2) pm_kalloc_ok [OF assms(1), of me] by (metis outcome.inject(1))
qed

end
