(* ===== verification/Slab.thy ===== *)
theory Slab
  imports Pmem
begin

unbundle bit_operations_syntax

section \<open>Object caches (kernel/slab.c, kernel/kmalloc.c, kernel/raw_kmalloc.c)\<close>

text \<open>
  A cache hands out objects of one size from pages of \<open>kalloc\<close>.  The free objects are
  chained through their first word, starting from a slot of the first page that is itself
  never handed out.  The pages of a cache of small objects (at most 16 bytes) are chained
  through their first word; those of a cache of larger objects have a node each, an object
  of the 16-byte cache.  \<open>kmalloc\<close> chooses the cache by the size and leaves large
  requests to the buddy allocator.
\<close>

datatype cname = G8 | G16 | G32 | G64 | G128 | G256 | G512 | G1024 | G2048 | GKC

text \<open>\<open>size\<close>, \<open>align\<close> and \<open>unitsz\<close> are 16-bit; \<open>head\<close> is the union of two pointers.\<close>

record kmem_cache =
  cache_size :: nat
  cache_align :: nat
  unitsz :: nat
  alloc_count :: "64 word"
  head :: nat
  cache_lock :: spinlock

record slab = pmem +
  caches :: "cname \<Rightarrow> kmem_cache"

definition upd_cache :: "cname \<Rightarrow> (kmem_cache \<Rightarrow> kmem_cache) \<Rightarrow> slab \<Rightarrow> slab" where
  "upd_cache c f s = s\<lparr>caches := (caches s)(c := f (caches s c))\<rparr>"

definition acquire_cache :: "nat \<Rightarrow> cname \<Rightarrow> slab \<Rightarrow> (unit, slab) outcome" where
  "acquire_cache me c =
     lock_in (\<lambda>s. cache_lock (caches s c)) (\<lambda>l. upd_cache c (\<lambda>k. k\<lparr>cache_lock := l\<rparr>)) me"

definition release_cache :: "nat \<Rightarrow> cname \<Rightarrow> slab \<Rightarrow> (unit, slab) outcome" where
  "release_cache me c =
     unlock_in (\<lambda>s. cache_lock (caches s c)) (\<lambda>l. upd_cache c (\<lambda>k. k\<lparr>cache_lock := l\<rparr>)) me"

subsection \<open>Building the pools\<close>

definition ALIGN_UP :: "nat \<Rightarrow> nat \<Rightarrow> nat" where
  "ALIGN_UP sz align = nat ((int sz + (int align - 1)) AND NOT (int align - 1)) mod 2 ^ 16"

definition u16_pred :: "nat \<Rightarrow> nat" where
  "u16_pred n = (n + 65535) mod 65536"

text \<open>The inner loop, from slot \<open>j\<close> on for \<open>n\<close> slots.\<close>

fun link_slots :: "nat \<Rightarrow> nat \<Rightarrow> nat \<Rightarrow> nat \<Rightarrow> slab \<Rightarrow> slab" where
  "link_slots curpg unit j 0 s = s"
| "link_slots curpg unit j (Suc n) s =
     link_slots curpg unit (j + 1) n (poke (curpg + j * unit) (curpg + (j + 1) * unit) s)"

text \<open>The outer loop, with \<open>n\<close> pages still to be added after \<open>curpg\<close>.\<close>

fun small_pages :: "nat \<Rightarrow> nat \<Rightarrow> nat \<Rightarrow> nat \<Rightarrow> nat \<Rightarrow> slab \<Rightarrow> (unit, slab) outcome" where
  "small_pages me unit iub 0 curpg s =
     (let s = link_slots curpg unit 1 (iub - 1) s;
          s = poke curpg 0 s
      in Done () (poke (curpg + iub * unit) 0 s))"
| "small_pages me unit iub (Suc n) curpg s =
     (let s = link_slots curpg unit 1 (iub - 1) s in
      bnd (pm_kalloc me s) (\<lambda>newpg s.
        let s = poke curpg newpg s;
            s = poke (curpg + iub * unit) (newpg + unit) s
        in small_pages me unit iub n newpg s))"

definition init_small_object_pool :: "nat \<Rightarrow> nat \<Rightarrow> nat \<Rightarrow> slab \<Rightarrow> (nat, slab) outcome" where
  "init_small_object_pool me unit init_pgnum s =
     bnd (pm_kalloc me s) (\<lambda>firstpg s.
     bnd (small_pages me unit (u16_pred (PGSIZE div unit)) (u16_pred init_pgnum) firstpg s) (\<lambda>_ s.
     Done firstpg s))"

text \<open>
  \<open>alloc16\<close> is the call \<open>kmem_cache_alloc(&g_slab_16)\<close>.  A node has the page in its first
  word and the next node in its second.
\<close>

fun large_pages ::
  "(slab \<Rightarrow> (nat, slab) outcome) \<Rightarrow> nat \<Rightarrow> nat \<Rightarrow> nat \<Rightarrow> nat \<Rightarrow> nat \<Rightarrow> nat \<Rightarrow> slab \<Rightarrow> (unit, slab) outcome" where
  "large_pages alloc16 me unit iub 0 curpg curnode s =
     (let s = link_slots curpg unit 0 iub s;
          s = poke (curnode + 8) 0 s
      in Done () (poke (curpg + iub * unit) 0 s))"
| "large_pages alloc16 me unit iub (Suc n) curpg curnode s =
     (let s = link_slots curpg unit 0 iub s;
          s = poke curnode curpg s in
      bnd (pm_kalloc me s) (\<lambda>newpg s.
      bnd (alloc16 s) (\<lambda>newnode s.
        let s = poke newnode newpg s;
            s = poke (curnode + 8) newnode s;
            s = poke (curpg + iub * unit) newpg s
        in large_pages alloc16 me unit iub n newpg newnode s)))"

definition init_large_object_pool ::
  "(slab \<Rightarrow> (nat, slab) outcome) \<Rightarrow> nat \<Rightarrow> nat \<Rightarrow> nat \<Rightarrow> slab \<Rightarrow> (nat, slab) outcome" where
  "init_large_object_pool alloc16 me unit init_pgnum s =
     bnd (alloc16 s) (\<lambda>result s.
     bnd (pm_kalloc me s) (\<lambda>firstpg s.
     bnd (large_pages alloc16 me unit (u16_pred (PGSIZE div unit)) (u16_pred init_pgnum) firstpg result
           (poke result firstpg s)) (\<lambda>_ s.
     Done result s)))"

subsection \<open>Allocating\<close>

text \<open>
  An empty pool is enlarged by a page and the function calls itself; \<open>n\<close> bounds the number
  of these calls.  One is enough in every reachable state.
\<close>

fun alloc_small_object_pool :: "nat \<Rightarrow> cname \<Rightarrow> nat \<Rightarrow> slab \<Rightarrow> (nat, slab) outcome" where
  "alloc_small_object_pool me c n s =
     (let first = head (caches s c);
          unit = unitsz (caches s c);
          faptr = first + unit;
          fa = word_at s faptr in
      if fa = 0 then
        (case n of 0 \<Rightarrow> Spin
         | Suc n \<Rightarrow>
             bnd (init_small_object_pool me unit 1 s) (\<lambda>newpg s.
               let s = poke newpg first s;
                   s = upd_cache c (\<lambda>k. k\<lparr>head := newpg\<rparr>) s;
                   last = newpg + u16_pred (PGSIZE div unit) * unit;
                   s = poke last faptr s
               in alloc_small_object_pool me c n s))
      else
        let s = poke faptr (word_at s fa) s;
            s = upd_cache c (\<lambda>k. k\<lparr>alloc_count := alloc_count k + 1\<rparr>) s in
        bnd (release_cache me c s) (\<lambda>_ s. Done fa s))"

fun alloc_large_object_pool ::
  "(slab \<Rightarrow> (nat, slab) outcome) \<Rightarrow> nat \<Rightarrow> cname \<Rightarrow> nat \<Rightarrow> slab \<Rightarrow> (nat, slab) outcome" where
  "alloc_large_object_pool alloc16 me c n s =
     (let first = head (caches s c);
          faptr = word_at s first;
          fa = word_at s faptr in
      if fa = 0 then
        (case n of 0 \<Rightarrow> Spin
         | Suc n \<Rightarrow>
             bnd (init_large_object_pool alloc16 me (unitsz (caches s c)) 1 s) (\<lambda>newnode s.
               let s = poke (newnode + 8) first s;
                   s = upd_cache c (\<lambda>k. k\<lparr>head := newnode\<rparr>) s;
                   unit = unitsz (caches s c);
                   last = word_at s newnode + u16_pred (PGSIZE div unit) * unit;
                   s = poke last faptr s
               in alloc_large_object_pool alloc16 me c n s))
      else
        let s = poke faptr (word_at s fa) s;
            s = upd_cache c (\<lambda>k. k\<lparr>alloc_count := alloc_count k + 1\<rparr>) s in
        bnd (release_cache me c s) (\<lambda>_ s. Done fa s))"

declare alloc_small_object_pool.simps [simp del] alloc_large_object_pool.simps [simp del]

definition GROW :: nat where "GROW = 1"

text \<open>
  The call for the 16-byte cache from inside the others.  If that cache had objects of more
  than 16 bytes, enlarging it would call \<open>kmem_cache_alloc\<close> on it again, with its lock held.
\<close>

definition kmem_cache_alloc_16 :: "nat \<Rightarrow> slab \<Rightarrow> (nat, slab) outcome" where
  "kmem_cache_alloc_16 me s =
     bnd (acquire_cache me G16 s) (\<lambda>_ s.
       if 16 < cache_size (caches s G16)
       then alloc_large_object_pool
              (\<lambda>s. bnd (acquire_cache me G16 s) (\<lambda>_ _. Panic ''acquire'')) me G16 GROW s
       else alloc_small_object_pool me G16 GROW s)"

definition kmem_cache_alloc :: "nat \<Rightarrow> cname \<Rightarrow> slab \<Rightarrow> (nat, slab) outcome" where
  "kmem_cache_alloc me c s =
     bnd (acquire_cache me c s) (\<lambda>_ s.
       if 16 < cache_size (caches s c)
       then alloc_large_object_pool (kmem_cache_alloc_16 me) me c GROW s
       else alloc_small_object_pool me c GROW s)"

subsection \<open>Freeing\<close>

text \<open>The search for a page in the list of a cache; a cyclic list is searched for ever.\<close>

partial_function (option) find_node :: "(nat \<Rightarrow> nat) \<Rightarrow> (nat \<Rightarrow> bool) \<Rightarrow> nat \<Rightarrow> nat option" where
  "find_node nxt found p = (if p = 0 \<or> found p then Some p else find_node nxt found (nxt p))"

definition free_small_object_pool :: "cname \<Rightarrow> nat \<Rightarrow> slab \<Rightarrow> (unit, slab) outcome" where
  "free_small_object_pool c pa s =
     (let pg = PGROUNDDOWN pa;
          first = head (caches s c) in
      case find_node (word_at s) (\<lambda>w. w = pg) first of
        None \<Rightarrow> Spin
      | Some workptr \<Rightarrow>
          if workptr = 0 then Panic ''kmem_cache_free: invalid pa.''
          else if (pa - pg) mod unitsz (caches s c) \<noteq> 0 then Panic ''kmem_cache_free: invalid alignment.''
          else let faptr = first + 8;
                   s = poke pa (word_at s faptr) s;
                   s = poke faptr pa s
               in Done () (upd_cache c (\<lambda>k. k\<lparr>alloc_count := alloc_count k - 1\<rparr>) s))"

definition free_large_object_pool :: "cname \<Rightarrow> nat \<Rightarrow> slab \<Rightarrow> (unit, slab) outcome" where
  "free_large_object_pool c pa s =
     (let pg = PGROUNDDOWN pa;
          first = head (caches s c) in
      case find_node (\<lambda>w. word_at s (w + 8)) (\<lambda>w. word_at s w = pg) first of
        None \<Rightarrow> Spin
      | Some workptr \<Rightarrow>
          if workptr = 0 then Panic ''kmem_cache_free: invalid pa.''
          else if (pa - pg) mod unitsz (caches s c) \<noteq> 0 then Panic ''kmem_cache_free: invalid alignment.''
          else let faptr = word_at s first;
                   s = poke pa (word_at s faptr) s;
                   s = poke faptr pa s
               in Done () (upd_cache c (\<lambda>k. k\<lparr>alloc_count := alloc_count k - 1\<rparr>) s))"

definition kmem_cache_free :: "nat \<Rightarrow> cname \<Rightarrow> nat \<Rightarrow> slab \<Rightarrow> (unit, slab) outcome" where
  "kmem_cache_free me c pa s =
     bnd (acquire_cache me c s) (\<lambda>_ s.
     bnd (if 16 < cache_size (caches s c) then free_large_object_pool c pa s
          else free_small_object_pool c pa s) (\<lambda>_ s.
     release_cache me c s))"

subsection \<open>Creating and destroying caches\<close>

definition kmem_cache_create ::
  "nat \<Rightarrow> cname \<Rightarrow> nat \<Rightarrow> nat \<Rightarrow> nat \<Rightarrow> slab \<Rightarrow> (unit, slab) outcome" where
  "kmem_cache_create me c sz align init_pgnum s =
     (if align = 0 \<or> align AND (align - 1) \<noteq> 0 then Panic ''kmem_cache_create: invalid alignment.''
      else
        let s = upd_cache c (\<lambda>k. k\<lparr>cache_lock := initlock, cache_size := sz, cache_align := align,
                  unitsz := ALIGN_UP sz align, alloc_count := 0\<rparr>) s in
        bnd (if 16 < sz
             then init_large_object_pool (kmem_cache_alloc_16 me) me (unitsz (caches s c)) init_pgnum s
             else init_small_object_pool me (unitsz (caches s c)) init_pgnum s) (\<lambda>first s.
        Done () (upd_cache c (\<lambda>k. k\<lparr>head := first\<rparr>) s)))"

definition slab_init :: "nat \<Rightarrow> slab \<Rightarrow> (unit, slab) outcome" where
  "slab_init me s =
     bnd (kmem_cache_create me G8 8 8 2 s) (\<lambda>_ s.
     bnd (kmem_cache_create me G16 16 16 2 s) (\<lambda>_ s.
     bnd (kmem_cache_create me G32 32 32 2 s) (\<lambda>_ s.
     bnd (kmem_cache_create me G64 64 64 2 s) (\<lambda>_ s.
     bnd (kmem_cache_create me G128 128 128 2 s) (\<lambda>_ s.
     bnd (kmem_cache_create me G256 256 256 1 s) (\<lambda>_ s.
     bnd (kmem_cache_create me G512 512 512 1 s) (\<lambda>_ s.
     bnd (kmem_cache_create me G1024 1024 1024 1 s) (\<lambda>_ s.
     bnd (kmem_cache_create me G2048 2048 2048 1 s) (\<lambda>_ s.
     kmem_cache_create me GKC 56 8 1 s)))))))))"

text \<open>\<open>n\<close> bounds the length of the list of pages; the machine has \<open>PHYSTOP div PGSIZE\<close> frames.\<close>

fun destroy_small_object_pool :: "nat \<Rightarrow> nat \<Rightarrow> nat \<Rightarrow> slab \<Rightarrow> (unit, slab) outcome" where
  "destroy_small_object_pool me n first s =
     (if first = 0 then Done () s
      else case n of 0 \<Rightarrow> Spin
        | Suc n \<Rightarrow> (let t = word_at s first in
            bnd (pm_kfree me first s) (\<lambda>_ s. destroy_small_object_pool me n t s)))"

fun destroy_large_object_pool :: "nat \<Rightarrow> nat \<Rightarrow> nat \<Rightarrow> slab \<Rightarrow> (unit, slab) outcome" where
  "destroy_large_object_pool me n first s =
     (if first = 0 then Done () s
      else case n of 0 \<Rightarrow> Spin
        | Suc n \<Rightarrow> (let t = word_at s (first + 8) in
            bnd (pm_kfree me (word_at s first) s) (\<lambda>_ s.
            bnd (kmem_cache_free me G16 first s) (\<lambda>_ s.
            destroy_large_object_pool me n t s))))"

declare destroy_small_object_pool.simps [simp del] destroy_large_object_pool.simps [simp del]

definition kmem_cache_destroy :: "nat \<Rightarrow> cname \<Rightarrow> bool \<Rightarrow> slab \<Rightarrow> (unit, slab) outcome" where
  "kmem_cache_destroy me c flag s =
     bnd (acquire_cache me c s) (\<lambda>_ s.
       if \<not> flag \<and> alloc_count (caches s c) \<noteq> 0
       then bnd (release_cache me c s) (\<lambda>_ _. Panic ''kmem_cache_destroy.'')
       else
         bnd (if 16 < cache_size (caches s c)
              then destroy_large_object_pool me (PHYSTOP div PGSIZE) (head (caches s c)) s
              else destroy_small_object_pool me (PHYSTOP div PGSIZE) (head (caches s c)) s) (\<lambda>_ s.
         release_cache me c s))"

subsection \<open>kmalloc\<close>

text \<open>
  The loop \<open>while((1U << order) < pgnum) ++order\<close> on 32-bit values; for more than
  \<open>2 ^ 31\<close> pages the shift wraps and the loop does not end.
\<close>

fun order_from :: "nat \<Rightarrow> nat \<Rightarrow> nat \<Rightarrow> nat option" where
  "order_from pgnum order n =
     (if pgnum \<le> 2 ^ order then Some order
      else case n of 0 \<Rightarrow> None | Suc n \<Rightarrow> order_from pgnum (order + 1) n)"

declare order_from.simps [simp del]

definition page_order :: "nat \<Rightarrow> nat option" where
  "page_order sz = order_from (((sz + PGSIZE - 1) mod 2 ^ 64) div PGSIZE mod 2 ^ 32) 0 31"

definition kbuddy_alloc_s :: "nat \<Rightarrow> nat \<Rightarrow> slab \<Rightarrow> (nat option, slab) outcome" where
  "kbuddy_alloc_s me order = zoom km (\<lambda>k s. s\<lparr>km := k\<rparr>) (kbuddy_alloc me order)"

definition kbuddy_free_s :: "nat \<Rightarrow> nat \<Rightarrow> nat \<Rightarrow> slab \<Rightarrow> (unit, slab) outcome" where
  "kbuddy_free_s me pa order = zoom km (\<lambda>k s. s\<lparr>km := k\<rparr>) (kbuddy_free me pa order)"

text \<open>The cache \<open>kmalloc\<close> takes an object of \<open>sz \<le> 2048\<close> bytes from.\<close>

definition size_class :: "nat \<Rightarrow> cname" where
  "size_class sz =
     (if sz > 1024 then G2048 else if sz > 512 then G1024 else if sz > 256 then G512
      else if sz > 128 then G256 else if sz > 64 then G128 else if sz > 32 then G64
      else if sz > 16 then G32 else if sz > 8 then G16 else G8)"

definition kmalloc :: "nat \<Rightarrow> nat \<Rightarrow> slab \<Rightarrow> (nat option, slab) outcome" where
  "kmalloc me sz s =
     (if sz > 2048 then
        (case page_order sz of None \<Rightarrow> Spin | Some order \<Rightarrow> kbuddy_alloc_s me order s)
      else bnd (kmem_cache_alloc me (size_class sz) s) (\<lambda>a s. Done (Some a) s))"

definition kmfree :: "nat \<Rightarrow> nat \<Rightarrow> nat \<Rightarrow> slab \<Rightarrow> (unit, slab) outcome" where
  "kmfree me ptr sz s =
     (if sz > 1024 then
        (case page_order sz of None \<Rightarrow> Spin | Some order \<Rightarrow> kbuddy_free_s me ptr order s)
      else kmem_cache_free me (size_class sz) ptr s)"

subsection \<open>raw_kmalloc\<close>

text \<open>
  An unfinished allocator: pages are chained, but no memory is ever handed out.  The header
  of a page has the next page and the offset and size of its first free block.
\<close>

record raw_page_info =
  raw_next :: nat
  raw_offset :: nat
  raw_size :: nat

record raw_state = pmem +
  raw_info :: "nat \<Rightarrow> raw_page_info"
  raw_first :: nat
  raw_last :: nat
  raw_lock :: spinlock

definition dilatation :: "nat \<Rightarrow> raw_state \<Rightarrow> (unit, raw_state) outcome" where
  "dilatation me s =
     bnd (pm_kalloc me s) (\<lambda>newpage s.
       if newpage = 0 then Panic ''raw_kmalloc: dilatation.''
       else
         let s = s\<lparr>raw_info := (raw_info s)(newpage :=
                   \<lparr>raw_next = 0, raw_offset = 0, raw_size = PGSIZE - 16 + 4\<rparr>)\<rparr> in
         if raw_first s = 0 then Done () (s\<lparr>raw_first := newpage, raw_last := newpage\<rparr>)
         else
           let s = s\<lparr>raw_info := (raw_info s)(raw_last s := (raw_info s (raw_last s))\<lparr>raw_next := newpage\<rparr>)\<rparr> in
           Done () (s\<lparr>raw_last := newpage\<rparr>))"

definition raw_kmalloc_init :: "nat \<Rightarrow> raw_state \<Rightarrow> (unit, raw_state) outcome" where
  "raw_kmalloc_init me s =
     (let s = s\<lparr>raw_lock := initlock\<rparr> in
      bnd (lock_in raw_lock (\<lambda>l s. s\<lparr>raw_lock := l\<rparr>) me s) (\<lambda>_ s.
      bnd (dilatation me (s\<lparr>raw_first := 0, raw_last := 0\<rparr>)) (\<lambda>_ s.
      unlock_in raw_lock (\<lambda>l s. s\<lparr>raw_lock := l\<rparr>) me s)))"

definition raw_kmalloc :: "nat \<Rightarrow> nat \<Rightarrow> nat \<Rightarrow> raw_state \<Rightarrow> (nat option, raw_state) outcome" where
  "raw_kmalloc me sz align s =
     (if PGSIZE \<le> sz then Panic ''raw_kmalloc: invalid size.''
      else if align AND (align - 1) \<noteq> 0 then Panic ''raw_kmalloc: invalid alignment.''
      else bnd (if raw_first s = 0 then dilatation me s else Done () s) (\<lambda>_ s. Done None s))"

end
