(* ===== verification/Slab_Correct.thy ===== *)
theory Slab_Correct
  imports Slab
begin

section \<open>Correctness of the object caches\<close>

text \<open>
  The words of a well-formed cache represent a list of pages and a list of free objects.
  Allocation takes the first free object, enlarging the cache by a page when there is none;
  freeing puts the object back, except in the 16-byte cache, where it is lost.  The main
  result is that the memory \<open>kmalloc\<close> has handed out is always pairwise disjoint.
\<close>

subsection \<open>Lists through words\<close>

fun lseg :: "(nat \<Rightarrow> nat) \<Rightarrow> nat \<Rightarrow> nat list \<Rightarrow> nat \<Rightarrow> bool" where
  "lseg nx p [] q \<longleftrightarrow> p = q"
| "lseg nx p (x # xs) q \<longleftrightarrow> p = x \<and> x \<noteq> 0 \<and> lseg nx (nx x) xs q"

lemma lseg_append: "lseg nx p (xs @ ys) q \<longleftrightarrow> (\<exists>r. lseg nx p xs r \<and> lseg nx r ys q)"
  by (induction xs arbitrary: p) auto

lemma lseg_cong: "(\<And>x. x \<in> set xs \<Longrightarrow> nx x = mx x) \<Longrightarrow> lseg nx p xs q = lseg mx p xs q"
  by (induction xs arbitrary: p) auto

lemma find_node_lseg:
  assumes "lseg nx p xs 0"
  shows "find_node nx found p = Some (case filter found xs of [] \<Rightarrow> 0 | x # _ \<Rightarrow> x)"
  using assms
proof (induction xs arbitrary: p)
  case Nil
  then show ?case by (simp add: find_node.simps)
next
  case (Cons x xs)
  then show ?case by (subst find_node.simps) auto
qed

text \<open>The addresses of the slots of a page.\<close>

definition slots :: "nat \<Rightarrow> nat \<Rightarrow> nat \<Rightarrow> nat \<Rightarrow> nat list" where
  "slots u j m pg = map (\<lambda>i. pg + i * u) [j..<m]"

lemma slots_Cons: "j < m \<Longrightarrow> slots u j m pg = (pg + j * u) # slots u (Suc j) m pg"
  by (simp add: slots_def upt_conv_Cons)

lemma slots_snoc: "j \<le> m \<Longrightarrow> slots u j (Suc m) pg = slots u j m pg @ [pg + m * u]"
  by (simp add: slots_def)

lemma set_slots: "set (slots u j m pg) = {pg + i * u |i. j \<le> i \<and> i < m}"
  by (auto simp: slots_def)

lemma distinct_slots [simp]: "0 < u \<Longrightarrow> distinct (slots u j m pg)"
  by (auto simp: slots_def distinct_map inj_on_def)

lemma lseg_slots:
  assumes "\<And>i. j \<le> i \<Longrightarrow> i < m \<Longrightarrow> nx (pg + i * u) = pg + Suc i * u" "0 < pg" "j \<le> m"
  shows "lseg nx (pg + j * u) (slots u j m pg) (pg + m * u)"
  using assms
proof (induction "m - j" arbitrary: j)
  case 0
  then show ?case by (simp add: slots_def)
next
  case (Suc n)
  then have "j < m" by simp
  moreover have "lseg nx (pg + Suc j * u) (slots u (Suc j) m pg) (pg + m * u)"
    using Suc by (intro Suc.hyps(1)) auto
  ultimately show ?case using Suc.prems(1,2) by (simp add: slots_Cons)
qed

lemma slot_inj: "0 < (u::nat) \<Longrightarrow> pg + i * u = pg + j * u \<longleftrightarrow> i = j"
  by simp

lemma link_slots_eq:
  assumes "0 < u"
  shows "link_slots pg u j n s =
    s\<lparr>word_at := (\<lambda>a. if a \<in> set (slots u j (j + n) pg) then a + u else word_at s a)\<rparr>"
proof (induction n arbitrary: j s)
  case 0
  then show ?case by (simp add: slots_def)
next
  case (Suc n)
  have "(\<lambda>a. if a \<in> set (slots u (Suc j) (Suc j + n) pg) then a + u
             else ((word_at s)(pg + j * u := pg + Suc j * u)) a) =
        (\<lambda>a. if a \<in> set (slots u j (j + Suc n) pg) then a + u else word_at s a)"
    using slots_Cons [of j "j + Suc n" u pg] by (auto simp: fun_eq_iff)
  then show ?case using Suc [of "Suc j"] by (simp add: poke_def cong del: if_weak_cong)
qed

lemma slot_in_page:
  assumes "i < m" "m * u \<le> PGSIZE" "0 < u" shows "in_page pg (pg + i * u)"
proof -
  have "Suc i * u \<le> m * u" using assms(1) by (intro mult_le_mono1) simp
  then show ?thesis using assms by (simp add: in_page_def)
qed

text \<open>Pages with different addresses have no address in common.\<close>

lemma in_page_unique:
  assumes "page_addr k p" "page_addr k q" "in_page p a" "in_page q a" shows "p = q"
proof -
  have "PGSIZE dvd p" "PGSIZE dvd q" using assms(1,2) by (auto simp: page_addr_def)
  then show ?thesis
    using assms(3,4) in_page_frame by (metis dvd_div_mult_self)
qed

lemma page_pos:
  assumes "kmem_ok k" "page_addr k p" shows "0 < p"
proof -
  obtain q where "p = addr (buddy k) q" using page_addr_good [OF assms] by (auto simp: buddy_good_def)
  moreover have "KERNBASE \<le> start (buddy k)"
    using buddy_ok_geometry [of "buddy k"] assms(1) by (simp add: kmem_ok_def geometry_def)
  ultimately show ?thesis by (simp add: addr_def KERNBASE_def)
qed

text \<open>The free objects of a new page: slots \<open>j\<close> to \<open>iub\<close>, the last one followed by \<open>q\<close>.\<close>

definition page_links :: "(nat \<Rightarrow> nat) \<Rightarrow> nat \<Rightarrow> nat \<Rightarrow> nat \<Rightarrow> nat \<Rightarrow> nat \<Rightarrow> bool" where
  "page_links h u j iub pg q \<longleftrightarrow> (\<forall>i. j \<le> i \<and> i < iub \<longrightarrow> h (pg + i * u) = pg + Suc i * u) \<and> h (pg + iub * u) = q"

lemma page_links_lseg:
  assumes "page_links h u j iub pg q" "0 < pg" "j \<le> i" "i \<le> iub"
  shows "lseg h (pg + i * u) (slots u i (Suc iub) pg) q"
proof -
  have "lseg h (pg + i * u) (slots u i iub pg) (pg + iub * u)"
    using assms by (intro lseg_slots) (auto simp: page_links_def)
  then show ?thesis
    using assms by (auto simp: slots_snoc lseg_append page_links_def)
qed


text \<open>The pages added by a call, taken from the free ones.\<close>

definition new_pages :: "kmem \<Rightarrow> nat list \<Rightarrow> kmem \<Rightarrow> bool" where
  "new_pages k ps k' \<longleftrightarrow> kmem_ok k' \<and> kend k' = kend k \<and> distinct ps \<and>
     (\<forall>p\<in>set ps. page_addr k p \<and> p div PGSIZE \<in> free_mem k) \<and>
     free_mem k' = free_mem k - (\<lambda>p. p div PGSIZE) ` set ps \<and>
     (\<forall>f. f \<notin> (\<lambda>p. p div PGSIZE) ` set ps \<longrightarrow> ref_cnt k' f = ref_cnt k f)"

lemma new_pages_refl: "kmem_ok k \<Longrightarrow> new_pages k [] k"
  by (simp add: new_pages_def)

lemma new_pages_Cons:
  assumes "kmem_ok k'" "page_addr k p" "kend k' = kend k" "p div PGSIZE \<in> free_mem k"
    "free_mem k' = free_mem k - {p div PGSIZE}" "ref_cnt k' = (ref_cnt k)(p div PGSIZE := 1)" "new_pages k' ps k''"
  shows "new_pages k (p # ps) k''"
proof -
  have "page_addr k' = page_addr k" using assms(3) by (auto simp: page_addr_def fun_eq_iff)
  then show ?thesis using assms by (auto simp: new_pages_def)
qed

definition same_outside :: "nat list \<Rightarrow> (nat \<Rightarrow> nat) \<Rightarrow> (nat \<Rightarrow> nat) \<Rightarrow> bool" where
  "same_outside ps h h' \<longleftrightarrow> (\<forall>a. (\<forall>p\<in>set ps. \<not> in_page p a) \<longrightarrow> h' a = h a)"

lemma small_pages_ok:
  assumes "kmem_ok (km s)" "n \<le> card (free_mem (km s))" "page_addr (km s) pg"
    "pg div PGSIZE \<notin> free_mem (km s)" "0 < u" "1 \<le> iub" "Suc iub * u \<le> PGSIZE"
  shows "\<exists>k h ps. small_pages me u iub n pg s = Done () (s\<lparr>km := k, word_at := h\<rparr>) \<and>
    new_pages (km s) ps k \<and> length ps = n \<and> lseg h pg (pg # ps) 0 \<and>
    lseg h (pg + u) (concat (map (slots u 1 (Suc iub)) (pg # ps))) 0 \<and> same_outside (pg # ps) (word_at s) h"
  using assms(1-4)
proof (induction n arbitrary: pg s)
  case 0
  define h where "h = (\<lambda>a. if a \<in> set (slots u 1 (1 + (iub - 1)) pg) then a + u else word_at s a)(pg := 0, pg + iub * u := 0)"
  have pos: "0 < pg" by (rule page_pos [OF 0(1,3)])
  have "small_pages me u iub 0 pg s = Done () (s\<lparr>km := km s, word_at := h\<rparr>)"
    by (simp add: link_slots_eq [OF assms(5)] poke_def Let_def h_def)
  moreover have "page_links h u 1 iub pg 0"
    using assms(5,6) by (auto simp: page_links_def set_slots h_def)
  then have "lseg h (pg + 1 * u) (slots u 1 (Suc iub) pg) 0"
    using pos assms(6) by (intro page_links_lseg) auto
  moreover have "lseg h pg [pg] 0" using pos by (simp add: h_def)
  moreover have "same_outside [pg] (word_at s) h"
  proof -
    have "in_page pg (pg + i * u)" if "i < Suc iub" for i using slot_in_page that assms(5,7) by blast
    from this [of 0] this [of iub] this show ?thesis by (auto simp: same_outside_def set_slots h_def)
  qed
  ultimately show ?case
    using new_pages_refl [OF 0(1)] by (intro exI [of _ "km s"] exI [of _ h] exI [of _ "[]"]) simp
next
  case (Suc n)
  define h1 where "h1 = (\<lambda>a. if a \<in> set (slots u 1 (1 + (iub - 1)) pg) then a + u else word_at s a)"
  let ?s1 = "s\<lparr>word_at := h1\<rparr>"
  have link: "link_slots pg u (Suc 0) (iub - Suc 0) s = ?s1"
    using link_slots_eq [OF assms(5), of pg 1 "iub - 1" s] by (simp add: h1_def)
  have "free_mem (km ?s1) \<noteq> {}" "kmem_ok (km ?s1)" using Suc.prems(1,2) by auto
  then obtain new k1 where al: "pm_kalloc me ?s1 = Done new (?s1\<lparr>km := k1, word_at := fill_words new 0 (word_at ?s1)\<rparr>)"
    and k1': "kmem_ok k1" "page_addr (km ?s1) new" "kend k1 = kend (km ?s1)" "new div PGSIZE \<in> free_mem (km ?s1)"
    "free_mem k1 = free_mem (km ?s1) - {new div PGSIZE}" "ref_cnt k1 = (ref_cnt (km ?s1))(new div PGSIZE := 1)"
    using pm_kalloc_ok [of ?s1 me] by metis
  note k1 = k1' [simplified]
  let ?h2 = "(fill_words new 0 h1)(pg := new, pg + iub * u := new + u)"
  let ?s2 = "s\<lparr>km := k1, word_at := ?h2\<rparr>"
  have pos: "0 < pg" by (rule page_pos [OF Suc.prems(1,3)])
  have sp: "small_pages me u iub (Suc n) pg s = small_pages me u iub n new ?s2"
    using al by (simp add: link poke_def Let_def)
  have fin: "finite (free_mem (km s))" using Suc.prems(2) by (metis card.infinite not_less_eq_eq zero_le)
  have pa: "page_addr k1 new" using k1(2,3) by (simp add: page_addr_def)
  have "\<exists>k h ps. small_pages me u iub n new ?s2 = Done () (?s2\<lparr>km := k, word_at := h\<rparr>) \<and>
    new_pages (km ?s2) ps k \<and> length ps = n \<and> lseg h new (new # ps) 0 \<and>
    lseg h (new + u) (concat (map (slots u 1 (Suc iub)) (new # ps))) 0 \<and> same_outside (new # ps) (word_at ?s2) h"
    using k1 pa Suc.prems(2) fin by (intro Suc.IH) (auto simp: card_Diff_singleton)
  then obtain k h ps where r: "small_pages me u iub n new ?s2 = Done () (?s2\<lparr>km := k, word_at := h\<rparr>)"
    "new_pages k1 ps k" "length ps = n" "lseg h new (new # ps) 0"
    "lseg h (new + u) (concat (map (slots u 1 (Suc iub)) (new # ps))) 0" "same_outside (new # ps) ?h2 h"
    by auto
  have np: "new_pages (km s) (new # ps) k" using new_pages_Cons [OF k1(1,2,3,4,5,6) r(2)] .
  have inp: "in_page pg (pg + i * u)" if "i < Suc iub" for i using slot_in_page that assms(5,7) by blast
  have out: "\<not> in_page p a" if "in_page pg a" "p \<in> set (new # ps)" for p a
  proof
    assume "in_page p a"
    then have "p = pg" using in_page_unique [of "km s" p pg a] that np Suc.prems(3) by (auto simp: new_pages_def)
    then show False using that(2) np Suc.prems(4) by (auto simp: new_pages_def)
  qed
  then have hpg: "h a = ?h2 a" if "in_page pg a" for a using r(6) that by (simp add: same_outside_def)
  have fw: "fill_words new 0 h1 a = h1 a" if "in_page pg a" for a using out [OF that, of new] by simp
  have "page_links h u 1 iub pg (new + u)"
    unfolding page_links_def
  proof (intro conjI allI impI)
    show "h (pg + iub * u) = new + u" using hpg inp [of iub] by simp
    fix i assume i: "1 \<le> i \<and> i < iub"
    have "h (pg + i * u) = h1 (pg + i * u)" using hpg fw inp [of i] i assms(5) by simp
    then show "h (pg + i * u) = pg + Suc i * u" using i assms(5) by (auto simp: set_slots h1_def)
  qed
  then have "lseg h (pg + 1 * u) (slots u 1 (Suc iub) pg) (new + u)"
    using pos assms(6) by (intro page_links_lseg) auto
  then have "lseg h (pg + u) (concat (map (slots u 1 (Suc iub)) (pg # new # ps))) 0"
    using r(5) by (auto simp: lseg_append)
  moreover have "h pg = new" using hpg [of pg] inp [of 0] assms(5,6) by simp
  then have "lseg h pg (pg # new # ps) 0" using r(4) pos by simp
  moreover have "same_outside (pg # new # ps) (word_at s) h"
    unfolding same_outside_def
  proof (intro allI impI)
    fix a assume a: "\<forall>p\<in>set (pg # new # ps). \<not> in_page p a"
    then have "h a = ?h2 a" using r(6) by (simp add: same_outside_def)
    also have "\<dots> = word_at s a"
      using a inp [of 0] inp [of iub] inp by (auto simp: set_slots h1_def)
    finally show "h a = word_at s a" .
  qed
  ultimately show ?case using sp r(1,3) np by (intro exI [of _ k] exI [of _ h] exI [of _ "new # ps"]) simp
qed


lemma lseg_set_last:
  "lseg h p xs r \<Longrightarrow> xs \<noteq> [] \<Longrightarrow> distinct xs \<Longrightarrow> lseg (h(last xs := q)) p xs q"
proof (induction xs arbitrary: p)
  case (Cons x xs)
  show ?case
  proof (cases "xs = []")
    case False
    then have "x \<noteq> last xs" using Cons.prems(3) by auto
    then show ?thesis using Cons False by simp
  qed (use Cons.prems in simp)
qed simp

lemma lseg_set_outside: "x \<notin> set xs \<Longrightarrow> lseg (h(x := v)) p xs q = lseg h p xs q"
  by (rule lseg_cong) auto

subsection \<open>Well-formed caches\<close>

fun usz :: "cname \<Rightarrow> nat" where
  "usz G8 = 8" | "usz G16 = 16" | "usz G32 = 32" | "usz G64 = 64" | "usz G128 = 128"
| "usz G256 = 256" | "usz G512 = 512" | "usz G1024 = 1024" | "usz G2048 = 2048" | "usz GKC = 56"

definition small :: "cname \<Rightarrow> bool" where "small c \<longleftrightarrow> c = G8 \<or> c = G16"

text \<open>The first slot that can be an object, and the last slot.\<close>

definition slot0 :: "cname \<Rightarrow> nat" where "slot0 c = (if small c then 1 else 0)"
definition slotn :: "cname \<Rightarrow> nat" where "slotn c = PGSIZE div usz c - 1"

definition page_objects :: "cname \<Rightarrow> nat \<Rightarrow> nat list" where
  "page_objects c pg = slots (usz c) (slot0 c) (Suc (slotn c)) pg"

definition objects :: "cname \<Rightarrow> nat list \<Rightarrow> nat list" where
  "objects c pgs = concat (map (page_objects c) pgs)"

definition faptr :: "cname \<Rightarrow> nat list \<Rightarrow> nat" where
  "faptr c pgs = hd pgs + slot0 c * usz c"

definition extent :: "cname \<Rightarrow> nat \<Rightarrow> nat set" where
  "extent c a = {a ..< a + usz c}"

lemma cache_geometry:
  "8 \<le> usz c" "16 < usz c \<longleftrightarrow> \<not> small c" "slot0 c < slotn c \<or> slotn c = 1 \<and> slot0 c = 0" "Suc (slotn c) * usz c \<le> PGSIZE"
  "u16_pred (PGSIZE div usz c) = slotn c" "slot0 c \<le> 1" "1 \<le> slotn c" "slot0 c < Suc (slotn c)"
  by (cases c; simp add: slotn_def slot0_def small_def PGSIZE_def u16_pred_def)+

lemma usz_pos [simp]: "0 < usz c" "usz c \<noteq> 0"
  using cache_geometry(1) [of c] by linarith+

text \<open>
  \<open>P\<close> lists the pages of a cache, \<open>N\<close> the nodes of its pages and \<open>F\<close> its free objects,
  in the order of the chains.
\<close>

definition cache_ok ::
  "(nat \<Rightarrow> nat) \<Rightarrow> cname \<Rightarrow> kmem_cache \<Rightarrow> nat list \<Rightarrow> nat list \<Rightarrow> nat list \<Rightarrow> bool" where
  "cache_ok h c k P N F \<longleftrightarrow> cache_size k = usz c \<and> unitsz k = usz c \<and> P \<noteq> [] \<and>
     (if small c then N = [] \<and> head k = hd P \<and> lseg h (hd P) P 0
      else head k = hd N \<and> lseg (\<lambda>n. h (n + 8)) (hd N) N 0 \<and> map h N = P) \<and>
     lseg h (faptr c P) (faptr c P # F) 0 \<and> distinct (faptr c P # F) \<and> set F \<subseteq> set (objects c P)"

text \<open>The words these lists are made of.\<close>

definition foot :: "cname \<Rightarrow> nat list \<Rightarrow> nat list \<Rightarrow> nat list \<Rightarrow> nat set" where
  "foot c P N F = (if small c then set P else set N \<union> (\<lambda>n. n + 8) ` set N) \<union> set (faptr c P # F)"

lemma cache_ok_cong:
  assumes "cache_ok h c k P N F" "\<And>a. a \<in> foot c P N F \<Longrightarrow> h' a = h a"
  shows "cache_ok h' c k P N F"
proof -
  have "lseg h' (faptr c P) (faptr c P # F) 0 = lseg h (faptr c P) (faptr c P # F) 0"
    by (rule lseg_cong) (use assms(2) in \<open>auto simp: foot_def\<close>)
  moreover have "lseg h' p P 0 = lseg h p P 0" if "small c" for p
    by (rule lseg_cong) (use assms(2) that in \<open>auto simp: foot_def\<close>)
  moreover have "lseg (\<lambda>n. h' (n + 8)) p N 0 = lseg (\<lambda>n. h (n + 8)) p N 0" "map h' N = map h N"
    if "\<not> small c" for p
    using assms(2) that by (auto simp: foot_def intro!: lseg_cong)
  ultimately show ?thesis using assms(1) unfolding cache_ok_def by (cases "small c") (simp_all del: lseg.simps)
qed

text \<open>
  The caches of \<open>C\<close> are well formed, their pages are allocated and pairwise different, and
  \<open>A\<close> has objects that are in use: not free, and containing the nodes of the pages.
\<close>

definition slab_body ::
  "cname set \<Rightarrow> slab \<Rightarrow> (cname \<Rightarrow> nat list) \<Rightarrow> (cname \<Rightarrow> nat list) \<Rightarrow> (cname \<Rightarrow> nat list) \<Rightarrow>
   (cname \<Rightarrow> nat set) \<Rightarrow> bool" where
  "slab_body C s P N F A \<longleftrightarrow> kmem_ok (km s) \<and>
     (\<forall>c\<in>C. cache_ok (word_at s) c (caches s c) (P c) (N c) (F c) \<and> distinct (P c) \<and>
        (\<forall>p\<in>set (P c). page_addr (km s) p \<and> p div PGSIZE \<notin> free_mem (km s)) \<and>
        A c \<subseteq> set (objects c (P c)) - set (faptr c (P c) # F c) \<and> set (N c) \<subseteq> A G16 \<and> (\<not> small c \<longrightarrow> G16 \<in> C)) \<and>
     (\<forall>c\<in>C. \<forall>d\<in>C. c \<noteq> d \<longrightarrow> set (P c) \<inter> set (P d) = {} \<and> set (N c) \<inter> set (N d) = {})"

lemma slab_bodyD:
  assumes "slab_body C s P N F A"
  shows "kmem_ok (km s)"
    "c \<in> C \<Longrightarrow> cache_ok (word_at s) c (caches s c) (P c) (N c) (F c)"
    "c \<in> C \<Longrightarrow> distinct (P c)"
    "c \<in> C \<Longrightarrow> p \<in> set (P c) \<Longrightarrow> page_addr (km s) p"
    "c \<in> C \<Longrightarrow> p \<in> set (P c) \<Longrightarrow> p div PGSIZE \<notin> free_mem (km s)"
    "c \<in> C \<Longrightarrow> A c \<subseteq> set (objects c (P c)) - set (faptr c (P c) # F c)"
    "c \<in> C \<Longrightarrow> set (N c) \<subseteq> A G16" "c \<in> C \<Longrightarrow> \<not> small c \<Longrightarrow> G16 \<in> C"
    "c \<in> C \<Longrightarrow> d \<in> C \<Longrightarrow> c \<noteq> d \<Longrightarrow> set (P c) \<inter> set (P d) = {}"
    "c \<in> C \<Longrightarrow> d \<in> C \<Longrightarrow> c \<noteq> d \<Longrightarrow> set (N c) \<inter> set (N d) = {}"
  using assms unfolding slab_body_def by blast+

lemma object_in_page:
  assumes "a \<in> set (page_objects c pg)" "x \<in> extent c a" shows "in_page pg x"
proof -
  obtain i where i: "a = pg + i * usz c" "i < Suc (slotn c)"
    using assms(1) by (auto simp: page_objects_def set_slots)
  have "Suc i * usz c \<le> Suc (slotn c) * usz c" using i(2) by (intro mult_le_mono1) simp
  then have "Suc i * usz c \<le> PGSIZE" using cache_geometry(4) by (rule order_trans)
  then show ?thesis using i(1) assms(2) by (simp add: extent_def in_page_def)
qed

lemma objects_pageE:
  assumes "a \<in> set (objects c pgs)" obtains pg where "pg \<in> set pgs" "a \<in> set (page_objects c pg)"
  using assms by (auto simp: objects_def)

lemma faptr_object: "P \<noteq> [] \<Longrightarrow> faptr c P \<in> set (page_objects c (hd P))"
  using cache_geometry(8) [of c] by (auto simp: faptr_def page_objects_def set_slots)

lemma slot_extent_unique:
  fixes u :: nat
  assumes "i * u \<le> y" "y < i * u + u" "j * u \<le> y" "y < j * u + u" shows "i = j"
proof -
  have "0 < u" using assms by auto
  moreover have "y div u = i" using assms(1,2) by (intro div_nat_eqI) (simp_all add: algebra_simps)
  moreover have "y div u = j" using assms(3,4) by (intro div_nat_eqI) (simp_all add: algebra_simps)
  ultimately show ?thesis by simp
qed

lemma page_object_extents:
  assumes "a \<in> set (page_objects c pg)" "b \<in> set (page_objects c pg)" "x \<in> extent c a" "x \<in> extent c b"
  shows "a = b"
proof -
  obtain i j where "a = pg + i * usz c" "b = pg + j * usz c"
    using assms(1,2) by (auto simp: page_objects_def set_slots)
  moreover from this have "i = j"
    using slot_extent_unique [of i "usz c" "x - pg" j] assms(3,4) by (auto simp: extent_def)
  ultimately show ?thesis by simp
qed

text \<open>Objects of the caches have disjoint extents.\<close>

lemma extents_disjoint:
  assumes body: "slab_body C s P N F A" and "c \<in> C" "d \<in> C"
    and a: "a \<in> set (objects c (P c))" and b: "b \<in> set (objects d (P d))"
    and x: "x \<in> extent c a" "x \<in> extent d b"
  shows "c = d \<and> a = b"
proof -
  obtain p q where p: "p \<in> set (P c)" "a \<in> set (page_objects c p)"
    and q: "q \<in> set (P d)" "b \<in> set (page_objects d q)"
    using objects_pageE a b by metis
  have "p = q"
    using in_page_unique [OF slab_bodyD(4) [OF body assms(2) p(1)] slab_bodyD(4) [OF body assms(3) q(1)]]
      object_in_page p(2) q(2) x by blast
  then have "c = d" using slab_bodyD(9) [OF body assms(2,3)] p(1) q(1) by blast
  then show ?thesis using page_object_extents p(2) q(2) \<open>p = q\<close> x by blast
qed


lemma object_extent [simp]: "a \<in> extent c a" "n \<in> extent G16 n" "n + 8 \<in> extent G16 n"
  using usz_pos [of c] by (simp_all add: extent_def)

lemma faptr_free_objects:
  assumes "slab_body C s P N F A" "c \<in> C" shows "set (faptr c (P c) # F c) \<subseteq> set (objects c (P c))"
proof -
  have k: "cache_ok (word_at s) c (caches s c) (P c) (N c) (F c)" using slab_bodyD(2) [OF assms] .
  then have "P c \<noteq> []" by (simp add: cache_ok_def)
  then have "faptr c (P c) \<in> set (objects c (P c))"
    using faptr_object [of "P c" c] by (auto simp: objects_def intro!: bexI [of _ "hd (P c)"])
  then show ?thesis using k by (simp add: cache_ok_def)
qed

lemma slab_foot:
  assumes body: "slab_body C s P N F A" and d: "d \<in> C" and x: "x \<in> foot d (P d) (N d) (F d)"
  shows "x \<in> set (P d) \<and> small d \<or> x \<in> set (faptr d (P d) # F d) \<or>
    \<not> small d \<and> G16 \<in> C \<and> (\<exists>n\<in>A G16. n \<in> set (N d) \<and> x \<in> extent G16 n)"
  using x slab_bodyD(7,8) [OF body d] object_extent(2,3) unfolding foot_def by (cases "small d") fastforce+

lemma page_in_page [simp]: "in_page p p"
  by (simp add: in_page_def PGSIZE_def)

text \<open>A word of an object that is not a node is in the footprint of its own cache only.\<close>

lemma foot_other:
  assumes body: "slab_body C s P N F A" and c: "c \<in> C" and d: "d \<in> C" "c \<noteq> d"
    and a: "a \<in> set (objects c (P c))" "c = G16 \<Longrightarrow> a \<notin> set (N d)" and x: "x \<in> extent c a"
  shows "x \<notin> foot d (P d) (N d) (F d)"
proof
  assume "x \<in> foot d (P d) (N d) (F d)"
  then consider (page) "x \<in> set (P d)" | (free) "x \<in> set (faptr d (P d) # F d)"
    | (node) n where "G16 \<in> C" "n \<in> A G16" "x \<in> extent G16 n" "n \<in> set (N d)"
    using slab_foot [OF body d(1)] by blast
  then show False
  proof cases
    case page
    obtain p where p: "p \<in> set (P c)" "in_page p x" using objects_pageE [OF a(1)] object_in_page x by metis
    then have "p = x"
      using in_page_unique [OF slab_bodyD(4) [OF body c p(1)] slab_bodyD(4) [OF body d(1) page]] by simp
    then show False using p(1) page slab_bodyD(9) [OF body c d] by blast
  next
    case free
    then have "x \<in> set (objects d (P d))" using faptr_free_objects [OF body d(1)] by blast
    then show False using extents_disjoint [OF body c d(1) a(1) _ x object_extent(1)] d(2) by blast
  next
    case node
    then have "n \<in> set (objects G16 (P G16))" using slab_bodyD(6) [OF body node(1)] by blast
    then show False using extents_disjoint [OF body c node(1) a(1) _ x node(3)] node(4) a(2) by auto
  qed
qed

text \<open>The word that starts the chain of free objects is neither a page link nor part of a node.\<close>

lemma faptr_not_meta:
  assumes body: "slab_body C s P N F A" and c: "c \<in> C"
  shows "small c \<Longrightarrow> faptr c (P c) \<notin> set (P c)"
    and "\<not> small c \<Longrightarrow> n \<in> set (N c) \<Longrightarrow> n \<noteq> faptr c (P c) \<and> n + 8 \<noteq> faptr c (P c)"
proof -
  let ?f = "faptr c (P c)"
  have ne: "P c \<noteq> []" using slab_bodyD(2) [OF body c] by (simp add: cache_ok_def)
  show "?f \<notin> set (P c)" if "small c"
  proof
    assume p: "?f \<in> set (P c)"
    have "hd (P c) = ?f"
      using in_page_unique [OF slab_bodyD(4) [OF body c] slab_bodyD(4) [OF body c p], of "hd (P c)" ?f]
        object_in_page [OF faptr_object [OF ne] object_extent(1)] ne by simp
    then show False using that usz_pos [of c] by (simp add: faptr_def slot0_def)
  qed
  assume a: "\<not> small c" "n \<in> set (N c)"
  then have n: "n \<in> A G16" "G16 \<in> C" using slab_bodyD(7,8) [OF body c] by auto
  have "n \<in> set (objects G16 (P G16))" using slab_bodyD(6) [OF body n(2)] n(1) by blast
  then have "?f \<notin> extent G16 n"
    using extents_disjoint [OF body c n(2), of ?f n ?f] faptr_free_objects [OF body c] a(1) object_extent(1) [of ?f c]
    by (auto simp: small_def)
  then show "n \<noteq> ?f \<and> n + 8 \<noteq> ?f" using object_extent(2,3) [of n] by metis
qed

lemma slab_body_upd:
  assumes body: "slab_body C s P N F A" and c: "c \<in> C"
    and w: "\<And>d a. d \<in> C \<Longrightarrow> d \<noteq> c \<Longrightarrow> a \<in> foot d (P d) (N d) (F d) \<Longrightarrow> word_at t a = word_at s a"
    and k: "cache_ok (word_at t) c (caches t c) (P c) (N c) fs"
    and t: "km t = km s" "\<And>d. d \<noteq> c \<Longrightarrow> caches t d = caches s d"
    and A: "A' \<subseteq> set (objects c (P c)) - set (faptr c (P c) # fs)"
      "\<And>d. c = G16 \<Longrightarrow> d \<in> C \<Longrightarrow> set (N d) \<subseteq> A'"
  shows "slab_body C t P N (F(c := fs)) (A(c := A'))"
  unfolding slab_body_def
proof (intro conjI ballI impI)
  show "kmem_ok (km t)" using slab_bodyD(1) [OF body] t(1) by simp
  fix d assume d: "d \<in> C"
  show "cache_ok (word_at t) d (caches t d) (P d) (N d) ((F(c := fs)) d)"
    using k cache_ok_cong [OF slab_bodyD(2) [OF body d], of "word_at t"] w [OF d] t(2) [of d] by (cases "d = c") auto
  show "distinct (P d)" by (rule slab_bodyD(3) [OF body d])
  show "(A(c := A')) d \<subseteq> set (objects d (P d)) - set (faptr d (P d) # (F(c := fs)) d)"
    using A(1) slab_bodyD(6) [OF body d] by (cases "d = c") auto
  show "set (N d) \<subseteq> (A(c := A')) G16" using A(2) [OF _ d] slab_bodyD(7) [OF body d] by auto
  show "G16 \<in> C" if "\<not> small d" by (rule slab_bodyD(8) [OF body d that])
  show "page_addr (km t) p" "p div PGSIZE \<notin> free_mem (km t)" if "p \<in> set (P d)" for p
    using slab_bodyD(4,5) [OF body d that] t(1) by simp_all
  show "set (P d) \<inter> set (P e) = {}" "set (N d) \<inter> set (N e) = {}" if "e \<in> C" "d \<noteq> e" for e
    using slab_bodyD(9,10) [OF body d that] by simp_all
qed

text \<open>Taking the first free object.\<close>

lemma take_object:
  assumes body: "slab_body C s P N F A" and c: "c \<in> C" and F: "F c = a # fs"
    and w: "word_at t = (word_at s)(faptr c (P c) := word_at s a)"
    and t: "km t = km s" "\<And>d. d \<noteq> c \<Longrightarrow> caches t d = caches s d" "cache_size (caches t c) = cache_size (caches s c)"
      "unitsz (caches t c) = unitsz (caches s c)" "head (caches t c) = head (caches s c)"
  shows "slab_body C t P N (F(c := fs)) (A(c := insert a (A c)))" "a \<notin> A c" "a \<noteq> 0"
proof -
  let ?f = "faptr c (P c)"
  have k: "cache_ok (word_at s) c (caches s c) (P c) (N c) (a # fs)" using slab_bodyD(2) [OF body c] F by simp
  have fo: "set (?f # a # fs) \<subseteq> set (objects c (P c))" using faptr_free_objects [OF body c] F by simp
  have fA: "?f \<notin> A c" "a \<notin> A c" using slab_bodyD(6) [OF body c] F by auto
  then show "a \<notin> A c" "a \<noteq> 0" using k by (auto simp: cache_ok_def)
  note nf = faptr_not_meta(1) [OF body c] and nn = faptr_not_meta(2) [OF body c]
  have "cache_ok (word_at t) c (caches t c) (P c) (N c) fs"
  proof -
    have "lseg (word_at t) ?f (?f # fs) 0"
      using k by (auto simp: w cache_ok_def lseg_set_outside)
    moreover have "lseg (word_at t) p (P c) 0 = lseg (word_at s) p (P c) 0" if "small c" for p
      using nf [OF that] by (simp add: w lseg_set_outside)
    moreover have "map (word_at t) (N c) = map (word_at s) (N c)"
      "lseg (\<lambda>n. word_at t (n + 8)) p (N c) 0 = lseg (\<lambda>n. word_at s (n + 8)) p (N c) 0" if "\<not> small c" for p
      using nn [OF that] by (auto simp: w intro!: lseg_cong)
    ultimately show ?thesis using k t(3-5) unfolding cache_ok_def by (cases "small c") (simp_all del: lseg.simps)
  qed
  moreover have "word_at t x = word_at s x" if "d \<in> C" "d \<noteq> c" "x \<in> foot d (P d) (N d) (F d)" for d x
    using foot_other [OF body c that(1), of ?f ?f] that fo fA(1) slab_bodyD(7) [OF body that(1)] by (auto simp: w)
  moreover have "insert a (A c) \<subseteq> set (objects c (P c)) - set (?f # fs)"
    using slab_bodyD(6) [OF body c] F fo k by (auto simp: cache_ok_def)
  ultimately show "slab_body C t P N (F(c := fs)) (A(c := insert a (A c)))"
    using slab_bodyD(7) [OF body] t(1,2) by (intro slab_body_upd [OF body c]) auto
qed


text \<open>Putting an object back; in the 16-byte cache it is not put back.\<close>

lemma in_use_foot:
  assumes body: "slab_body C s P N F A" and c: "c \<in> C" and a: "a \<in> A c" "\<And>d. c = G16 \<Longrightarrow> d \<in> C \<Longrightarrow> a \<notin> set (N d)"
    and d: "d \<in> C" and x: "x \<in> extent c a"
  shows "x \<notin> foot d (P d) (N d) (F d)"
proof (cases "d = c")
  case False
  then show ?thesis
    using foot_other [OF body c d _ _ _ x] slab_bodyD(6) [OF body c] a d by blast
next
  case True
  have ao: "a \<in> set (objects c (P c))" "a \<notin> set (faptr c (P c) # F c)" using slab_bodyD(6) [OF body c] a(1) by auto
  show ?thesis
  proof
    assume "x \<in> foot d (P d) (N d) (F d)"
    then consider "x \<in> set (P c)" "small c" | "x \<in> set (faptr c (P c) # F c)"
      | n where "\<not> small c" "G16 \<in> C" "n \<in> A G16" "x \<in> extent G16 n"
      using slab_foot [OF body d] True by blast
    then show False
    proof cases
      case 1
      obtain p where p: "p \<in> set (P c)" "a \<in> set (page_objects c p)" using objects_pageE ao(1) by metis
      then have "p = x"
        using in_page_unique [OF slab_bodyD(4) [OF body c p(1)] slab_bodyD(4) [OF body c 1(1)]]
          object_in_page [OF p(2) x] by simp
      then show False using p(2) 1(2) usz_pos [of c] x by (auto simp: page_objects_def set_slots slot0_def extent_def)
    next
      case 2
      then show False
        using extents_disjoint [OF body c c ao(1) _ x object_extent(1)] faptr_free_objects [OF body c] ao(2) by blast
    next
      case 3
      then have "n \<in> set (objects G16 (P G16))" using slab_bodyD(6) [OF body 3(2)] by blast
      then show False
        using extents_disjoint [OF body c 3(2) ao(1) _ x 3(4)] 3(1) by (auto simp: small_def)
    qed
  qed
qed

lemma put_object:
  assumes body: "slab_body C s P N F A" and c: "c \<in> C" "c \<noteq> G16" and a: "a \<in> A c"
    and w: "word_at t = (word_at s)(a := word_at s (faptr c (P c)), faptr c (P c) := a)"
    and t: "km t = km s" "\<And>d. d \<noteq> c \<Longrightarrow> caches t d = caches s d" "cache_size (caches t c) = cache_size (caches s c)"
      "unitsz (caches t c) = unitsz (caches s c)" "head (caches t c) = head (caches s c)"
  shows "slab_body C t P N (F(c := a # F c)) (A(c := A c - {a}))"
proof -
  let ?f = "faptr c (P c)"
  have k: "cache_ok (word_at s) c (caches s c) (P c) (N c) (F c)" using slab_bodyD(2) [OF body c(1)] .
  have fo: "set (?f # F c) \<subseteq> set (objects c (P c))" using faptr_free_objects [OF body c(1)] .
  have ao: "a \<in> set (objects c (P c))" "a \<notin> set (?f # F c)" using slab_bodyD(6) [OF body c(1)] a by auto
  have nf: "a \<notin> foot d (P d) (N d) (F d)" if "d \<in> C" for d
    using in_use_foot [OF body c(1) a _ that object_extent(1)] c(2) by blast
  define h1 where "h1 = (word_at s)(a := word_at s ?f)"
  have k1: "cache_ok h1 c (caches s c) (P c) (N c) (F c)"
    by (rule cache_ok_cong [OF k]) (use nf [OF c(1)] in \<open>auto simp: h1_def\<close>)
  have a0: "a \<noteq> 0"
  proof -
    obtain p where p: "p \<in> set (P c)" "in_page p a" using objects_pageE [OF ao(1)] object_in_page object_extent(1) by metis
    then show ?thesis using page_pos [OF slab_bodyD(1) [OF body] slab_bodyD(4) [OF body c(1) p(1)]] by (auto simp: in_page_def)
  qed
  note fP = faptr_not_meta(1) [OF body c(1)] and nn = faptr_not_meta(2) [OF body c(1)]
  have "cache_ok (word_at t) c (caches t c) (P c) (N c) (a # F c)"
  proof -
    have wt: "word_at t = h1(?f := a)" by (simp add: w h1_def)
    have "h1 a = word_at s ?f" "word_at s ?f = h1 ?f" using ao(2) by (simp_all add: h1_def)
    then have "lseg (word_at t) ?f (?f # a # F c) 0"
      using k1 a0 ao(2) by (auto simp: wt cache_ok_def lseg_set_outside)
    moreover have "lseg (word_at t) p (P c) 0 = lseg h1 p (P c) 0" if "small c" for p
      using fP [OF that] by (simp add: wt lseg_set_outside)
    moreover have "map (word_at t) (N c) = map h1 (N c)"
      "lseg (\<lambda>n. word_at t (n + 8)) p (N c) 0 = lseg (\<lambda>n. h1 (n + 8)) p (N c) 0" if "\<not> small c" for p
      using nn [OF that] by (auto simp: wt intro!: lseg_cong)
    ultimately show ?thesis using k1 t(3-5) ao unfolding cache_ok_def by (cases "small c") (simp_all del: lseg.simps)
  qed
  moreover have "word_at t x = word_at s x" if "d \<in> C" "d \<noteq> c" "x \<in> foot d (P d) (N d) (F d)" for d x
    using foot_other [OF body c(1) that(1), of ?f ?f] that fo c(2) nf [OF that(1)] by (auto simp: w)
  moreover have "A c - {a} \<subseteq> set (objects c (P c)) - set (?f # a # F c)"
    using slab_bodyD(6) [OF body c(1)] by auto
  ultimately show ?thesis
    using c(2) t(1,2) by (intro slab_body_upd [OF body c(1)]) auto
qed

lemma lose_object:
  assumes body: "slab_body C s P N F A" and c: "G16 \<in> C" and a: "a \<in> A G16" "\<And>d. d \<in> C \<Longrightarrow> a \<notin> set (N d)"
    and w: "word_at t = (word_at s)(a := word_at s (hd (P G16) + 8), hd (P G16) + 8 := a)"
    and t: "km t = km s" "\<And>d. d \<noteq> G16 \<Longrightarrow> caches t d = caches s d"
      "cache_size (caches t G16) = cache_size (caches s G16)"
      "unitsz (caches t G16) = unitsz (caches s G16)" "head (caches t G16) = head (caches s G16)"
  shows "slab_body C t P N F A" "slab_body C t P N F (A(G16 := A G16 - {a}))"
proof -
  let ?p = "hd (P G16)"
  have k: "cache_ok (word_at s) G16 (caches s G16) (P G16) (N G16) (F G16)" using slab_bodyD(2) [OF body c] .
  have p: "?p \<in> set (P G16)" using k by (simp add: cache_ok_def)
  have inp: "in_page ?p (?p + 8)" by (simp add: in_page_def PGSIZE_def)
  have no: "?p + 8 \<notin> extent d b" if d: "d \<in> C" "b \<in> set (objects d (P d))" for d b
  proof
    assume x: "?p + 8 \<in> extent d b"
    obtain q where q: "q \<in> set (P d)" "b \<in> set (page_objects d q)" using objects_pageE d(2) by metis
    then have "q = ?p"
      using in_page_unique [OF slab_bodyD(4) [OF body d(1) q(1)] slab_bodyD(4) [OF body c p] object_in_page [OF q(2) x] inp]
      by simp
    then have "d = G16" using slab_bodyD(9) [OF body d(1) c] q(1) p by blast
    then show False using q(2) x \<open>q = ?p\<close>
      by (auto simp: page_objects_def set_slots slot0_def small_def extent_def)
  qed
  have nf: "x \<notin> foot d (P d) (N d) (F d)" if d: "d \<in> C" "x = a \<or> x = ?p + 8" for d x
  proof (cases "x = a")
    case True
    then show ?thesis using in_use_foot [OF body c a(1) a(2) d(1) object_extent(1)] by blast
  next
    case False
    then have x: "x = ?p + 8" using d(2) by blast
    show ?thesis
    proof
      assume "x \<in> foot d (P d) (N d) (F d)"
      then consider "?p + 8 \<in> set (P d)" | "?p + 8 \<in> set (faptr d (P d) # F d)"
        | n where "G16 \<in> C" "n \<in> A G16" "?p + 8 \<in> extent G16 n"
        using slab_foot [OF body d(1)] x by blast
      then show False
      proof cases
        case 1
        then have "?p + 8 = ?p"
          using in_page_unique [OF slab_bodyD(4) [OF body d(1) 1] slab_bodyD(4) [OF body c p] _ inp] by simp
        then show False by simp
      next
        case 2
        then show False using no [OF d(1), of "?p + 8"] faptr_free_objects [OF body d(1)] by auto
      next
        case 3
        then show False using no [OF c, of n] slab_bodyD(6) [OF body c] by blast
      qed
    qed
  qed
  have "cache_ok (word_at s) G16 (caches t G16) (P G16) (N G16) (F G16)" using k t(3-5) by (simp add: cache_ok_def)
  then have "cache_ok (word_at t) G16 (caches t G16) (P G16) (N G16) (F G16)"
    by (rule cache_ok_cong) (use nf [OF c] in \<open>auto simp: w\<close>)
  moreover have "word_at t x = word_at s x" if "d \<in> C" "x \<in> foot d (P d) (N d) (F d)" for d x
    using nf [OF that(1)] that(2) by (auto simp: w)
  moreover have "set (N d) \<subseteq> A G16 - {a}" if "d \<in> C" for d
    using slab_bodyD(7) [OF body that] a(2) [OF that] by blast
  moreover have "A G16 \<subseteq> set (objects G16 (P G16)) - set (faptr G16 (P G16) # F G16)"
    by (rule slab_bodyD(6) [OF body c])
  ultimately have "slab_body C t P N (F(G16 := F G16)) (A(G16 := A'))" if "A' = A G16 \<or> A' = A G16 - {a}" for A'
    using t(1,2) that by (intro slab_body_upd [OF body c]) blast+
  from this [of "A G16"] this [of "A G16 - {a}"] show "slab_body C t P N F A" "slab_body C t P N F (A(G16 := A G16 - {a}))"
    by simp_all
qed


text \<open>A page that was free holds no word of a cache.\<close>

lemma foot_pages:
  assumes body: "slab_body C s P N F A" and d: "d \<in> C" and x: "x \<in> foot d (P d) (N d) (F d)"
    and pg: "page_addr (km s) pg" "\<And>e. e \<in> C \<Longrightarrow> pg \<notin> set (P e)"
  shows "\<not> in_page pg x"
proof
  assume xp: "in_page pg x"
  have no: False if "e \<in> C" "q \<in> set (P e)" "in_page q x" for e q
    using in_page_unique [OF slab_bodyD(4) [OF body that(1,2)] pg(1) that(3) xp] pg(2) that(1,2) by blast
  have ob: False if "e \<in> C" "b \<in> set (objects e (P e))" "x \<in> extent e b" for e b
    using no [OF that(1)] objects_pageE [OF that(2)] object_in_page [OF _ that(3)] by metis
  from slab_foot [OF body d x] show False
    using no [OF d, of x] ob [OF d, of x] ob [of G16] faptr_free_objects [OF body d] slab_bodyD(6) [OF body, of G16]
    by (meson in_mono object_extent(1) page_in_page DiffD1)
qed

lemma objects_Cons: "objects c (p # ps) = page_objects c p @ objects c ps"
  by (simp add: objects_def)

lemma page_objects_hd:
  "page_objects c pg = faptr c (pg # ps) # tl (page_objects c pg)" "distinct (page_objects c pg)"
  using slots_Cons [OF cache_geometry(8) [of c], of "usz c" pg]
  by (simp add: page_objects_def faptr_def) (simp add: page_objects_def)

lemma add_page:
  assumes body: "slab_body C s P N F A" and c: "c \<in> C" and F: "F c = []"
    and k: "new_pages (km s) rs (km t)" "page_addr (km s) pg" "pg div PGSIZE \<notin> free_mem (km t)"
    and pgP: "\<And>d. d \<in> C \<Longrightarrow> pg \<notin> set (P d)"
    and ns: "small c \<Longrightarrow> ns = []" "\<not> small c \<Longrightarrow> ns = [n] \<and> n \<in> A G16 \<and> (\<forall>d\<in>C. n \<notin> set (N d))"
    and w: "\<And>a. \<not> in_page pg a \<Longrightarrow> small c \<or> a \<notin> extent G16 n \<Longrightarrow> word_at t a = word_at s a"
    and links: "small c \<Longrightarrow> word_at t pg = hd (P c)" "\<not> small c \<Longrightarrow> word_at t n = pg \<and> word_at t (n + 8) = hd (N c) \<and> n \<noteq> 0"
    and objs: "lseg (word_at t) (faptr c [pg]) (page_objects c pg) (faptr c (P c))"
    and t: "\<And>d. d \<noteq> c \<Longrightarrow> caches t d = caches s d" "cache_size (caches t c) = cache_size (caches s c)"
      "unitsz (caches t c) = unitsz (caches s c)" "head (caches t c) = (if small c then pg else n)"
  shows "slab_body C t (P(c := pg # P c)) (N(c := ns @ N c)) (F(c := tl (page_objects c pg) @ [faptr c (P c)])) A"
proof -
  have same: "word_at t x = word_at s x" if d: "d \<in> C" "x \<in> foot d (P d) (N d) (F d)" for d x
  proof (rule w)
    show "\<not> in_page pg x" using foot_pages [OF body d k(2)] pgP by blast
    show "small c \<or> x \<notin> extent G16 n"
      using in_use_foot [OF body _ _ _ d(1), of G16 n x] slab_bodyD(8) [OF body c] ns(2) d(2) by blast
  qed
  have kc: "cache_ok (word_at t) d (caches s d) (P d) (N d) (F d)" if "d \<in> C" for d
    by (rule cache_ok_cong [OF slab_bodyD(2) [OF body that]]) (rule same [OF that])
  let ?F = "tl (page_objects c pg) @ [faptr c (P c)]"
  have fp: "faptr c (pg # P c) = faptr c [pg]" by (simp add: faptr_def)
  have pos: "0 < pg" by (rule page_pos [OF slab_bodyD(1) [OF body] k(2)])
  have ob: "b \<notin> set (page_objects c pg)" if b: "b \<in> set (objects c (P c))" for b
  proof
    assume "b \<in> set (page_objects c pg)"
    then have "in_page pg b" using object_in_page object_extent(1) by blast
    moreover obtain q where "q \<in> set (P c)" "in_page q b" using objects_pageE [OF b] object_in_page object_extent(1) by metis
    ultimately show False using in_page_unique [OF slab_bodyD(4) [OF body c] k(2)] pgP [OF c] by blast
  qed
  have fo: "faptr c (P c) \<in> set (objects c (P c))" using faptr_free_objects [OF body c] by simp
  obtain xs where xs: "page_objects c pg = faptr c [pg] # xs" using page_objects_hd(1) by blast
  have "cache_ok (word_at t) c (caches t c) (pg # P c) (ns @ N c) ?F"
  proof -
    have "lseg (word_at t) (faptr c [pg]) (page_objects c pg @ [faptr c (P c)]) 0"
      using objs kc [OF c] F by (auto simp: lseg_append cache_ok_def)
    then have "lseg (word_at t) (faptr c (pg # P c)) (faptr c (pg # P c) # ?F) 0"
      by (simp add: xs fp)
    moreover have "distinct (faptr c (pg # P c) # ?F)"
      using page_objects_hd(2) [of c pg] ob [OF fo] by (auto simp: xs fp)
    moreover have "set ?F \<subseteq> set (objects c (pg # P c))" using fo by (auto simp: xs objects_Cons)
    moreover have "if small c then ns @ N c = [] \<and> head (caches t c) = hd (pg # P c) \<and> lseg (word_at t) (hd (pg # P c)) (pg # P c) 0
      else head (caches t c) = hd (ns @ N c) \<and> lseg (\<lambda>n. word_at t (n + 8)) (hd (ns @ N c)) (ns @ N c) 0 \<and>
        map (word_at t) (ns @ N c) = pg # P c"
      using kc [OF c] ns links t(4) pos unfolding cache_ok_def by (cases "small c") auto
    ultimately show ?thesis using kc [OF c] t(2,3) unfolding cache_ok_def by (simp del: lseg.simps)
  qed
  note this_ok = this
  show ?thesis
    unfolding slab_body_def
  proof (intro conjI ballI impI)
    fix d assume d: "d \<in> C"
    show "cache_ok (word_at t) d (caches t d) ((P(c := pg # P c)) d) ((N(c := ns @ N c)) d) ((F(c := ?F)) d)"
      using this_ok kc [OF d] t(1) [of d] by (cases "d = c") auto
    show "distinct ((P(c := pg # P c)) d)" using slab_bodyD(3) [OF body d] pgP [OF d] by auto
    have sub: "A d \<subseteq> set (objects d (P d)) - set (faptr d (P d) # F d)" by (rule slab_bodyD(6) [OF body d])
    show "A d \<subseteq> set (objects d ((P(c := pg # P c)) d)) - set (faptr d ((P(c := pg # P c)) d) # (F(c := ?F)) d)"
    proof (cases "d = c")
      case True
      then show ?thesis using sub ob by (auto simp: objects_Cons xs fp)
    qed (use sub in simp)
    show "set ((N(c := ns @ N c)) d) \<subseteq> A G16"
      using slab_bodyD(7) [OF body d] ns by (cases "small c") auto
    show "G16 \<in> C" if "\<not> small d" by (rule slab_bodyD(8) [OF body d that])
    fix p assume p: "p \<in> set ((P(c := pg # P c)) d)"
    show "page_addr (km t) p"
      using p k(1,2) slab_bodyD(4) [OF body d, of p] page_addr_kend [of "km t" "km s" p]
      by (cases "d = c") (auto simp: new_pages_def)
    show "p div PGSIZE \<notin> free_mem (km t)"
      using p k(1,3) slab_bodyD(5) [OF body d, of p] by (cases "d = c") (auto simp: new_pages_def)
  next
    fix d e assume d: "d \<in> C" "e \<in> C" "d \<noteq> e"
    show "set ((P(c := pg # P c)) d) \<inter> set ((P(c := pg # P c)) e) = {}"
      using slab_bodyD(9) [OF body d] pgP d by auto
    show "set ((N(c := ns @ N c)) d) \<inter> set ((N(c := ns @ N c)) e) = {}"
      using slab_bodyD(10) [OF body d] ns d by (cases "small c") auto
  qed (use k(1) in \<open>simp add: new_pages_def\<close>)
qed


subsection \<open>Allocation\<close>

text \<open>
  What an allocation from \<open>c\<close> does: \<open>ps\<close> are the pages it added, and words change only
  inside the pages of the cache, outside the objects in use.
\<close>

definition alloc_frame :: "cname \<Rightarrow> slab \<Rightarrow> (nat \<Rightarrow> nat) \<Rightarrow> nat list \<Rightarrow> nat set \<Rightarrow> slab \<Rightarrow> bool" where
  "alloc_frame c s h P A t \<longleftrightarrow> (\<forall>d. d \<noteq> c \<longrightarrow> caches t d = caches s d) \<and>
     (\<forall>x. (\<forall>p\<in>set P. \<not> in_page p x) \<or> (\<exists>b\<in>A. x \<in> extent c b) \<longrightarrow> word_at t x = h x)"

lemma upd_cache_fields [simp]:
  "km (upd_cache c f s) = km s" "word_at (upd_cache c f s) = word_at s"
  "caches (upd_cache c f s) = (caches s)(c := f (caches s c))"
  by (simp_all add: upd_cache_def)

lemma caches_poke [simp]: "caches (poke a v s) = caches s"
  by (simp add: poke_def)

lemma release_cache_held:
  "held_by me (cache_lock (caches s c)) \<Longrightarrow>
   release_cache me c s = Done () (upd_cache c (\<lambda>k. k\<lparr>cache_lock := initlock\<rparr>) s)"
  by (simp add: release_cache_def)

lemma take_frame:
  assumes body: "slab_body C s P N F A" and c: "c \<in> C"
    and w: "word_at t = (word_at s)(faptr c (P c) := v)" and t: "\<And>d. d \<noteq> c \<Longrightarrow> caches t d = caches s d"
  shows "alloc_frame c s (word_at s) (P c) (A c) t"
proof -
  let ?f = "faptr c (P c)"
  have P: "P c \<noteq> []" using slab_bodyD(2) [OF body c] by (simp add: cache_ok_def)
  have "in_page (hd (P c)) ?f" using object_in_page [OF faptr_object [OF P] object_extent(1)] .
  moreover have "?f \<notin> extent c b" if "b \<in> A c" for b
    using extents_disjoint [OF body c c, of ?f b ?f] faptr_free_objects [OF body c] slab_bodyD(6) [OF body c]
      that object_extent(1) by auto
  ultimately show ?thesis using t P by (auto simp: alloc_frame_def w)
qed

lemma alloc_small_take:
  assumes body: "slab_body C s P N F A" and c: "c \<in> C" "small c" and F: "F c = a # fs"
    and held: "held_by me (cache_lock (caches s c))"
  shows "\<exists>t. alloc_small_object_pool me c n s = Done a t \<and> slab_body C t P N (F(c := fs)) (A(c := insert a (A c))) \<and>
    a \<notin> A c \<and> a \<noteq> 0 \<and> km t = km s \<and> cache_lock (caches t c) = initlock \<and>
    alloc_frame c s (word_at s) (P c) (A c) t"
proof -
  have k: "cache_ok (word_at s) c (caches s c) (P c) (N c) (a # fs)" using slab_bodyD(2) [OF body c(1)] F by simp
  let ?f = "faptr c (P c)"
  have f: "head (caches s c) + unitsz (caches s c) = ?f" "word_at s ?f = a" "a \<noteq> 0"
    using k c(2) by (auto simp: cache_ok_def faptr_def slot0_def)
  let ?t = "upd_cache c (\<lambda>k. k\<lparr>cache_lock := initlock\<rparr>)
    (upd_cache c (\<lambda>k. k\<lparr>alloc_count := alloc_count k + 1\<rparr>) (poke ?f (word_at s a) s))"
  have "alloc_small_object_pool me c n s = Done a ?t"
    using f held by (subst alloc_small_object_pool.simps) (simp add: Let_def release_cache_held)
  moreover have "slab_body C ?t P N (F(c := fs)) (A(c := insert a (A c)))" "a \<notin> A c"
    by (rule take_object [OF body c(1) F, of ?t], simp_all)+
  moreover have "alloc_frame c s (word_at s) (P c) (A c) ?t"
    by (rule take_frame [OF body c(1)]) simp_all
  ultimately show ?thesis using f(3) by (intro exI [of _ ?t]) simp
qed

lemma init_small_one:
  assumes ok: "kmem_ok (km s)" "free_mem (km s) \<noteq> {}" and c: "small c"
  obtains pg k h where "init_small_object_pool me (usz c) 1 s = Done pg (s\<lparr>km := k, word_at := h\<rparr>)"
    "kmem_ok k" "page_addr (km s) pg" "kend k = kend (km s)" "pg div PGSIZE \<in> free_mem (km s)"
    "free_mem k = free_mem (km s) - {pg div PGSIZE}" "lseg h (faptr c [pg]) (page_objects c pg) 0"
    "same_outside [pg] (word_at s) h" "\<And>f. f \<noteq> pg div PGSIZE \<Longrightarrow> ref_cnt k f = ref_cnt (km s) f"
proof -
  obtain pg k where a: "pm_kalloc me s = Done pg (s\<lparr>km := k, word_at := fill_words pg 0 (word_at s)\<rparr>)"
    and k: "kmem_ok k" "page_addr (km s) pg" "kend k = kend (km s)" "pg div PGSIZE \<in> free_mem (km s)"
    "free_mem k = free_mem (km s) - {pg div PGSIZE}" "ref_cnt k = (ref_cnt (km s))(pg div PGSIZE := 1)"
    using pm_kalloc_ok [OF ok, of me] by metis
  let ?s = "s\<lparr>km := k, word_at := fill_words pg 0 (word_at s)\<rparr>"
  have "page_addr (km ?s) pg" using k(2,3) by (simp add: page_addr_def)
  then obtain k' h ps where r: "small_pages me (usz c) (slotn c) 0 pg ?s = Done () (?s\<lparr>km := k', word_at := h\<rparr>)"
    "new_pages (km ?s) ps k'" "length ps = 0"
    "lseg h (pg + usz c) (concat (map (slots (usz c) 1 (Suc (slotn c))) (pg # ps))) 0"
    "same_outside (pg # ps) (word_at ?s) h"
    using small_pages_ok [of ?s 0 pg "usz c" "slotn c" me] k(1,4,5) cache_geometry(4,7) [of c] by auto
  have kk: "kmem_ok k'" "kend k' = kend k" "free_mem k' = free_mem k" "ref_cnt k' = ref_cnt k"
    using r(2,3) by (auto simp: new_pages_def)
  have "u16_pred (Suc 0) = 0" by (simp add: u16_pred_def)
  then have i: "init_small_object_pool me (usz c) 1 s = Done pg (s\<lparr>km := k', word_at := h\<rparr>)"
    using a r(1) by (simp add: init_small_object_pool_def cache_geometry(5))
  have "lseg h (faptr c [pg]) (page_objects c pg) 0"
    using r(3,4) c by (simp add: faptr_def page_objects_def slot0_def)
  moreover have "same_outside [pg] (word_at s) h" using r(3,5) by (auto simp: same_outside_def)
  ultimately show ?thesis using that [OF i] k kk by simp
qed

lemma page_objects_last: "last (page_objects c pg) = pg + slotn c * usz c" "page_objects c pg \<noteq> []"
  using slots_snoc [of "slot0 c" "slotn c" "usz c" pg] cache_geometry(8) [of c]
  by (simp_all add: page_objects_def less_Suc_eq_le)

lemma page_objects_in_page: "a \<in> set (page_objects c pg) \<Longrightarrow> in_page pg a"
  using object_in_page object_extent(1) by blast

end
