(* ===== verification/Slab_Alloc.thy ===== *)
theory Slab_Alloc
  imports Slab_Correct
begin

section \<open>Allocation from a cache of small objects\<close>

text \<open>
  Allocation with the growth of an empty cache, for caches whose pages are linked through
  their own first word, and the call that the other caches make for their nodes.
\<close>

subsection \<open>Allocation with growth\<close>

lemma grow_small:
  assumes body: "slab_body C s P N F A" and c: "c \<in> C" "small c" and F: "F c = []"
    and ne: "free_mem (km s) \<noteq> {}"
  obtains pg t fs where "alloc_small_object_pool me c (Suc n) s = alloc_small_object_pool me c n t"
    "slab_body C t (P(c := pg # P c)) N (F(c := fs)) A" "fs \<noteq> []"
    "new_pages (km s) [pg] (km t)" "\<And>d. d \<noteq> c \<Longrightarrow> caches t d = caches s d"
    "cache_lock (caches t c) = cache_lock (caches s c)" "same_outside [pg] (word_at s) (word_at t)"
proof -
  have k: "cache_ok (word_at s) c (caches s c) (P c) (N c) []" using slab_bodyD(2) [OF body c(1)] F by simp
  let ?f = "faptr c (P c)"
  have f: "head (caches s c) = hd (P c)" "unitsz (caches s c) = usz c" "word_at s ?f = 0" "?f = hd (P c) + usz c"
    using k c(2) by (auto simp: cache_ok_def faptr_def slot0_def)
  obtain pg km' h where i: "init_small_object_pool me (usz c) 1 s = Done pg (s\<lparr>km := km', word_at := h\<rparr>)"
    and g: "kmem_ok km'" "page_addr (km s) pg" "kend km' = kend (km s)" "pg div PGSIZE \<in> free_mem (km s)"
    "free_mem km' = free_mem (km s) - {pg div PGSIZE}" and l: "lseg h (faptr c [pg]) (page_objects c pg) 0"
    and out: "same_outside [pg] (word_at s) h" and rc: "\<And>f. f \<noteq> pg div PGSIZE \<Longrightarrow> ref_cnt km' f = ref_cnt (km s) f"
    using init_small_one [OF slab_bodyD(1) [OF body] ne c(2), of me] by metis
  define t where "t = poke (pg + slotn c * usz c) ?f
    (upd_cache c (\<lambda>k. k\<lparr>head := pg\<rparr>) (poke pg (hd (P c)) (s\<lparr>km := km', word_at := h\<rparr>)))"
  have st: "alloc_small_object_pool me c (Suc n) s = alloc_small_object_pool me c n t"
    using f i by (subst alloc_small_object_pool.simps) (simp add: Let_def t_def cache_geometry(5))
  have pg0: "pg \<notin> set (page_objects c pg)"
    using c(2) usz_pos [of c] by (auto simp: page_objects_def set_slots slot0_def)
  then have nl: "pg \<noteq> pg + slotn c * usz c" using page_objects_last [of c pg] by (metis last_in_set)
  have wt: "word_at t = h(pg := hd (P c), last (page_objects c pg) := ?f)" by (simp add: t_def page_objects_last(1))
  have lp: "in_page pg (last (page_objects c pg))"
    by (rule page_objects_in_page [OF last_in_set [OF page_objects_last(2)]])
  have "lseg (word_at t) (faptr c [pg]) (page_objects c pg) ?f"
    unfolding wt using page_objects_last(2) page_objects_hd(2) lseg_set_outside [OF pg0] l by (intro lseg_set_last) auto
  moreover have wo: "word_at t a = word_at s a" if "\<not> in_page pg a" for a
    using that out lp by (auto simp: wt same_outside_def)
  moreover have "word_at t pg = hd (P c)" using nl by (simp add: wt page_objects_last(1))
  moreover have np: "new_pages (km s) [pg] (km t)" using g rc by (simp add: new_pages_def t_def)
  ultimately have "slab_body C t (P(c := pg # P c)) (N(c := [] @ N c)) (F(c := tl (page_objects c pg) @ [?f])) A"
    using g c(2) np slab_bodyD(5) [OF body] by (intro add_page [OF body c(1) F np]) (auto simp: t_def)
  then have "slab_body C t (P(c := pg # P c)) N (F(c := tl (page_objects c pg) @ [?f])) A" by simp
  moreover have "same_outside [pg] (word_at s) (word_at t)" using wo by (simp add: same_outside_def)
  ultimately show ?thesis using that [OF st] np by (simp add: t_def)
qed

definition alloc_post ::
  "cname set \<Rightarrow> cname \<Rightarrow> slab \<Rightarrow> (cname \<Rightarrow> nat list) \<Rightarrow> (cname \<Rightarrow> nat list) \<Rightarrow> (cname \<Rightarrow> nat list) \<Rightarrow>
   (cname \<Rightarrow> nat set) \<Rightarrow> nat list \<Rightarrow> nat \<Rightarrow> slab \<Rightarrow> bool" where
  "alloc_post C c s P N F A ps a t \<longleftrightarrow>
     (\<exists>fs. slab_body C t (P(c := ps @ P c)) N (F(c := fs)) (A(c := insert a (A c)))) \<and> a \<notin> A c \<and> a \<noteq> 0 \<and>
     new_pages (km s) ps (km t) \<and> length ps \<le> 1 \<and> cache_lock (caches t c) = initlock \<and>
     alloc_frame c s (word_at s) (ps @ P c) (A c) t"

lemma alloc_small_ok:
  assumes body: "slab_body C s P N F A" and c: "c \<in> C" "small c"
    and held: "held_by me (cache_lock (caches s c))" and mem: "free_mem (km s) \<noteq> {}"
  shows "\<exists>ps a t. alloc_small_object_pool me c GROW s = Done a t \<and> alloc_post C c s P N F A ps a t"
proof (cases "F c")
  case (Cons a fs)
  obtain t where t: "alloc_small_object_pool me c GROW s = Done a t"
    "slab_body C t P N (F(c := fs)) (A(c := insert a (A c)))" "a \<notin> A c" "a \<noteq> 0" "km t = km s"
    "cache_lock (caches t c) = initlock" "alloc_frame c s (word_at s) (P c) (A c) t"
    using alloc_small_take [OF body c Cons held, of GROW] by blast
  have "alloc_post C c s P N F A [] a t"
    unfolding alloc_post_def using t new_pages_refl [OF slab_bodyD(1) [OF body]] by auto
  then show ?thesis using t(1) by blast
next
  case Nil
  obtain pg u fs where u: "alloc_small_object_pool me c (Suc 0) s = alloc_small_object_pool me c 0 u"
    "slab_body C u (P(c := pg # P c)) N (F(c := fs)) A" "fs \<noteq> []" "new_pages (km s) [pg] (km u)"
    "\<And>d. d \<noteq> c \<Longrightarrow> caches u d = caches s d" "cache_lock (caches u c) = cache_lock (caches s c)"
    "same_outside [pg] (word_at s) (word_at u)"
    using grow_small [OF body c Nil mem, where n = 0 and me = me] by metis
  obtain a gs where fs: "fs = a # gs" using u(3) by (cases fs) auto
  obtain t where t: "alloc_small_object_pool me c 0 u = Done a t"
    "slab_body C t (P(c := pg # P c)) N ((F(c := fs))(c := gs)) (A(c := insert a (A c)))" "a \<notin> A c" "a \<noteq> 0"
    "km t = km u" "cache_lock (caches t c) = initlock"
    "alloc_frame c u (word_at u) ((P(c := pg # P c)) c) (A c) t"
    using alloc_small_take [OF u(2) c, of a gs me 0] fs held u(6) by auto
  have "\<not> in_page pg x" if b: "b \<in> A c" "x \<in> extent c b" for b x
  proof
    assume "in_page pg x"
    moreover have "b \<in> set (objects c (P c))" using slab_bodyD(6) [OF body c(1)] b(1) by blast
    then obtain q where "q \<in> set (P c)" "in_page q x" using objects_pageE object_in_page [OF _ b(2)] by metis
    ultimately have "pg \<in> set (P c)"
      using in_page_unique [of "km s" pg q x] u(4) slab_bodyD(4) [OF body c(1)] by (auto simp: new_pages_def)
    then show False using u(4) slab_bodyD(5) [OF body c(1)] by (auto simp: new_pages_def)
  qed
  then have "alloc_frame c s (word_at s) (pg # P c) (A c) t"
    using t(7) u(5,7) by (auto simp: alloc_frame_def same_outside_def)
  then have "alloc_post C c s P N F A [pg] a t"
    unfolding alloc_post_def using t u(4) by auto
  then show ?thesis using u(1) t(1) by (auto simp: GROW_def)
qed


text \<open>Changes that touch no word of a cache.\<close>

lemma slab_body_frame:
  assumes body: "slab_body C s P N F A" and np: "new_pages (km s) ps (km t)"
    and w: "\<And>d x. d \<in> C \<Longrightarrow> x \<in> foot d (P d) (N d) (F d) \<Longrightarrow> word_at t x = word_at s x"
    and k: "\<And>d. d \<in> C \<Longrightarrow> cache_size (caches t d) = cache_size (caches s d) \<and>
      unitsz (caches t d) = unitsz (caches s d) \<and> head (caches t d) = head (caches s d)"
  shows "slab_body C t P N F A"
proof -
  have "cache_ok (word_at t) d (caches t d) (P d) (N d) (F d)" if "d \<in> C" for d
  proof -
    have "cache_ok (word_at t) d (caches s d) (P d) (N d) (F d)"
      by (rule cache_ok_cong [OF slab_bodyD(2) [OF body that]]) (rule w [OF that])
    then show ?thesis using k [OF that] by (simp add: cache_ok_def)
  qed
  moreover have "page_addr (km t) p = page_addr (km s) p" for p
    using np page_addr_kend [of "km t" "km s" p] by (simp only: new_pages_def)
  moreover have "f \<notin> free_mem (km t)" if "f \<notin> free_mem (km s)" for f using np that by (simp add: new_pages_def)
  moreover have "kmem_ok (km t)" using np by (simp add: new_pages_def)
  ultimately show ?thesis using body unfolding slab_body_def by simp
qed

lemma slab_body_lock:
  "slab_body C s P N F A \<Longrightarrow> slab_body C (upd_cache c (\<lambda>k. k\<lparr>cache_lock := l\<rparr>) s) P N F A"
  by (rule slab_body_frame [of C s P N F A "[]"]) (auto intro!: new_pages_refl dest: slab_bodyD(1))

lemma acquire_cache_unheld:
  "unheld (cache_lock (caches s c)) \<Longrightarrow>
   acquire_cache me c s = Done () (upd_cache c (\<lambda>k. k\<lparr>cache_lock := \<lparr>locked = 1, cpu = Some me\<rparr>\<rparr>) s)"
  by (simp add: acquire_cache_def)

lemma held_by_me: "held_by me \<lparr>locked = 1, cpu = Some me\<rparr>"
  by (simp add: held_by_def)

lemma alloc_post_lock:
  assumes "alloc_post C c (upd_cache c f s) P N F A ps a t"
  shows "alloc_post C c s P N F A ps a t"
  using assms by (simp add: alloc_post_def alloc_frame_def)

lemma small_alloc_call:
  assumes body: "slab_body C s P N F A" and c: "c \<in> C" "small c"
    and un: "unheld (cache_lock (caches s c))" and mem: "free_mem (km s) \<noteq> {}"
  shows "\<exists>ps a t. kmem_cache_alloc me c s = Done a t \<and> alloc_post C c s P N F A ps a t"
    and "c = G16 \<Longrightarrow> kmem_cache_alloc_16 me s = kmem_cache_alloc me c s"
proof -
  let ?s = "upd_cache c (\<lambda>k. k\<lparr>cache_lock := \<lparr>locked = 1, cpu = Some me\<rparr>\<rparr>) s"
  have sz: "\<not> 16 < cache_size (caches s c)"
    using slab_bodyD(2) [OF body c(1)] cache_geometry(2) [of c] c(2) by (simp add: cache_ok_def)
  obtain ps a t where t: "alloc_small_object_pool me c GROW ?s = Done a t" "alloc_post C c ?s P N F A ps a t"
    using alloc_small_ok [OF slab_body_lock [OF body] c, of me c "\<lparr>locked = 1, cpu = Some me\<rparr>"] held_by_me mem by auto
  show "\<exists>ps a t. kmem_cache_alloc me c s = Done a t \<and> alloc_post C c s P N F A ps a t"
    using un sz t(1) alloc_post_lock [OF t(2)] by (auto simp: kmem_cache_alloc_def acquire_cache_unheld)
  show "kmem_cache_alloc_16 me s = kmem_cache_alloc me c s" if "c = G16"
    using un sz that by (simp add: kmem_cache_alloc_def kmem_cache_alloc_16_def acquire_cache_unheld)
qed

lemma alloc16_ok:
  assumes "slab_body C s P N F A" "G16 \<in> C" "unheld (cache_lock (caches s G16))" "free_mem (km s) \<noteq> {}"
  shows "\<exists>ps a t. kmem_cache_alloc_16 me s = Done a t \<and> alloc_post C G16 s P N F A ps a t"
  using small_alloc_call [OF assms(1,2) _ assms(3,4)] by (simp add: small_def)

end
