(* ===== verification/Slab_Init.thy ===== *)
theory Slab_Init
  imports Slab_Alloc
begin

section \<open>Caches of large objects\<close>

text \<open>
  Building the pages of a cache whose pages have nodes in the 16-byte cache, growing such a
  cache, and creating caches.
\<close>

lemma object_pos:
  assumes body: "slab_body C s P N F A" and c: "c \<in> C" and a: "a \<in> set (objects c (P c))"
  shows "0 < a"
proof -
  obtain q where q: "q \<in> set (P c)" "in_page q a" using objects_pageE [OF a] page_objects_in_page by metis
  then show ?thesis
    using page_pos [OF slab_bodyD(1) [OF body] slab_bodyD(4) [OF body c q(1)]] by (simp add: in_page_def)
qed

text \<open>Words outside \<open>Q\<close> and those of the objects \<open>B\<close> of the 16-byte cache are the same.\<close>

definition kept :: "slab \<Rightarrow> slab \<Rightarrow> nat set \<Rightarrow> nat set \<Rightarrow> bool" where
  "kept s t Q B \<longleftrightarrow> (\<forall>x. (\<forall>p\<in>Q. \<not> in_page p x) \<or> (\<exists>b\<in>B. x \<in> extent G16 b) \<longrightarrow> word_at t x = word_at s x)"

lemma keptD: "kept s t Q B \<Longrightarrow> (\<And>p. p \<in> Q \<Longrightarrow> \<not> in_page p x) \<Longrightarrow> word_at t x = word_at s x"
  "kept s t Q B \<Longrightarrow> b \<in> B \<Longrightarrow> x \<in> extent G16 b \<Longrightarrow> word_at t x = word_at s x"
  by (auto simp: kept_def)

lemma kept_trans:
  assumes st: "kept s t Q B" and tu: "kept t u Q' B'" and R: "Q \<union> Q' \<subseteq> R" and D: "D \<subseteq> B \<inter> B'"
  shows "kept s u R D"
  unfolding kept_def
proof (intro allI impI)
  fix x assume "(\<forall>p\<in>R. \<not> in_page p x) \<or> (\<exists>b\<in>D. x \<in> extent G16 b)"
  then have "word_at u x = word_at t x" "word_at t x = word_at s x"
    using keptD(1) [OF st, of x] keptD(2) [OF st, of _ x] keptD(1) [OF tu, of x] keptD(2) [OF tu, of _ x] R D
    by blast+
  then show "word_at u x = word_at s x" by simp
qed

text \<open>The pages that a cache is built from: allocated, but not yet in a cache.\<close>

definition loose_page :: "cname set \<Rightarrow> slab \<Rightarrow> (cname \<Rightarrow> nat list) \<Rightarrow> nat \<Rightarrow> bool" where
  "loose_page C s P pg \<longleftrightarrow> page_addr (km s) pg \<and> pg div PGSIZE \<notin> free_mem (km s) \<and> (\<forall>d\<in>C. pg \<notin> set (P d))"

definition loose_node :: "cname set \<Rightarrow> (cname \<Rightarrow> nat list) \<Rightarrow> (cname \<Rightarrow> nat set) \<Rightarrow> nat \<Rightarrow> bool" where
  "loose_node C N A n \<longleftrightarrow> n \<in> A G16 \<and> (\<forall>d\<in>C. n \<notin> set (N d))"

lemma loose_write:
  assumes body: "slab_body C s P N F A" and G: "G16 \<in> C" and pg: "loose_page C s P pg" and n: "loose_node C N A n"
    and w: "\<And>x. \<not> in_page pg x \<Longrightarrow> x \<notin> extent G16 n \<Longrightarrow> word_at t x = word_at s x"
    and t: "km t = km s" "caches t = caches s"
  shows "slab_body C t P N F A"
proof (rule slab_body_frame [OF body])
  show "new_pages (km s) [] (km t)" using new_pages_refl [OF slab_bodyD(1) [OF body]] t(1) by simp
  fix d x assume d: "d \<in> C" "x \<in> foot d (P d) (N d) (F d)"
  show "word_at t x = word_at s x"
  proof (rule w)
    show "\<not> in_page pg x" using foot_pages [OF body d] pg by (auto simp: loose_page_def)
    show "x \<notin> extent G16 n" using in_use_foot [OF body G _ _ d(1)] n d(2) by (auto simp: loose_node_def)
  qed
qed (use t in simp)

lemma in_use_page:
  assumes body: "slab_body C s P N F A" and G: "G16 \<in> C" and b: "b \<in> A G16" "x \<in> extent G16 b"
    and pg: "page_addr (km s) pg" "pg \<notin> set (P G16)"
  shows "\<not> in_page pg x"
proof
  assume xp: "in_page pg x"
  have "b \<in> set (objects G16 (P G16))" using slab_bodyD(6) [OF body G] b(1) by blast
  then obtain q where q: "q \<in> set (P G16)" "in_page q x" using objects_pageE object_in_page [OF _ b(2)] by metis
  then show False using in_page_unique [OF slab_bodyD(4) [OF body G q(1)] pg(1) q(2) xp] pg(2) by simp
qed

lemma loose_write_kept:
  assumes body: "slab_body C s P N F A" and G: "G16 \<in> C" and pg: "loose_page C s P pg" and n: "loose_node C N A n"
    and w: "\<And>x. \<not> in_page pg x \<Longrightarrow> x \<notin> extent G16 n \<Longrightarrow> word_at t x = word_at s x"
  shows "kept s t (insert pg (set (P G16))) (A G16 - {n})"
  unfolding kept_def
proof (intro allI impI)
  have pgG: "page_addr (km s) pg" "pg \<notin> set (P G16)" using pg G by (auto simp: loose_page_def)
  have no: "n \<in> set (objects G16 (P G16))" using n slab_bodyD(6) [OF body G] by (auto simp: loose_node_def)
  then obtain q where q: "q \<in> set (P G16)" "n \<in> set (page_objects G16 q)" using objects_pageE by metis
  fix x assume x: "(\<forall>p\<in>insert pg (set (P G16)). \<not> in_page p x) \<or> (\<exists>b\<in>A G16 - {n}. x \<in> extent G16 b)"
  then show "word_at t x = word_at s x"
  proof
    assume "\<forall>p\<in>insert pg (set (P G16)). \<not> in_page p x"
    then show ?thesis using object_in_page [OF q(2)] q(1) by (intro w) blast+
  next
    assume "\<exists>b\<in>A G16 - {n}. x \<in> extent G16 b"
    then obtain b where b: "b \<in> A G16" "b \<noteq> n" "x \<in> extent G16 b" by blast
    then have "b \<in> set (objects G16 (P G16))" using slab_bodyD(6) [OF body G] by blast
    then have "x \<notin> extent G16 n" using extents_disjoint [OF body G G _ no b(3)] b(2) by blast
    then show ?thesis using in_use_page [OF body G b(1,3) pgG] by (intro w)
  qed
qed

lemma kalloc_body:
  assumes body: "slab_body C s P N F A" and G: "G16 \<in> C" and ne: "free_mem (km s) \<noteq> {}"
  obtains pg t where "pm_kalloc me s = Done pg t" "slab_body C t P N F A" "loose_page C t P pg"
    "new_pages (km s) [pg] (km t)" "caches t = caches s" "kept s t {pg} (A G16)"
proof -
  obtain pg k where a: "pm_kalloc me s = Done pg (s\<lparr>km := k, word_at := fill_words pg 0 (word_at s)\<rparr>)"
    and k: "kmem_ok k" "page_addr (km s) pg" "kend k = kend (km s)" "pg div PGSIZE \<in> free_mem (km s)"
    "free_mem k = free_mem (km s) - {pg div PGSIZE}" "ref_cnt k = (ref_cnt (km s))(pg div PGSIZE := 1)"
    using pm_kalloc_ok [OF slab_bodyD(1) [OF body] ne, of me] by metis
  let ?t = "s\<lparr>km := k, word_at := fill_words pg 0 (word_at s)\<rparr>"
  have np: "new_pages (km s) [pg] (km ?t)" using k by (simp add: new_pages_def)
  have pgP: "pg \<notin> set (P d)" if "d \<in> C" for d using slab_bodyD(5) [OF body that] k(4) by blast
  have "slab_body C ?t P N F A"
    by (rule slab_body_frame [OF body np]) (use foot_pages [OF body _ _ k(2)] pgP in auto)
  moreover have "loose_page C ?t P pg" using k pgP by (simp add: loose_page_def page_addr_def)
  moreover have "kept s ?t {pg} (A G16)"
    using in_use_page [OF body G _ _ k(2)] pgP [OF G] by (auto simp: kept_def)
  ultimately show ?thesis using that [OF a _ _ np] by simp
qed


subsection \<open>Building the pages of a cache of large objects\<close>

lemma new_pages_trans:
  assumes "new_pages k ps k'" "new_pages k' qs k''" shows "new_pages k (ps @ qs) k''"
proof -
  have "page_addr k' p = page_addr k p" for p
    using page_addr_kend [of k' k p] assms(1) by (simp only: new_pages_def)
  then show ?thesis using assms by (auto simp: new_pages_def image_Un)
qed

lemma new_pages_card:
  assumes "new_pages k ps k'" "0 < card (free_mem k)" shows "card (free_mem k') = card (free_mem k) - length ps"
proof -
  have fin: "finite (free_mem k)" using assms(2) by (metis card.infinite not_less_zero)
  have "inj_on (\<lambda>p. p div PGSIZE) (set ps)"
    using assms(1) page_addr_frame_inj by (auto simp: new_pages_def inj_on_def)
  moreover have "(\<lambda>p. p div PGSIZE) ` set ps \<subseteq> free_mem k" using assms(1) by (auto simp: new_pages_def)
  ultimately show ?thesis
    using fin assms(1) by (simp add: new_pages_def card_Diff_subset finite_subset card_image distinct_card)
qed

lemma large_links:
  assumes "\<not> small c"
  shows "page_links ((\<lambda>a. if a \<in> set (slots (usz c) 0 (slotn c) pg) then a + usz c else h a)(pg + slotn c * usz c := q))
    (usz c) 0 (slotn c) pg q"
  by (auto simp: page_links_def set_slots)


definition linked_page :: "cname \<Rightarrow> (nat \<Rightarrow> nat) \<Rightarrow> nat \<Rightarrow> nat \<Rightarrow> nat \<Rightarrow> nat" where
  "linked_page c h pg q = (\<lambda>a. if a \<in> set (slots (usz c) 0 (slotn c) pg) then a + usz c else h a)(pg + slotn c * usz c := q)"

lemma linked_page_out: "\<not> in_page pg x \<Longrightarrow> linked_page c h pg q x = h x"
  using slot_in_page [of _ "Suc (slotn c)" "usz c" pg, OF _ cache_geometry(4)]
  by (auto simp: linked_page_def set_slots)

lemma linked_page_lseg:
  assumes "\<not> small c" "0 < pg" "\<And>x. in_page pg x \<Longrightarrow> h' x = linked_page c h pg q x"
  shows "lseg h' (faptr c [pg]) (page_objects c pg) q"
proof -
  have "lseg (linked_page c h pg q) (pg + 0 * usz c) (slots (usz c) 0 (Suc (slotn c)) pg) q"
    using page_links_lseg [OF large_links [OF assms(1)] assms(2), of 0 h q] by (simp add: linked_page_def)
  then have "lseg (linked_page c h pg q) (faptr c [pg]) (page_objects c pg) q"
    using assms(1) by (simp add: faptr_def page_objects_def slot0_def)
  then show ?thesis
    using lseg_cong [of "page_objects c pg" "linked_page c h pg q" h'] assms(3) page_objects_in_page by metis
qed

text \<open>One round of the loop: a page linked to a new one, with a new node.\<close>

lemma large_round:
  assumes body: "slab_body C s P N F A" and G: "G16 \<in> C" and un: "unheld (cache_lock (caches s G16))"
    and c: "\<not> small c" and mem: "2 \<le> card (free_mem (km s))"
    and pg: "loose_page C s P pg" and nd: "loose_node C N A node"
  obtains u newpg newnode qs fs where
    "large_pages (kmem_cache_alloc_16 me) me (usz c) (slotn c) (Suc n) pg node s =
      large_pages (kmem_cache_alloc_16 me) me (usz c) (slotn c) n newpg newnode u"
    "slab_body C u (P(G16 := qs @ P G16)) N (F(G16 := fs)) (A(G16 := insert newnode (A G16)))"
    "newnode \<notin> A G16" "new_pages (km s) (newpg # qs) (km u)" "length qs \<le> 1"
    "loose_page C u (P(G16 := qs @ P G16)) newpg" "loose_node C N (A(G16 := insert newnode (A G16))) newnode"
    "word_at u newnode = newpg" "word_at u node = pg" "word_at u (node + 8) = newnode"
    "\<And>x. in_page pg x \<Longrightarrow> word_at u x = linked_page c (word_at s) pg newpg x"
    "unheld (cache_lock (caches u G16))" "\<And>d. d \<noteq> G16 \<Longrightarrow> caches u d = caches s d"
    "kept s u (set (pg # newpg # qs @ P G16)) (A G16 - {node})"
proof -
  have pgG: "page_addr (km s) pg" "pg \<notin> set (P G16)" using pg G by (auto simp: loose_page_def)
  have nA: "node \<in> A G16" using nd by (simp add: loose_node_def)
  have np: "\<not> in_page pg node" "\<not> in_page pg (node + 8)"
    using in_use_page [OF body G nA _ pgG] object_extent(2,3) by blast+
  have last_in: "in_page pg (pg + slotn c * usz c)" using slot_in_page [OF _ cache_geometry(4)] by simp
  define s1 where "s1 = poke node pg (link_slots pg (usz c) 0 (slotn c) s)"
  have w1: "word_at s1 x = word_at s x" if "\<not> in_page pg x" "x \<notin> extent G16 node" for x
    using that object_extent(2) [of node] slot_in_page [of _ "Suc (slotn c)" "usz c" pg, OF _ cache_geometry(4)]
    by (auto simp: s1_def link_slots_eq set_slots)
  have e1: "km s1 = km s" "caches s1 = caches s" by (simp_all add: s1_def link_slots_eq)
  have b1: "slab_body C s1 P N F A" by (rule loose_write [OF body G pg nd w1 e1])
  have "free_mem (km s1) \<noteq> {}" using mem e1 by auto
  then obtain newpg s2 where s2: "pm_kalloc me s1 = Done newpg s2" "slab_body C s2 P N F A" "loose_page C s2 P newpg"
    "new_pages (km s1) [newpg] (km s2)" "caches s2 = caches s1" "kept s1 s2 {newpg} (A G16)"
    using kalloc_body [OF b1 G, of me] by metis
  have "card (free_mem (km s2)) = card (free_mem (km s)) - 1"
    using new_pages_card [OF s2(4)] mem e1 by simp
  then have "free_mem (km s2) \<noteq> {}" using mem by auto
  then obtain qs newnode s3 where a: "kmem_cache_alloc_16 me s2 = Done newnode s3"
    "alloc_post C G16 s2 P N F A qs newnode s3"
    using alloc16_ok [OF s2(2) G, of me] un s2(5) e1 by auto
  let ?P = "P(G16 := qs @ P G16)" and ?A = "A(G16 := insert newnode (A G16))"
  obtain fs where s3: "slab_body C s3 ?P N (F(G16 := fs)) ?A" "newnode \<notin> A G16" "new_pages (km s2) qs (km s3)"
    "length qs \<le> 1" "cache_lock (caches s3 G16) = initlock" "\<And>d. d \<noteq> G16 \<Longrightarrow> caches s3 d = caches s2 d"
    "kept s2 s3 (set (qs @ P G16)) (A G16)"
    using a(2) by (auto simp: alloc_post_def alloc_frame_def kept_def)
  have new3: "new_pages (km s) (newpg # qs) (km s3)" using new_pages_trans [OF s2(4) s3(3)] e1 by simp
  have pa: "page_addr (km s3) p = page_addr (km s) p" for p
    using page_addr_kend [of "km s3" "km s" p] new3 by (simp only: new_pages_def)
  have pg3: "loose_page C s3 ?P pg" and lp3: "loose_page C s3 ?P newpg"
    using pg s2(3) new3 s3(3) unfolding loose_page_def new_pages_def pa by auto
  have nn: "loose_node C N ?A newnode" and nd3: "loose_node C N ?A node"
    using nd s3(2) slab_bodyD(7) [OF body] by (auto simp: loose_node_def)
  define s4 where "s4 = poke newnode newpg s3"
  have w4: "word_at s4 x = word_at s3 x" if "\<not> in_page pg x" "x \<notin> extent G16 newnode" for x
    using that(2) object_extent(2) [of newnode] by (auto simp: s4_def)
  have e4: "km s4 = km s3" "caches s4 = caches s3" by (simp_all add: s4_def)
  have b4: "slab_body C s4 ?P N (F(G16 := fs)) ?A" by (rule loose_write [OF s3(1) G pg3 nn w4 e4])
  define u where "u = poke (pg + slotn c * usz c) newpg (poke (node + 8) newnode s4)"
  have wu: "word_at u x = word_at s4 x" if "\<not> in_page pg x" "x \<notin> extent G16 node" for x
    using that last_in object_extent(3) [of node] by (auto simp: u_def)
  have eu: "km u = km s4" "caches u = caches s4" by (simp_all add: u_def)
  have pg4: "loose_page C s4 ?P pg" using pg3 e4 by (simp add: loose_page_def)
  have bu: "slab_body C u ?P N (F(G16 := fs)) ?A" by (rule loose_write [OF b4 G pg4 nd3 wu eu])
  have eq: "large_pages (kmem_cache_alloc_16 me) me (usz c) (slotn c) (Suc n) pg node s =
      large_pages (kmem_cache_alloc_16 me) me (usz c) (slotn c) n newpg newnode u"
    using s2(1) a(1) by (simp add: Let_def u_def s4_def flip: s1_def)
  have pgP: "pg \<notin> set (qs @ P G16)" "newpg \<noteq> pg" using pg3 G pg s2(4) e1 by (auto simp: loose_page_def new_pages_def)
  have nnp: "\<not> in_page pg newnode"
    using in_use_page [OF s3(1) G, of newnode newnode pg] object_extent(1) pgP pgG(1) by (simp add: pa)
  have obj: "node \<in> set (objects G16 (?P G16))" "newnode \<in> set (objects G16 (?P G16))"
    using slab_bodyD(6) [OF s3(1) G] nA by auto
  have dis: "newnode \<notin> extent G16 node" "node \<notin> extent G16 newnode"
    using extents_disjoint [OF s3(1) G G obj, of newnode] extents_disjoint [OF s3(1) G G obj, of node]
      nA s3(2) object_extent(1) [of _ G16] by blast+
  have nw: "word_at u newnode = newpg"
    using wu [OF nnp dis(1)] by (simp add: s4_def)
  have nodew: "word_at s3 node = word_at s1 node"
    using keptD(2) [OF s2(6) nA object_extent(1)] keptD(2) [OF s3(7) nA object_extent(1)] by simp
  have "word_at s1 node = pg" by (simp add: s1_def)
  then have nodeu: "word_at u node = pg"
    using w4 [OF np(1) dis(2)] nodew last_in np(1) by (auto simp: u_def)
  have node8: "word_at u (node + 8) = newnode" using last_in np(2) by (auto simp: u_def)
  have links: "word_at u x = linked_page c (word_at s) pg newpg x" if x: "in_page pg x" for x
  proof -
    have no: "\<not> in_page p x" if "p \<in> set (newpg # qs @ P G16)" for p
    proof
      assume "in_page p x"
      moreover have "page_addr (km s) p"
        using that new3 slab_bodyD(4) [OF body G] by (auto simp: new_pages_def)
      ultimately have "p = pg" using in_page_unique [OF _ pgG(1) _ x] by blast
      then show False using that pgP by auto
    qed
    have "word_at s3 x = word_at s1 x"
      using keptD(1) [OF s2(6), of x] keptD(1) [OF s3(7), of x] no by auto
    moreover have "x \<noteq> node" "x \<noteq> node + 8" "x \<noteq> newnode" using np nnp x by blast+
    ultimately show ?thesis by (auto simp: u_def s4_def s1_def link_slots_eq linked_page_def)
  qed
  have kept: "kept s u (set (pg # newpg # qs @ P G16)) (A G16 - {node})"
  proof -
    have k1: "kept s s1 (insert pg (set (P G16))) (A G16 - {node})" by (rule loose_write_kept [OF body G pg nd w1])
    have k2: "kept s s2 (insert newpg (insert pg (set (P G16)))) (A G16 - {node})" by (rule kept_trans [OF k1 s2(6)]) auto
    have k3: "kept s s3 (set (pg # newpg # qs @ P G16)) (A G16 - {node})" by (rule kept_trans [OF k2 s3(7)]) auto
    have "kept s3 s4 (insert pg (set (?P G16))) (?A G16 - {newnode})" by (rule loose_write_kept [OF s3(1) G pg3 nn w4])
    then have k4: "kept s s4 (set (pg # newpg # qs @ P G16)) (A G16 - {node})"
      using s3(2) by (intro kept_trans [OF k3]) auto
    have "kept s4 u (insert pg (set (?P G16))) (?A G16 - {node})" by (rule loose_write_kept [OF b4 G pg4 nd3 wu])
    then show ?thesis by (intro kept_trans [OF k4]) auto
  qed
  have "loose_page C u ?P newpg" using lp3 eu e4 by (simp add: loose_page_def)
  moreover have "caches u d = caches s d" if "d \<noteq> G16" for d using eu e4 s3(6) [OF that] s2(5) e1 by simp
  moreover have "unheld (cache_lock (caches u G16))" using eu e4 s3(5) by simp
  moreover have "new_pages (km s) (newpg # qs) (km u)" using new3 eu e4 by simp
  ultimately show ?thesis
    using that [OF eq bu s3(2) _ s3(4) _ nn nw nodeu node8 links _ _ kept] by blast
qed

lemma large_pages_ok:
  assumes "slab_body C s P N F A" and G: "G16 \<in> C" and "unheld (cache_lock (caches s G16))" and c: "\<not> small c"
    and "2 * n \<le> card (free_mem (km s))" "loose_page C s P pg" "loose_node C N A node" "word_at s node = pg"
  shows "\<exists>t ps ns qs fs. large_pages (kmem_cache_alloc_16 me) me (usz c) (slotn c) n pg node s = Done () t \<and>
    slab_body C t (P(G16 := qs @ P G16)) N (F(G16 := fs)) (A(G16 := A G16 \<union> set ns)) \<and>
    new_pages (km s) (ps @ qs) (km t) \<and> length ps = n \<and> length qs \<le> n \<and> set ns \<inter> A G16 = {} \<and>
    lseg (\<lambda>x. word_at t (x + 8)) node (node # ns) 0 \<and> map (word_at t) (node # ns) = pg # ps \<and>
    lseg (word_at t) (faptr c [pg]) (objects c (pg # ps)) 0 \<and>
    unheld (cache_lock (caches t G16)) \<and> (\<forall>d. d \<noteq> G16 \<longrightarrow> caches t d = caches s d) \<and>
    kept s t (set (pg # ps @ qs @ P G16)) (A G16 - {node})"
  using assms(1,3,5-8)
proof (induction n arbitrary: s P F A pg node)
  case 0
  note body = 0(1) and pg = 0(4) and nd = 0(5)
  have pgG: "page_addr (km s) pg" "pg \<notin> set (P G16)" using pg G by (auto simp: loose_page_def)
  have nA: "node \<in> A G16" using nd by (simp add: loose_node_def)
  have pos: "0 < pg" by (rule page_pos [OF slab_bodyD(1) [OF body] pgG(1)])
  have npos: "0 < node" using object_pos [OF body G] slab_bodyD(6) [OF body G] nA by blast
  have np: "\<not> in_page pg node" "\<not> in_page pg (node + 8)"
    using in_use_page [OF body G nA _ pgG] object_extent(2,3) by blast+
  define t where "t = poke (pg + slotn c * usz c) 0 (poke (node + 8) 0 (link_slots pg (usz c) 0 (slotn c) s))"
  have last_in: "in_page pg (pg + slotn c * usz c)" using slot_in_page [OF _ cache_geometry(4)] by simp
  have wt: "word_at t = (linked_page c (word_at s) pg 0)(node + 8 := 0)"
    using np last_in by (auto simp: t_def link_slots_eq linked_page_def fun_eq_iff)
  have st: "km t = km s" "caches t = caches s" by (simp_all add: t_def link_slots_eq)
  have w: "word_at t x = word_at s x" if "\<not> in_page pg x" "x \<notin> extent G16 node" for x
    using that object_extent(3) [of node] linked_page_out [OF that(1)] by (auto simp: wt)
  have lp: "word_at t x = linked_page c (word_at s) pg 0 x" if "in_page pg x" for x
    using that np(2) by (auto simp: wt)
  have "slab_body C t P N F A" by (rule loose_write [OF body G pg nd w st])
  moreover have "lseg (word_at t) (faptr c [pg]) (objects c [pg]) 0"
    using linked_page_lseg [OF c pos lp] by (simp add: objects_def)
  moreover have "word_at t node = pg" using 0(6) linked_page_out [OF np(1)] by (simp add: wt)
  moreover have "word_at t (node + 8) = 0" by (simp add: wt)
  moreover have "kept s t (insert pg (set (P G16))) (A G16 - {node})" by (rule loose_write_kept [OF body G pg nd w])
  moreover have "new_pages (km s) [] (km t)" using new_pages_refl [OF slab_bodyD(1) [OF body]] st by simp
  moreover have "large_pages (kmem_cache_alloc_16 me) me (usz c) (slotn c) 0 pg node s = Done () t"
    by (simp add: t_def Let_def)
  ultimately show ?case
    using st 0(2) npos
    by (intro exI [of _ t] exI [of _ "[]"] exI [of _ "F G16"]) simp
next
  case (Suc n)
  have m2: "2 \<le> card (free_mem (km s))" using Suc.prems(3) by simp
  obtain u newpg newnode qs fs where
    u: "large_pages (kmem_cache_alloc_16 me) me (usz c) (slotn c) (Suc n) pg node s =
      large_pages (kmem_cache_alloc_16 me) me (usz c) (slotn c) n newpg newnode u"
    "slab_body C u (P(G16 := qs @ P G16)) N (F(G16 := fs)) (A(G16 := insert newnode (A G16)))"
    "newnode \<notin> A G16" "new_pages (km s) (newpg # qs) (km u)" "length qs \<le> 1"
    "loose_page C u (P(G16 := qs @ P G16)) newpg" "loose_node C N (A(G16 := insert newnode (A G16))) newnode"
    "word_at u newnode = newpg" "word_at u node = pg" "word_at u (node + 8) = newnode"
    "\<And>x. in_page pg x \<Longrightarrow> word_at u x = linked_page c (word_at s) pg newpg x"
    "unheld (cache_lock (caches u G16))" "\<And>d. d \<noteq> G16 \<Longrightarrow> caches u d = caches s d"
    "kept s u (set (pg # newpg # qs @ P G16)) (A G16 - {node})"
    by (rule large_round [where me = me and n = n, OF Suc.prems(1) G Suc.prems(2) c m2 Suc.prems(4,5)]) (rule that)
  have "2 * n \<le> card (free_mem (km u))"
    using new_pages_card [OF u(4)] u(5) Suc.prems(3) m2 by simp
  note ih = Suc.IH [OF u(2) u(12) this u(6,7,8), unfolded fun_upd_same fun_upd_upd]
  obtain t ps ns qs' fs' where t: "large_pages (kmem_cache_alloc_16 me) me (usz c) (slotn c) n newpg newnode u = Done () t"
    "slab_body C t (P(G16 := qs' @ qs @ P G16)) N (F(G16 := fs')) (A(G16 := insert newnode (A G16) \<union> set ns))"
    "new_pages (km u) (ps @ qs') (km t)" "length ps = n" "length qs' \<le> n" "set ns \<inter> insert newnode (A G16) = {}"
    "lseg (\<lambda>x. word_at t (x + 8)) newnode (newnode # ns) 0" "map (word_at t) (newnode # ns) = newpg # ps"
    "lseg (word_at t) (faptr c [newpg]) (objects c (newpg # ps)) 0"
    "unheld (cache_lock (caches t G16))" "\<forall>d. d \<noteq> G16 \<longrightarrow> caches t d = caches u d"
    "kept u t (set (newpg # ps @ qs' @ qs @ P G16)) (insert newnode (A G16) - {newnode})"
    using ih by (elim exE conjE) (rule that)
  have np: "new_pages (km s) ((newpg # qs) @ ps @ qs') (km t)" using new_pages_trans [OF u(4) t(3)] .
  then have np': "new_pages (km s) ((newpg # ps) @ (qs' @ qs)) (km t)" by (auto simp: new_pages_def)
  note body = Suc.prems(1)
  have pgG: "page_addr (km s) pg" "pg \<notin> set (P G16)" "pg div PGSIZE \<notin> free_mem (km s)"
    using Suc.prems(4) G by (auto simp: loose_page_def)
  have nA: "node \<in> A G16" using Suc.prems(5) by (simp add: loose_node_def)
  have pos: "0 < pg" by (rule page_pos [OF slab_bodyD(1) [OF body] pgG(1)])
  have npos: "0 < node" using object_pos [OF body G] slab_bodyD(6) [OF body G] nA by blast
  have "word_at t x = word_at u x" if x: "in_page pg x" for x
  proof (rule keptD(1) [OF t(12)], rule notI)
    fix p assume p: "p \<in> set (newpg # ps @ qs' @ qs @ P G16)" "in_page p x"
    then have "page_addr (km s) p" using np slab_bodyD(4) [OF body G] by (auto simp: new_pages_def)
    then have "p = pg" using in_page_unique [OF _ pgG(1) p(2) x] by blast
    then show False using p(1) np pgG by (auto simp: new_pages_def)
  qed
  then have "lseg (word_at t) (faptr c [pg]) (page_objects c pg) newpg"
    using u(11) by (intro linked_page_lseg [OF c pos]) auto
  moreover have "faptr c [newpg] = newpg" using c by (simp add: faptr_def slot0_def)
  ultimately have objs: "lseg (word_at t) (faptr c [pg]) (objects c (pg # newpg # ps)) 0"
    using t(9) by (auto simp: objects_Cons [of c pg] lseg_append)
  have "word_at t node = pg" "word_at t (node + 8) = newnode"
    using keptD(2) [OF t(12), of node] nA u(3,9,10) object_extent(2,3) [of node] by auto
  then have nodes: "lseg (\<lambda>x. word_at t (x + 8)) node (node # newnode # ns) 0"
    "map (word_at t) (node # newnode # ns) = pg # newpg # ps"
    using t(7,8) npos by simp_all
  have "kept s t (set (pg # (newpg # ps) @ (qs' @ qs) @ P G16)) (A G16 - {node})"
    using u(3) by (intro kept_trans [OF u(14) t(12)]) auto
  moreover have "slab_body C t (P(G16 := (qs' @ qs) @ P G16)) N (F(G16 := fs')) (A(G16 := A G16 \<union> set (newnode # ns)))"
    using t(2) by simp
  moreover have "set (newnode # ns) \<inter> A G16 = {}" using t(6) u(3) by auto
  moreover have "\<forall>d. d \<noteq> G16 \<longrightarrow> caches t d = caches s d" using t(11) u(13) by simp
  moreover have "length (newpg # ps) = Suc n" "length (qs' @ qs) \<le> Suc n" using t(4,5) u(5) by simp_all
  ultimately show ?case using u(1) t(1,10) np' nodes objs by metis
qed


lemma init_large_ok:
  assumes body: "slab_body C s P N F A" and G: "G16 \<in> C" and un: "unheld (cache_lock (caches s G16))"
    and c: "\<not> small c" and mem: "2 * Suc n \<le> card (free_mem (km s))" and n: "n < 65535"
  shows "\<exists>node t ps ns qs fs.
    init_large_object_pool (kmem_cache_alloc_16 me) me (usz c) (Suc n) s = Done node t \<and>
    slab_body C t (P(G16 := qs @ P G16)) N (F(G16 := fs)) (A(G16 := A G16 \<union> set (node # ns))) \<and>
    new_pages (km s) (ps @ qs) (km t) \<and> length ps = Suc n \<and> length qs \<le> Suc n \<and> set (node # ns) \<inter> A G16 = {} \<and>
    lseg (\<lambda>x. word_at t (x + 8)) node (node # ns) 0 \<and> map (word_at t) (node # ns) = ps \<and>
    lseg (word_at t) (faptr c ps) (objects c ps) 0 \<and>
    unheld (cache_lock (caches t G16)) \<and> (\<forall>d. d \<noteq> G16 \<longrightarrow> caches t d = caches s d) \<and>
    kept s t (set (ps @ qs @ P G16)) (A G16)"
proof -
  have "free_mem (km s) \<noteq> {}" using mem by auto
  then obtain qs node s1 where a: "kmem_cache_alloc_16 me s = Done node s1" "alloc_post C G16 s P N F A qs node s1"
    using alloc16_ok [OF body G un, of me] by auto
  let ?P = "P(G16 := qs @ P G16)" and ?A = "A(G16 := insert node (A G16))"
  obtain fs where s1: "slab_body C s1 ?P N (F(G16 := fs)) ?A" "node \<notin> A G16" "new_pages (km s) qs (km s1)"
    "length qs \<le> 1" "cache_lock (caches s1 G16) = initlock" "\<And>d. d \<noteq> G16 \<Longrightarrow> caches s1 d = caches s d"
    "kept s s1 (set (qs @ P G16)) (A G16)"
    using a(2) by (auto simp: alloc_post_def alloc_frame_def kept_def)
  have c1: "card (free_mem (km s1)) = card (free_mem (km s)) - length qs"
    using new_pages_card [OF s1(3)] mem by simp
  then have "free_mem (km s1) \<noteq> {}" using mem s1(4) by auto
  then obtain pg s2 where s2: "pm_kalloc me s1 = Done pg s2" "slab_body C s2 ?P N (F(G16 := fs)) ?A" "loose_page C s2 ?P pg"
    "new_pages (km s1) [pg] (km s2)" "caches s2 = caches s1" "kept s1 s2 {pg} (?A G16)"
    by (rule kalloc_body [OF s1(1) G, of me])
  have nd: "loose_node C N ?A node" using s1(2) slab_bodyD(7) [OF body] by (auto simp: loose_node_def)
  define s3 where "s3 = poke node pg s2"
  have w3: "word_at s3 x = word_at s2 x" if "\<not> in_page pg x" "x \<notin> extent G16 node" for x
    using that(2) object_extent(2) [of node] by (auto simp: s3_def)
  have e3: "km s3 = km s2" "caches s3 = caches s2" by (simp_all add: s3_def)
  have b3: "slab_body C s3 ?P N (F(G16 := fs)) ?A" by (rule loose_write [OF s2(2) G s2(3) nd w3 e3])
  have lp: "loose_page C s3 ?P pg" using s2(3) e3 by (simp add: loose_page_def)
  have un3: "unheld (cache_lock (caches s3 G16))" using e3 s2(5) s1(5) by simp
  have "card (free_mem (km s2)) = card (free_mem (km s1)) - 1"
    using new_pages_card [OF s2(4)] c1 mem s1(4) by simp
  then have m3: "2 * n \<le> card (free_mem (km s3))" using e3 c1 mem s1(4) by simp
  have "word_at s3 node = pg" by (simp add: s3_def)
  note lg = large_pages_ok [OF b3 G un3 c m3 lp nd this, of me, unfolded fun_upd_same fun_upd_upd]
  obtain t ps ns qs' fs' where
    t: "large_pages (kmem_cache_alloc_16 me) me (usz c) (slotn c) n pg node s3 = Done () t"
    "slab_body C t (P(G16 := qs' @ qs @ P G16)) N (F(G16 := fs')) (A(G16 := insert node (A G16) \<union> set ns))"
    "new_pages (km s3) (ps @ qs') (km t)" "length ps = n" "length qs' \<le> n" "set ns \<inter> insert node (A G16) = {}"
    "lseg (\<lambda>x. word_at t (x + 8)) node (node # ns) 0" "map (word_at t) (node # ns) = pg # ps"
    "lseg (word_at t) (faptr c [pg]) (objects c (pg # ps)) 0"
    "unheld (cache_lock (caches t G16))" "\<forall>d. d \<noteq> G16 \<longrightarrow> caches t d = caches s3 d"
    "kept s3 t (set (pg # ps @ qs' @ qs @ P G16)) (insert node (A G16) - {node})"
    using lg by (elim exE conjE) (rule that)
  have "u16_pred (Suc n) = n" using n by (simp add: u16_pred_def)
  then have i: "init_large_object_pool (kmem_cache_alloc_16 me) me (usz c) (Suc n) s = Done node t"
    using a(1) s2(1) t(1) by (simp add: init_large_object_pool_def cache_geometry(5) flip: s3_def)
  have "new_pages (km s) (qs @ [pg]) (km s3)" using new_pages_trans [OF s1(3) s2(4)] e3 by simp
  from new_pages_trans [OF this t(3)] have np: "new_pages (km s) ((pg # ps) @ (qs' @ qs)) (km t)"
    by (auto simp: new_pages_def)
  have "kept s2 s3 (insert pg (set (?P G16))) (?A G16 - {node})" by (rule loose_write_kept [OF s2(2) G s2(3) nd w3])
  then have "kept s s3 (set (pg # qs @ P G16)) (A G16)"
    using s1(2) by (intro kept_trans [OF kept_trans [OF s1(7) s2(6) order_refl order_refl]]) auto
  then have "kept s t (set ((pg # ps) @ (qs' @ qs) @ P G16)) (A G16)"
    using s1(2) by (intro kept_trans [OF _ t(12)]) auto
  moreover have "slab_body C t (P(G16 := (qs' @ qs) @ P G16)) N (F(G16 := fs')) (A(G16 := A G16 \<union> set (node # ns)))"
    using t(2) by simp
  moreover have "set (node # ns) \<inter> A G16 = {}" using t(6) s1(2) by auto
  moreover have "\<forall>d. d \<noteq> G16 \<longrightarrow> caches t d = caches s d" using t(11) e3 s2(5) s1(6) by simp
  moreover have "length (pg # ps) = Suc n" "length (qs' @ qs) \<le> Suc n" using t(4,5) s1(4) by simp_all
  moreover have "lseg (word_at t) (faptr c (pg # ps)) (objects c (pg # ps)) 0" using t(9) by (simp add: faptr_def)
  ultimately show ?thesis using i np t(7,8,10) by metis
qed

end
