(* ===== verification/Slab_Ops.thy ===== *)
theory Slab_Ops
  imports Slab_Init
begin

section \<open>Allocation and freeing in every cache\<close>

text \<open>
  The growth of a cache of large objects, and \<open>kmem_cache_alloc\<close> and \<open>kmem_cache_free\<close> for
  any cache on a well-formed state.
\<close>

subsection \<open>Allocation from a cache of large objects\<close>

lemma large_not_G16: "\<not> small c \<Longrightarrow> c \<noteq> G16"
  by (auto simp: small_def)

lemma large_head:
  assumes "slab_body C s P N F A" "c \<in> C" "\<not> small c"
  shows "head (caches s c) = hd (N c)" "word_at s (hd (N c)) = faptr c (P c)" "unitsz (caches s c) = usz c"
    "N c \<noteq> []" "faptr c (P c) = hd (P c)"
proof -
  have k: "cache_ok (word_at s) c (caches s c) (P c) (N c) (F c)" using slab_bodyD(2) [OF assms(1,2)] .
  then show "head (caches s c) = hd (N c)" "unitsz (caches s c) = usz c" "N c \<noteq> []" using assms(3) by (auto simp: cache_ok_def)
  show f: "faptr c (P c) = hd (P c)" using assms(3) by (simp add: faptr_def slot0_def)
  show "word_at s (hd (N c)) = faptr c (P c)" 
    using k assms(3) hd_map [OF \<open>N c \<noteq> []\<close>, of "word_at s"] unfolding f cache_ok_def by metis
qed

lemma alloc_large_take:
  assumes body: "slab_body C s P N F A" and c: "c \<in> C" "\<not> small c" and F: "F c = a # fs"
    and held: "held_by me (cache_lock (caches s c))"
  shows "\<exists>t. alloc_large_object_pool al me c n s = Done a t \<and> slab_body C t P N (F(c := fs)) (A(c := insert a (A c))) \<and>
    a \<notin> A c \<and> km t = km s \<and> cache_lock (caches t c) = initlock \<and> (\<forall>d. d \<noteq> c \<longrightarrow> caches t d = caches s d)"
proof -
  note h = large_head [OF body c]
  have k: "cache_ok (word_at s) c (caches s c) (P c) (N c) (a # fs)" using slab_bodyD(2) [OF body c(1)] F by simp
  let ?f = "faptr c (P c)"
  have f: "word_at s ?f = a" "a \<noteq> 0" using k by (auto simp: cache_ok_def)
  let ?t = "upd_cache c (\<lambda>k. k\<lparr>cache_lock := initlock\<rparr>)
    (upd_cache c (\<lambda>k. k\<lparr>alloc_count := alloc_count k + 1\<rparr>) (poke ?f (word_at s a) s))"
  have "alloc_large_object_pool al me c n s = Done a ?t"
    using f h held by (subst alloc_large_object_pool.simps) (simp add: Let_def release_cache_held)
  moreover have "slab_body C ?t P N (F(c := fs)) (A(c := insert a (A c)))" "a \<notin> A c"
    by (rule take_object [OF body c(1) F, of ?t], simp_all)+
  ultimately show ?thesis by (intro exI [of _ ?t]) simp
qed

lemma grow_large:
  assumes body: "slab_body C s P N F A" and c: "c \<in> C" "\<not> small c" and F: "F c = []"
    and un: "unheld (cache_lock (caches s G16))" and mem: "2 \<le> card (free_mem (km s))"
  obtains u node qs pg fs gs where
    "alloc_large_object_pool (kmem_cache_alloc_16 me) me c (Suc n) s =
      alloc_large_object_pool (kmem_cache_alloc_16 me) me c n u"
    "slab_body C u (P(G16 := qs @ P G16, c := pg # P c)) (N(c := node # N c)) (F(G16 := fs, c := gs))
      (A(G16 := insert node (A G16)))" "gs \<noteq> []" "node \<notin> A G16"
    "new_pages (km s) (pg # qs) (km u)" "\<And>d. d \<noteq> c \<Longrightarrow> d \<noteq> G16 \<Longrightarrow> caches u d = caches s d"
    "cache_lock (caches u c) = cache_lock (caches s c)" "unheld (cache_lock (caches u G16))"
proof -
  have G: "G16 \<in> C" by (rule slab_bodyD(8) [OF body c])
  have cG: "c \<noteq> G16" by (rule large_not_G16 [OF c(2)])
  note h = large_head [OF body c]
  let ?f = "faptr c (P c)"
  have f0: "word_at s ?f = 0" using slab_bodyD(2) [OF body c(1)] F by (simp add: cache_ok_def)
  have m: "2 * Suc 0 \<le> card (free_mem (km s))" "0 < (65535 :: nat)" using mem by simp_all
  obtain node t ps ns qs fs where t: "init_large_object_pool (kmem_cache_alloc_16 me) me (usz c) (Suc 0) s = Done node t"
    "slab_body C t (P(G16 := qs @ P G16)) N (F(G16 := fs)) (A(G16 := A G16 \<union> set (node # ns)))"
    "new_pages (km s) (ps @ qs) (km t)" "length ps = Suc 0" "length qs \<le> Suc 0" "set (node # ns) \<inter> A G16 = {}"
    "lseg (\<lambda>x. word_at t (x + 8)) node (node # ns) 0" "map (word_at t) (node # ns) = ps"
    "lseg (word_at t) (faptr c ps) (objects c ps) 0"
    "unheld (cache_lock (caches t G16))" "\<forall>d. d \<noteq> G16 \<longrightarrow> caches t d = caches s d"
    using init_large_ok [OF body G un c(2) m, of me] by (elim exE conjE) (rule that)
  obtain pg where ps: "ps = [pg]" using t(4) by (cases ps) auto
  then have ns: "ns = []" "word_at t node = pg" using t(8) by auto
  let ?P = "P(G16 := qs @ P G16)" and ?A = "A(G16 := insert node (A G16))"
  have b: "slab_body C t ?P N (F(G16 := fs)) ?A" using t(2) ns(1) by simp
  have nd: "node \<notin> A G16" using t(6) by simp
  have nN: "node \<notin> set (N d)" if "d \<in> C" for d using slab_bodyD(7) [OF body that] nd by blast
  have pg: "page_addr (km t) pg" "pg div PGSIZE \<notin> free_mem (km t)"
    using t(3) ps page_addr_kend [of "km t" "km s" pg] by (auto simp: new_pages_def)
  have pgP: "pg \<notin> set (?P d)" if "d \<in> C" for d
    using t(3) ps slab_bodyD(5) [OF body that, of pg] slab_bodyD(5) [OF body G, of pg] by (auto simp: new_pages_def)
  have npg: "\<not> in_page pg x" if "x \<in> extent G16 node" for x
    using in_use_page [OF b G _ that pg(1)] pgP [OF G] by simp
  define u where "u = poke (pg + slotn c * usz c) ?f (upd_cache c (\<lambda>k. k\<lparr>head := node\<rparr>) (poke (node + 8) (hd (N c)) t))"
  have n8: "node \<noteq> node + 8" by simp
  have eq: "alloc_large_object_pool (kmem_cache_alloc_16 me) me c (Suc n) s =
      alloc_large_object_pool (kmem_cache_alloc_16 me) me c n u"
    using h f0 t(1,11) cG ns(2)
    by (subst alloc_large_object_pool.simps) (simp add: Let_def u_def cache_geometry(5))
  have po: "pg + slotn c * usz c = last (page_objects c pg)" by (simp add: page_objects_last)
  have lin: "in_page pg (last (page_objects c pg))"
    by (rule page_objects_in_page [OF last_in_set [OF page_objects_last(2)]])
  have wu: "word_at u = (word_at t)(node + 8 := hd (N c), last (page_objects c pg) := ?f)" by (simp add: u_def po)
  have wo: "word_at u x = word_at t x" if "\<not> in_page pg x" "small c \<or> x \<notin> extent G16 node" for x
    using that lin c(2) object_extent(3) [of node] by (auto simp: wu)
  have n8': "node + 8 \<notin> set (page_objects c pg)" "node \<noteq> last (page_objects c pg)" "node + 8 \<noteq> last (page_objects c pg)"
    using npg [OF object_extent(3)] npg [OF object_extent(2)] page_objects_in_page lin by metis+
  have "lseg (word_at t) (faptr c [pg]) (page_objects c pg) 0" using t(9) ps by (simp add: objects_def)
  then have lu: "lseg (word_at u) (faptr c [pg]) (page_objects c pg) ?f"
    unfolding wu using page_objects_last(2) page_objects_hd(2) lseg_set_outside [OF n8'(1)] by (intro lseg_set_last) auto
  have nz: "node \<noteq> 0" using t(7) by simp
  have "slab_body C u (?P(c := pg # ?P c)) (N(c := [node] @ N c)) ((F(G16 := fs))(c := tl (page_objects c pg) @ [faptr c (?P c)])) ?A"
  proof (rule add_page [OF b c(1)])
    show "(F(G16 := fs)) c = []" using F cG by simp
    show "new_pages (km t) [] (km u)" using new_pages_refl [OF slab_bodyD(1) [OF b]] by (simp add: u_def)
    show "page_addr (km t) pg" "pg div PGSIZE \<notin> free_mem (km u)" using pg by (simp_all add: u_def)
    show "lseg (word_at u) (faptr c [pg]) (page_objects c pg) (faptr c (?P c))" using lu cG by simp
    show "word_at u node = pg \<and> word_at u (node + 8) = hd (N c) \<and> node \<noteq> 0" using n8' ns(2) nz by (simp add: wu)
    show "word_at u x = word_at t x" if "\<not> in_page pg x" "small c \<or> x \<notin> extent G16 node" for x by (rule wo [OF that])
  qed (use c(2) nN pgP in \<open>auto simp: u_def\<close>)
  then have "slab_body C u (P(G16 := qs @ P G16, c := pg # P c)) (N(c := node # N c))
     (F(G16 := fs, c := tl (page_objects c pg) @ [?f])) ?A" using cG by simp
  then show ?thesis
    using that [OF eq _ _ nd] t(3,10,11) ps cG by (auto simp: u_def)
qed


text \<open>How the pages, nodes and objects in use change when \<open>a\<close> is taken from cache \<open>c\<close>.\<close>

definition grown ::
  "cname \<Rightarrow> nat \<Rightarrow> nat list \<Rightarrow> (cname \<Rightarrow> nat list) \<Rightarrow> (cname \<Rightarrow> nat list) \<Rightarrow> (cname \<Rightarrow> nat set) \<Rightarrow>
   (cname \<Rightarrow> nat list) \<Rightarrow> (cname \<Rightarrow> nat list) \<Rightarrow> (cname \<Rightarrow> nat set) \<Rightarrow> bool" where
  "grown c a ps P N A P' N' A' \<longleftrightarrow> a \<notin> A c \<and> a \<in> A' c \<and> (\<forall>d. A d \<subseteq> A' d) \<and>
     (\<forall>d. set (P' d) \<subseteq> set (P d) \<union> set ps) \<and> (\<forall>d. set (N' d) \<subseteq> set (N d) \<union> - A G16) \<and>
     (c = G16 \<longrightarrow> (\<forall>d. set (N' d) \<subseteq> A G16))"

lemma alloc_large_ok:
  assumes body: "slab_body C s P N F A" and c: "c \<in> C" "\<not> small c"
    and held: "held_by me (cache_lock (caches s c))" and un: "unheld (cache_lock (caches s G16))"
    and mem: "2 \<le> card (free_mem (km s))"
  shows "\<exists>a t P' N' F' A' ps. alloc_large_object_pool (kmem_cache_alloc_16 me) me c GROW s = Done a t \<and>
    slab_body C t P' N' F' A' \<and> new_pages (km s) ps (km t) \<and> grown c a ps P N A P' N' A' \<and>
    cache_lock (caches t c) = initlock \<and> unheld (cache_lock (caches t G16)) \<and>
    (\<forall>d. d \<noteq> c \<longrightarrow> d \<noteq> G16 \<longrightarrow> caches t d = caches s d)"
proof (cases "F c")
  case (Cons a fs)
  obtain t where t: "alloc_large_object_pool (kmem_cache_alloc_16 me) me c GROW s = Done a t"
    "slab_body C t P N (F(c := fs)) (A(c := insert a (A c)))" "a \<notin> A c" "km t = km s"
    "cache_lock (caches t c) = initlock" "\<forall>d. d \<noteq> c \<longrightarrow> caches t d = caches s d"
    using alloc_large_take [OF body c Cons held, of "kmem_cache_alloc_16 me" GROW] by blast
  have "new_pages (km s) [] (km t)" using new_pages_refl [OF slab_bodyD(1) [OF body]] t(4) by simp
  moreover have "unheld (cache_lock (caches t G16))" using t(6) un large_not_G16 [OF c(2)] by metis
  moreover have "grown c a [] P N A P N (A(c := insert a (A c)))"
    using t(3) large_not_G16 [OF c(2)] by (auto simp: grown_def)
  ultimately show ?thesis using t(1,2,5,6) by blast
next
  case Nil
  have cG: "c \<noteq> G16" by (rule large_not_G16 [OF c(2)])
  obtain u node qs pg fs gs where
    u: "alloc_large_object_pool (kmem_cache_alloc_16 me) me c (Suc 0) s =
      alloc_large_object_pool (kmem_cache_alloc_16 me) me c 0 u"
    "slab_body C u (P(G16 := qs @ P G16, c := pg # P c)) (N(c := node # N c)) (F(G16 := fs, c := gs))
      (A(G16 := insert node (A G16)))" "gs \<noteq> []" "node \<notin> A G16"
    "new_pages (km s) (pg # qs) (km u)" "\<And>d. d \<noteq> c \<Longrightarrow> d \<noteq> G16 \<Longrightarrow> caches u d = caches s d"
    "cache_lock (caches u c) = cache_lock (caches s c)" "unheld (cache_lock (caches u G16))"
    by (rule grow_large [where n = 0 and me = me, OF body c Nil un mem]) (rule that)
  obtain a hs where gs: "gs = a # hs" using u(3) by (cases gs) auto
  have F: "(F(G16 := fs, c := gs)) c = a # hs" using gs by simp
  have hl: "held_by me (cache_lock (caches u c))" using held u(7) by simp
  obtain t where t: "alloc_large_object_pool (kmem_cache_alloc_16 me) me c 0 u = Done a t"
    "slab_body C t (P(G16 := qs @ P G16, c := pg # P c)) (N(c := node # N c)) ((F(G16 := fs, c := gs))(c := hs))
      ((A(G16 := insert node (A G16)))(c := insert a ((A(G16 := insert node (A G16))) c)))"
    "a \<notin> (A(G16 := insert node (A G16))) c" "km t = km u" "cache_lock (caches t c) = initlock"
    "\<forall>d. d \<noteq> c \<longrightarrow> caches t d = caches u d"
    using alloc_large_take [OF u(2) c F hl, of "kmem_cache_alloc_16 me" 0] by blast
  have "alloc_large_object_pool (kmem_cache_alloc_16 me) me c GROW s = Done a t" using u(1) t(1) by (simp add: GROW_def)
  moreover have "unheld (cache_lock (caches t G16))" using t(6) u(8) cG by metis
  moreover have "new_pages (km s) (pg # qs) (km t)" using u(5) t(4) by simp
  moreover have "\<forall>d. d \<noteq> c \<longrightarrow> d \<noteq> G16 \<longrightarrow> caches t d = caches s d" using t(6) u(6) by simp
  moreover have "grown c a (pg # qs) P N A (P(G16 := qs @ P G16, c := pg # P c)) (N(c := node # N c))
      ((A(G16 := insert node (A G16)))(c := insert a ((A(G16 := insert node (A G16))) c)))"
    using t(3) u(4) cG by (auto simp: grown_def)
  ultimately show ?thesis using t(2,5) by blast
qed


definition unlocked :: "cname set \<Rightarrow> slab \<Rightarrow> bool" where
  "unlocked C s \<longleftrightarrow> (\<forall>c\<in>C. cache_lock (caches s c) = initlock)"

lemma cache_alloc_ok:
  assumes body: "slab_body UNIV s P N F A" and un: "unlocked UNIV s" and mem: "2 \<le> card (free_mem (km s))"
  shows "\<exists>a t P' N' F' A' ps. kmem_cache_alloc me c s = Done a t \<and> slab_body UNIV t P' N' F' A' \<and> unlocked UNIV t \<and>
    new_pages (km s) ps (km t) \<and> grown c a ps P N A P' N' A'"
proof (cases "small c")
  case True
  have ne: "free_mem (km s) \<noteq> {}" using mem by auto
  have uc: "unheld (cache_lock (caches s c))" using un by (simp add: unlocked_def)
  obtain ps a t where t: "kmem_cache_alloc me c s = Done a t" "alloc_post UNIV c s P N F A ps a t"
    using small_alloc_call(1) [OF body UNIV_I True uc ne, of me] by blast
  obtain fs where fs: "slab_body UNIV t (P(c := ps @ P c)) N (F(c := fs)) (A(c := insert a (A c)))" "a \<notin> A c"
    "new_pages (km s) ps (km t)" "cache_lock (caches t c) = initlock" "\<forall>d. d \<noteq> c \<longrightarrow> caches t d = caches s d"
    using t(2) by (auto simp: alloc_post_def alloc_frame_def)
  have "unlocked UNIV t" using un fs(4,5) unfolding unlocked_def by metis
  moreover have "grown c a ps P N A (P(c := ps @ P c)) N (A(c := insert a (A c)))"
    using fs(2) slab_bodyD(7) [OF body UNIV_I] by (auto simp: grown_def)
  ultimately show ?thesis using t(1) fs(1,3) by blast
next
  case False
  let ?s = "upd_cache c (\<lambda>k. k\<lparr>cache_lock := \<lparr>locked = 1, cpu = Some me\<rparr>\<rparr>) s"
  have cG: "c \<noteq> G16" by (rule large_not_G16 [OF False])
  have uc: "unheld (cache_lock (caches s c))" using un by (simp add: unlocked_def)
  have sz: "16 < cache_size (caches s c)"
    using slab_bodyD(2) [OF body UNIV_I] cache_geometry(2) [of c] False by (simp add: cache_ok_def)
  have h: "held_by me (cache_lock (caches ?s c))" "unheld (cache_lock (caches ?s G16))" "2 \<le> card (free_mem (km ?s))"
    using un cG mem by (simp_all add: unlocked_def)
  obtain a t P' N' F' A' ps where t: "alloc_large_object_pool (kmem_cache_alloc_16 me) me c GROW ?s = Done a t"
    "slab_body UNIV t P' N' F' A'" "new_pages (km ?s) ps (km t)" "grown c a ps P N A P' N' A'"
    "cache_lock (caches t c) = initlock" "unheld (cache_lock (caches t G16))"
    "\<forall>d. d \<noteq> c \<longrightarrow> d \<noteq> G16 \<longrightarrow> caches t d = caches ?s d"
    using alloc_large_ok [OF slab_body_lock [OF body] UNIV_I False h] by blast
  have "kmem_cache_alloc me c s = Done a t"
    using uc sz t(1) by (simp add: kmem_cache_alloc_def acquire_cache_unheld)
  moreover have "cache_lock (caches t d) = initlock" for d
    using un t(5,6,7) by (cases "d = c"; cases "d = G16") (simp_all add: unlocked_def unheld_def)
  then have "unlocked UNIV t" by (simp add: unlocked_def)
  moreover have "new_pages (km s) ps (km t)" using t(3) by simp
  ultimately show ?thesis using t(2,4) by blast
qed

subsection \<open>Freeing\<close>

lemma find_node_found:
  "lseg nx p xs 0 \<Longrightarrow> x \<in> set xs \<Longrightarrow> found x \<Longrightarrow> \<exists>w. find_node nx found p = Some w \<and> w \<noteq> 0"
proof (induction xs arbitrary: p)
  case (Cons y ys)
  then show ?case by (subst find_node.simps) auto
qed simp

lemma PGROUNDDOWN_in_page:
  assumes "page_addr k p" "in_page p a" shows "PGROUNDDOWN a = p"
proof -
  have "PGSIZE dvd p" using assms(1) by (simp add: page_addr_def)
  then show ?thesis using in_page_frame [of p a] assms(2) by (simp add: PGROUNDDOWN_def)
qed

lemma cache_free_ok:
  assumes body: "slab_body UNIV s P N F A" and un: "unlocked UNIV s"
    and a: "a \<in> A c" "c = G16 \<Longrightarrow> (\<forall>d. a \<notin> set (N d))"
  shows "\<exists>t F'. kmem_cache_free me c a s = Done () t \<and> slab_body UNIV t P N F' (A(c := A c - {a})) \<and>
    unlocked UNIV t \<and> km t = km s \<and> (c = G16 \<longrightarrow> slab_body UNIV t P N F' A)"
proof -
  let ?s = "upd_cache c (\<lambda>k. k\<lparr>cache_lock := \<lparr>locked = 1, cpu = Some me\<rparr>\<rparr>) s"
  have b: "slab_body UNIV ?s P N F A" by (rule slab_body_lock [OF body])
  have k: "cache_ok (word_at s) c (caches s c) (P c) (N c) (F c)" using slab_bodyD(2) [OF body UNIV_I] .
  have "a \<in> set (objects c (P c))" using slab_bodyD(6) [OF body UNIV_I] a(1) by blast
  then obtain p where p: "p \<in> set (P c)" "a \<in> set (page_objects c p)" using objects_pageE by metis
  have pr: "PGROUNDDOWN a = p" "p \<le> a"
    using PGROUNDDOWN_in_page [OF slab_bodyD(4) [OF body UNIV_I p(1)] page_objects_in_page [OF p(2)]]
      page_objects_in_page [OF p(2)] by (auto simp: in_page_def)
  have p0: "0 < p" by (rule page_pos [OF slab_bodyD(1) [OF body] slab_bodyD(4) [OF body UNIV_I p(1)]])
  have al: "(a - p) mod usz c = 0" using p(2) by (auto simp: page_objects_def set_slots)
  have uc: "unheld (cache_lock (caches s c))" using un by (simp add: unlocked_def)
  have u: "unitsz (caches s c) = usz c" "cache_size (caches s c) = usz c" using k by (simp_all add: cache_ok_def)
  define fp where "fp = (if c = G16 then hd (P c) + 8 else faptr c (P c))"
  define t1 where "t1 = upd_cache c (\<lambda>k. k\<lparr>alloc_count := alloc_count k - 1\<rparr>) (poke fp a (poke a (word_at ?s fp) ?s))"
  have free: "(if 16 < cache_size (caches ?s c) then free_large_object_pool c a ?s else free_small_object_pool c a ?s) = Done () t1"
  proof (cases "small c")
    case True
    have l: "lseg (word_at s) (hd (P c)) (P c) 0" "head (caches s c) = hd (P c)" using k True by (auto simp: cache_ok_def)
    obtain w where "find_node (word_at s) (\<lambda>w. w = p) (hd (P c)) = Some w" "w \<noteq> 0"
      using find_node_found [OF l(1) p(1), of "\<lambda>w. w = p"] by blast
    moreover have "\<not> 16 < cache_size (caches s c)" using u(2) cache_geometry(2) [of c] True by simp
    moreover have "hd (P c) + 8 = fp" using True by (auto simp: fp_def faptr_def slot0_def small_def)
    ultimately show ?thesis using u(1) l(2) pr al by (simp add: free_small_object_pool_def Let_def t1_def)
  next
    case False
    note h = large_head [OF body UNIV_I False]
    have l: "lseg (\<lambda>w. word_at s (w + 8)) (hd (N c)) (N c) 0" "map (word_at s) (N c) = P c"
      using k False by (auto simp: cache_ok_def)
    obtain n where n: "n \<in> set (N c)" "word_at s n = p" using p(1) l(2) by (metis imageE list.set_map)
    obtain w where "find_node (\<lambda>w. word_at s (w + 8)) (\<lambda>w. word_at s w = p) (hd (N c)) = Some w" "w \<noteq> 0"
      using find_node_found [OF l(1) n(1), of "\<lambda>w. word_at s w = p"] n(2) by blast
    moreover have "16 < cache_size (caches s c)" using u(2) cache_geometry(2) [of c] False by simp
    moreover have "word_at s (hd (N c)) = fp" using h(2) large_not_G16 [OF False] by (simp add: fp_def)
    ultimately show ?thesis using u(1) h(1) pr al by (simp add: free_large_object_pool_def Let_def t1_def)
  qed
  define t where "t = upd_cache c (\<lambda>k. k\<lparr>cache_lock := initlock\<rparr>) t1"
  have "kmem_cache_free me c a s = Done () t"
    using uc free by (simp add: kmem_cache_free_def acquire_cache_unheld release_cache_held t_def t1_def)
  moreover have "\<exists>F'. slab_body UNIV t P N F' (A(c := A c - {a})) \<and> (c = G16 \<longrightarrow> slab_body UNIV t P N F' A)"
  proof (cases "c = G16")
    case True
    have "slab_body UNIV t P N F A"
      using a True by (intro lose_object(1) [OF b]) (auto simp: t_def t1_def fp_def)
    moreover have "slab_body UNIV t P N F (A(G16 := A G16 - {a}))"
      using a True by (intro lose_object(2) [OF b]) (auto simp: t_def t1_def fp_def)
    ultimately show ?thesis using True by auto
  next
    case False
    have "slab_body UNIV t P N (F(c := a # F c)) (A(c := A c - {a}))"
      using a False by (intro put_object [OF b]) (auto simp: t_def t1_def fp_def)
    then show ?thesis using False by auto
  qed
  moreover have "unlocked UNIV t" using un by (simp add: unlocked_def t_def t1_def)
  moreover have "km t = km s" by (simp add: t_def t1_def)
  ultimately show ?thesis by blast
qed

end
