(* ===== verification/Slab_Create.thy ===== *)
theory Slab_Create
  imports Slab_Ops
begin

section \<open>Creating the caches\<close>

text \<open>
  \<open>kmem_cache_create\<close> adds a well-formed cache, and \<open>slab_init\<close> establishes the
  invariant for all ten caches with at most 30 pages.
\<close>

lemma distinct_objects:
  assumes "distinct ps" "\<And>p. p \<in> set ps \<Longrightarrow> page_addr k p" shows "distinct (objects c ps)"
  using assms
proof (induction ps)
  case Nil
  then show ?case by (simp add: objects_def)
next
  case (Cons p ps)
  have "set (page_objects c p) \<inter> set (objects c ps) = {}"
  proof (rule ccontr)
    assume "set (page_objects c p) \<inter> set (objects c ps) \<noteq> {}"
    then obtain a q where "a \<in> set (page_objects c p)" "q \<in> set ps" "a \<in> set (page_objects c q)"
      using objects_pageE by (metis disjoint_iff)
    moreover from this have "p = q"
      using in_page_unique [of k p q a] Cons.prems(2) page_objects_in_page by (metis list.set_intros)
    ultimately show False using Cons.prems(1) by simp
  qed
  then show ?case using Cons by (simp add: objects_Cons page_objects_hd(2))
qed

lemma objects_hd: "ps \<noteq> [] \<Longrightarrow> objects c ps = faptr c ps # tl (objects c ps)"
proof (cases ps)
  case (Cons p qs)
  then show ?thesis using page_objects_hd(1) [of c p qs] by (metis append_Cons list.sel(3) objects_Cons)
qed simp

text \<open>A cache joins the well-formed ones once its pages are linked.\<close>

lemma new_cache:
  assumes body: "slab_body C t P N F A" and c: "c \<notin> C" "\<not> small c \<Longrightarrow> G16 \<in> C"
    and ps: "ps \<noteq> []" "distinct ps" "\<And>p. p \<in> set ps \<Longrightarrow> loose_page C t P p"
    and ns: "small c \<Longrightarrow> ns = [] \<and> hp = hd ps \<and> lseg (word_at t) (hd ps) ps 0"
      "\<not> small c \<Longrightarrow> hp = hd ns \<and> lseg (\<lambda>n. word_at t (n + 8)) (hd ns) ns 0 \<and> map (word_at t) ns = ps"
      "\<And>n. n \<in> set ns \<Longrightarrow> loose_node C N A n"
    and objs: "lseg (word_at t) (faptr c ps) (objects c ps) 0"
    and k: "cache_size (caches t c) = usz c" "unitsz (caches t c) = usz c"
  shows "slab_body (insert c C) (upd_cache c (\<lambda>k. k\<lparr>head := hp\<rparr>) t) (P(c := ps)) (N(c := ns))
    (F(c := tl (objects c ps))) (A(c := {}))"
proof -
  let ?u = "upd_cache c (\<lambda>k. k\<lparr>head := hp\<rparr>) t"
  have pa: "page_addr (km t) p" "p div PGSIZE \<notin> free_mem (km t)" if "p \<in> set ps" for p
    using ps(3) [OF that] by (simp_all add: loose_page_def)
  have d: "distinct (faptr c ps # tl (objects c ps))"
    using distinct_objects [OF ps(2) pa(1)] objects_hd [OF ps(1), of c] by metis
  have "lseg (word_at t) (faptr c ps) (faptr c ps # tl (objects c ps)) 0" "set (tl (objects c ps)) \<subseteq> set (objects c ps)"
    using objs objects_hd [OF ps(1), of c] by (metis, metis set_subset_Cons)
  then have ok: "cache_ok (word_at t) c (caches ?u c) ps ns (tl (objects c ps))"
    using k ps(1) ns(1,2) d unfolding cache_ok_def by (cases "small c") (simp_all del: lseg.simps)
  have small_nodes: "N d = []" if "c = G16" "d \<in> C" for d
    using slab_bodyD(8) [OF body that(2)] slab_bodyD(2) [OF body that(2)] c(1) that(1)
    by (auto simp: cache_ok_def split: if_splits)
  show ?thesis
    unfolding slab_body_def
  proof (intro conjI ballI impI)
    show "kmem_ok (km ?u)" using slab_bodyD(1) [OF body] by simp
    fix d assume "d \<in> insert c C"
    then consider "d = c" | "d \<in> C" "d \<noteq> c" using c(1) by blast
    note dc = this
    show "cache_ok (word_at ?u) d (caches ?u d) ((P(c := ps)) d) ((N(c := ns)) d) ((F(c := tl (objects c ps))) d)"
      using dc ok slab_bodyD(2) [OF body] by cases auto
    show "distinct ((P(c := ps)) d)" using dc ps(2) slab_bodyD(3) [OF body] by cases auto
    show "(A(c := {})) d \<subseteq> set (objects d ((P(c := ps)) d)) - set (faptr d ((P(c := ps)) d) # (F(c := tl (objects c ps))) d)"
      using dc slab_bodyD(6) [OF body] by cases auto
    show "set ((N(c := ns)) d) \<subseteq> (A(c := {})) G16"
      using dc slab_bodyD(7) [OF body] ns(1,3) small_nodes
      by cases (fastforce simp: loose_node_def small_def)+
    show "G16 \<in> insert c C" if "\<not> small d" using dc that c(2) slab_bodyD(8) [OF body] by cases auto
    fix p assume "p \<in> set ((P(c := ps)) d)"
    with dc show "page_addr (km ?u) p" "p div PGSIZE \<notin> free_mem (km ?u)"
      using pa slab_bodyD(4,5) [OF body] by (cases; auto)+
  next
    fix d e assume de: "d \<in> insert c C" "e \<in> insert c C" "d \<noteq> e"
    show "set ((P(c := ps)) d) \<inter> set ((P(c := ps)) e) = {}"
      using de ps(3) slab_bodyD(9) [OF body, of d e] by (auto simp: loose_page_def)
    show "set ((N(c := ns)) d) \<inter> set ((N(c := ns)) e) = {}"
      using de ns(3) slab_bodyD(10) [OF body, of d e] by (auto simp: loose_node_def)
  qed
qed


lemma loose_new_pages:
  assumes body: "slab_body C s P N F A" and np: "new_pages (km s) ps (km t)" and p: "p \<in> set ps"
  shows "loose_page C t P p"
proof -
  have "page_addr (km t) p" "p div PGSIZE \<notin> free_mem (km t)" "p div PGSIZE \<in> free_mem (km s)"
    using np p page_addr_kend [of "km t" "km s" p] by (auto simp: new_pages_def)
  then show ?thesis using slab_bodyD(5) [OF body] by (auto simp: loose_page_def)
qed

lemma init_small_ok:
  assumes body: "slab_body C s P N F A" and c: "small c" and mem: "Suc n \<le> card (free_mem (km s))" and n: "n < 65535"
  shows "\<exists>pg t ps. init_small_object_pool me (usz c) (Suc n) s = Done pg t \<and> slab_body C t P N F A \<and>
    new_pages (km s) (pg # ps) (km t) \<and> length ps = n \<and> caches t = caches s \<and> lseg (word_at t) pg (pg # ps) 0 \<and>
    lseg (word_at t) (faptr c (pg # ps)) (objects c (pg # ps)) 0"
proof -
  have ne: "free_mem (km s) \<noteq> {}" using mem by auto
  obtain pg k where a: "pm_kalloc me s = Done pg (s\<lparr>km := k, word_at := fill_words pg 0 (word_at s)\<rparr>)"
    and k: "kmem_ok k" "page_addr (km s) pg" "kend k = kend (km s)" "pg div PGSIZE \<in> free_mem (km s)"
    "free_mem k = free_mem (km s) - {pg div PGSIZE}" "ref_cnt k = (ref_cnt (km s))(pg div PGSIZE := 1)"
    using pm_kalloc_ok [OF slab_bodyD(1) [OF body] ne, of me] by metis
  let ?s = "s\<lparr>km := k, word_at := fill_words pg 0 (word_at s)\<rparr>"
  have n1: "new_pages (km s) [pg] (km ?s)" using k by (simp add: new_pages_def)
  have m: "n \<le> card (free_mem (km ?s))" using new_pages_card [OF n1] mem by simp
  have pa: "page_addr (km ?s) pg" using k(2,3) by (simp add: page_addr_def)
  obtain k' h ps where r: "small_pages me (usz c) (slotn c) n pg ?s = Done () (?s\<lparr>km := k', word_at := h\<rparr>)"
    "new_pages (km ?s) ps k'" "length ps = n" "lseg h pg (pg # ps) 0"
    "lseg h (pg + usz c) (concat (map (slots (usz c) 1 (Suc (slotn c))) (pg # ps))) 0"
    "same_outside (pg # ps) (word_at ?s) h"
    using small_pages_ok [of ?s n pg "usz c" "slotn c" me, OF _ m pa] k(1,5) cache_geometry(4,7) [of c] by auto
  let ?t = "?s\<lparr>km := k', word_at := h\<rparr>"
  have np: "new_pages (km s) (pg # ps) (km ?t)" using new_pages_trans [OF n1 r(2)] by simp
  have un: "u16_pred (Suc n) = n" using n by (simp add: u16_pred_def)
  have i: "init_small_object_pool me (usz c) (Suc n) s = Done pg ?t"
    using a r(1) un by (simp add: init_small_object_pool_def cache_geometry(5))
  have "slab_body C ?t P N F A"
  proof (rule slab_body_frame [OF body np])
    fix d x assume d: "d \<in> C" "x \<in> foot d (P d) (N d) (F d)"
    have "\<not> in_page p x" if "p \<in> set (pg # ps)" for p
    proof (rule foot_pages [OF body d])
      show "page_addr (km s) p" using np that by (simp only: new_pages_def)
      show "p \<notin> set (P e)" if "e \<in> C" for e
        using slab_bodyD(5) [OF body that, of p] np \<open>p \<in> set (pg # ps)\<close> by (auto simp: new_pages_def)
    qed
    then show "word_at ?t x = word_at s x" using r(6) by (simp add: same_outside_def)
  qed simp
  moreover have "lseg h (faptr c (pg # ps)) (objects c (pg # ps)) 0"
  proof -
    have "page_objects c = slots (usz c) 1 (Suc (slotn c))" using c by (simp add: page_objects_def slot0_def fun_eq_iff)
    then show ?thesis using r(5) c by (simp add: faptr_def slot0_def objects_def)
  qed
  ultimately show ?thesis using i np r(3,4) by (intro exI [of _ pg] exI [of _ ?t] exI [of _ ps]) simp
qed

definition sized :: "cname \<Rightarrow> nat \<Rightarrow> nat \<Rightarrow> bool" where
  "sized c sz align \<longleftrightarrow> align \<noteq> 0 \<and> align AND (align - 1) = 0 \<and> sz = usz c \<and> ALIGN_UP sz align = usz c"

lemma create_ok:
  assumes body: "slab_body C s P N F A" and c: "c \<notin> C" "\<not> small c \<Longrightarrow> G16 \<in> C" and un: "unlocked C s"
    and sz: "sized c sz align" and mem: "2 * Suc n \<le> card (free_mem (km s))" and n: "n < 65535"
  shows "\<exists>t P' N' F' A' rs. kmem_cache_create me c sz align (Suc n) s = Done () t \<and>
    slab_body (insert c C) t P' N' F' A' \<and> unlocked (insert c C) t \<and> new_pages (km s) rs (km t) \<and>
    length rs \<le> 2 * Suc n"
proof -
  define s1 where "s1 = upd_cache c (\<lambda>k. k\<lparr>cache_lock := initlock, cache_size := sz, cache_align := align,
                  unitsz := ALIGN_UP sz align, alloc_count := 0\<rparr>) s"
  have k1: "cache_size (caches s1 c) = usz c" "unitsz (caches s1 c) = usz c" "cache_lock (caches s1 c) = initlock" "km s1 = km s"
    using sz by (auto simp: s1_def sized_def)
  have b1: "slab_body C s1 P N F A"
    by (rule slab_body_frame [OF body, of "[]"]) (use c(1) new_pages_refl [OF slab_bodyD(1) [OF body]] in \<open>auto simp: s1_def\<close>)
  have un1: "unlocked C s1" using un c(1) by (auto simp: unlocked_def s1_def)
  have al: "(align = 0 \<or> align AND (align - 1) \<noteq> 0) = False" using sz by (simp add: sized_def)
  have cr: "kmem_cache_create me c sz align (Suc n) s =
      bnd (if 16 < sz then init_large_object_pool (kmem_cache_alloc_16 me) me (usz c) (Suc n) s1
           else init_small_object_pool me (usz c) (Suc n) s1) (\<lambda>hd s.
        Done () (upd_cache c (\<lambda>k. k\<lparr>head := hd\<rparr>) s))"
    unfolding kmem_cache_create_def Let_def s1_def [symmetric] k1(2) by (simp only: al if_False)
  have s16: "16 < sz \<longleftrightarrow> \<not> small c" using sz cache_geometry(2) [of c] by (simp add: sized_def)
  show ?thesis
  proof (cases "small c")
    case True
    have "Suc n \<le> card (free_mem (km s1))" using mem k1(4) by simp
    then obtain pg t ps where t: "init_small_object_pool me (usz c) (Suc n) s1 = Done pg t" "slab_body C t P N F A"
      "new_pages (km s1) (pg # ps) (km t)" "length ps = n" "caches t = caches s1" "lseg (word_at t) pg (pg # ps) 0"
      "lseg (word_at t) (faptr c (pg # ps)) (objects c (pg # ps)) 0"
      using init_small_ok [OF b1 True _ n, of me] by blast
    have "slab_body (insert c C) (upd_cache c (\<lambda>k. k\<lparr>head := pg\<rparr>) t) (P(c := pg # ps)) (N(c := []))
      (F(c := tl (objects c (pg # ps)))) (A(c := {}))"
      using c True t(5,6,7) k1 loose_new_pages [OF b1 t(3)] t(3)
      by (intro new_cache [OF t(2)]) (simp_all add: new_pages_def del: lseg.simps)
    moreover have "unlocked (insert c C) (upd_cache c (\<lambda>k. k\<lparr>head := pg\<rparr>) t)"
      using un1 t(5) k1(3) by (auto simp: unlocked_def)
    moreover have "new_pages (km s) (pg # ps) (km t)" "length (pg # ps) \<le> 2 * Suc n" using t(3,4) k1(4) by simp_all
    moreover have "kmem_cache_create me c sz align (Suc n) s = Done () (upd_cache c (\<lambda>k. k\<lparr>head := pg\<rparr>) t)"
      using cr s16 True t(1) by simp
    ultimately show ?thesis using upd_cache_fields(1) [of c "\<lambda>k. k\<lparr>head := pg\<rparr>" t] by metis
  next
    case False
    have G: "G16 \<in> C" using c(2) False by blast
    have u16: "unheld (cache_lock (caches s1 G16))" "2 * Suc n \<le> card (free_mem (km s1))"
      using un1 G mem k1(4) by (simp_all add: unlocked_def)
    obtain node t ps ns qs fs where
      t: "init_large_object_pool (kmem_cache_alloc_16 me) me (usz c) (Suc n) s1 = Done node t"
      "slab_body C t (P(G16 := qs @ P G16)) N (F(G16 := fs)) (A(G16 := A G16 \<union> set (node # ns)))"
      "new_pages (km s1) (ps @ qs) (km t)" "length ps = Suc n" "length qs \<le> Suc n" "set (node # ns) \<inter> A G16 = {}"
      "lseg (\<lambda>x. word_at t (x + 8)) node (node # ns) 0" "map (word_at t) (node # ns) = ps"
      "lseg (word_at t) (faptr c ps) (objects c ps) 0" "unheld (cache_lock (caches t G16))"
      "\<forall>d. d \<noteq> G16 \<longrightarrow> caches t d = caches s1 d"
      using init_large_ok [OF b1 G u16(1) False u16(2) n, of me] by (elim exE conjE) (rule that)
    have cG: "c \<noteq> G16" by (rule large_not_G16 [OF False])
    have ps: "loose_page C t (P(G16 := qs @ P G16)) p" if "p \<in> set ps" for p
    proof -
      have "p \<notin> set qs" using t(3) that by (auto simp: new_pages_def)
      then show ?thesis using loose_new_pages [OF b1 t(3), of p] that by (auto simp: loose_page_def)
    qed
    have nd: "loose_node C N (A(G16 := A G16 \<union> set (node # ns))) x" if "x \<in> set (node # ns)" for x
      using that t(6) slab_bodyD(7) [OF b1] by (auto simp: loose_node_def)
    have "slab_body (insert c C) (upd_cache c (\<lambda>k. k\<lparr>head := node\<rparr>) t) ((P(G16 := qs @ P G16))(c := ps)) (N(c := node # ns))
      ((F(G16 := fs))(c := tl (objects c ps))) ((A(G16 := A G16 \<union> set (node # ns)))(c := {}))"
      using c(1) G False t(3,4,7,8,9,11) cG k1 ps nd
      by (intro new_cache [OF t(2)]) (auto simp: new_pages_def simp del: lseg.simps)
    moreover have "cache_lock (caches t d) = initlock" if "d \<in> insert c C" for d
      using that un1 t(10,11) k1(3) by (cases "d = G16") (auto simp: unlocked_def unheld_def)
    then have "unlocked (insert c C) (upd_cache c (\<lambda>k. k\<lparr>head := node\<rparr>) t)"
      by (simp add: unlocked_def)
    moreover have "new_pages (km s) (ps @ qs) (km t)" "length (ps @ qs) \<le> 2 * Suc n" using t(3,4,5) k1(4) by simp_all
    moreover have "kmem_cache_create me c sz align (Suc n) s = Done () (upd_cache c (\<lambda>k. k\<lparr>head := node\<rparr>) t)"
      using cr s16 False t(1) by simp
    ultimately show ?thesis using upd_cache_fields(1) [of c "\<lambda>k. k\<lparr>head := node\<rparr>" t] by metis
  qed
qed


definition ready :: "cname set \<Rightarrow> slab \<Rightarrow> nat \<Rightarrow> slab \<Rightarrow> bool" where
  "ready C s0 k s \<longleftrightarrow> (\<exists>P N F A rs. slab_body C s P N F A \<and> unlocked C s \<and> new_pages (km s0) rs (km s) \<and> length rs \<le> k)"

lemma ready_create:
  assumes r: "ready C s0 k s" and c: "c \<notin> C" "\<not> small c \<Longrightarrow> G16 \<in> C" and sz: "sized c sz align"
    and mem: "k + 2 * Suc n \<le> card (free_mem (km s0))" and n: "n < 65535"
  shows "\<exists>t. kmem_cache_create me c sz align (Suc n) s = Done () t \<and> ready (insert c C) s0 (k + 2 * Suc n) t"
proof -
  obtain P N F A rs where s: "slab_body C s P N F A" "unlocked C s" "new_pages (km s0) rs (km s)" "length rs \<le> k"
    using r by (auto simp: ready_def)
  have m: "2 * Suc n \<le> card (free_mem (km s))" using new_pages_card [OF s(3)] s(4) mem by simp
  obtain t P' N' F' A' qs where t: "kmem_cache_create me c sz align (Suc n) s = Done () t"
    "slab_body (insert c C) t P' N' F' A'" "unlocked (insert c C) t" "new_pages (km s) qs (km t)" "length qs \<le> 2 * Suc n"
    using create_ok [OF s(1) c s(2) sz m n, of me] by blast
  have "new_pages (km s0) (rs @ qs) (km t)" by (rule new_pages_trans [OF s(3) t(4)])
  moreover have "length (rs @ qs) \<le> k + 2 * Suc n" using s(4) t(5) by simp
  ultimately show ?thesis using t(1,2,3) by (auto simp: ready_def)
qed

lemma create_next:
  assumes "ready C s0 k s" "c \<notin> C \<and> (small c \<or> G16 \<in> C)" "sized c sz align" "n = 1 \<or> n = 2"
    "k + 2 * n \<le> card (free_mem (km s0))" "k' = k + 2 * n"
  obtains t where "kmem_cache_create me c sz align n s = Done () t" "ready (insert c C) s0 k' t"
proof -
  obtain m where m: "n = Suc m" "m < 65535" using assms(4) by (cases n) auto
  then show ?thesis using ready_create [OF assms(1) _ _ assms(3), of m me] assms(2,5,6) that by auto
qed

lemma cname_all: "insert GKC (insert G2048 (insert G1024 (insert G512 (insert G256 (insert G128 (insert G64
    (insert G32 (insert G16 (insert G8 {}))))))))) = (UNIV :: cname set)"
  using cname.exhaust by blast

lemma slab_init_ok:
  assumes ok: "kmem_ok (km s)" and mem: "30 \<le> card (free_mem (km s))"
  shows "\<exists>t. slab_init me s = Done () t \<and> ready UNIV s 30 t"
proof -
  have r0: "ready {} s 0 s"
    using ok new_pages_refl [OF ok] by (auto simp: ready_def slab_body_def unlocked_def intro!: exI [of _ "[]"])
  have sz: "sized G8 8 8" "sized G16 16 16" "sized G32 32 32" "sized G64 64 64" "sized G128 128 128" "sized G256 256 256"
    "sized G512 512 512" "sized G1024 1024 1024" "sized G2048 2048 2048" "sized GKC 56 8"
    by (simp_all add: sized_def ALIGN_UP_def)
  obtain s1 where s1: "kmem_cache_create me G8 8 8 2 s = Done () s1" "ready (insert G8 {}) s 4 s1"
    by (rule create_next [OF r0 _ sz(1), where n = 2 and me = me and k' = 4]) (use mem in \<open>auto simp: small_def\<close>)
  obtain s2 where s2: "kmem_cache_create me G16 16 16 2 s1 = Done () s2" "ready (insert G16 (insert G8 {})) s 8 s2"
    by (rule create_next [OF s1(2) _ sz(2), where n = 2 and me = me and k' = 8]) (use mem in \<open>auto simp: small_def\<close>)
  obtain s3 where s3: "kmem_cache_create me G32 32 32 2 s2 = Done () s3" "ready (insert G32 (insert G16 (insert G8 {}))) s 12 s3"
    by (rule create_next [OF s2(2) _ sz(3), where n = 2 and me = me and k' = 12]) (use mem in \<open>auto simp: small_def\<close>)
  obtain s4 where s4: "kmem_cache_create me G64 64 64 2 s3 = Done () s4" "ready (insert G64 (insert G32 (insert G16 (insert G8 {})))) s 16 s4"
    by (rule create_next [OF s3(2) _ sz(4), where n = 2 and me = me and k' = 16]) (use mem in \<open>auto simp: small_def\<close>)
  obtain s5 where s5: "kmem_cache_create me G128 128 128 2 s4 = Done () s5" "ready (insert G128 (insert G64 (insert G32 (insert G16 (insert G8 {}))))) s 20 s5"
    by (rule create_next [OF s4(2) _ sz(5), where n = 2 and me = me and k' = 20]) (use mem in \<open>auto simp: small_def\<close>)
  obtain s6 where s6: "kmem_cache_create me G256 256 256 1 s5 = Done () s6" "ready (insert G256 (insert G128 (insert G64 (insert G32 (insert G16 (insert G8 {})))))) s 22 s6"
    by (rule create_next [OF s5(2) _ sz(6), where n = 1 and me = me and k' = 22]) (use mem in \<open>auto simp: small_def\<close>)
  obtain s7 where s7: "kmem_cache_create me G512 512 512 1 s6 = Done () s7" "ready (insert G512 (insert G256 (insert G128 (insert G64 (insert G32 (insert G16 (insert G8 {}))))))) s 24 s7"
    by (rule create_next [OF s6(2) _ sz(7), where n = 1 and me = me and k' = 24]) (use mem in \<open>auto simp: small_def\<close>)
  obtain s8 where s8: "kmem_cache_create me G1024 1024 1024 1 s7 = Done () s8" "ready (insert G1024 (insert G512 (insert G256 (insert G128 (insert G64 (insert G32 (insert G16 (insert G8 {})))))))) s 26 s8"
    by (rule create_next [OF s7(2) _ sz(8), where n = 1 and me = me and k' = 26]) (use mem in \<open>auto simp: small_def\<close>)
  obtain s9 where s9: "kmem_cache_create me G2048 2048 2048 1 s8 = Done () s9" "ready (insert G2048 (insert G1024 (insert G512 (insert G256 (insert G128 (insert G64 (insert G32 (insert G16 (insert G8 {}))))))))) s 28 s9"
    by (rule create_next [OF s8(2) _ sz(9), where n = 1 and me = me and k' = 28]) (use mem in \<open>auto simp: small_def\<close>)
  obtain s10 where s10: "kmem_cache_create me GKC 56 8 1 s9 = Done () s10" "ready (insert GKC (insert G2048 (insert G1024 (insert G512 (insert G256 (insert G128 (insert G64 (insert G32 (insert G16 (insert G8 {})))))))))) s 30 s10"
    by (rule create_next [OF s9(2) _ sz(10), where n = 1 and me = me and k' = 30]) (use mem in \<open>auto simp: small_def\<close>)
  have "slab_init me s = Done () s10"
    using s1(1) s2(1) s3(1) s4(1) s5(1) s6(1) s7(1) s8(1) s9(1) s10(1) by (simp add: slab_init_def)
  then show ?thesis using s10(2) unfolding cname_all by blast
qed

end
