(* ===== verification/Kmalloc_Correct.thy ===== *)
theory Kmalloc_Correct
  imports Slab_Create
begin

section \<open>Correctness of kmalloc and kmfree\<close>

text \<open>
  The invariant of the object allocator together with the blocks of the buddy allocator, and
  the histories of \<open>kmalloc\<close> and \<open>kmfree\<close>.
\<close>

subsection \<open>Blocks of pages\<close>

lemma kbuddy_alloc_some:
  assumes ok: "kmem_ok k" and j: "j \<le> MAX_ORDER" and al: "kbuddy_alloc me j k = Done (Some a) k'"
  shows "kmem_ok k'" "kend k' = kend k" "buddy_good (buddy k) a j" "frames a j \<subseteq> free_mem k"
    "free_mem k' = free_mem k - frames a j" "ref_cnt k' = ref_cnt k"
proof -
  note o = kmem_okD [OF ok]
  have nb: "\<not> no_block j (buddy k)"
    using alloc_cases(1) [OF o(1) j] al o(2) by (auto simp: kbuddy_alloc_def kmem_lens)
  then obtain p b where b: "buddy_alloc j (buddy k) = Done (Some (addr (buddy k) p)) b" "buddy_ok b"
    "same_geometry (buddy k) b" "wf_block (pnum_max (buddy k)) p j" "blk p j \<subseteq> free_pages (buddy k)"
    "free_pages b = free_pages (buddy k) - blk p j"
    using alloc_cases(2) [OF o(1) j] by blast
  have k': "k' = k\<lparr>buddy := b, buddy_lock := initlock\<rparr>" "a = addr (buddy k) p"
    using al b(1) o(2) by (auto simp: kbuddy_alloc_def kmem_lens)
  note fr = frames_addr [OF buddy_ok_geometry [OF o(1)], of p j]
  show "kend k' = kend k" "ref_cnt k' = ref_cnt k" by (simp_all add: k')
  show "buddy_good (buddy k) a j" using b(4) j k'(2) by (auto simp: buddy_good_def)
  show f1: "frames a j \<subseteq> free_mem k" using b(5) fr k'(2) by (auto simp: free_mem_def free_frames_def)
  show f2: "free_mem k' = free_mem k - frames a j"
    using b(3,6) fr by (auto simp: k' free_mem_def free_frames_def same_geometry_def shift_Diff)
  have fm: "free_mem k' \<subseteq> free_mem k" using f2 by blast
  show "kmem_ok k'"
    using b(2,3) o(3,4,5) fm by (intro kmem_okI) (auto simp: k' same_geometry_def unheld_def)
qed

lemma kbuddy_alloc_none:
  assumes ok: "kmem_ok k" and j: "j \<le> MAX_ORDER" and al: "kbuddy_alloc me j k = Done None k'"
  shows "k' = k"
proof -
  note o = kmem_okD [OF ok]
  have "no_block j (buddy k)"
  proof (rule ccontr)
    assume "\<not> no_block j (buddy k)"
    then obtain p b where "buddy_alloc j (buddy k) = Done (Some (addr (buddy k) p)) b"
      using alloc_cases(2) [OF o(1) j] by blast
    then show False using al o(2) by (auto simp: kbuddy_alloc_def kmem_lens)
  qed
  then have "buddy_alloc j (buddy k) = Done None (buddy k)" by (rule alloc_cases(1) [OF o(1) j])
  then show ?thesis using al o(2) by (cases k) (auto simp: kbuddy_alloc_def kmem_lens unheld_def)
qed

lemma kbuddy_free_ok:
  assumes ok: "kmem_ok k" and g: "buddy_good (buddy k) a j" "frames a j \<inter> free_mem k = {}"
    and c: "\<And>f. f \<in> frames a j \<Longrightarrow> ref_cnt k f = 0"
  obtains k' where "kbuddy_free me a j k = Done () k'" "kmem_ok k'" "kend k' = kend k"
    "free_mem k' = free_mem k \<union> frames a j" "ref_cnt k' = ref_cnt k"
proof -
  note o = kmem_okD [OF ok]
  obtain p where p: "j \<le> MAX_ORDER" "a = addr (buddy k) p" "wf_block (pnum_max (buddy k)) p j"
    using g(1) by (auto simp: buddy_good_def)
  note fr = frames_addr [OF buddy_ok_geometry [OF o(1)], of p j]
  have "blk p j \<inter> free_pages (buddy k) = {}"
    using g(2) fr p(2) by (simp add: free_mem_def free_frames_def shift_Int)
  then obtain b where b: "buddy_free a j (buddy k) = Done () b" "buddy_ok b" "same_geometry (buddy k) b"
    "free_pages b = free_pages (buddy k) \<union> blk p j"
    using free_cases [OF o(1) p(1,3)] p(2) by auto
  let ?k = "k\<lparr>buddy := b, buddy_lock := initlock\<rparr>"
  have "kbuddy_free me a j k = Done () ?k" using o(2) b(1) by (simp add: kbuddy_free_def kmem_lens)
  moreover have f: "free_mem ?k = free_mem k \<union> frames a j"
    using b(3,4) fr p(2) by (simp add: free_mem_def free_frames_def same_geometry_def image_Un)
  moreover have "kmem_ok ?k"
    using b(2,3) o(3,4,5) f c by (intro kmem_okI) (auto simp: same_geometry_def unheld_def)
  ultimately show ?thesis using that by simp
qed

lemma good_kend:
  assumes "kmem_ok k" "kmem_ok k'" "kend k' = kend k" shows "buddy_good (buddy k') a j = buddy_good (buddy k) a j"
proof -
  have g: "geometry (buddy k)" "geometry (buddy k')" using assms(1,2) buddy_ok_geometry by (auto simp: kmem_ok_def)
  have "start (buddy k') = start (buddy k)" using assms by (simp add: kmem_ok_def)
  then have "pnum_max (buddy k') = pnum_max (buddy k)" using g by (simp add: geometry_def PGSIZE_def)
  then show ?thesis using good_geometry [of "buddy k" "buddy k'"] \<open>start (buddy k') = start (buddy k)\<close>
    by (simp add: same_geometry_def)
qed

lemma good_aligned:
  assumes "kmem_ok k" "buddy_good (buddy k) a j" shows "PGSIZE dvd a"
  using assms start_aligned buddy_ok_geometry by (auto simp: buddy_good_def addr_def kmem_ok_def)

subsection \<open>The invariant\<close>

text \<open>What has been handed out: objects of the caches, and blocks of \<open>2 ^ k\<close> pages.\<close>

datatype mclass = Obj cname | Run nat

definition blocks_ok :: "kmem \<Rightarrow> (cname \<Rightarrow> nat list) \<Rightarrow> (mclass \<Rightarrow> nat set) \<Rightarrow> bool" where
  "blocks_ok k P L \<longleftrightarrow>
     (\<forall>j. \<forall>a\<in>L (Run j). buddy_good (buddy k) a j \<and> frames a j \<inter> free_mem k = {} \<and>
        (\<forall>f\<in>frames a j. ref_cnt k f = 0) \<and> (\<forall>c. \<forall>p\<in>set (P c). p div PGSIZE \<notin> frames a j)) \<and>
     (\<forall>i j a b. a \<in> L (Run i) \<longrightarrow> b \<in> L (Run j) \<longrightarrow> (i, a) \<noteq> (j, b) \<longrightarrow> frames a i \<inter> frames b j = {})"

definition slab_inv :: "slab \<Rightarrow> (mclass \<Rightarrow> nat set) \<Rightarrow> bool" where
  "slab_inv s L \<longleftrightarrow> unlocked UNIV s \<and> (\<exists>P N F A. slab_body UNIV s P N F A \<and> (\<forall>c. L (Obj c) \<subseteq> A c) \<and>
     (\<forall>d. L (Obj G16) \<inter> set (N d) = {}) \<and> blocks_ok (km s) P L)"

lemma blocks_frame:
  assumes b: "blocks_ok k P L" and ok: "kmem_ok k" and np: "new_pages k ps k'"
    and P: "\<And>d. set (P' d) \<subseteq> set (P d) \<union> set ps" and L: "\<And>j. L' (Run j) = L (Run j)"
  shows "blocks_ok k' P' L'"
proof -
  have ok': "kmem_ok k'" "kend k' = kend k" using np by (auto simp: new_pages_def)
  have "buddy_good (buddy k') a j \<and> frames a j \<inter> free_mem k' = {} \<and> (\<forall>f\<in>frames a j. ref_cnt k' f = 0) \<and>
      (\<forall>c. \<forall>p\<in>set (P' c). p div PGSIZE \<notin> frames a j)" if a: "a \<in> L (Run j)" for a j
  proof -
    have o: "buddy_good (buddy k) a j" "frames a j \<inter> free_mem k = {}" "\<And>f. f \<in> frames a j \<Longrightarrow> ref_cnt k f = 0"
      "\<And>c p. p \<in> set (P c) \<Longrightarrow> p div PGSIZE \<notin> frames a j"
      using b a by (auto simp: blocks_ok_def)
    have nf: "p div PGSIZE \<notin> frames a j" if "p \<in> set ps" for p using np that o(2) by (auto simp: new_pages_def)
    have "ref_cnt k' f = 0" if "f \<in> frames a j" for f
    proof -
      have "f \<notin> (\<lambda>p. p div PGSIZE) ` set ps" using nf that by blast
      then show ?thesis using np o(3) [OF that] by (simp add: new_pages_def)
    qed
    moreover have "frames a j \<inter> free_mem k' = {}" using np o(2) by (auto simp: new_pages_def)
    moreover have "p div PGSIZE \<notin> frames a j" if "p \<in> set (P' c)" for c p using that P [of c] nf o(4) by blast
    ultimately show ?thesis using o(1) good_kend [OF ok ok'] by blast
  qed
  then show ?thesis using b unfolding blocks_ok_def L by blast
qed

lemma slab_inv_alloc:
  assumes inv: "slab_inv s L" and mem: "2 \<le> card (free_mem (km s))"
  shows "\<exists>a t. kmem_cache_alloc me c s = Done a t \<and> a \<notin> L (Obj c) \<and> slab_inv t (L(Obj c := insert a (L (Obj c))))"
proof -
  obtain P N F A where s: "unlocked UNIV s" "slab_body UNIV s P N F A" "\<And>c. L (Obj c) \<subseteq> A c"
    "\<And>d. L (Obj G16) \<inter> set (N d) = {}" "blocks_ok (km s) P L"
    using inv by (auto simp: slab_inv_def)
  obtain a t P' N' F' A' ps where t: "kmem_cache_alloc me c s = Done a t" "slab_body UNIV t P' N' F' A'" "unlocked UNIV t"
    "new_pages (km s) ps (km t)" "grown c a ps P N A P' N' A'"
    using cache_alloc_ok [OF s(2,1) mem, of me c] by blast
  have g: "a \<notin> A c" "a \<in> A' c" "\<And>d. A d \<subseteq> A' d" "\<And>d. set (P' d) \<subseteq> set (P d) \<union> set ps"
    "\<And>d. set (N' d) \<subseteq> set (N d) \<union> - A G16" "\<And>d. c = G16 \<Longrightarrow> set (N' d) \<subseteq> A G16"
    using t(5) by (auto simp: grown_def)
  let ?L = "L(Obj c := insert a (L (Obj c)))"
  have "blocks_ok (km t) P' ?L"
    by (rule blocks_frame [OF s(5) slab_bodyD(1) [OF s(2)] t(4) g(4)]) simp
  moreover have "?L (Obj d) \<subseteq> A' d" for d using s(3) [of d] g(2) g(3) [of d] by auto
  moreover have "?L (Obj G16) \<inter> set (N' d) = {}" for d
  proof -
    have "L (Obj G16) \<inter> set (N' d) = {}" using s(3) [of G16] s(4) [of d] g(5) [of d] by blast
    moreover have "a \<notin> set (N' d)" if "c = G16" using g(1) g(6) [OF that, of d] that by blast
    ultimately show ?thesis by auto
  qed
  ultimately have "slab_inv t ?L" using t(2,3) unfolding slab_inv_def by blast
  moreover have "a \<notin> L (Obj c)" using g(1) s(3) [of c] by blast
  ultimately show ?thesis using t(1) by blast
qed

lemma slab_inv_free:
  assumes inv: "slab_inv s L" and a: "a \<in> L (Obj c)"
  shows "\<exists>t. kmem_cache_free me c a s = Done () t \<and> slab_inv t (L(Obj c := L (Obj c) - {a}))"
proof -
  obtain P N F A where s: "unlocked UNIV s" "slab_body UNIV s P N F A" "\<And>c. L (Obj c) \<subseteq> A c"
    "\<And>d. L (Obj G16) \<inter> set (N d) = {}" "blocks_ok (km s) P L"
    using inv by (auto simp: slab_inv_def)
  have aA: "a \<in> A c" "c = G16 \<Longrightarrow> (\<forall>d. a \<notin> set (N d))" using a s(3) [of c] s(4) by blast+
  obtain t F' where t: "kmem_cache_free me c a s = Done () t" "slab_body UNIV t P N F' (A(c := A c - {a}))"
    "unlocked UNIV t" "km t = km s"
    using cache_free_ok [OF s(2,1) aA, of me] by blast
  let ?L = "L(Obj c := L (Obj c) - {a})"
  have "blocks_ok (km t) P ?L" using s(5) t(4) by (simp add: blocks_ok_def)
  moreover have "?L (Obj d) \<subseteq> (A(c := A c - {a})) d" for d using s(3) [of d] by auto
  moreover have "?L (Obj G16) \<inter> set (N d) = {}" for d using s(4) [of d] by auto
  ultimately have "slab_inv t ?L" using t(2,3) unfolding slab_inv_def by blast
  then show ?thesis using t(1) by blast
qed


lemma slab_inv_block:
  assumes inv: "slab_inv s L" and j: "j \<le> MAX_ORDER" and al: "kbuddy_alloc_s me j s = Done (Some a) t"
  shows "a \<notin> L (Run j)" "slab_inv t (L(Run j := insert a (L (Run j))))"
proof -
  obtain P N F A where s: "unlocked UNIV s" "slab_body UNIV s P N F A" "\<And>c. L (Obj c) \<subseteq> A c"
    "\<And>d. L (Obj G16) \<inter> set (N d) = {}" "blocks_ok (km s) P L"
    using inv by (auto simp: slab_inv_def)
  have ok: "kmem_ok (km s)" by (rule slab_bodyD(1) [OF s(2)])
  obtain k where k: "kbuddy_alloc me j (km s) = Done (Some a) k" "t = s\<lparr>km := k\<rparr>"
    using al by (auto simp: kbuddy_alloc_s_def zoom_def split: outcome.splits)
  note b = kbuddy_alloc_some [OF ok j k(1)]
  let ?L = "L(Run j := insert a (L (Run j)))"
  have bl: "buddy_good (buddy (km s)) b i" "frames b i \<inter> free_mem (km s) = {}" "\<And>f. f \<in> frames b i \<Longrightarrow> ref_cnt (km s) f = 0"
    "\<And>c p. p \<in> set (P c) \<Longrightarrow> p div PGSIZE \<notin> frames b i" if "b \<in> L (Run i)" for b i
    using s(5) that unfolding blocks_ok_def by blast+
  have ne: "frames a j \<noteq> {}" by (simp add: frames_def)
  then show "a \<notin> L (Run j)" using bl(2) [of a j] b(4) by blast
  have "slab_body UNIV t P N F A"
    using s(2) b(1,2,5) page_addr_kend [of k "km s"] unfolding slab_body_def k(2) by simp
  moreover have "unlocked UNIV t" using s(1) by (simp add: k(2) unlocked_def)
  moreover have "?L (Obj c) \<subseteq> A c" "?L (Obj G16) \<inter> set (N c) = {}" for c using s(3) [of c] s(4) [of c] by simp_all
  moreover have "blocks_ok (km t) P ?L"
  proof -
    have new: "buddy_good (buddy k) a j" "frames a j \<inter> free_mem k = {}" "\<And>f. f \<in> frames a j \<Longrightarrow> ref_cnt k f = 0"
      "\<And>c p. p \<in> set (P c) \<Longrightarrow> p div PGSIZE \<notin> frames a j"
      using b good_kend [OF ok b(1,2)] kmem_okD(5) [OF ok] slab_bodyD(5) [OF s(2) UNIV_I] by auto
    have old: "buddy_good (buddy k) b' i" "frames b' i \<inter> free_mem k = {}" "\<And>f. f \<in> frames b' i \<Longrightarrow> ref_cnt k f = 0"
      "frames b' i \<inter> frames a j = {}"
      if "b' \<in> L (Run i)" for b' i
      using bl [OF that] b good_kend [OF ok b(1,2)] by auto
    have pair: "frames b' i \<inter> frames c' l = {}" if "b' \<in> ?L (Run i)" "c' \<in> ?L (Run l)" "(i, b') \<noteq> (l, c')" for b' i c' l
    proof -
      have "b' \<in> L (Run i) \<or> i = j \<and> b' = a" "c' \<in> L (Run l) \<or> l = j \<and> c' = a" using that(1,2) by (auto split: if_splits)
      then show ?thesis
        using old(4) s(5) that(3) unfolding blocks_ok_def by (metis Int_commute)
    qed
    have one: "buddy_good (buddy k) b' i \<and> frames b' i \<inter> free_mem k = {} \<and> (\<forall>f\<in>frames b' i. ref_cnt k f = 0) \<and>
        (\<forall>c. \<forall>p\<in>set (P c). p div PGSIZE \<notin> frames b' i)" if "b' \<in> ?L (Run i)" for b' i
    proof -
      have "b' \<in> L (Run i) \<or> i = j \<and> b' = a" using that by (auto split: if_splits)
      then show ?thesis using new old(1-3) bl(4) by blast
    qed
    show ?thesis unfolding blocks_ok_def k(2) using one pair by simp
  qed
  ultimately show "slab_inv t ?L" unfolding slab_inv_def by blast
qed

lemma slab_inv_block_none:
  assumes inv: "slab_inv s L" and j: "j \<le> MAX_ORDER" and al: "kbuddy_alloc_s me j s = Done None t"
  shows "t = s"
proof -
  obtain k where k: "kbuddy_alloc me j (km s) = Done None k" "t = s\<lparr>km := k\<rparr>"
    using al by (auto simp: kbuddy_alloc_s_def zoom_def split: outcome.splits)
  moreover have "kmem_ok (km s)" using inv slab_bodyD(1) by (auto simp: slab_inv_def)
  ultimately show ?thesis using kbuddy_alloc_none [OF _ j k(1)] by simp
qed

lemma slab_inv_block_free:
  assumes inv: "slab_inv s L" and a: "a \<in> L (Run j)"
  shows "\<exists>t. kbuddy_free_s me a j s = Done () t \<and> slab_inv t (L(Run j := L (Run j) - {a}))"
proof -
  obtain P N F A where s: "unlocked UNIV s" "slab_body UNIV s P N F A" "\<And>c. L (Obj c) \<subseteq> A c"
    "\<And>d. L (Obj G16) \<inter> set (N d) = {}" "blocks_ok (km s) P L"
    using inv by (auto simp: slab_inv_def)
  have ok: "kmem_ok (km s)" by (rule slab_bodyD(1) [OF s(2)])
  have bl: "buddy_good (buddy (km s)) b i" "frames b i \<inter> free_mem (km s) = {}" "\<And>f. f \<in> frames b i \<Longrightarrow> ref_cnt (km s) f = 0"
    "\<And>c p. p \<in> set (P c) \<Longrightarrow> p div PGSIZE \<notin> frames b i" if "b \<in> L (Run i)" for b i
    using s(5) that unfolding blocks_ok_def by blast+
  obtain k where k: "kbuddy_free me a j (km s) = Done () k" "kmem_ok k" "kend k = kend (km s)"
    "free_mem k = free_mem (km s) \<union> frames a j" "ref_cnt k = ref_cnt (km s)"
    using kbuddy_free_ok [OF ok bl(1,2,3) [OF a]] by blast
  let ?t = "s\<lparr>km := k\<rparr>" and ?L = "L(Run j := L (Run j) - {a})"
  have fr: "kbuddy_free_s me a j s = Done () ?t" using k(1) by (simp add: kbuddy_free_s_def)
  have "slab_body UNIV ?t P N F A"
    using s(2) k(2,3,4) bl(4) [OF a] page_addr_kend [of k "km s"] unfolding slab_body_def by simp
  moreover have "unlocked UNIV ?t" using s(1) by (simp add: unlocked_def)
  moreover have "?L (Obj c) \<subseteq> A c" "?L (Obj G16) \<inter> set (N c) = {}" for c using s(3) [of c] s(4) [of c] by simp_all
  moreover have "blocks_ok (km ?t) P ?L"
  proof -
    have pair: "frames b' i \<inter> frames c' l = {}" if "b' \<in> L (Run i)" "c' \<in> L (Run l)" "(i, b') \<noteq> (l, c')" for b' i c' l
      using s(5) that unfolding blocks_ok_def by blast
    have sub: "b' \<in> L (Run i)" "(i, b') \<noteq> (j, a)" if "b' \<in> ?L (Run i)" for b' i using that by (auto split: if_splits)
    have pair': "frames b' i \<inter> frames c' l = {}" if "b' \<in> ?L (Run i)" "c' \<in> ?L (Run l)" "(i, b') \<noteq> (l, c')" for b' i c' l
      using pair [OF sub(1) [OF that(1)] sub(1) [OF that(2)] that(3)] .
    have one: "buddy_good (buddy k) b' i \<and> frames b' i \<inter> free_mem k = {} \<and> (\<forall>f\<in>frames b' i. ref_cnt k f = 0) \<and>
        (\<forall>c. \<forall>p\<in>set (P c). p div PGSIZE \<notin> frames b' i)" if "b' \<in> ?L (Run i)" for b' i
      using bl [OF sub(1) [OF that]] pair [OF sub(1) [OF that] a sub(2) [OF that]] k(4,5) good_kend [OF ok k(2,3)] by auto
    show ?thesis unfolding blocks_ok_def using one pair' by simp
  qed
  ultimately have "slab_inv ?t ?L" unfolding slab_inv_def by blast
  then show ?thesis using fr by blast
qed


subsection \<open>Sizes and addresses\<close>

lemma order_from_least:
  assumes "pg \<le> 2 ^ (i + n)"
  shows "\<exists>k. order_from pg i n = Some k \<and> pg \<le> 2 ^ k \<and> (k = i \<or> 2 ^ (k - 1) < pg) \<and> i \<le> k"
  using assms
proof (induction n arbitrary: i)
  case 0
  then show ?case by (subst order_from.simps) simp
next
  case (Suc n)
  show ?case
  proof (cases "pg \<le> 2 ^ i")
    case True
    then show ?thesis by (subst order_from.simps) simp
  next
    case False
    obtain k where k: "order_from pg (i + 1) n = Some k" "pg \<le> 2 ^ k" "k = i + 1 \<or> 2 ^ (k - 1) < pg" "i + 1 \<le> k"
      using Suc.IH [of "i + 1"] Suc.prems by auto
    then show ?thesis using False by (subst order_from.simps) auto
  qed
qed

definition max_kmalloc :: nat where "max_kmalloc = 2 ^ MAX_ORDER * PGSIZE"

lemma page_order_ok:
  assumes "sz \<le> max_kmalloc"
  shows "\<exists>k. page_order sz = Some k \<and> k \<le> MAX_ORDER \<and> sz \<le> 2 ^ k * PGSIZE"
proof -
  let ?pg = "(sz + PGSIZE - 1) div PGSIZE"
  have b: "sz \<le> 8388608" using assms by (simp add: max_kmalloc_def MAX_ORDER_def PGSIZE_def)
  then have pg: "?pg \<le> 2 ^ MAX_ORDER" by (simp add: PGSIZE_def MAX_ORDER_def)
  have "((sz + PGSIZE - 1) mod 2 ^ 64) div PGSIZE mod 2 ^ 32 = ?pg" using b by (simp add: PGSIZE_def)
  then have po: "page_order sz = order_from ?pg 0 31" by (simp add: page_order_def)
  have "(2::nat) ^ MAX_ORDER \<le> 2 ^ (0 + 31)" by (simp add: MAX_ORDER_def)
  then obtain k where k: "page_order sz = Some k" "?pg \<le> 2 ^ k" "k = 0 \<or> 2 ^ (k - 1) < ?pg"
    using order_from_least [of ?pg 0 31] pg po by (metis le_trans)
  have "k \<le> MAX_ORDER"
  proof (rule ccontr)
    assume "\<not> k \<le> MAX_ORDER"
    then have "k \<noteq> 0" "MAX_ORDER \<le> k - 1" by (simp_all add: MAX_ORDER_def)
    then have "(2::nat) ^ MAX_ORDER \<le> 2 ^ (k - 1)" by (intro power_increasing) simp_all
    then show False using k(3) pg \<open>k \<noteq> 0\<close> by linarith
  qed
  moreover have "sz \<le> ?pg * PGSIZE" by (simp add: PGSIZE_def)
  then have "sz \<le> 2 ^ k * PGSIZE" using k(2) by (meson le_trans mult_le_mono1)
  ultimately show ?thesis using k(1) by blast
qed

definition kmem_class :: "nat \<Rightarrow> mclass" where
  "kmem_class sz = (if sz \<le> 1024 then Obj (size_class sz) else Run (the (page_order sz)))"

definition span :: "nat \<Rightarrow> nat \<Rightarrow> nat set" where
  "span a sz = {a ..< a + sz}"

text \<open>
  The sizes \<open>kmfree\<close> handles like \<open>kmalloc\<close>, and the requests for which memory is certain to
  suffice: a cache needs at most two pages to grow.
\<close>

definition kmem_size :: "nat \<Rightarrow> bool" where
  "kmem_size sz \<longleftrightarrow> sz \<le> 1024 \<or> 2048 < sz \<and> sz \<le> max_kmalloc"

definition kmem_req :: "nat \<Rightarrow> slab \<Rightarrow> bool" where
  "kmem_req sz s \<longleftrightarrow> kmem_size sz \<and> (sz \<le> 1024 \<longrightarrow> 2 \<le> card (free_mem (km s)))"

lemma size_class_fits: "sz \<le> 2048 \<Longrightarrow> sz \<le> usz (size_class sz)"
  by (auto simp: size_class_def)

lemma kmem_class_span:
  assumes "kmem_size sz"
  obtains (object) c where "kmem_class sz = Obj c" "\<And>a. span a sz \<subseteq> extent c a" "sz \<le> 1024" "c = size_class sz"
    | (block) j where "kmem_class sz = Run j" "page_order sz = Some j" "j \<le> MAX_ORDER" "2048 < sz"
      "\<And>a x. PGSIZE dvd a \<Longrightarrow> x \<in> span a sz \<Longrightarrow> x div PGSIZE \<in> frames a j"
proof (cases "sz \<le> 1024")
  case True
  have "span a sz \<subseteq> extent (size_class sz) a" for a
    using size_class_fits [of sz] True by (auto simp: span_def extent_def)
  then show ?thesis using object [of "size_class sz"] True by (simp add: kmem_class_def)
next
  case False
  then have sz: "2048 < sz" "sz \<le> max_kmalloc" using assms by (auto simp: kmem_size_def)
  obtain k where k: "page_order sz = Some k" "k \<le> MAX_ORDER" "sz \<le> 2 ^ k * PGSIZE" using page_order_ok [OF sz(2)] by blast
  have "x div PGSIZE \<in> frames a k" if d: "PGSIZE dvd a" "x \<in> span a sz" for a x
  proof -
    obtain b where b: "a = b * PGSIZE" using d(1) by (metis dvd_div_mult_self)
    have "b * PGSIZE \<le> x" "x < b * PGSIZE + sz" using d(2) b by (simp_all add: span_def)
    then have "b * PGSIZE \<le> x" "x < (b + 2 ^ k) * PGSIZE" using k(3) by (simp_all add: add_mult_distrib)
    then have "b \<le> x div PGSIZE" "x div PGSIZE < b + 2 ^ k"
      by (simp_all add: PGSIZE_def less_eq_div_iff_mult_less_eq less_mult_imp_div_less)
    then show ?thesis by (simp add: frames_def b PGSIZE_def)
  qed
  then show ?thesis using block [of k] k sz False by (simp add: kmem_class_def)
qed

text \<open>Writes of the owner of an object or of a block touch no word of a cache.\<close>

lemma foot_frames:
  assumes body: "slab_body UNIV s P N F A" and x: "x \<in> foot d (P d) (N d) (F d)"
  shows "\<exists>c. \<exists>p\<in>set (P c). x div PGSIZE = p div PGSIZE"
proof -
  have ob: "\<exists>c. \<exists>p\<in>set (P c). x div PGSIZE = p div PGSIZE" if b: "b \<in> set (objects e (P e))" "x \<in> extent e b" for e b
  proof -
    obtain p where p: "p \<in> set (P e)" "in_page p x" using objects_pageE [OF b(1)] object_in_page [OF _ b(2)] by metis
    have "PGSIZE dvd p" using slab_bodyD(4) [OF body UNIV_I p(1)] by (simp add: page_addr_def)
    then show ?thesis using p in_page_frame by blast
  qed
  from slab_foot [OF body UNIV_I x] show ?thesis
    using ob [of x d] ob [of _ G16] faptr_free_objects [OF body UNIV_I, of d] slab_bodyD(6) [OF body UNIV_I, of G16]
      object_extent(1) by blast
qed

lemma slab_inv_write:
  assumes inv: "slab_inv s L" and sz: "kmem_size sz" and a: "a \<in> L (kmem_class sz)" and x: "x \<in> span a sz"
  shows "slab_inv (poke x v s) L"
proof -
  obtain P N F A where s: "unlocked UNIV s" "slab_body UNIV s P N F A" "\<And>c. L (Obj c) \<subseteq> A c"
    "\<And>d. L (Obj G16) \<inter> set (N d) = {}" "blocks_ok (km s) P L"
    using inv by (auto simp: slab_inv_def)
  have ok: "kmem_ok (km s)" by (rule slab_bodyD(1) [OF s(2)])
  have "x \<notin> foot d (P d) (N d) (F d)" for d
    using sz
  proof (cases rule: kmem_class_span)
    case (object c)
    then have "a \<in> L (Obj c)" using a by simp
    then have aA: "a \<in> A c" "\<And>e. c = G16 \<Longrightarrow> a \<notin> set (N e)" using s(3) [of c] s(4) by blast+
    have "x \<in> extent c a" using object(2) x by blast
    then show ?thesis using in_use_foot [OF s(2) UNIV_I aA(1) aA(2) UNIV_I] by blast
  next
    case (block j)
    then have aj: "a \<in> L (Run j)" using a by simp
    then have g: "buddy_good (buddy (km s)) a j" "\<And>c p. p \<in> set (P c) \<Longrightarrow> p div PGSIZE \<notin> frames a j"
      using s(5) unfolding blocks_ok_def by blast+
    have "x div PGSIZE \<in> frames a j" using block(5) [OF good_aligned [OF ok g(1)] x] .
    then show ?thesis using foot_frames [OF s(2)] g(2) by metis
  qed
  then have "slab_body UNIV (poke x v s) P N F A"
    by (intro slab_body_frame [OF s(2), of "[]"]) (auto intro: new_pages_refl [OF ok])
  then show ?thesis using s(1,3,4,5) unfolding slab_inv_def unlocked_def by auto
qed


lemma slab_inv_spans:
  assumes inv: "slab_inv s L" and sz: "kmem_size q" "kmem_size r"
    and a: "a \<in> L (kmem_class q)" and b: "b \<in> L (kmem_class r)" and ne: "(a, kmem_class q) \<noteq> (b, kmem_class r)"
  shows "span a q \<inter> span b r = {}"
proof (rule ccontr)
  obtain P N F A where s: "slab_body UNIV s P N F A" "\<And>c. L (Obj c) \<subseteq> A c" "blocks_ok (km s) P L"
    using inv by (auto simp: slab_inv_def)
  have ok: "kmem_ok (km s)" by (rule slab_bodyD(1) [OF s(1)])
  have obj: "y \<in> set (objects c (P c))" if "y \<in> L (Obj c)" for c y using s(2) [of c] slab_bodyD(6) [OF s(1) UNIV_I, of c] that by blast
  have bl: "PGSIZE dvd y" "\<And>c p. p \<in> set (P c) \<Longrightarrow> p div PGSIZE \<notin> frames y j" if "y \<in> L (Run j)" for y j
    using s(3) that good_aligned [OF ok] unfolding blocks_ok_def by blast+
  assume "span a q \<inter> span b r \<noteq> {}"
  then obtain x where x: "x \<in> span a q" "x \<in> span b r" by blast
  have pg: "\<exists>p\<in>set (P c). x div PGSIZE = p div PGSIZE" if y: "y \<in> L (Obj c)" "x \<in> extent c y" for y c
  proof -
    obtain p where p: "p \<in> set (P c)" "in_page p x" using objects_pageE [OF obj [OF y(1)]] object_in_page [OF _ y(2)] by metis
    have "PGSIZE dvd p" using slab_bodyD(4) [OF s(1) UNIV_I p(1)] by (simp add: page_addr_def)
    then show ?thesis using p in_page_frame by blast
  qed
  show False
    using sz(1)
  proof (cases rule: kmem_class_span)
    case (object c)
    then have ac: "a \<in> L (Obj c)" "x \<in> extent c a" using a x by auto
    show False
      using sz(2)
    proof (cases rule: kmem_class_span)
      case o2: (object d)
      then have "b \<in> L (Obj d)" "x \<in> extent d b" using b x by auto
      then show False
        using extents_disjoint [OF s(1) UNIV_I UNIV_I obj obj ac(2)] ac(1) ne object(1) o2(1) by auto
    next
      case (block j)
      then have bj: "b \<in> L (Run j)" "x div PGSIZE \<in> frames b j" using b x bl(1) [of b j] by auto
      then show False using pg [OF ac] bl(2) [OF bj(1)] by metis
    qed
  next
    case (block i)
    then have ai: "a \<in> L (Run i)" "x div PGSIZE \<in> frames a i" using a x bl(1) [of a i] by auto
    show False
      using sz(2)
    proof (cases rule: kmem_class_span)
      case (object d)
      then have "b \<in> L (Obj d)" "x \<in> extent d b" using b x by auto
      then show False using pg bl(2) [OF ai(1)] ai(2) by metis
    next
      case b2: (block j)
      then have "b \<in> L (Run j)" "x div PGSIZE \<in> frames b j" using b x bl(1) [of b j] by auto
      moreover have "(i, a) \<noteq> (j, b)" using ne block(1) b2(1) by auto
      ultimately show False using ai s(3) unfolding blocks_ok_def by blast
    qed
  qed
qed

interpretation kheap: heap_allocator slab_inv kmem_class span kmem_req kmem_size kmalloc kmfree poke
proof
  fix q s show "kmem_req q s \<Longrightarrow> kmem_size q" by (simp add: kmem_req_def)
next
  fix s L q h a t assume inv: "slab_inv s L" and rq: "kmem_req q s" and al: "kmalloc h q s = Done (Some a) t"
  have sz: "kmem_size q" using rq by (simp add: kmem_req_def)
  then show "a \<notin> L (kmem_class q) \<and> slab_inv t (L(kmem_class q := insert a (L (kmem_class q))))"
  proof (cases rule: kmem_class_span)
    case (object c)
    have "2 \<le> card (free_mem (km s))" using rq object(3) by (simp add: kmem_req_def)
    then show ?thesis using slab_inv_alloc [OF inv, of h c] object al by (auto simp: kmalloc_def)
  next
    case (block j)
    then show ?thesis using slab_inv_block [OF inv block(3), of h a t] al by (simp add: kmalloc_def)
  qed
next
  fix s L q h t assume inv: "slab_inv s L" and rq: "kmem_req q s" and al: "kmalloc h q s = Done None t"
  have sz: "kmem_size q" using rq by (simp add: kmem_req_def)
  then show "slab_inv t L"
  proof (cases rule: kmem_class_span)
    case (object c)
    then show ?thesis using al by (auto simp: kmalloc_def bnd_eq_Done)
  next
    case (block j)
    then show ?thesis using slab_inv_block_none [OF inv block(3), of h t] al inv by (simp add: kmalloc_def)
  qed
next
  fix s L q a x v assume "slab_inv s L" "kmem_size q" "a \<in> L (kmem_class q)" "x \<in> span a q"
  then show "slab_inv (poke x v s) L" by (rule slab_inv_write)
next
  fix s L q a h assume inv: "slab_inv s L" and sz: "kmem_size q" and a: "a \<in> L (kmem_class q)"
  from sz show "\<exists>t. kmfree h a q s = Done () t \<and> slab_inv t (L(kmem_class q := L (kmem_class q) - {a}))"
  proof (cases rule: kmem_class_span)
    case (object c)
    then show ?thesis using slab_inv_free [OF inv, of a c h] a by (simp add: kmfree_def)
  next
    case (block j)
    then show ?thesis using slab_inv_block_free [OF inv, of a j h] a by (simp add: kmfree_def)
  qed
next
  fix s L q r a b assume "slab_inv s L" "kmem_size q" "kmem_size r" "a \<in> L (kmem_class q)" "b \<in> L (kmem_class r)"
    "(a, kmem_class q) \<noteq> (b, kmem_class r)"
  then show "span a q \<inter> span b r = {}" by (rule slab_inv_spans)
qed

subsection \<open>Properties\<close>

lemma slab_init_inv:
  assumes "kmem_ok (km s)" "30 \<le> card (free_mem (km s))"
  obtains t where "slab_init me s = Done () t" "slab_inv t (\<lambda>_. {})"
    "card (free_mem (km s)) \<le> card (free_mem (km t)) + 30"
proof -
  obtain t where t: "slab_init me s = Done () t" "ready UNIV s 30 t" using slab_init_ok [OF assms] by blast
  then obtain P N F A rs where r: "slab_body UNIV t P N F A" "unlocked UNIV t" "new_pages (km s) rs (km t)" "length rs \<le> 30"
    by (auto simp: ready_def)
  have "slab_inv t (\<lambda>_. {})" unfolding slab_inv_def blocks_ok_def using r(1,2) by auto
  moreover have "card (free_mem (km s)) \<le> card (free_mem (km t)) + 30"
    using new_pages_card [OF r(3)] r(4) assms(2) by simp
  ultimately show ?thesis using that t(1) by blast
qed


definition boot_slab :: "kmem \<Rightarrow> slab" where
  "boot_slab k = \<lparr>km = k, word_at = (\<lambda>_. 0), caches = (\<lambda>_. \<lparr>cache_size = 0, cache_align = 0, unitsz = 0,
     alloc_count = 0, head = 0, cache_lock = initlock\<rparr>)\<rparr>"

lemma boot_slab_ok:
  obtains k where "kinit boot_kmem = Done () k" "kmem_ok (km (boot_slab k))" "1000 \<le> card (free_mem (km (boot_slab k)))"
proof -
  have pg: "PGROUNDUP 0x80021000 = 0x80021000" by (simp add: PGROUNDUP_def PGSIZE_def)
  obtain k where k: "kinit boot_kmem = Done () k" "refs_ok k k []"
    "free_mem k = {PGROUNDUP (kend boot_kmem) div PGSIZE ..< PHYSTOP div PGSIZE}"
    using kinit_ok [of boot_kmem] by (auto simp: boot_kmem_def pg KERNBASE_def PHYSTOP_def)
  have "card (free_mem k) = PHYSTOP div PGSIZE - 0x80021000 div PGSIZE"
    unfolding k(3) by (simp add: boot_kmem_def pg)
  then have "1000 \<le> card (free_mem k)" by (simp add: PHYSTOP_def KERNBASE_def PGSIZE_def)
  then show ?thesis using that k(1) refs_okD(1) [OF k(2)] by (simp add: boot_slab_def)
qed



text \<open>Objects of the 16-byte cache stay in use when they are freed.\<close>

lemma slab_inv_free_16:
  assumes inv: "slab_inv s L" and a: "a \<in> L (Obj G16)"
  shows "\<exists>t. kmem_cache_free me G16 a s = Done () t \<and> slab_inv t L"
proof -
  obtain P N F A where s: "unlocked UNIV s" "slab_body UNIV s P N F A" "\<And>c. L (Obj c) \<subseteq> A c"
    "\<And>d. L (Obj G16) \<inter> set (N d) = {}" "blocks_ok (km s) P L"
    using inv by (auto simp: slab_inv_def)
  have aA: "a \<in> A G16" "G16 = G16 \<Longrightarrow> (\<forall>d. a \<notin> set (N d))" using a s(3) [of G16] s(4) by blast+
  obtain t F' where t: "kmem_cache_free me G16 a s = Done () t" "slab_body UNIV t P N F' A" "unlocked UNIV t" "km t = km s"
    using cache_free_ok [OF s(2,1) aA, of me] by auto
  have "blocks_ok (km t) P L" using s(5) t(4) by simp
  then show ?thesis using t(1,2,3) s(3,4) unfolding slab_inv_def by blast
qed

text \<open>
  C21. An object of 9 to 16 bytes that has been given back is lost: \<open>kmfree\<close> returns, but
  in no later history of the allocator is its address handed out again for such a size.
  (\<open>free_small_object_pool\<close> puts it on the list that starts at the second word of the first
  page, \<open>alloc_small_object_pool\<close> takes from the one that starts at the second object.)
\<close>

theorem kmfree_16_lost:
  assumes "slab_inv s L" "a \<in> L (Obj G16)" "8 < sz" "sz \<le> 16"
  shows "\<exists>t. kmfree h a sz s = Done () t \<and>
    (\<forall>u own. heap_run kmalloc kmfree poke span kmem_req t u own \<longrightarrow>
       (\<forall>(b, r)\<in>set own. 8 < r \<and> r \<le> 16 \<longrightarrow> b \<noteq> a))"
proof -
  have c: "size_class r = G16" if "8 < r" "r \<le> 16" for r using that by (simp add: size_class_def)
  obtain t where t: "kmem_cache_free h G16 a s = Done () t" "slab_inv t L" using slab_inv_free_16 [OF assms(1,2)] by blast
  have "b \<noteq> a" if "heap_run kmalloc kmfree poke span kmem_req t u own" "(b, r) \<in> set own" "8 < r" "r \<le> 16" for u own b r
  proof -
    have "kmem_class r = Obj G16" using c that(3,4) by (simp add: kmem_class_def)
    then have "b \<in> kheap.owned own (Obj G16)" using that(2) by (auto simp: kheap.owned_def)
    then show ?thesis using kheap.heap_invariant [OF that(1) t(2)] assms(2) by blast
  qed
  moreover have "kmfree h a sz s = Done () t" using t(1) c [OF assms(3,4)] assms(4) by (simp add: kmfree_def)
  ultimately show ?thesis by blast
qed

theorem kmfree_16_lost_witness:
  "\<exists>s L a t. slab_inv s L \<and> a \<in> L (Obj G16) \<and> kmfree 0 a 16 s = Done () t \<and>
     (a, 16) \<notin> (\<Union>own\<in>{own. \<exists>u. heap_run kmalloc kmfree poke span kmem_req t u own}. set own)"
proof -
  obtain k where k: "kmem_ok (km (boot_slab k))" "1000 \<le> card (free_mem (km (boot_slab k)))"
    using boot_slab_ok by blast
  then have m: "30 \<le> card (free_mem (km (boot_slab k)))" by simp
  obtain s0 where s0: "slab_inv s0 (\<lambda>_. {})" "card (free_mem (km (boot_slab k))) \<le> card (free_mem (km s0)) + 30"
    using slab_init_inv [OF k(1) m] by metis
  have m0: "2 \<le> card (free_mem (km s0))" using s0(2) k(2) by simp
  obtain a s where s: "kmem_cache_alloc 0 G16 s0 = Done a s" "slab_inv s ((\<lambda>_. {})(Obj G16 := {a}))"
    using slab_inv_alloc [OF s0(1) m0, of 0 G16] by auto
  let ?L = "(\<lambda>_. {})(Obj G16 := {a})"
  obtain t where t: "kmfree 0 a 16 s = Done () t"
    "\<forall>u own. heap_run kmalloc kmfree poke span kmem_req t u own \<longrightarrow> (\<forall>(b, r)\<in>set own. 8 < r \<and> r \<le> 16 \<longrightarrow> b \<noteq> a)"
    using kmfree_16_lost [OF s(2), of a 16 0] by auto
  then show ?thesis using s(2) by (intro exI [of _ s] exI [of _ ?L] exI [of _ a] exI [of _ t]) fastforce
qed

end
