(* ===== verification/Vm.thy ===== *)
theory Vm
  imports Pmem
begin

unbundle bit_operations_syntax

section \<open>Page tables and user memory (kernel/vm.c)\<close>

text \<open>
  The Sv39 page tables: \<open>walk\<close> and everything built on it, the copying of user memory at
  \<open>fork\<close>, the copy-on-write functions of \<open>kalloc.c\<close> and the copies between kernel and
  user space.  A page table is a tree of pages of \<open>kalloc\<close> whose entries are the words
  \<open>word_at\<close> of those pages, user data are the bytes \<open>phys\<close> of the mapped pages; a page
  is used either way, never both.  Entries are natural numbers below \<open>2 ^ 64\<close>, on which
  the code works with the bit operations.  The null pointer is 0.

  \<open>kalloc\<close> faults when there is no free page, so the branches that test its result for
  null are written as in the source but are never taken.
\<close>

subsection \<open>Entries (riscv.h)\<close>

definition PTE_V :: nat where "PTE_V = 2 ^ 0"
definition PTE_R :: nat where "PTE_R = 2 ^ 1"
definition PTE_W :: nat where "PTE_W = 2 ^ 2"
definition PTE_X :: nat where "PTE_X = 2 ^ 3"
definition PTE_U :: nat where "PTE_U = 2 ^ 4"
definition PTE_F :: nat where "PTE_F = 2 ^ 8"

definition PA2PTE :: "nat \<Rightarrow> nat" where "PA2PTE pa = push_bit 10 (drop_bit 12 pa)"
definition PTE2PA :: "nat \<Rightarrow> nat" where "PTE2PA pte = take_bit 64 (push_bit 12 (drop_bit 10 pte))"
definition PTE_FLAGS :: "nat \<Rightarrow> nat" where "PTE_FLAGS pte = pte AND 0x3FF"
definition PX :: "nat \<Rightarrow> nat \<Rightarrow> nat" where "PX level va = drop_bit (12 + 9 * level) va AND 0x1FF"

text \<open>\<open>x & ~m\<close>.\<close>

definition clear_bits :: "nat \<Rightarrow> nat \<Rightarrow> nat" where
  "clear_bits x m = (x OR m) XOR m"

subsection \<open>Memory\<close>

definition pm_memset0 :: "nat \<Rightarrow> 'a pmem_scheme \<Rightarrow> 'a pmem_scheme" where
  "pm_memset0 pa s = s\<lparr>km := memset_page pa 0 (km s), word_at := fill_words pa 0 (word_at s)\<rparr>"

definition load_bytes :: "nat \<Rightarrow> nat \<Rightarrow> 'a pmem_scheme \<Rightarrow> 8 word list" where
  "load_bytes a n s = map (\<lambda>i. phys (km s) (a + i)) [0..<n]"

definition store_bytes :: "nat \<Rightarrow> 8 word list \<Rightarrow> 'a pmem_scheme \<Rightarrow> 'a pmem_scheme" where
  "store_bytes a bs s = s\<lparr>km := (km s)\<lparr>phys :=
     (\<lambda>x. if a \<le> x \<and> x < a + length bs then bs ! (x - a) else phys (km s) x)\<rparr>\<rparr>"

definition pm_kaddrefcnt :: "nat \<Rightarrow> nat \<Rightarrow> 'a pmem_scheme \<Rightarrow> (int, 'a pmem_scheme) outcome" where
  "pm_kaddrefcnt me pa = zoom km (\<lambda>k s. s\<lparr>km := k\<rparr>) (kaddrefcnt me pa)"

subsection \<open>Walking the table\<close>

text \<open>The loop of \<open>walk\<close> from \<open>level\<close> down.\<close>

fun walk_from :: "nat \<Rightarrow> nat \<Rightarrow> nat \<Rightarrow> nat \<Rightarrow> bool \<Rightarrow> 'a pmem_scheme \<Rightarrow> (nat, 'a pmem_scheme) outcome" where
  "walk_from me 0 pagetable va alloc s = Done (pagetable + 8 * PX 0 va) s"
| "walk_from me (Suc l) pagetable va alloc s =
     (let pte = pagetable + 8 * PX (Suc l) va in
      if word_at s pte AND PTE_V \<noteq> 0 then walk_from me l (PTE2PA (word_at s pte)) va alloc s
      else if \<not> alloc then Done 0 s
      else bnd (pm_kalloc me s) (\<lambda>pagetable s.
           if pagetable = 0 then Done 0 s
           else walk_from me l pagetable va alloc
                  (poke pte (PA2PTE pagetable OR PTE_V) (pm_memset0 pagetable s))))"

definition walk :: "nat \<Rightarrow> nat \<Rightarrow> nat \<Rightarrow> bool \<Rightarrow> 'a pmem_scheme \<Rightarrow> (nat, 'a pmem_scheme) outcome" where
  "walk me pagetable va alloc s =
     (if MAXVA \<le> va then Panic ''walk'' else walk_from me 2 pagetable va alloc s)"

definition walkaddr :: "nat \<Rightarrow> nat \<Rightarrow> nat \<Rightarrow> 'a pmem_scheme \<Rightarrow> (nat, 'a pmem_scheme) outcome" where
  "walkaddr me pagetable va s =
     (if MAXVA \<le> va then Done 0 s
      else bnd (walk me pagetable va False s) (\<lambda>pte s.
        if pte = 0 then Done 0 s
        else if word_at s pte AND PTE_V = 0 then Done 0 s
        else if word_at s pte AND PTE_U = 0 then Done 0 s
        else Done (PTE2PA (word_at s pte)) s))"

lemma walk_Done_MAXVA: "walk me pagetable va alloc s = Done x t \<Longrightarrow> va < MAXVA"
  by (auto simp: walk_def split: if_splits)

subsection \<open>Mapping and unmapping\<close>

text \<open>
  The loop of \<open>mappages\<close>: it ends at \<open>last\<close> (\<open>lst\<close>), or in the panic of \<open>walk\<close> above
  \<open>MAXVA\<close>.
\<close>

function map_loop :: "nat \<Rightarrow> nat \<Rightarrow> nat \<Rightarrow> nat \<Rightarrow> nat \<Rightarrow> nat \<Rightarrow> 'a pmem_scheme \<Rightarrow> (int, 'a pmem_scheme) outcome" where
  "map_loop me pagetable a lst pa perm s =
     bnd (walk me pagetable a True s) (\<lambda>pte s.
     if pte = 0 then Done (-1) s
     else if word_at s pte AND PTE_V \<noteq> 0 then Panic ''mappages: remap''
     else let s = poke pte (PA2PTE pa OR perm OR PTE_V) s in
          if a = lst then Done 0 s
          else map_loop me pagetable (a + PGSIZE) lst (pa + PGSIZE) perm s)"
  by pat_completeness auto

termination
  by (relation "measure (\<lambda>(me, pagetable, a, lst, pa, perm, s). MAXVA - a)")
    (auto dest!: walk_Done_MAXVA simp: PGSIZE_def)

definition mappages :: "nat \<Rightarrow> nat \<Rightarrow> nat \<Rightarrow> nat \<Rightarrow> nat \<Rightarrow> nat \<Rightarrow> 'a pmem_scheme \<Rightarrow> (int, 'a pmem_scheme) outcome" where
  "mappages me pagetable va sz pa perm s =
     (if va mod PGSIZE \<noteq> 0 then Panic ''mappages: va not aligned''
      else if sz mod PGSIZE \<noteq> 0 then Panic ''mappages: size not aligned''
      else if sz = 0 then Panic ''mappages: size''
      else map_loop me pagetable va ((va + sz - PGSIZE) mod 2 ^ 64) pa perm s)"

text \<open>The loop of \<open>uvmunmap\<close> from \<open>a\<close> up to \<open>e = va + npages * PGSIZE\<close>.\<close>

function unmap_loop :: "nat \<Rightarrow> nat \<Rightarrow> nat \<Rightarrow> nat \<Rightarrow> bool \<Rightarrow> 'a pmem_scheme \<Rightarrow> (unit, 'a pmem_scheme) outcome" where
  "unmap_loop me pagetable a e do_free s =
     (if a < e then
        bnd (walk me pagetable a False s) (\<lambda>pte s.
        if pte = 0 then unmap_loop me pagetable (a + PGSIZE) e do_free s
        else if word_at s pte AND PTE_V = 0 then unmap_loop me pagetable (a + PGSIZE) e do_free s
        else if PTE_FLAGS (word_at s pte) = PTE_V then Panic ''uvmunmap: not a leaf''
        else bnd (if do_free then pm_kfree me (PTE2PA (word_at s pte)) s else Done () s) (\<lambda>_ s.
             unmap_loop me pagetable (a + PGSIZE) e do_free (poke pte 0 s)))
      else Done () s)"
  by pat_completeness auto

termination
  by (relation "measure (\<lambda>(me, pagetable, a, e, do_free, s). e - a)") (auto simp: PGSIZE_def)

definition uvmunmap :: "nat \<Rightarrow> nat \<Rightarrow> nat \<Rightarrow> nat \<Rightarrow> bool \<Rightarrow> 'a pmem_scheme \<Rightarrow> (unit, 'a pmem_scheme) outcome" where
  "uvmunmap me pagetable va npages do_free s =
     (if va mod PGSIZE \<noteq> 0 then Panic ''uvmunmap: not aligned''
      else unmap_loop me pagetable va ((va + npages * PGSIZE) mod 2 ^ 64) do_free s)"

definition uvmcreate :: "nat \<Rightarrow> 'a pmem_scheme \<Rightarrow> (nat, 'a pmem_scheme) outcome" where
  "uvmcreate me s =
     bnd (pm_kalloc me s) (\<lambda>pagetable s.
     if pagetable = 0 then Done 0 s else Done pagetable (pm_memset0 pagetable s))"

definition uvmfirst :: "nat \<Rightarrow> nat \<Rightarrow> 8 word list \<Rightarrow> 'a pmem_scheme \<Rightarrow> (unit, 'a pmem_scheme) outcome" where
  "uvmfirst me pagetable src s =
     (if PGSIZE \<le> length src then Panic ''uvmfirst: more than a page''
      else bnd (pm_kalloc me s) (\<lambda>mem s.
           bnd (mappages me pagetable 0 PGSIZE mem (PTE_W OR PTE_R OR PTE_X OR PTE_U) (pm_memset0 mem s)) (\<lambda>_ s.
           Done () (store_bytes mem src s))))"

subsection \<open>Growing and shrinking a process\<close>

definition uvmdealloc :: "nat \<Rightarrow> nat \<Rightarrow> nat \<Rightarrow> nat \<Rightarrow> 'a pmem_scheme \<Rightarrow> (nat, 'a pmem_scheme) outcome" where
  "uvmdealloc me pagetable oldsz newsz s =
     (if oldsz \<le> newsz then Done oldsz s
      else if PGROUNDUP newsz < PGROUNDUP oldsz
      then bnd (uvmunmap me pagetable (PGROUNDUP newsz) ((PGROUNDUP oldsz - PGROUNDUP newsz) div PGSIZE) True s)
             (\<lambda>_ s. Done newsz s)
      else Done newsz s)"

function alloc_loop :: "nat \<Rightarrow> nat \<Rightarrow> nat \<Rightarrow> nat \<Rightarrow> nat \<Rightarrow> nat \<Rightarrow> 'a pmem_scheme \<Rightarrow> (nat, 'a pmem_scheme) outcome" where
  "alloc_loop me pagetable oldsz a newsz xperm s =
     (if a < newsz then
        bnd (pm_kalloc me s) (\<lambda>mem s.
        if mem = 0 then bnd (uvmdealloc me pagetable a oldsz s) (\<lambda>_ s. Done 0 s)
        else bnd (mappages me pagetable a PGSIZE mem (PTE_R OR PTE_U OR xperm) (pm_memset0 mem s)) (\<lambda>r s.
             if r \<noteq> 0 then bnd (pm_kfree me mem s) (\<lambda>_ s.
                            bnd (uvmdealloc me pagetable a oldsz s) (\<lambda>_ s. Done 0 s))
             else alloc_loop me pagetable oldsz (a + PGSIZE) newsz xperm s))
      else Done newsz s)"
  by pat_completeness auto

termination
  by (relation "measure (\<lambda>(me, pagetable, oldsz, a, newsz, xperm, s). newsz - a)") (auto simp: PGSIZE_def)

definition uvmalloc :: "nat \<Rightarrow> nat \<Rightarrow> nat \<Rightarrow> nat \<Rightarrow> nat \<Rightarrow> 'a pmem_scheme \<Rightarrow> (nat, 'a pmem_scheme) outcome" where
  "uvmalloc me pagetable oldsz newsz xperm s =
     (if newsz < oldsz then Done oldsz s
      else alloc_loop me pagetable (PGROUNDUP oldsz) (PGROUNDUP oldsz) newsz xperm s)"

text \<open>
  \<open>sz\<close> and \<open>ustack_top\<close> are the fields of the running process.  The page is allocated
  before the address is checked and is not given back when the check fails.
\<close>

definition uvlazyalloc :: "nat \<Rightarrow> nat \<Rightarrow> nat \<Rightarrow> nat \<Rightarrow> nat \<Rightarrow> 'a pmem_scheme \<Rightarrow> (int, 'a pmem_scheme) outcome" where
  "uvlazyalloc me sz ustack_top pagetable va s =
     bnd (pm_kalloc me s) (\<lambda>mem s.
     let va = PGROUNDDOWN va in
     if sz < va then Done (-1) s
     else if va < ustack_top then Done (-1) s
     else if mem \<noteq> 0 then
       bnd (mappages me pagetable va PGSIZE mem (PTE_R OR PTE_U OR PTE_W OR PTE_X) (pm_memset0 mem s)) (\<lambda>r s.
       if r \<noteq> 0 then bnd (pm_kfree me mem s) (\<lambda>_ s.
                      bnd (uvmdealloc me pagetable va sz s) (\<lambda>_ s. Done 1 s))
       else Done 1 s)
     else Done (-1) s)"

text \<open>
  \<open>freewalk\<close> calls itself on every valid entry that is not a leaf.  \<open>d\<close> bounds the depth of
  the recursion: the kernel stack is one page above an unmapped guard page, so a recursion
  that is too deep faults.  Three levels are enough for a well-formed table.
\<close>

fun freewalk :: "nat \<Rightarrow> nat \<Rightarrow> nat \<Rightarrow> 'a pmem_scheme \<Rightarrow> (unit, 'a pmem_scheme) outcome"
and freewalk_loop :: "nat \<Rightarrow> nat \<Rightarrow> nat \<Rightarrow> nat \<Rightarrow> 'a pmem_scheme \<Rightarrow> (unit, 'a pmem_scheme) outcome" where
  "freewalk me 0 pagetable s = Fault"
| "freewalk me (Suc d) pagetable s =
     bnd (freewalk_loop me d pagetable 512 s) (\<lambda>_ s. pm_kfree me pagetable s)"
| "freewalk_loop me d pagetable 0 s = Done () s"
| "freewalk_loop me d pagetable (Suc n) s =
     (let i = 511 - n; pte = word_at s (pagetable + 8 * i) in
      if pte AND PTE_V \<noteq> 0 \<and> pte AND (PTE_R OR PTE_W OR PTE_X) = 0
      then bnd (freewalk me d (PTE2PA pte) s) (\<lambda>_ s.
           freewalk_loop me d pagetable n (poke (pagetable + 8 * i) 0 s))
      else if pte AND PTE_V \<noteq> 0 then Panic ''freewalk: leaf''
      else freewalk_loop me d pagetable n s)"

definition uvmfree :: "nat \<Rightarrow> nat \<Rightarrow> nat \<Rightarrow> 'a pmem_scheme \<Rightarrow> (unit, 'a pmem_scheme) outcome" where
  "uvmfree me pagetable sz s =
     bnd (if 0 < sz then uvmunmap me pagetable 0 (PGROUNDUP sz div PGSIZE) True s else Done () s) (\<lambda>_ s.
     freewalk me 3 pagetable s)"

subsection \<open>Copying an address space, copy on write\<close>

text \<open>
  \<open>uvmcopy\<close> from address \<open>i\<close>.  It gives the child a copy of every page and also
  marks the parent's entry for copy on write and counts a reference to the parent's page.
\<close>

function copy_loop :: "nat \<Rightarrow> nat \<Rightarrow> nat \<Rightarrow> nat \<Rightarrow> nat \<Rightarrow> 'a pmem_scheme \<Rightarrow> (int, 'a pmem_scheme) outcome" where
  "copy_loop me old new i sz s =
     (if i < sz then
        bnd (walk me old i False s) (\<lambda>pte s.
        if pte = 0 then copy_loop me old new (i + PGSIZE) sz s
        else if word_at s pte AND PTE_V = 0 then copy_loop me old new (i + PGSIZE) sz s
        else
          let pa = PTE2PA (word_at s pte);
              flags = PTE_FLAGS (word_at s pte);
              cow = flags AND PTE_W \<noteq> 0;
              flags = (if cow then clear_bits (flags OR PTE_F) PTE_W else flags);
              s = (if cow then poke pte (PA2PTE pa OR flags) s else s) in
          bnd (pm_kalloc me s) (\<lambda>mem s.
          if mem = 0 then bnd (uvmunmap me new 0 (i div PGSIZE) True s) (\<lambda>_ s. Done (-1) s)
          else bnd (mappages me new i PGSIZE mem flags (store_bytes mem (load_bytes pa PGSIZE s) s)) (\<lambda>r s.
               if r \<noteq> 0 then bnd (pm_kfree me mem s) (\<lambda>_ s.
                              bnd (uvmunmap me new 0 (i div PGSIZE) True s) (\<lambda>_ s. Done (-1) s))
               else bnd (pm_kaddrefcnt me pa s) (\<lambda>_ s.
                    copy_loop me old new (i + PGSIZE) sz s))))
      else Done 0 s)"
  by pat_completeness auto

termination
  by (relation "measure (\<lambda>(me, old, new, i, sz, s). sz - i)") (auto simp: PGSIZE_def)

definition uvmcopy :: "nat \<Rightarrow> nat \<Rightarrow> nat \<Rightarrow> nat \<Rightarrow> 'a pmem_scheme \<Rightarrow> (int, 'a pmem_scheme) outcome" where
  "uvmcopy me old new sz s = copy_loop me old new 0 sz s"

definition uvmclear :: "nat \<Rightarrow> nat \<Rightarrow> nat \<Rightarrow> 'a pmem_scheme \<Rightarrow> (unit, 'a pmem_scheme) outcome" where
  "uvmclear me pagetable va s =
     bnd (walk me pagetable va False s) (\<lambda>pte s.
     if pte = 0 then Panic ''uvmclear'' else Done () (poke pte (clear_bits (word_at s pte) PTE_U) s))"

definition cowpage :: "nat \<Rightarrow> nat \<Rightarrow> nat \<Rightarrow> 'a pmem_scheme \<Rightarrow> (int, 'a pmem_scheme) outcome" where
  "cowpage me pagetable va s =
     (if MAXVA \<le> va then Done (-1) s
      else bnd (walk me pagetable va False s) (\<lambda>pte s.
        if pte = 0 then Done (-1) s
        else if word_at s pte AND PTE_V = 0 then Done (-1) s
        else if word_at s pte AND PTE_F = 0 then Done (-1) s
        else Done 0 s))"

definition cowalloc :: "nat \<Rightarrow> nat \<Rightarrow> nat \<Rightarrow> 'a pmem_scheme \<Rightarrow> (nat, 'a pmem_scheme) outcome" where
  "cowalloc me pagetable va s =
     (if va mod PGSIZE \<noteq> 0 then Done 0 s
      else bnd (walkaddr me pagetable va s) (\<lambda>pa s.
        if pa = 0 then Done 0 s
        else bnd (walk me pagetable va False s) (\<lambda>pte s.
          if krefcnt pa (km s) = 1
          then Done pa (poke pte (clear_bits (word_at s pte OR PTE_W) PTE_F) s)
          else bnd (pm_kalloc me s) (\<lambda>mem s.
               if mem = 0 then Done 0 s
               else
                 let s = store_bytes mem (load_bytes pa PGSIZE s) s;
                     s = poke pte (clear_bits (word_at s pte) PTE_V) s in
                 bnd (mappages me pagetable va PGSIZE mem
                        (clear_bits (PTE_FLAGS (word_at s pte) OR PTE_W) PTE_F) s) (\<lambda>r s.
                 if r \<noteq> 0 then bnd (pm_kfree me mem s) (\<lambda>_ s.
                                Done 0 (poke pte (word_at s pte OR PTE_V) s))
                 else bnd (pm_kfree me (PGROUNDDOWN pa) s) (\<lambda>_ s. Done mem s))))))"

subsection \<open>Copies between kernel and user space\<close>

text \<open>
  \<open>copyout\<close> gets the bytes of the kernel buffer; \<open>copyin\<close> and \<open>copyinstr\<close> return the
  bytes they have stored at \<open>dst\<close>, those of the error cases included.
\<close>

function copyout :: "nat \<Rightarrow> nat \<Rightarrow> nat \<Rightarrow> 8 word list \<Rightarrow> 'a pmem_scheme \<Rightarrow> (int, 'a pmem_scheme) outcome" where
  "copyout me pagetable dstva src s =
     (if src \<noteq> [] then
        let va0 = PGROUNDDOWN dstva in
        if MAXVA \<le> va0 then Done (-1) s
        else bnd (walk me pagetable va0 False s) (\<lambda>pte s.
          if pte = 0 \<or> word_at s pte AND PTE_V = 0 \<or> word_at s pte AND PTE_U = 0 \<or> word_at s pte AND PTE_W = 0
          then Done (-1) s
          else
            let pa0 = PTE2PA (word_at s pte);
                n = min (PGSIZE - (dstva - va0)) (length src) in
            copyout me pagetable (va0 + PGSIZE) (drop n src)
              (store_bytes (pa0 + (dstva - va0)) (take n src) s))
      else Done 0 s)"
  by pat_completeness auto

termination
proof (relation "measure (\<lambda>(me, pagetable, dstva, src, s). length src)", goal_cases)
  case (2 me pagetable dstva src s va0 pte t pa0 n)
  have "dstva - PGROUNDDOWN dstva < PGSIZE"
    by (simp add: PGROUNDDOWN_def PGSIZE_def minus_div_mult_eq_mod)
  then show ?case using 2 by auto
qed simp

function copyin :: "nat \<Rightarrow> nat \<Rightarrow> nat \<Rightarrow> nat \<Rightarrow> 'a pmem_scheme \<Rightarrow> (int \<times> 8 word list, 'a pmem_scheme) outcome" where
  "copyin me pagetable srcva len s =
     (if 0 < len then
        let va0 = PGROUNDDOWN srcva in
        bnd (walkaddr me pagetable va0 s) (\<lambda>pa0 s.
        if pa0 = 0 then Done (-1, []) s
        else
          let n = min (PGSIZE - (srcva - va0)) len in
          bnd (copyin me pagetable (va0 + PGSIZE) (len - n) s) (\<lambda>(r, bs) t.
          Done (r, load_bytes (pa0 + (srcva - va0)) n s @ bs) t))
      else Done (0, []) s)"
  by pat_completeness auto

termination
proof (relation "measure (\<lambda>(me, pagetable, srcva, len, s). len)", goal_cases)
  case (2 me pagetable srcva len s va0 pa0 t n)
  have "srcva - PGROUNDDOWN srcva < PGSIZE"
    by (simp add: PGROUNDDOWN_def PGSIZE_def minus_div_mult_eq_mod)
  then show ?case using 2 by auto
qed simp

text \<open>The inner loop of \<open>copyinstr\<close>: the bytes up to the first null byte, if there is one.\<close>

fun str_chunk :: "8 word list \<Rightarrow> bool \<times> 8 word list" where
  "str_chunk [] = (False, [])"
| "str_chunk (c # cs) = (if c = 0 then (True, [0]) else (let (g, bs) = str_chunk cs in (g, c # bs)))"

function copyinstr :: "nat \<Rightarrow> nat \<Rightarrow> nat \<Rightarrow> nat \<Rightarrow> 'a pmem_scheme \<Rightarrow> (int \<times> 8 word list, 'a pmem_scheme) outcome" where
  "copyinstr me pagetable srcva mx s =
     (if 0 < mx then
        let va0 = PGROUNDDOWN srcva in
        bnd (walkaddr me pagetable va0 s) (\<lambda>pa0 s.
        if pa0 = 0 then Done (-1, []) s
        else
          let n = min (PGSIZE - (srcva - va0)) mx;
              (got_null, bs) = str_chunk (load_bytes (pa0 + (srcva - va0)) n s) in
          if got_null then Done (0, bs) s
          else bnd (copyinstr me pagetable (va0 + PGSIZE) (mx - n) s) (\<lambda>(r, cs) s. Done (r, bs @ cs) s))
      else Done (-1, []) s)"
  by pat_completeness auto

termination
proof (relation "measure (\<lambda>(me, pagetable, srcva, mx, s). mx)", goal_cases)
  case (2 me pagetable srcva mx s va0 pa0 t n)
  have "srcva - PGROUNDDOWN srcva < PGSIZE"
    by (simp add: PGROUNDDOWN_def PGSIZE_def minus_div_mult_eq_mod)
  then show ?case using 2 by auto
qed simp

subsection \<open>The kernel's own table, the table of a new process\<close>

definition kvmmap :: "nat \<Rightarrow> nat \<Rightarrow> nat \<Rightarrow> nat \<Rightarrow> nat \<Rightarrow> nat \<Rightarrow> 'a pmem_scheme \<Rightarrow> (unit, 'a pmem_scheme) outcome" where
  "kvmmap me kpgtbl va pa sz perm s =
     bnd (mappages me kpgtbl va sz pa perm s) (\<lambda>r s. if r \<noteq> 0 then Panic ''kvmmap'' else Done () s)"

definition UART0 :: nat where "UART0 = 0x10000000"
definition VIRTIO0 :: nat where "VIRTIO0 = 0x10001000"
definition PLIC :: nat where "PLIC = 0x0c000000"
definition NPROC :: nat where "NPROC = 64"

text \<open>\<open>proc_mapstacks\<close> of \<open>proc.c\<close>: a stack and a guard page for each process slot.\<close>

fun mapstacks_from :: "nat \<Rightarrow> nat \<Rightarrow> nat list \<Rightarrow> 'a pmem_scheme \<Rightarrow> (unit, 'a pmem_scheme) outcome" where
  "mapstacks_from me kpgtbl [] s = Done () s"
| "mapstacks_from me kpgtbl (p # ps) s =
     bnd (pm_kalloc me s) (\<lambda>pa s.
     if pa = 0 then Panic ''kalloc''
     else bnd (kvmmap me kpgtbl (KSTACK p) pa PGSIZE (PTE_R OR PTE_W) s) (\<lambda>_ s. mapstacks_from me kpgtbl ps s))"

definition proc_mapstacks :: "nat \<Rightarrow> nat \<Rightarrow> 'a pmem_scheme \<Rightarrow> (unit, 'a pmem_scheme) outcome" where
  "proc_mapstacks me kpgtbl = mapstacks_from me kpgtbl [0..<NPROC]"

text \<open>\<open>etext\<close> and \<open>trampoline\<close> are addresses the linker gives.\<close>

definition kvmmake :: "nat \<Rightarrow> nat \<Rightarrow> nat \<Rightarrow> 'a pmem_scheme \<Rightarrow> (nat, 'a pmem_scheme) outcome" where
  "kvmmake me etext trampoline s =
     bnd (pm_kalloc me s) (\<lambda>kpgtbl s.
     bnd (kvmmap me kpgtbl UART0 UART0 PGSIZE (PTE_R OR PTE_W) (pm_memset0 kpgtbl s)) (\<lambda>_ s.
     bnd (kvmmap me kpgtbl VIRTIO0 VIRTIO0 PGSIZE (PTE_R OR PTE_W) s) (\<lambda>_ s.
     bnd (kvmmap me kpgtbl PLIC PLIC 0x4000000 (PTE_R OR PTE_W) s) (\<lambda>_ s.
     bnd (kvmmap me kpgtbl KERNBASE KERNBASE (etext - KERNBASE) (PTE_R OR PTE_X) s) (\<lambda>_ s.
     bnd (kvmmap me kpgtbl etext etext (PHYSTOP - etext) (PTE_R OR PTE_W) s) (\<lambda>_ s.
     bnd (kvmmap me kpgtbl TRAMPOLINE trampoline PGSIZE (PTE_R OR PTE_X) s) (\<lambda>_ s.
     bnd (proc_mapstacks me kpgtbl s) (\<lambda>_ s. Done kpgtbl s))))))))"

text \<open>\<open>proc_pagetable\<close> and \<open>proc_freepagetable\<close> of \<open>proc.c\<close>.\<close>

definition proc_pagetable :: "nat \<Rightarrow> nat \<Rightarrow> nat \<Rightarrow> 'a pmem_scheme \<Rightarrow> (nat, 'a pmem_scheme) outcome" where
  "proc_pagetable me trampoline trapframe s =
     bnd (uvmcreate me s) (\<lambda>pagetable s.
     if pagetable = 0 then Done 0 s
     else bnd (mappages me pagetable TRAMPOLINE PGSIZE trampoline (PTE_R OR PTE_X) s) (\<lambda>r s.
       if r < 0 then bnd (uvmfree me pagetable 0 s) (\<lambda>_ s. Done 0 s)
       else bnd (mappages me pagetable TRAPFRAME PGSIZE trapframe (PTE_R OR PTE_W) s) (\<lambda>r s.
         if r < 0 then bnd (uvmunmap me pagetable TRAMPOLINE 1 False s) (\<lambda>_ s.
                       bnd (uvmfree me pagetable 0 s) (\<lambda>_ s. Done 0 s))
         else Done pagetable s)))"

definition proc_freepagetable :: "nat \<Rightarrow> nat \<Rightarrow> nat \<Rightarrow> 'a pmem_scheme \<Rightarrow> (unit, 'a pmem_scheme) outcome" where
  "proc_freepagetable me pagetable sz s =
     bnd (uvmunmap me pagetable TRAMPOLINE 1 False s) (\<lambda>_ s.
     bnd (uvmunmap me pagetable TRAPFRAME 1 False s) (\<lambda>_ s.
     uvmfree me pagetable sz s))"

declare map_loop.simps [simp del] unmap_loop.simps [simp del] alloc_loop.simps [simp del]
  copy_loop.simps [simp del] copyout.simps [simp del] copyin.simps [simp del] copyinstr.simps [simp del]

end
