(* ===== verification/Vm_Tables.thy ===== *)
theory Vm_Tables
  imports Vm
begin

unbundle bit_operations_syntax

section \<open>Page tables: the invariant and the abstract view\<close>

text \<open>
  The abstract view of an address space is the function \<open>pte\<close> from virtual addresses to
  leaf entries.  The invariant \<open>vm_ok\<close> is stated with a map from positions to table pages;
  a position is the root of the table, a level and the part of the virtual page number that
  the levels above have used.  All page tables are in one map, so that an operation on one
  of them is known to leave the others alone.
\<close>

subsection \<open>Entries\<close>

definition valid :: "nat \<Rightarrow> bool" where
  "valid e \<longleftrightarrow> e AND PTE_V \<noteq> 0"

lemma valid_odd: "valid e \<longleftrightarrow> odd e"
  by (simp add: valid_def PTE_V_def and_one_eq odd_iff_mod_2_eq_one)

lemma and_PTE_V: "e AND PTE_V = 0 \<longleftrightarrow> \<not> valid e"
  by (simp add: valid_def)

lemma not_valid_0 [simp]: "\<not> valid 0"
  by (simp add: valid_def)

lemma valid_entry [simp]: "valid (x OR PTE_V)"
  by (simp add: valid_odd PTE_V_def even_or_iff)

lemma valid_leaf [simp]: "valid (x OR y OR PTE_V)"
  using valid_entry [of "x OR y"] by (simp only: or.assoc)

lemma PTE2PA_entry:
  assumes "PGSIZE dvd p" "p < 2 ^ 56" "f < 2 ^ 10"
  shows "PTE2PA (PA2PTE p OR f) = p"
proof -
  have "drop_bit 10 f = 0" using assms(3) by (simp add: drop_bit_eq_div)
  moreover have "push_bit 12 (drop_bit 12 p) = p"
    using assms(1) by (simp add: push_bit_eq_mult drop_bit_eq_div PGSIZE_def)
  moreover have "take_bit 64 p = p"
    using assms(2) by (intro take_bit_nat_eq_self) auto
  moreover have "drop_bit 10 (push_bit 10 (drop_bit 12 p)) = drop_bit 12 p"
    by (simp add: push_bit_eq_mult drop_bit_eq_div)
  ultimately show ?thesis by (simp add: PTE2PA_def PA2PTE_def)
qed

lemma PTE_FLAGS_entry:
  assumes "f < 2 ^ 10" shows "PTE_FLAGS (PA2PTE p OR f) = f"
proof -
  have "PTE_FLAGS x = take_bit 10 x" for x
    using and_low_mask_nat [of x 10] by (simp add: PTE_FLAGS_def take_bit_eq_mod)
  then show ?thesis
    using assms by (simp add: PA2PTE_def take_bit_push_bit take_bit_nat_eq_self)
qed

lemma PX_eq: "PX l va = va div 2 ^ (12 + 9 * l) mod 512"
  using and_low_mask_nat [of "va div 2 ^ (12 + 9 * l)" 9] by (simp add: PX_def drop_bit_eq_div)

lemma PX_less [simp]: "PX l va < 512"
  by (simp add: PX_eq)

text \<open>The part of the page number of \<open>va\<close> that the levels above \<open>l\<close> use.\<close>

definition prefix_of :: "nat \<Rightarrow> nat \<Rightarrow> nat" where
  "prefix_of l va = va div 2 ^ (21 + 9 * l)"

lemma prefix_of_step: "prefix_of l va = prefix_of (Suc l) va * 512 + PX (Suc l) va"
proof -
  have "va div 2 ^ (21 + 9 * Suc l) = va div 2 ^ (21 + 9 * l) div 512"
    by (simp add: div_mult2_eq [symmetric] power_add mult.assoc)
  then show ?thesis by (simp add: prefix_of_def PX_eq add.commute)
qed

lemma prefix_of_top: "va < MAXVA \<Longrightarrow> prefix_of 2 va = 0"
  by (simp add: prefix_of_def MAXVA_def)

lemma prefix_of_base: "va < MAXVA \<Longrightarrow> prefix_of l va * 2 ^ (21 + 9 * l) < MAXVA"
  unfolding prefix_of_def by (metis div_times_less_eq_dividend order_le_less_trans)

lemma page_number:
  "va div PGSIZE = wa div PGSIZE \<longleftrightarrow> prefix_of 0 va = prefix_of 0 wa \<and> PX 0 va = PX 0 wa"
proof -
  have d: "prefix_of 0 x = x div PGSIZE div 512" "PX 0 x = x div PGSIZE mod 512" for x
    by (simp_all add: prefix_of_def PX_eq PGSIZE_def div_mult2_eq [symmetric])
  show ?thesis by (metis d div_mult_mod_eq)
qed

subsection \<open>The invariant\<close>

type_synonym position = "nat \<times> nat \<times> nat"

definition pt_entry :: "nat \<Rightarrow> nat" where
  "pt_entry q = PA2PTE q OR PTE_V"

lemma valid_pt_entry [simp]: "valid (pt_entry q)"
  by (simp add: pt_entry_def)

text \<open>A page of the allocator that is in use, with one reference.\<close>

definition used_page :: "kmem \<Rightarrow> nat \<Rightarrow> bool" where
  "used_page k p \<longleftrightarrow> page_addr k p \<and> p div PGSIZE \<notin> free_mem k \<and> ref_cnt k (p div PGSIZE) = 1"

definition entries_ok :: "(position \<rightharpoonup> nat) \<Rightarrow> 'a pmem_scheme \<Rightarrow> bool" where
  "entries_ok M s \<longleftrightarrow>
     (\<forall>r l u p. \<forall>i<512. M (r, Suc l, u) = Some p \<longrightarrow>
        (case M (r, l, u * 512 + i) of
           None \<Rightarrow> \<not> valid (word_at s (p + 8 * i))
         | Some q \<Rightarrow> word_at s (p + 8 * i) = pt_entry q))"

text \<open>
  The table pages are in use, no page has two positions, every table has a parent and
  serves addresses below \<open>MAXVA\<close>.
\<close>

definition tables_ok :: "(position \<rightharpoonup> nat) \<Rightarrow> kmem \<Rightarrow> bool" where
  "tables_ok M k \<longleftrightarrow> kmem_ok k \<and>
     (\<forall>x p. M x = Some p \<longrightarrow> used_page k p) \<and>
     (\<forall>x y p. M x = Some p \<longrightarrow> M y = Some p \<longrightarrow> x = y) \<and>
     (\<forall>r l u p. M (r, l, u) = Some p \<longrightarrow> l \<le> 2 \<and> (l = 2 \<longrightarrow> p = r \<and> u = 0) \<and> u * 2 ^ (21 + 9 * l) < MAXVA) \<and>
     (\<forall>r l u. l < 2 \<longrightarrow> M (r, l, u) \<noteq> None \<longrightarrow> M (r, Suc l, u div 512) \<noteq> None)"

definition vm_ok :: "(position \<rightharpoonup> nat) \<Rightarrow> 'a pmem_scheme \<Rightarrow> bool" where
  "vm_ok M s \<longleftrightarrow> tables_ok M (km s) \<and> entries_ok M s"

lemma vm_okD:
  assumes "vm_ok M s"
  shows "kmem_ok (km s)" "entries_ok M s" "\<And>x p. M x = Some p \<Longrightarrow> used_page (km s) p"
    "\<And>x y p. M x = Some p \<Longrightarrow> M y = Some p \<Longrightarrow> x = y"
    "\<And>r l u p. M (r, l, u) = Some p \<Longrightarrow> l \<le> 2"
    "\<And>r u p. M (r, 2, u) = Some p \<Longrightarrow> p = r \<and> u = 0"
    "\<And>r l u p. l < 2 \<Longrightarrow> M (r, l, u) = Some p \<Longrightarrow> M (r, Suc l, u div 512) \<noteq> None"
    "\<And>r l u p. M (r, l, u) = Some p \<Longrightarrow> u * 2 ^ (21 + 9 * l) < MAXVA"
  using assms unfolding vm_ok_def tables_ok_def by blast+

lemma vm_okI:
  assumes "kmem_ok (km s)" "entries_ok M s" "\<And>x p. M x = Some p \<Longrightarrow> used_page (km s) p"
    "\<And>x y p. M x = Some p \<Longrightarrow> M y = Some p \<Longrightarrow> x = y"
    "\<And>r l u p. M (r, l, u) = Some p \<Longrightarrow> l \<le> 2 \<and> (l = 2 \<longrightarrow> p = r \<and> u = 0) \<and> u * 2 ^ (21 + 9 * l) < MAXVA"
    "\<And>r l u. l < 2 \<Longrightarrow> M (r, l, u) \<noteq> None \<Longrightarrow> M (r, Suc l, u div 512) \<noteq> None"
  shows "vm_ok M s"
  unfolding vm_ok_def tables_ok_def using assms by blast

text \<open>The root of an address space.\<close>

definition is_root :: "(position \<rightharpoonup> nat) \<Rightarrow> nat \<Rightarrow> bool" where
  "is_root M r \<longleftrightarrow> M (r, 2, 0) = Some r"

lemma page_addr_range:
  assumes "kmem_ok k" "page_addr k p" shows "PGSIZE dvd p" "0 < p" "p < 2 ^ 56"
proof -
  obtain q where q: "p = addr (buddy k) q"
    using page_addr_good [OF assms] by (auto simp: buddy_good_def)
  moreover have "KERNBASE \<le> start (buddy k)"
    using buddy_ok_geometry [of "buddy k"] assms(1) by (simp add: kmem_ok_def geometry_def)
  ultimately show "0 < p" by (simp add: addr_def KERNBASE_def)
  show "PGSIZE dvd p" "p < 2 ^ 56"
    using assms(2) by (auto simp: page_addr_def PHYSTOP_def KERNBASE_def)
qed

lemma PTE2PA_pt_entry:
  assumes "kmem_ok k" "page_addr k q" shows "PTE2PA (pt_entry q) = q"
  unfolding pt_entry_def by (rule PTE2PA_entry) (use page_addr_range [OF assms] in \<open>auto simp: PTE_V_def\<close>)

text \<open>Two words of table pages are the same word only in the same place.\<close>

lemma in_page_slot [simp]: "i < 512 \<Longrightarrow> in_page p (p + 8 * i)"
  by (simp add: in_page_def PGSIZE_def)

lemma slot_frame: "PGSIZE dvd p \<Longrightarrow> i < 512 \<Longrightarrow> (p + 8 * i) div PGSIZE = p div PGSIZE"
  by (auto simp: PGSIZE_def elim!: dvdE)

lemma slot_eq_iff:
  assumes "PGSIZE dvd p" "PGSIZE dvd q" "i < 512" "j < 512"
  shows "p + 8 * i = q + 8 * j \<longleftrightarrow> p = q \<and> i = j"
proof
  assume e: "p + 8 * i = q + 8 * j"
  then have "p div PGSIZE = q div PGSIZE" using slot_frame assms by metis
  then have "p = q" using assms(1,2) by (metis dvd_div_mult_self)
  with e show "p = q \<and> i = j" by simp
qed simp

lemma table_aligned: "vm_ok M s \<Longrightarrow> M x = Some p \<Longrightarrow> PGSIZE dvd p"
  using vm_okD(3) [of M s x p] by (auto simp: used_page_def page_addr_def)

lemma table_slot_eq:
  assumes "vm_ok M s" "M x = Some p" "M y = Some q" "i < 512" "j < 512"
  shows "p + 8 * i = q + 8 * j \<longleftrightarrow> x = y \<and> i = j"
  using slot_eq_iff [OF table_aligned [OF assms(1,2)] table_aligned [OF assms(1,3)] assms(4,5)]
    vm_okD(4) [OF assms(1), of x p y] assms(2,3) by auto

subsection \<open>The abstract view\<close>

fun slot :: "nat \<Rightarrow> nat \<Rightarrow> nat \<Rightarrow> 'a pmem_scheme \<Rightarrow> nat option" where
  "slot 0 pagetable va s = Some (pagetable + 8 * PX 0 va)"
| "slot (Suc l) pagetable va s =
     (let e = word_at s (pagetable + 8 * PX (Suc l) va)
      in if valid e then slot l (PTE2PA e) va s else None)"

definition pte :: "'a pmem_scheme \<Rightarrow> nat \<Rightarrow> nat \<Rightarrow> nat" where
  "pte s pagetable va = (case slot 2 pagetable va s of None \<Rightarrow> 0 | Some a \<Rightarrow> word_at s a)"

lemma walk_from_read:
  "walk_from me l pagetable va False s = Done (case slot l pagetable va s of None \<Rightarrow> 0 | Some a \<Rightarrow> a) s"
  by (induction l arbitrary: pagetable) (simp_all add: Let_def and_PTE_V)

lemma ancestors:
  assumes ok: "vm_ok M s" and m: "M (r, 0, prefix_of 0 va) = Some p" and "l \<le> 2"
  shows "M (r, l, prefix_of l va) \<noteq> None"
  using assms(3)
proof (induction l)
  case 0 then show ?case using m by simp
next
  case (Suc l)
  then obtain q where "M (r, l, prefix_of l va) = Some q" by auto
  moreover have "prefix_of l va div 512 = prefix_of (Suc l) va" by (simp add: prefix_of_step [of l])
  ultimately show ?case using vm_okD(7) [OF ok, of l r "prefix_of l va" q] Suc.prems by simp
qed

lemma slot_leaf:
  assumes ok: "vm_ok M s" and "M (r, l, prefix_of l va) = Some p"
  shows "slot l p va s = map_option (\<lambda>p. p + 8 * PX 0 va) (M (r, 0, prefix_of 0 va))"
  using assms(2)
proof (induction l arbitrary: p)
  case 0 then show ?case by simp
next
  case (Suc l)
  have l: "Suc l \<le> 2" using vm_okD(5) [OF ok Suc.prems] .
  let ?e = "word_at s (p + 8 * PX (Suc l) va)"
  have e: "case M (r, l, prefix_of l va) of None \<Rightarrow> \<not> valid ?e | Some q \<Rightarrow> ?e = pt_entry q"
    using vm_okD(2) [OF ok] Suc.prems unfolding entries_ok_def prefix_of_step [of l] by simp
  show ?case
  proof (cases "M (r, l, prefix_of l va)")
    case None
    then have "M (r, 0, prefix_of 0 va) = None"
      using ancestors [OF ok, of r va _ l] l by (cases "M (r, 0, prefix_of 0 va)") auto
    then show ?thesis using None e by simp
  next
    case (Some q)
    have "PTE2PA (pt_entry q) = q"
      using PTE2PA_pt_entry [OF vm_okD(1) [OF ok]] vm_okD(3) [OF ok Some] by (simp add: used_page_def)
    then show ?thesis using Some e Suc.IH [OF Some] by simp
  qed
qed

lemma pte_leaf:
  assumes "vm_ok M s" "is_root M r" "va < MAXVA"
  shows "pte s r va = (case M (r, 0, prefix_of 0 va) of None \<Rightarrow> 0 | Some p \<Rightarrow> word_at s (p + 8 * PX 0 va))"
  using slot_leaf [OF assms(1), of r 2 va r] assms(2,3)
  by (simp add: pte_def is_root_def prefix_of_top split: option.split)

lemma walk_read:
  assumes "vm_ok M s" "is_root M r" "va < MAXVA"
  shows "walk me r va False s =
    Done (case M (r, 0, prefix_of 0 va) of None \<Rightarrow> 0 | Some p \<Rightarrow> p + 8 * PX 0 va) s"
  using slot_leaf [OF assms(1), of r 2 va r] assms(2,3)
  by (simp add: walk_def walk_from_read is_root_def prefix_of_top split: option.split)

lemma table_pos: "vm_ok M s \<Longrightarrow> M x = Some p \<Longrightarrow> 0 < p"
  using vm_okD(1,3) page_addr_range(2) by (metis used_page_def)

lemma pte_same_page:
  assumes ok: "vm_ok M s" and r: "is_root M r" and va: "va < MAXVA" "va' < MAXVA" and d: "va' div PGSIZE = va div PGSIZE"
  shows "pte s r va' = pte s r va"
proof -
  have "prefix_of 0 va' = prefix_of 0 va" "PX 0 va' = PX 0 va" using d page_number by blast+
  then show ?thesis unfolding pte_leaf [OF ok r va(1)] pte_leaf [OF ok r va(2)] by (simp only:)
qed

lemma next_page: "(va + PGSIZE) div PGSIZE = Suc (va div PGSIZE)"
  by (simp add: PGSIZE_def)

end
