(* ===== verification/Vm_Map.thy ===== *)
theory Vm_Map
  imports Vm_Tables
begin

unbundle bit_operations_syntax

section \<open>Mapping pages\<close>

text \<open>
  \<open>walk\<close> with allocation adds empty tables and changes no leaf entry; \<open>mappages\<close> sets
  exactly the entries of its range.
\<close>

subsection \<open>New tables\<close>

text \<open>What does not change: memory that is in use, as bytes and as counts.\<close>

definition keeps :: "'a pmem_scheme \<Rightarrow> 'a pmem_scheme \<Rightarrow> bool" where
  "keeps s t \<longleftrightarrow> kend (km t) = kend (km s) \<and> free_mem (km t) \<subseteq> free_mem (km s) \<and>
     (\<forall>f. f \<notin> free_mem (km s) \<longrightarrow> ref_cnt (km t) f = ref_cnt (km s) f) \<and>
     (\<forall>a. a div PGSIZE \<notin> free_mem (km s) \<longrightarrow> phys (km t) a = phys (km s) a)"

lemma keepsD:
  assumes k: "keeps s t"
  shows "kend (km t) = kend (km s)" "free_mem (km t) \<subseteq> free_mem (km s)"
    "\<And>f. f \<notin> free_mem (km s) \<Longrightarrow> ref_cnt (km t) f = ref_cnt (km s) f"
    "\<And>a. a div PGSIZE \<notin> free_mem (km s) \<Longrightarrow> phys (km t) a = phys (km s) a"
proof -
  note c = k [unfolded keeps_def]
  show "kend (km t) = kend (km s)" using c by (rule conjunct1)
  show "free_mem (km t) \<subseteq> free_mem (km s)" using c by (elim conjE)
  show "ref_cnt (km t) f = ref_cnt (km s) f" if "f \<notin> free_mem (km s)" for f using c that by (elim conjE) simp
  show "phys (km t) a = phys (km s) a" if "a div PGSIZE \<notin> free_mem (km s)" for a using c that by (elim conjE) simp
qed

lemma keeps_refl [simp]: "keeps s s"
  by (simp add: keeps_def)

lemma keeps_trans:
  assumes "keeps s t" "keeps t u" shows "keeps s u"
proof -
  have "f \<notin> free_mem (km t)" if "f \<notin> free_mem (km s)" for f using that keepsD(2) [OF assms(1)] by blast
  then show ?thesis using keepsD [OF assms(1)] keepsD [OF assms(2)] by (simp add: keeps_def subset_trans)
qed

lemma keeps_poke [simp]: "keeps s (poke a v t) = keeps s t"
  by (simp add: keeps_def)

definition leaves_kept :: "(position \<rightharpoonup> nat) \<Rightarrow> 'a pmem_scheme \<Rightarrow> (position \<rightharpoonup> nat) \<Rightarrow> 'a pmem_scheme \<Rightarrow> bool" where
  "leaves_kept M s M' t \<longleftrightarrow>
     (\<forall>r u p. \<forall>i<512. M' (r, 0, u) = Some p \<longrightarrow>
        word_at t (p + 8 * i) = (if M (r, 0, u) = None then 0 else word_at s (p + 8 * i)))"

text \<open>The frames of the table pages.\<close>

definition table_frames :: "(position \<rightharpoonup> nat) \<Rightarrow> nat set" where
  "table_frames M = (\<lambda>p. p div PGSIZE) ` ran M"

text \<open>Pages taken from the allocator have become tables; none is lost.\<close>

definition conserved :: "(position \<rightharpoonup> nat) \<Rightarrow> 'a pmem_scheme \<Rightarrow> (position \<rightharpoonup> nat) \<Rightarrow> 'a pmem_scheme \<Rightarrow> bool" where
  "conserved M s M' t \<longleftrightarrow> free_mem (km t) \<union> table_frames M' = free_mem (km s) \<union> table_frames M"

text \<open>Only tables of the address space \<open>r\<close> are new.\<close>

definition only_root :: "nat \<Rightarrow> (position \<rightharpoonup> nat) \<Rightarrow> (position \<rightharpoonup> nat) \<Rightarrow> bool" where
  "only_root r M M' \<longleftrightarrow> (\<forall>r' l u. r' \<noteq> r \<longrightarrow> M' (r', l, u) = M (r', l, u))"

definition grown :: "nat \<Rightarrow> (position \<rightharpoonup> nat) \<Rightarrow> 'a pmem_scheme \<Rightarrow> (position \<rightharpoonup> nat) \<Rightarrow> 'a pmem_scheme \<Rightarrow> bool" where
  "grown r M s M' t \<longleftrightarrow> vm_ok M' t \<and> M \<subseteq>\<^sub>m M' \<and> keeps s t \<and> leaves_kept M s M' t \<and>
     conserved M s M' t \<and> only_root r M M' \<and> M' (r, 2, 0) = M (r, 2, 0)"

lemma map_leD: "M \<subseteq>\<^sub>m M' \<Longrightarrow> M x = Some p \<Longrightarrow> M' x = Some p"
  by (metis domI map_le_def)

lemma grownD:
  assumes "grown r M s M' t"
  shows "vm_ok M' t" "M \<subseteq>\<^sub>m M'" "keeps s t" "\<And>x p. M x = Some p \<Longrightarrow> M' x = Some p"
    "\<And>r u p i. i < 512 \<Longrightarrow> M' (r, 0, u) = Some p \<Longrightarrow> M (r, 0, u) \<noteq> None \<Longrightarrow>
       word_at t (p + 8 * i) = word_at s (p + 8 * i)"
    "\<And>r u p i. i < 512 \<Longrightarrow> M' (r, 0, u) = Some p \<Longrightarrow> M (r, 0, u) = None \<Longrightarrow> word_at t (p + 8 * i) = 0"
    "\<And>r. is_root M' r = is_root M r" "conserved M s M' t" "only_root r M M'"
proof -
  have vm: "vm_ok M' t" and le: "M \<subseteq>\<^sub>m M'" and ks: "keeps s t" and lv: "leaves_kept M s M' t"
    and rt: "M' (r, 2, 0) = M (r, 2, 0)" and cs: "conserved M s M' t" and on: "only_root r M M'"
    using assms unfolding grown_def by blast+
  show "vm_ok M' t" "M \<subseteq>\<^sub>m M'" "keeps s t" "conserved M s M' t" "only_root r M M'" by fact+
  show "M' x = Some p" if "M x = Some p" for x p using map_leD [OF le that] .
  show "is_root M' r' = is_root M r'" for r'
    using rt on by (cases "r' = r") (simp_all add: is_root_def only_root_def)
  fix r u p i assume i: "i < (512::nat)" and p: "M' (r, 0, u) = Some p"
  have w: "word_at t (p + 8 * i) = (if M (r, 0, u) = None then 0 else word_at s (p + 8 * i))"
    by (rule lv [unfolded leaves_kept_def, rule_format, OF i p])
  show "word_at t (p + 8 * i) = word_at s (p + 8 * i)" if "M (r, 0, u) \<noteq> None" using w that by simp
  show "word_at t (p + 8 * i) = 0" if "M (r, 0, u) = None" using w that by simp
qed

lemma grown_refl: "vm_ok M s \<Longrightarrow> grown r M s M s"
  by (simp add: grown_def leaves_kept_def conserved_def only_root_def)

lemma grown_trans:
  assumes a: "grown r M s M' t" and b: "grown r M' t M'' u" shows "grown r M s M'' u"
proof -
  have "leaves_kept M s M'' u"
    unfolding leaves_kept_def
  proof (intro allI impI)
    fix r v p i assume i: "i < (512::nat)" and p: "M'' (r, 0, v) = Some p"
    show "word_at u (p + 8 * i) = (if M (r, 0, v) = None then 0 else word_at s (p + 8 * i))"
    proof (cases "M' (r, 0, v)")
      case None
      then have "M (r, 0, v) = None" using grownD(4) [OF a] by (cases "M (r, 0, v)") auto
      then show ?thesis using grownD(6) [OF b i p None] by simp
    next
      case (Some q)
      then have "q = p" using grownD(4) [OF b Some] p by simp
      then have "word_at t (p + 8 * i) = (if M (r, 0, v) = None then 0 else word_at s (p + 8 * i))"
        using a Some i by (auto simp: grown_def leaves_kept_def)
      then show ?thesis using grownD(5) [OF b i p] Some by simp
    qed
  qed
  moreover have "M \<subseteq>\<^sub>m M''" using grownD(2) [OF a] grownD(2) [OF b] map_le_trans by blast
  moreover have "conserved M s M'' u" using grownD(8) [OF a] grownD(8) [OF b] by (simp add: conserved_def)
  moreover have "only_root r M M''" using grownD(9) [OF a] grownD(9) [OF b] by (simp add: only_root_def)
  ultimately show ?thesis using a b keeps_trans by (auto simp: grown_def)
qed

text \<open>No leaf entry changes.\<close>

lemma grown_pte:
  assumes ok: "vm_ok M s" and g: "grown r0 M s M' t" and r: "is_root M r" and va: "va < MAXVA"
  shows "pte t r va = pte s r va"
proof -
  have t: "pte t r va = (case M' (r, 0, prefix_of 0 va) of None \<Rightarrow> 0 | Some p \<Rightarrow> word_at t (p + 8 * PX 0 va))"
    using pte_leaf [OF grownD(1) [OF g] _ va] r grownD(7) [OF g] by simp
  show ?thesis
  proof (cases "M (r, 0, prefix_of 0 va)")
    case None
    then show ?thesis
      using t pte_leaf [OF ok r va] grownD(6) [OF g PX_less] by (auto split: option.split)
  next
    case (Some p)
    then show ?thesis
      using t pte_leaf [OF ok r va] grownD(4) [OF g Some] grownD(5) [OF g PX_less, of r "prefix_of 0 va" p 0 va]
      by simp
  qed
qed

lemma pm_memset0_fields [simp]:
  "word_at (pm_memset0 q s) = fill_words q 0 (word_at s)" "km (pm_memset0 q s) = memset_page q 0 (km s)"
  by (simp_all add: pm_memset0_def)

lemma kmem_ok_memset:
  assumes "kmem_ok k" "PGSIZE dvd q" "q div PGSIZE \<notin> free_mem k"
  shows "kmem_ok (memset_page q c k)" "free_mem (memset_page q c k) = free_mem k"
  using memset_page_ok [OF kmem_okD(1) [OF assms(1)] assms(3,2), of c] assms(1)
  by (simp_all add: kmem_ok_def free_mem_def)

text \<open>A page from \<open>kalloc\<close> after the \<open>memset\<close> of the caller.\<close>

lemma fresh_page:
  assumes ok: "kmem_ok (km s)" and k: "pm_kalloc me s = Done q u"
  shows "kmem_ok (km (pm_memset0 q u))" "keeps s (pm_memset0 q u)"
    "used_page (km (pm_memset0 q u)) q" "q div PGSIZE \<in> free_mem (km s)" "page_addr (km s) q"
    "free_mem (km (pm_memset0 q u)) = free_mem (km s) - {q div PGSIZE}"
    "word_at (pm_memset0 q u) = fill_words q 0 (word_at s)" "word_at u = fill_words q 0 (word_at s)"
    "kmem_ok (km u)" "keeps s u" "used_page (km u) q" "free_mem (km u) = free_mem (km s) - {q div PGSIZE}"
proof -
  obtain k where k: "u = s\<lparr>km := k, word_at := fill_words q 0 (word_at s)\<rparr>"
    "kmem_ok k" "page_addr (km s) q" "kend k = kend (km s)"
    "q div PGSIZE \<in> free_mem (km s)" "free_mem k = free_mem (km s) - {q div PGSIZE}"
    "ref_cnt k = (ref_cnt (km s))(q div PGSIZE := 1)"
    "\<And>a. phys k a = (if in_page q a then 0 else phys (km s) a)"
    by (rule pm_kalloc_Done [OF assms]) (rule that)
  have al: "PGSIZE dvd q" using k(3) by (simp add: page_addr_def)
  note m = kmem_ok_memset [OF k(2) al, of 0]
  have ks: "keeps s u" "keeps s (pm_memset0 q u)"
    using k m in_page_frame [OF al] by (auto simp: keeps_def in_page_def)
  show "kmem_ok (km (pm_memset0 q u))" "keeps s (pm_memset0 q u)" "used_page (km (pm_memset0 q u)) q"
    "q div PGSIZE \<in> free_mem (km s)" "page_addr (km s) q" "free_mem (km (pm_memset0 q u)) = free_mem (km s) - {q div PGSIZE}"
    "kmem_ok (km u)" "keeps s u" "used_page (km u) q" "free_mem (km u) = free_mem (km s) - {q div PGSIZE}"
    using k m ks by (auto simp: used_page_def page_addr_def)
  show "word_at (pm_memset0 q u) = fill_words q 0 (word_at s)" "word_at u = fill_words q 0 (word_at s)"
    using k by (auto simp: fill_words_def)
qed

lemma fill_words_off: "PGSIZE dvd q \<Longrightarrow> a div PGSIZE \<noteq> q div PGSIZE \<Longrightarrow> fill_words q v h a = h a"
  by (simp add: in_page_frame fill_words_def)

lemma used_page_keeps:
  "used_page (km s) p \<Longrightarrow> keeps s t \<Longrightarrow> used_page (km t) p"
  by (auto simp: used_page_def keeps_def page_addr_def)

text \<open>Words of tables are not in a page that was free.\<close>

lemma table_off_page:
  assumes "vm_ok M s" "M x = Some p" "i < 512" "PGSIZE dvd q" "q div PGSIZE \<in> free_mem (km s)"
  shows "fill_words q v h (p + 8 * i) = h (p + 8 * i)"
proof (rule fill_words_off [OF assms(4)])
  show "(p + 8 * i) div PGSIZE \<noteq> q div PGSIZE"
    using slot_frame [OF table_aligned [OF assms(1,2)] assms(3)] vm_okD(3) [OF assms(1,2)] assms(5)
    by (auto simp: used_page_def)
qed

lemma pos_div: "j < 512 \<Longrightarrow> (u * 512 + j) div 512 = (u::nat)"
  by simp

lemma pos_eq:
  assumes j: "j < 512" "i < 512" shows "u' * 512 + j = u * 512 + i \<longleftrightarrow> u' = u \<and> j = (i::nat)"
proof
  assume "u' * 512 + j = u * 512 + i"
  then have "(u' * 512 + j) div 512 = (u * 512 + i) div 512" by simp
  then have "u' = u" unfolding pos_div [OF j(1)] pos_div [OF j(2)] .
  with \<open>u' * 512 + j = u * 512 + i\<close> show "u' = u \<and> j = i" by simp
qed simp

lemma entries_grow:
  assumes ok: "vm_ok M s" and pt: "M (r, Suc l, u) = Some pt" and i: "i < 512"
    and n: "M (r, l, u * 512 + i) = None" and q: "PGSIZE dvd q" "q div PGSIZE \<in> free_mem (km s)"
    and w: "word_at t = (fill_words q 0 (word_at s))(pt + 8 * i := pt_entry q)"
  shows "entries_ok (M((r, l, u * 512 + i) \<mapsto> q)) t"
  unfolding entries_ok_def
proof (intro allI impI)
  fix r' l' u' p' j assume j: "j < (512::nat)" and p': "(M((r, l, u * 512 + i) \<mapsto> q)) (r', Suc l', u') = Some p'"
  let ?M = "M((r, l, u * 512 + i) \<mapsto> q)"
  have l: "Suc l \<le> 2" using vm_okD(5) [OF ok pt] .
  show "case ?M (r', l', u' * 512 + j) of None \<Rightarrow> \<not> valid (word_at t (p' + 8 * j))
    | Some q \<Rightarrow> word_at t (p' + 8 * j) = pt_entry q"
  proof (cases "(r', Suc l', u') = (r, l, u * 512 + i)")
    case True
    then have e: "r' = r" "l = Suc l'" "u' = u * 512 + i" "p' = q" using p' by auto
    have "M (r, l', u' * 512 + j) = None"
    proof (rule ccontr)
      assume "M (r, l', u' * 512 + j) \<noteq> None"
      then have "M (r, Suc l', (u' * 512 + j) div 512) \<noteq> None"
        using vm_okD(7) [OF ok, of l' r "u' * 512 + j"] l e(2) by auto
      then show False using n e(2,3) by (simp only: pos_div [OF j])
    qed
    moreover have "q + 8 * j \<noteq> pt + 8 * i"
      using slot_eq_iff [OF q(1) table_aligned [OF ok pt] j i] vm_okD(3) [OF ok pt] q(2) by (auto simp: used_page_def)
    ultimately show ?thesis using e j by (simp add: w fill_words_in)
  next
    case False
    then have m: "M (r', Suc l', u') = Some p'" using p' by (simp split: if_splits)
    have e: "p' + 8 * j = pt + 8 * i \<longleftrightarrow> (r', l', u' * 512 + j) = (r, l, u * 512 + i)"
      unfolding table_slot_eq [OF ok m pt j i] prod.inject pos_eq [OF j i] by auto
    have old: "case M (r', l', u' * 512 + j) of None \<Rightarrow> \<not> valid (word_at s (p' + 8 * j))
      | Some q \<Rightarrow> word_at s (p' + 8 * j) = pt_entry q"
      using vm_okD(2) [OF ok] m j by (simp add: entries_ok_def)
    show ?thesis
    proof (cases "p' + 8 * j = pt + 8 * i")
      case True then show ?thesis using e by (simp add: w)
    next
      case ne: False
      then have "word_at t (p' + 8 * j) = word_at s (p' + 8 * j)"
        using table_off_page [OF ok m j q] by (simp add: w)
      moreover have "?M (r', l', u' * 512 + j) = M (r', l', u' * 512 + j)"
        using ne e by (intro fun_upd_other) blast
      ultimately show ?thesis using old by (simp only:)
    qed
  qed
qed

lemma walk_grow:
  assumes ok: "vm_ok M s" and pt: "M (r, Suc l, u) = Some pt" and i: "i < 512"
    and n: "\<not> valid (word_at s (pt + 8 * i))" and k: "pm_kalloc me s = Done q v"
    and b: "(u * 512 + i) * 2 ^ (21 + 9 * l) < MAXVA"
  shows "grown r M s (M((r, l, u * 512 + i) \<mapsto> q)) (poke (pt + 8 * i) (PA2PTE q OR PTE_V) (pm_memset0 q v))"
    (is "grown r M s ?M ?t")
proof -
  note f = fresh_page [OF vm_okD(1) [OF ok] k]
  have al: "PGSIZE dvd q" using f(5) by (simp add: page_addr_def)
  have none: "M (r, l, u * 512 + i) = None"
    using vm_okD(2) [OF ok] pt i n unfolding entries_ok_def by (cases "M (r, l, u * 512 + i)") force+
  have l: "Suc l \<le> 2" using vm_okD(5) [OF ok pt] .
  have ks: "keeps s ?t" using f(2) by simp
  have new: "M x \<noteq> Some q" for x using vm_okD(3) [OF ok, of x q] f(4) by (auto simp: used_page_def)
  have w: "word_at ?t = (fill_words q 0 (word_at s))(pt + 8 * i := pt_entry q)"
    by (simp only: poke_fields f(7) pt_entry_def)
  have vm: "vm_ok ?M ?t"
  proof (rule vm_okI)
    show "kmem_ok (km ?t)" using f(1) by simp
    show "entries_ok ?M ?t" by (rule entries_grow [OF ok pt i none al f(4) w])
    show "used_page (km ?t) p" if "?M x = Some p" for x p
      using that f(3) used_page_keeps [OF _ ks] vm_okD(3) [OF ok, of x p] by (auto split: if_splits)
    show "x = y" if "?M x = Some p" "?M y = Some p" for x y p
      using that new vm_okD(4) [OF ok, of x p y] by (auto split: if_splits)
    show "l' \<le> 2 \<and> (l' = 2 \<longrightarrow> p = r' \<and> u' = 0) \<and> u' * 2 ^ (21 + 9 * l') < MAXVA"
      if "?M (r', l', u') = Some p" for r' l' u' p
      using that l b vm_okD(5,6,8) [OF ok, of r'] by (auto split: if_splits)
    show "?M (r', Suc l', u' div 512) \<noteq> None" if "l' < 2" "?M (r', l', u') \<noteq> None" for r' l' u'
      using that pt i vm_okD(7) [OF ok that(1), of r' u'] by (auto split: if_splits)
  qed
  have "leaves_kept M s ?M ?t"
    unfolding leaves_kept_def
  proof (intro allI impI)
    fix r' u' p j assume j: "j < (512::nat)" and p: "?M (r', 0, u') = Some p"
    have ne: "p + 8 * j \<noteq> pt + 8 * i"
      using table_slot_eq [OF vm p _ j i, of "(r, Suc l, u)" pt] pt by auto
    show "word_at ?t (p + 8 * j) = (if M (r', 0, u') = None then 0 else word_at s (p + 8 * j))"
    proof (cases "M (r', 0, u')")
      case None
      then have "p = q" using p by (simp split: if_splits)
      then show ?thesis using None j unfolding w by (simp add: ne [unfolded \<open>p = q\<close>] fill_words_in)
    next
      case (Some p')
      then have "p' = p" using p none by (auto split: if_splits)
      then show ?thesis using Some table_off_page [OF ok _ j al f(4), of "(r', 0, u')" p 0 "word_at s"]
        unfolding w by (simp add: ne)
    qed
  qed
  moreover have "M \<subseteq>\<^sub>m ?M" using none by (auto simp: map_le_def)
  moreover have "?M (r, 2, 0) = M (r, 2, 0)" using l by simp
  moreover have "only_root r M ?M" by (simp add: only_root_def)
  moreover have "conserved M s ?M ?t"
    using f(4,6) none unfolding conserved_def table_frames_def by (subst ran_map_upd) auto
  ultimately show ?thesis unfolding grown_def using vm ks by blast
qed

subsection \<open>Walking with allocation\<close>

lemma child_entry:
  assumes ok: "vm_ok M s" and pt: "M (r, Suc l, prefix_of (Suc l) va) = Some pt"
  shows "case M (r, l, prefix_of l va) of
      None \<Rightarrow> \<not> valid (word_at s (pt + 8 * PX (Suc l) va))
    | Some q \<Rightarrow> word_at s (pt + 8 * PX (Suc l) va) = pt_entry q \<and> PTE2PA (pt_entry q) = q"
proof -
  have "case M (r, l, prefix_of l va) of None \<Rightarrow> \<not> valid (word_at s (pt + 8 * PX (Suc l) va))
    | Some q \<Rightarrow> word_at s (pt + 8 * PX (Suc l) va) = pt_entry q"
    using vm_okD(2) [OF ok] pt unfolding entries_ok_def prefix_of_step [of l] by simp
  moreover have "PTE2PA (pt_entry q) = q" if "M (r, l, prefix_of l va) = Some q" for q
    using PTE2PA_pt_entry [OF vm_okD(1) [OF ok]] vm_okD(3) [OF ok that] by (simp add: used_page_def)
  ultimately show ?thesis by (auto split: option.splits)
qed

lemma walk_from_alloc:
  assumes "vm_ok M s" "M (r, l, prefix_of l va) = Some pt" "l \<le> card (free_mem (km s))" and va: "va < MAXVA"
  shows "\<exists>M' t p. walk_from me l pt va True s = Done (p + 8 * PX 0 va) t \<and> grown r M s M' t \<and>
    M' (r, 0, prefix_of 0 va) = Some p \<and> card (free_mem (km s)) \<le> card (free_mem (km t)) + l"
  using assms(1-3)
proof (induction l arbitrary: pt s M)
  case 0
  then show ?case using grown_refl [OF 0(1)] by auto
next
  case (Suc l)
  note ok = Suc.prems(1) and pt = Suc.prems(2)
  let ?e = "pt + 8 * PX (Suc l) va"
  show ?case
  proof (cases "M (r, l, prefix_of l va)")
    case (Some q)
    then have e: "word_at s ?e = pt_entry q" "PTE2PA (pt_entry q) = q" using child_entry [OF ok pt] by auto
    then have "walk_from me (Suc l) pt va True s = walk_from me l q va True s" by (simp add: and_PTE_V)
    moreover have "l \<le> card (free_mem (km s))" using Suc.prems(3) by simp
    ultimately show ?thesis using Suc.IH [OF ok Some] by (metis add_Suc_right le_SucI)
  next
    case None
    then have nv: "\<not> valid (word_at s ?e)" using child_entry [OF ok pt] by auto
    have ne: "free_mem (km s) \<noteq> {}" "finite (free_mem (km s))"
      using Suc.prems(3) by (metis card.empty card.infinite Suc_n_not_le_n le_0_eq nat.distinct(1))+
    obtain q u where k: "pm_kalloc me s = Done q u"
      using pm_kalloc_ok [OF vm_okD(1) [OF ok] ne(1), of me] by metis
    note f = fresh_page [OF vm_okD(1) [OF ok] k]
    let ?M = "M((r, l, prefix_of l va) \<mapsto> q)" and ?u = "poke ?e (PA2PTE q OR PTE_V) (pm_memset0 q u)"
    have g: "grown r M s ?M ?u"
      using walk_grow [OF ok pt PX_less nv k] prefix_of_base [OF va, of l] unfolding prefix_of_step [of l] by simp
    have c: "card (free_mem (km s)) = Suc (card (free_mem (km ?u)))"
      using card_Suc_Diff1 [OF ne(2) f(4)] f(6) by simp
    then obtain M' t p where t: "walk_from me l q va True ?u = Done (p + 8 * PX 0 va) t" "grown r ?M ?u M' t"
      "M' (r, 0, prefix_of 0 va) = Some p" "card (free_mem (km ?u)) \<le> card (free_mem (km t)) + l"
      using Suc.IH [OF grownD(1) [OF g], of q] Suc.prems(3) by fastforce
    have "q \<noteq> 0" using page_addr_range(2) [OF vm_okD(1) [OF ok] f(5)] by simp
    then have "walk_from me (Suc l) pt va True s = Done (p + 8 * PX 0 va) t"
      using nv k t(1) by (simp add: and_PTE_V)
    moreover have "card (free_mem (km s)) \<le> card (free_mem (km t)) + Suc l" using c t(4) by simp
    ultimately show ?thesis using grown_trans [OF g t(2)] t(3) by blast
  qed
qed

lemma walk_alloc:
  assumes "vm_ok M s" "is_root M r" "va < MAXVA" "2 \<le> card (free_mem (km s))"
  obtains M' t p where "walk me r va True s = Done (p + 8 * PX 0 va) t" "grown r M s M' t"
    "M' (r, 0, prefix_of 0 va) = Some p" "card (free_mem (km s)) \<le> card (free_mem (km t)) + 2"
  using walk_from_alloc [OF assms(1), of r 2 va r me] assms(2-4)
  by (auto simp: walk_def is_root_def prefix_of_top)

subsection \<open>Writing an entry\<close>

lemma entries_cong:
  assumes e: "entries_ok M s"
    and w: "\<And>r l u q i. M (r, Suc l, u) = Some q \<Longrightarrow> i < 512 \<Longrightarrow> word_at t (q + 8 * i) = word_at s (q + 8 * i)"
  shows "entries_ok M t"
  unfolding entries_ok_def
proof (intro allI impI)
  fix r l u q i assume i: "i < (512::nat)" and q: "M (r, Suc l, u) = Some q"
  show "case M (r, l, u * 512 + i) of None \<Rightarrow> \<not> valid (word_at t (q + 8 * i))
    | Some p \<Rightarrow> word_at t (q + 8 * i) = pt_entry p"
    using e [unfolded entries_ok_def, rule_format, OF i q] unfolding w [OF q i] .
qed

text \<open>Writing a leaf entry changes the mapping of one page.\<close>

lemma poke_leaf:
  assumes ok: "vm_ok M s" and p: "M (r, 0, prefix_of 0 va) = Some p"
  shows "vm_ok M (poke (p + 8 * PX 0 va) e s)"
    "\<And>r' va'. is_root M r' \<Longrightarrow> va' < MAXVA \<Longrightarrow>
      pte (poke (p + 8 * PX 0 va) e s) r' va' =
        (if r' = r \<and> va' div PGSIZE = va div PGSIZE then e else pte s r' va')"
proof -
  let ?t = "poke (p + 8 * PX 0 va) e s"
  have w: "word_at ?t (q + 8 * i) = word_at s (q + 8 * i)" if "M (r', Suc l, u) = Some q" "i < 512" for r' l u q i
    using table_slot_eq [OF ok that(1) p that(2) PX_less] by simp
  have "entries_ok M ?t" by (rule entries_cong [OF vm_okD(2) [OF ok] w])
  then show vm: "vm_ok M ?t" using ok by (simp add: vm_ok_def)
  fix r' va' assume r': "is_root M r'" and va': "va' < MAXVA"
  show "pte ?t r' va' = (if r' = r \<and> va' div PGSIZE = va div PGSIZE then e else pte s r' va')"
  proof (cases "M (r', 0, prefix_of 0 va')")
    case None
    then have "\<not> (r' = r \<and> va' div PGSIZE = va div PGSIZE)" using p by (auto simp: page_number)
    then show ?thesis using pte_leaf [OF vm r' va'] pte_leaf [OF ok r' va'] None by auto
  next
    case (Some q)
    have "q + 8 * PX 0 va' = p + 8 * PX 0 va \<longleftrightarrow> r' = r \<and> va' div PGSIZE = va div PGSIZE"
      using table_slot_eq [OF ok Some p PX_less PX_less, of 0 va' 0 va] by (auto simp: page_number)
    then show ?thesis using pte_leaf [OF vm r' va'] pte_leaf [OF ok r' va'] Some by simp
  qed
qed

subsection \<open>mappages\<close>

text \<open>The abstract operation: \<open>n\<close> pages of the view from \<open>va\<close> on are set.\<close>

definition map_view :: "nat \<Rightarrow> nat \<Rightarrow> nat \<Rightarrow> nat \<Rightarrow> nat \<Rightarrow> (nat \<Rightarrow> nat \<Rightarrow> nat) \<Rightarrow> nat \<Rightarrow> nat \<Rightarrow> nat" where
  "map_view r va n pa perm V = (\<lambda>r' va'.
     if r' = r \<and> va div PGSIZE \<le> va' div PGSIZE \<and> va' div PGSIZE < va div PGSIZE + n
     then PA2PTE (pa + (va' div PGSIZE - va div PGSIZE) * PGSIZE) OR perm OR PTE_V else V r' va')"

lemma map_view_0 [simp]: "map_view r va 0 pa perm V = V"
  by (auto simp: map_view_def fun_eq_iff)

lemma map_view_Suc:
  assumes "PGSIZE dvd va"
  shows "map_view r va (Suc n) pa perm V = map_view r (va + PGSIZE) n (pa + PGSIZE) perm (map_view r va 1 pa perm V)"
proof -
  have d: "(va + PGSIZE) div PGSIZE = Suc (va div PGSIZE)" by (simp add: PGSIZE_def)
  have e: "pa + PGSIZE + (v - Suc k) * PGSIZE = pa + (v - k) * PGSIZE" if "k \<le> v" "v \<noteq> k" for v k
    using that by (metis Suc_diff_Suc add.assoc le_neq_implies_less mult_Suc)
  show ?thesis by (auto simp: map_view_def d fun_eq_iff not_less less_Suc_eq_le e)
qed

text \<open>The concrete state \<open>t\<close> has the view \<open>V\<close>, and memory in use is as in \<open>s\<close>.\<close>

definition vm_step :: "nat \<Rightarrow> (position \<rightharpoonup> nat) \<Rightarrow> 'a pmem_scheme \<Rightarrow> (position \<rightharpoonup> nat) \<Rightarrow> 'a pmem_scheme \<Rightarrow> (nat \<Rightarrow> nat \<Rightarrow> nat) \<Rightarrow> bool" where
  "vm_step r M s M' t V \<longleftrightarrow> vm_ok M' t \<and> M \<subseteq>\<^sub>m M' \<and> keeps s t \<and> (\<forall>r. is_root M' r = is_root M r) \<and>
     conserved M s M' t \<and> only_root r M M' \<and> (\<forall>r va. is_root M r \<longrightarrow> va < MAXVA \<longrightarrow> pte t r va = V r va)"

lemma vm_stepD:
  assumes "vm_step r M s M' t V"
  shows "vm_ok M' t" "M \<subseteq>\<^sub>m M'" "keeps s t" "\<And>r. is_root M' r = is_root M r"
    "\<And>r va. is_root M r \<Longrightarrow> va < MAXVA \<Longrightarrow> pte t r va = V r va" "conserved M s M' t"
    "only_root r M M'"
  using assms by (simp_all add: vm_step_def)

lemma map_view_cong:
  "V r' va' = W r' va' \<Longrightarrow> map_view r va n pa perm V r' va' = map_view r va n pa perm W r' va'"
  by (simp add: map_view_def)

lemma vm_step_trans:
  assumes a: "vm_step r M s M' t V" and b: "vm_step r M' t M'' u (map_view r va n pa perm (pte t))"
  shows "vm_step r M s M'' u (map_view r va n pa perm V)"
  unfolding vm_step_def
proof (intro conjI allI impI)
  show "vm_ok M'' u" by (rule vm_stepD(1) [OF b])
  show "M \<subseteq>\<^sub>m M''" by (rule map_le_trans [OF vm_stepD(2) [OF a] vm_stepD(2) [OF b]])
  show "keeps s u" by (rule keeps_trans [OF vm_stepD(3) [OF a] vm_stepD(3) [OF b]])
  show "is_root M'' r = is_root M r" for r using vm_stepD(4) [OF a] vm_stepD(4) [OF b] by simp
  show "only_root r M M''" using vm_stepD(7) [OF a] vm_stepD(7) [OF b] by (simp add: only_root_def)
  show "conserved M s M'' u" using vm_stepD(6) [OF a] vm_stepD(6) [OF b] by (simp add: conserved_def)
  fix r' va' assume r': "is_root M r'" and va': "va' < MAXVA"
  have "pte u r' va' = map_view r va n pa perm (pte t) r' va'"
    using vm_stepD(5) [OF b _ va'] vm_stepD(4) [OF a] r' by simp
  also have "\<dots> = map_view r va n pa perm V r' va'"
    by (rule map_view_cong) (rule vm_stepD(5) [OF a r' va'])
  finally show "pte u r' va' = map_view r va n pa perm V r' va'" .
qed

text \<open>One round of the loop.\<close>

lemma map_one:
  assumes ok: "vm_ok M s" and r: "is_root M r" and va: "va < MAXVA" and fr: "2 \<le> card (free_mem (km s))"
    and nv: "\<not> valid (pte s r va)"
  obtains M' a t where "walk me r va True s = Done a t" "a \<noteq> 0" "\<not> valid (word_at t a)"
    "vm_step r M s M' (poke a (PA2PTE pa OR perm OR PTE_V) t) (map_view r va 1 pa perm (pte s))"
    "card (free_mem (km s)) \<le> card (free_mem (km t)) + 2"
proof -
  obtain M' t p where t: "walk me r va True s = Done (p + 8 * PX 0 va) t" "grown r M s M' t"
    "M' (r, 0, prefix_of 0 va) = Some p" "card (free_mem (km s)) \<le> card (free_mem (km t)) + 2"
    using walk_alloc [OF ok r va fr] by blast
  let ?a = "p + 8 * PX 0 va" and ?e = "PA2PTE pa OR perm OR PTE_V"
  note vt = grownD(1) [OF t(2)]
  have "is_root M' r" using grownD(7) [OF t(2)] r by simp
  then have "word_at t ?a = pte s r va"
    using grown_pte [OF ok t(2) r va] pte_leaf [OF vt _ va] t(3) by simp
  moreover have "vm_step r M s M' (poke ?a ?e t) (map_view r va 1 pa perm (pte s))"
    unfolding vm_step_def
  proof (intro conjI allI impI)
    show "vm_ok M' (poke ?a ?e t)" by (rule poke_leaf(1) [OF vt t(3)])
    show "M \<subseteq>\<^sub>m M'" "keeps s (poke ?a ?e t)" using grownD(2,3) [OF t(2)] by simp_all
    show "is_root M' r = is_root M r" for r by (rule grownD(7) [OF t(2)])
    show "only_root r M M'" by (rule grownD(9) [OF t(2)])
    show "conserved M s M' (poke ?a ?e t)" using grownD(8) [OF t(2)] by (simp add: conserved_def)
    fix r' va' assume r': "is_root M r'" and va': "va' < MAXVA"
    then have "is_root M' r'" using grownD(7) [OF t(2)] by simp
    then show "pte (poke ?a ?e t) r' va' = map_view r va 1 pa perm (pte s) r' va'"
      using poke_leaf(2) [OF vt t(3) _ va', of r' ?e] grown_pte [OF ok t(2) r' va']
      by (auto simp: map_view_def)
  qed
  moreover have "?a \<noteq> 0" using table_pos [OF vt t(3)] by simp
  ultimately show ?thesis using that t(1,4) nv by metis
qed

lemma map_loop_ok:
  assumes "vm_ok M s" "is_root M r" "PGSIZE dvd va" "va + Suc n * PGSIZE \<le> MAXVA" "2 * Suc n \<le> card (free_mem (km s))"
    "\<And>k. k \<le> n \<Longrightarrow> \<not> valid (pte s r (va + k * PGSIZE))"
  shows "\<exists>M' t. map_loop me r va (va + n * PGSIZE) pa perm s = Done 0 t \<and>
    vm_step r M s M' t (map_view r va (Suc n) pa perm (pte s)) \<and> card (free_mem (km s)) \<le> card (free_mem (km t)) + 2 * Suc n"
  using assms
proof (induction n arbitrary: va pa s M)
  case (0 va pa s M)
  have "va < MAXVA" using 0(4) by (simp add: PGSIZE_def)
  moreover have "\<not> valid (pte s r va)" using 0(6) [of 0] by simp
  moreover have "2 \<le> card (free_mem (km s))" using 0(5) by simp
  ultimately obtain M' a t where "walk me r va True s = Done a t" "a \<noteq> 0" "\<not> valid (word_at t a)"
    "vm_step r M s M' (poke a (PA2PTE pa OR perm OR PTE_V) t) (map_view r va 1 pa perm (pte s))"
    "card (free_mem (km s)) \<le> card (free_mem (km t)) + 2"
    using map_one [OF 0(1,2)] by metis
  then show ?case by (subst map_loop.simps) (auto simp: and_PTE_V)
next
  case (Suc n va pa s M)
  note al = Suc.prems(3)
  have va: "va < MAXVA" using Suc.prems(4) by (simp add: PGSIZE_def)
  moreover have "\<not> valid (pte s r va)" using Suc.prems(6) [of 0] by simp
  moreover have "2 \<le> card (free_mem (km s))" using Suc.prems(5) by simp
  ultimately obtain M' a t where w: "walk me r va True s = Done a t" "a \<noteq> 0" "\<not> valid (word_at t a)"
    and st: "vm_step r M s M' (poke a (PA2PTE pa OR perm OR PTE_V) t) (map_view r va 1 pa perm (pte s))"
    and c: "card (free_mem (km s)) \<le> card (free_mem (km t)) + 2"
    using map_one [OF Suc.prems(1,2)] by metis
  let ?t = "poke a (PA2PTE pa OR perm OR PTE_V) t"
  have r: "is_root M' r" using vm_stepD(4) [OF st] Suc.prems(2) by simp
  have hi: "va + PGSIZE + Suc n * PGSIZE \<le> MAXVA" using Suc.prems(4) by simp
  have nv: "\<not> valid (pte ?t r (va + PGSIZE + k * PGSIZE))" if "k \<le> n" for k
  proof -
    have "Suc k * PGSIZE \<le> Suc n * PGSIZE" using that by simp
    then have lt: "va + Suc k * PGSIZE < MAXVA" using Suc.prems(4) by (simp add: PGSIZE_def)
    have "(va + Suc k * PGSIZE) div PGSIZE = va div PGSIZE + Suc k" by (simp add: PGSIZE_def)
    then have "pte ?t r (va + Suc k * PGSIZE) = pte s r (va + Suc k * PGSIZE)"
      using vm_stepD(5) [OF st Suc.prems(2) lt] by (simp add: map_view_def)
    then show ?thesis using Suc.prems(6) [of "Suc k"] that by (simp add: add.assoc)
  qed
  have fr: "2 * Suc n \<le> card (free_mem (km ?t))" using c Suc.prems(5) by simp
  have al': "PGSIZE dvd va + PGSIZE" using al by simp
  obtain M'' u where u: "map_loop me r (va + PGSIZE) (va + PGSIZE + n * PGSIZE) (pa + PGSIZE) perm ?t = Done 0 u"
    "vm_step r M' ?t M'' u (map_view r (va + PGSIZE) (Suc n) (pa + PGSIZE) perm (pte ?t))"
    "card (free_mem (km ?t)) \<le> card (free_mem (km u)) + 2 * Suc n"
    using Suc.IH [OF vm_stepD(1) [OF st] r al' hi fr nv] by blast
  have "map_loop me r va (va + Suc n * PGSIZE) pa perm s = Done 0 u"
    using w u(1) by (subst map_loop.simps) (simp add: and_PTE_V PGSIZE_def add.assoc)
  moreover have "vm_step r M s M'' u (map_view r va (Suc (Suc n)) pa perm (pte s))"
    unfolding map_view_Suc [OF al, of r "Suc n"] by (rule vm_step_trans [OF st u(2)])
  ultimately show ?case using c u(3) by fastforce
qed

lemma mappages_ok:
  assumes "vm_ok M s" "is_root M r" "PGSIZE dvd va" "0 < n" "va + n * PGSIZE \<le> MAXVA" "2 * n \<le> card (free_mem (km s))"
    "\<And>k. k < n \<Longrightarrow> \<not> valid (pte s r (va + k * PGSIZE))"
  obtains M' t where "mappages me r va (n * PGSIZE) pa perm s = Done 0 t"
    "vm_step r M s M' t (map_view r va n pa perm (pte s))" "card (free_mem (km s)) \<le> card (free_mem (km t)) + 2 * n"
proof -
  obtain m where m: "n = Suc m" using assms(4) gr0_implies_Suc by blast
  have "va + n * PGSIZE - PGSIZE = va + m * PGSIZE" by (simp add: m PGSIZE_def)
  moreover have "va + m * PGSIZE < 2 ^ 64" using assms(5) by (simp add: m MAXVA_def PGSIZE_def)
  ultimately have "mappages me r va (n * PGSIZE) pa perm s = map_loop me r va (va + m * PGSIZE) pa perm s"
    using assms(3,4) by (simp add: mappages_def PGSIZE_def dvd_eq_mod_eq_0)
  then show ?thesis
    using that map_loop_ok [OF assms(1-3), of m me pa perm] assms(5-7) unfolding m by (metis less_Suc_eq_le)
qed

end
