(* ===== verification/Vm_Unmap.thy ===== *)
theory Vm_Unmap
  imports Vm_Map
begin

unbundle bit_operations_syntax

section \<open>Unmapping and freeing an address space\<close>

text \<open>
  \<open>uvmunmap\<close> clears the valid entries of its range and gives back their pages;
  \<open>freewalk\<close> gives back every page of a table without leaves.
\<close>

subsection \<open>Giving back a page\<close>

lemma pm_kfree_last:
  assumes "kmem_ok (km s)" "used_page (km s) pa"
  obtains t where "pm_kfree me pa s = Done () t" "kmem_ok (km t)" "kend (km t) = kend (km s)"
    "free_mem (km t) = insert (pa div PGSIZE) (free_mem (km s))"
    "ref_cnt (km t) = (ref_cnt (km s))(pa div PGSIZE := 0)"
    "word_at t = fill_words pa 0x0101010101010101 (word_at s)" "pmem.more t = pmem.more s"
proof -
  have u: "page_addr (km s) pa" "ref_cnt (km s) (pa div PGSIZE) = 1" using assms(2) by (simp_all add: used_page_def)
  obtain k where k: "kfree me pa (km s) = Done () k" "kmem_ok k" "kend k = kend (km s)"
    "free_mem k = insert (pa div PGSIZE) (free_mem (km s))" "ref_cnt k = (ref_cnt (km s))(pa div PGSIZE := 0)"
    using kfree_last [OF assms(1) u, of me] by metis
  let ?t = "s\<lparr>km := k, word_at := fill_words pa 0x0101010101010101 (word_at s)\<rparr>"
  have "pm_kfree me pa s = Done () ?t" using k(1) u(2) by (simp add: pm_kfree_def)
  then show ?thesis using k(2-5) by (intro that [of ?t]) simp_all
qed

text \<open>A page that is in use but is no table.\<close>

definition data_page :: "(position \<rightharpoonup> nat) \<Rightarrow> 'a pmem_scheme \<Rightarrow> nat \<Rightarrow> bool" where
  "data_page M s pa \<longleftrightarrow> used_page (km s) pa \<and> pa \<notin> ran M"

lemma used_other_frame:
  "used_page k p \<Longrightarrow> used_page k q \<Longrightarrow> p \<noteq> q \<Longrightarrow> p div PGSIZE \<noteq> q div PGSIZE"
  unfolding used_page_def by (metis page_addr_frame_inj)

lemma used_page_freed:
  assumes "used_page k p" "p div PGSIZE \<noteq> f" "kend k' = kend k" "free_mem k' = insert f (free_mem k)"
    "ref_cnt k' = (ref_cnt k)(f := 0)"
  shows "used_page k' p"
  using assms by (simp add: used_page_def page_addr_def)

lemma free_data_page:
  assumes ok: "vm_ok M s" and d: "data_page M s pa"
  obtains t where "pm_kfree me pa s = Done () t" "vm_ok M t" "kend (km t) = kend (km s)"
    "free_mem (km t) = insert (pa div PGSIZE) (free_mem (km s))"
    "\<And>x p i. M x = Some p \<Longrightarrow> i < 512 \<Longrightarrow> word_at t (p + 8 * i) = word_at s (p + 8 * i)"
    "\<And>q. data_page M s q \<Longrightarrow> q \<noteq> pa \<Longrightarrow> data_page M t q"
proof -
  have u: "used_page (km s) pa" and nt: "pa \<notin> ran M" using d by (simp_all add: data_page_def)
  obtain t where t: "pm_kfree me pa s = Done () t" "kmem_ok (km t)" "kend (km t) = kend (km s)"
    "free_mem (km t) = insert (pa div PGSIZE) (free_mem (km s))"
    "ref_cnt (km t) = (ref_cnt (km s))(pa div PGSIZE := 0)"
    "word_at t = fill_words pa 0x0101010101010101 (word_at s)"
    using pm_kfree_last [OF vm_okD(1) [OF ok] u] by metis
  have al: "PGSIZE dvd pa" using u by (simp add: used_page_def page_addr_def)
  have fr: "p div PGSIZE \<noteq> pa div PGSIZE" if "M x = Some p" for x p
    by (rule used_other_frame [OF vm_okD(3) [OF ok that] u]) (use that nt in \<open>auto dest: ranI\<close>)
  have w: "word_at t (p + 8 * i) = word_at s (p + 8 * i)" if "M x = Some p" "i < 512" for x p i
    unfolding t(6)
    by (rule fill_words_off [OF al]) (simp add: slot_frame [OF table_aligned [OF ok that(1)] that(2)] fr [OF that(1)])
  have vm: "vm_ok M t"
  proof (rule vm_okI)
    show "kmem_ok (km t)" by fact
    show "entries_ok M t" by (rule entries_cong [OF vm_okD(2) [OF ok] w])
    show "used_page (km t) p" if "M x = Some p" for x p
      by (rule used_page_freed [OF vm_okD(3) [OF ok that] fr [OF that] t(3-5)])
    show "x = y" if "M x = Some p" "M y = Some p" for x y p using vm_okD(4) [OF ok that] .
    show "l \<le> 2 \<and> (l = 2 \<longrightarrow> p = r \<and> u = 0) \<and> u * 2 ^ (21 + 9 * l) < MAXVA" if "M (r, l, u) = Some p" for r l u p
      using vm_okD(5,8) [OF ok that] vm_okD(6) [OF ok, of r u p] that by auto
    show "M (r, Suc l, u div 512) \<noteq> None" if "l < 2" "M (r, l, u) \<noteq> None" for r l u
      using vm_okD(7) [OF ok that(1)] that(2) by auto
  qed
  have dp: "data_page M t q" if q: "data_page M s q" "q \<noteq> pa" for q
  proof -
    have uq: "used_page (km s) q" using q(1) by (simp add: data_page_def)
    have "used_page (km t) q" by (rule used_page_freed [OF uq used_other_frame [OF uq u q(2)] t(3-5)])
    then show ?thesis using q(1) by (simp add: data_page_def)
  qed
  show ?thesis by (rule that [OF t(1) vm t(3,4) w dp])
qed

subsection \<open>uvmunmap\<close>

definition in_range :: "nat \<Rightarrow> nat \<Rightarrow> nat \<Rightarrow> bool" where
  "in_range va n va' \<longleftrightarrow> va div PGSIZE \<le> va' div PGSIZE \<and> va' div PGSIZE < va div PGSIZE + n"

text \<open>The abstract operation: the valid entries of the range are cleared.\<close>

definition unmap_view :: "nat \<Rightarrow> nat \<Rightarrow> nat \<Rightarrow> (nat \<Rightarrow> nat \<Rightarrow> nat) \<Rightarrow> nat \<Rightarrow> nat \<Rightarrow> nat" where
  "unmap_view r va n V = (\<lambda>r' va'. if r' = r \<and> in_range va n va' \<and> valid (V r' va') then 0 else V r' va')"

text \<open>The valid entries of the range.\<close>

definition range_ptes :: "nat \<Rightarrow> nat \<Rightarrow> nat \<Rightarrow> 'a pmem_scheme \<Rightarrow> nat list" where
  "range_ptes r va n s = filter valid (map (\<lambda>k. pte s r (va + k * PGSIZE)) [0..<n])"

text \<open>
  The valid entries of the range are leaves; when pages are freed they map different data
  pages.
\<close>

definition can_unmap :: "(position \<rightharpoonup> nat) \<Rightarrow> 'a pmem_scheme \<Rightarrow> nat \<Rightarrow> nat \<Rightarrow> nat \<Rightarrow> bool \<Rightarrow> bool" where
  "can_unmap M s r va n do_free \<longleftrightarrow>
     (\<forall>e\<in>set (range_ptes r va n s). PTE_FLAGS e \<noteq> PTE_V) \<and>
     (do_free \<longrightarrow> distinct (map PTE2PA (range_ptes r va n s)) \<and>
        (\<forall>e\<in>set (range_ptes r va n s). data_page M s (PTE2PA e)))"

lemma range_ptes_0 [simp]: "range_ptes r va 0 s = []"
  by (simp add: range_ptes_def)

lemma range_ptes_Suc:
  "range_ptes r va (Suc n) s =
     (if valid (pte s r va) then pte s r va # range_ptes r (va + PGSIZE) n s else range_ptes r (va + PGSIZE) n s)"
proof -
  have "[0..<Suc n] = 0 # map Suc [0..<n]" by (simp add: upt_conv_Cons map_Suc_upt)
  then show ?thesis by (simp add: range_ptes_def add.assoc comp_def)
qed

lemma range_ptes_cong:
  assumes "\<And>k. k < n \<Longrightarrow> pte t r (va + k * PGSIZE) = pte s r (va + k * PGSIZE)"
  shows "range_ptes r va n t = range_ptes r va n s"
proof -
  have "map (\<lambda>k. pte t r (va + k * PGSIZE)) [0..<n] = map (\<lambda>k. pte s r (va + k * PGSIZE)) [0..<n]"
    using assms by (intro map_cong) auto
  then show ?thesis unfolding range_ptes_def by (rule arg_cong)
qed

text \<open>The frames of the pages a call frees.\<close>

definition freed :: "bool \<Rightarrow> nat list \<Rightarrow> nat set" where
  "freed do_free es = (if do_free then (\<lambda>e. PTE2PA e div PGSIZE) ` set es else {})"

lemma in_range_0 [simp]: "\<not> in_range va 0 va'"
  by (simp add: in_range_def)

lemma unmap_view_0 [simp]: "unmap_view r va 0 V = V"
  by (auto simp: unmap_view_def in_range_def fun_eq_iff)

lemma in_range_Suc:
  "in_range va (Suc n) va' \<longleftrightarrow> va' div PGSIZE = va div PGSIZE \<or> in_range (va + PGSIZE) n va'"
proof -
  have "(va + PGSIZE) div PGSIZE = Suc (va div PGSIZE)" by (simp add: PGSIZE_def)
  then show ?thesis by (auto simp: in_range_def)
qed

definition unmapped :: "(position \<rightharpoonup> nat) \<Rightarrow> 'a pmem_scheme \<Rightarrow> 'a pmem_scheme \<Rightarrow> (nat \<Rightarrow> nat \<Rightarrow> nat) \<Rightarrow> nat set \<Rightarrow> bool" where
  "unmapped M s t V F \<longleftrightarrow> vm_ok M t \<and> kend (km t) = kend (km s) \<and> free_mem (km t) = free_mem (km s) \<union> F \<and>
     (\<forall>q. data_page M s q \<longrightarrow> q div PGSIZE \<notin> F \<longrightarrow> data_page M t q) \<and>
     (\<forall>r va. is_root M r \<longrightarrow> va < MAXVA \<longrightarrow> pte t r va = V r va)"

lemma unmappedD:
  assumes "unmapped M s t V F"
  shows "vm_ok M t" "kend (km t) = kend (km s)" "free_mem (km t) = free_mem (km s) \<union> F"
    "\<And>q. data_page M s q \<Longrightarrow> q div PGSIZE \<notin> F \<Longrightarrow> data_page M t q"
    "\<And>r va. is_root M r \<Longrightarrow> va < MAXVA \<Longrightarrow> pte t r va = V r va"
  using assms by (simp_all add: unmapped_def)

lemma unmapped_trans:
  assumes a: "unmapped M s t V F" and b: "unmapped M t u W G"
    and w: "\<And>r va. is_root M r \<Longrightarrow> va < MAXVA \<Longrightarrow> W r va = X r va"
  shows "unmapped M s u X (F \<union> G)"
  using unmappedD [OF a] unmappedD [OF b] w by (simp add: unmapped_def Un_assoc)

text \<open>One round of the loop, for a valid entry.\<close>

lemma unmap_one:
  assumes ok: "vm_ok M s" and p: "M (r, 0, prefix_of 0 va) = Some p" and va: "va < MAXVA" and r: "is_root M r"
    and d: "f \<Longrightarrow> data_page M s (PTE2PA (pte s r va))" and v: "valid (pte s r va)"
  obtains u where "(if f then pm_kfree me (PTE2PA (pte s r va)) s else Done () s) = Done () u"
    "unmapped M s (poke (p + 8 * PX 0 va) 0 u) (unmap_view r va 1 (pte s)) (freed f [pte s r va])"
proof -
  let ?a = "p + 8 * PX 0 va" and ?pa = "PTE2PA (pte s r va)"
  obtain u where u: "(if f then pm_kfree me ?pa s else Done () s) = Done () u" "vm_ok M u"
    "kend (km u) = kend (km s)" "free_mem (km u) = free_mem (km s) \<union> freed f [pte s r va]"
    "\<And>x p i. M x = Some p \<Longrightarrow> i < 512 \<Longrightarrow> word_at u (p + 8 * i) = word_at s (p + 8 * i)"
    "\<And>q. data_page M s q \<Longrightarrow> q div PGSIZE \<notin> freed f [pte s r va] \<Longrightarrow> data_page M u q"
  proof (cases f)
    case True
    obtain t where t: "pm_kfree me ?pa s = Done () t" "vm_ok M t" "kend (km t) = kend (km s)"
      "free_mem (km t) = insert (?pa div PGSIZE) (free_mem (km s))"
      "\<And>x p i. M x = Some p \<Longrightarrow> i < 512 \<Longrightarrow> word_at t (p + 8 * i) = word_at s (p + 8 * i)"
      "\<And>q. data_page M s q \<Longrightarrow> q \<noteq> ?pa \<Longrightarrow> data_page M t q"
      by (rule free_data_page [OF ok d [OF True], of me]) (rule that)
    have "data_page M t q" if "data_page M s q" "q div PGSIZE \<notin> freed f [pte s r va]" for q
      using t(6) [OF that(1)] that(2) True by (cases "q = ?pa") (simp_all add: freed_def)
    moreover have "free_mem (km t) = free_mem (km s) \<union> freed f [pte s r va]"
      using t(4) True by (simp add: freed_def)
    ultimately show ?thesis using True t(1) by (intro that [OF _ t(2,3) _ t(5)]) simp_all
  next
    case False
    show ?thesis by (rule that [of s]) (use False ok in \<open>simp_all add: freed_def\<close>)
  qed
  have same: "pte u r' va' = pte s r' va'" if "is_root M r'" "va' < MAXVA" for r' va'
    using pte_leaf [OF u(2) that] pte_leaf [OF ok that] u(5) [OF _ PX_less] by (simp split: option.split)
  have in1: "in_range va (Suc 0) va' \<longleftrightarrow> va' div PGSIZE = va div PGSIZE" for va' by (auto simp: in_range_def)
  have vv: "pte s r va' = pte s r va" if "va' < MAXVA" "va' div PGSIZE = va div PGSIZE" for va'
    by (rule pte_same_page [OF ok r va that])
  have "unmapped M s (poke ?a 0 u) (unmap_view r va 1 (pte s)) (freed f [pte s r va])"
    unfolding unmapped_def
  proof (intro conjI allI impI)
    show "vm_ok M (poke ?a 0 u)" by (rule poke_leaf(1) [OF u(2) p])
    show "kend (km (poke ?a 0 u)) = kend (km s)" "free_mem (km (poke ?a 0 u)) = free_mem (km s) \<union> freed f [pte s r va]"
      using u(3,4) by simp_all
    show "data_page M (poke ?a 0 u) q" if "data_page M s q" "q div PGSIZE \<notin> freed f [pte s r va]" for q
      using u(6) [OF that] by (simp add: data_page_def)
    fix r' va' assume r': "is_root M r'" and va': "va' < MAXVA"
    show "pte (poke ?a 0 u) r' va' = unmap_view r va 1 (pte s) r' va'"
      using poke_leaf(2) [OF u(2) p r' va', of 0] same [OF r' va'] vv [OF va'] v
      by (auto simp: unmap_view_def in1)
  qed
  then show ?thesis using that u(1) by blast
qed

lemma unmap_loop_ok:
  assumes "vm_ok M s" "is_root M r" "PGSIZE dvd va" "va + n * PGSIZE \<le> MAXVA" "can_unmap M s r va n f"
  shows "\<exists>t. unmap_loop me r va (va + n * PGSIZE) f s = Done () t \<and>
    unmapped M s t (unmap_view r va n (pte s)) (freed f (range_ptes r va n s))"
  using assms
proof (induction n arbitrary: va s)
  case (0 va s)
  then show ?case by (subst unmap_loop.simps) (auto simp: unmapped_def freed_def)
next
  case (Suc n va s)
  note ok = Suc.prems(1) and r = Suc.prems(2)
  have va: "va < MAXVA" and lt: "va < va + Suc n * PGSIZE" using Suc.prems(4) by (simp_all add: PGSIZE_def)
  have al: "PGSIZE dvd va + PGSIZE" and hi: "va + PGSIZE + n * PGSIZE \<le> MAXVA" using Suc.prems(3,4) by simp_all
  have next_va: "va + Suc n * PGSIZE = va + PGSIZE + n * PGSIZE" by simp
  have far: "\<not> va' div PGSIZE = va div PGSIZE" if "in_range (va + PGSIZE) n va'" for va'
    using that by (simp add: in_range_def next_page)
  have step: "(va + PGSIZE + k * PGSIZE) div PGSIZE = Suc (va div PGSIZE + k)" for k by (simp add: PGSIZE_def)
  show ?case
  proof (cases "valid (pte s r va)")
    case False
    then have "can_unmap M s r (va + PGSIZE) n f" using Suc.prems(5) by (simp add: can_unmap_def range_ptes_Suc)
    then obtain t where t: "unmap_loop me r (va + PGSIZE) (va + PGSIZE + n * PGSIZE) f s = Done () t"
      "unmapped M s t (unmap_view r (va + PGSIZE) n (pte s)) (freed f (range_ptes r (va + PGSIZE) n s))"
      using Suc.IH [OF ok r al hi] by blast
    have vv: "\<not> valid (pte s r va')" if "va' < MAXVA" "va' div PGSIZE = va div PGSIZE" for va'
      using pte_same_page [OF ok r va that] False by simp
    have "unmapped M s t (unmap_view r va (Suc n) (pte s)) (freed f (range_ptes r va (Suc n) s))"
      using t(2) vv False unfolding unmapped_def by (auto simp: unmap_view_def in_range_Suc range_ptes_Suc)
    moreover have "unmap_loop me r va (va + Suc n * PGSIZE) f s = Done () t"
      using t(1) False walk_read [OF ok r va, of me] pte_leaf [OF ok r va] lt unfolding next_va
      by (subst unmap_loop.simps) (auto simp: and_PTE_V split: option.splits)
    ultimately show ?thesis by blast
  next
    case True
    then obtain p where p: "M (r, 0, prefix_of 0 va) = Some p" and e: "pte s r va = word_at s (p + 8 * PX 0 va)"
      using pte_leaf [OF ok r va] by (cases "M (r, 0, prefix_of 0 va)") auto
    let ?es = "range_ptes r (va + PGSIZE) n s"
    have c: "PTE_FLAGS (pte s r va) \<noteq> PTE_V" "f \<Longrightarrow> data_page M s (PTE2PA (pte s r va))"
      "\<forall>e\<in>set ?es. PTE_FLAGS e \<noteq> PTE_V" "f \<Longrightarrow> distinct (map PTE2PA ?es)"
      "f \<Longrightarrow> PTE2PA (pte s r va) \<notin> PTE2PA ` set ?es" "f \<Longrightarrow> \<forall>e\<in>set ?es. data_page M s (PTE2PA e)"
      using Suc.prems(5) True by (simp_all add: can_unmap_def range_ptes_Suc)
    obtain u where u: "(if f then pm_kfree me (PTE2PA (pte s r va)) s else Done () s) = Done () u"
      "unmapped M s (poke (p + 8 * PX 0 va) 0 u) (unmap_view r va 1 (pte s)) (freed f [pte s r va])"
      using unmap_one [OF ok p va r c(2) True] by blast
    let ?u = "poke (p + 8 * PX 0 va) 0 u"
    have same: "pte ?u r (va + PGSIZE + k * PGSIZE) = pte s r (va + PGSIZE + k * PGSIZE)" if "k < n" for k
    proof -
      have "k * PGSIZE < n * PGSIZE" using that by (simp add: PGSIZE_def)
      then have "va + PGSIZE + k * PGSIZE < MAXVA" using hi by linarith
      then show ?thesis using unmappedD(5) [OF u(2) r] step [of k] by (simp add: unmap_view_def in_range_def)
    qed
    have es: "range_ptes r (va + PGSIZE) n ?u = ?es" by (rule range_ptes_cong) (rule same)
    have "data_page M ?u (PTE2PA e)" if f: "f" and e: "e \<in> set ?es" for e
    proof -
      have d: "data_page M s (PTE2PA e)" "PTE2PA e \<noteq> PTE2PA (pte s r va)" using c(5,6) [OF f] e by (blast, metis image_eqI)
      then have "PTE2PA e div PGSIZE \<noteq> PTE2PA (pte s r va) div PGSIZE"
        using used_other_frame c(2) [OF f] unfolding data_page_def by blast
      then show ?thesis using unmappedD(4) [OF u(2) d(1)] f by (simp add: freed_def)
    qed
    then have "can_unmap M ?u r (va + PGSIZE) n f" using c(3,4) by (simp add: can_unmap_def es)
    then obtain t where t: "unmap_loop me r (va + PGSIZE) (va + PGSIZE + n * PGSIZE) f ?u = Done () t"
      "unmapped M ?u t (unmap_view r (va + PGSIZE) n (pte ?u)) (freed f ?es)"
      using Suc.IH [OF unmappedD(1) [OF u(2)] r al hi] es by auto
    have "unmap_loop me r va (va + Suc n * PGSIZE) f s = Done () t"
      using t(1) True walk_read [OF ok r va, of me] p e lt u(1) [unfolded e] c(1) table_pos [OF ok p] unfolding next_va
      by (subst unmap_loop.simps) (cases f; simp add: and_PTE_V)
    moreover have "unmapped M s t (unmap_view r va (Suc n) (pte s)) (freed f [pte s r va] \<union> freed f ?es)"
    proof (rule unmapped_trans [OF u(2) t(2)])
      fix r' va' assume "is_root M r'" "va' < MAXVA"
      then show "unmap_view r (va + PGSIZE) n (pte ?u) r' va' = unmap_view r va (Suc n) (pte s) r' va'"
        using unmappedD(5) [OF u(2)] far [of va'] by (auto simp: unmap_view_def in_range_Suc)
    qed
    ultimately show ?thesis using True by (auto simp: range_ptes_Suc freed_def)
  qed
qed

lemma uvmunmap_ok:
  assumes "vm_ok M s" "is_root M r" "PGSIZE dvd va" "va + n * PGSIZE \<le> MAXVA" "can_unmap M s r va n f"
  obtains t where "uvmunmap me r va n f s = Done () t"
    "unmapped M s t (unmap_view r va n (pte s)) (freed f (range_ptes r va n s))"
proof -
  have "va + n * PGSIZE < 2 ^ 64" using assms(4) by (simp add: MAXVA_def)
  then have "uvmunmap me r va n f s = unmap_loop me r va (va + n * PGSIZE) f s"
    using assms(3) by (simp add: uvmunmap_def dvd_eq_mod_eq_0)
  then show ?thesis using that unmap_loop_ok [OF assms, of me] by metis
qed

end
