(* ===== verification/Vm_Free.thy ===== *)
theory Vm_Free
  imports Vm_Unmap
begin

unbundle bit_operations_syntax

section \<open>freewalk gives back every table page\<close>

text \<open>
  \<open>sub x\<close> is the set of positions in the subtree at position \<open>x\<close>.  While \<open>freewalk\<close>
  returns from a subtree, the entry that led there still points to the page it has freed:
  \<open>vm_but x\<close> is the invariant with the entry for \<open>x\<close> left open.
\<close>

subsection \<open>Subtrees\<close>

fun sub :: "position \<Rightarrow> position set" where
  "sub (r, l, u) = {(r, l', u') | l' u'. l' \<le> l \<and> u' div 512 ^ (l - l') = u}"

lemma sub_self [simp]: "x \<in> sub x"
  by (cases x) simp

lemma sub_leaf: "sub (r, 0, u) = {(r, 0, u)}"
  by auto

lemma sub_Suc: "sub (r, Suc l, u) = insert (r, Suc l, u) (\<Union>i<512. sub (r, l, u * 512 + i))"
proof (rule set_eqI)
  fix y :: position
  obtain r' l' u' where y: "y = (r', l', u')" using prod_cases3 by blast
  have "u' div 512 ^ (Suc l - l') = u \<longleftrightarrow> (\<exists>i<512. u' div 512 ^ (l - l') = u * 512 + i)" if "l' \<le> l"
  proof -
    have "u' div 512 ^ (Suc l - l') = u' div 512 ^ (l - l') div 512"
      using that by (simp add: Suc_diff_le div_mult2_eq [symmetric] mult.commute)
    moreover have "v div 512 = u \<longleftrightarrow> (\<exists>i<512. v = u * 512 + i)" for v :: nat
    proof
      assume "v div 512 = u"
      then have "v = u * 512 + v mod 512" "v mod 512 < 512" using div_mult_mod_eq [of v 512] by simp_all
      then show "\<exists>i<512. v = u * 512 + i" by blast
    qed auto
    ultimately show ?thesis by simp
  qed
  then show "y \<in> sub (r, Suc l, u) \<longleftrightarrow> y \<in> insert (r, Suc l, u) (\<Union>i<512. sub (r, l, u * 512 + i))"
    unfolding y by (cases "l' \<le> l") (auto simp: le_Suc_eq)
qed

lemma sub_disjoint:
  assumes "y \<in> sub (r, l, u)" "y \<in> sub (r, l, v)" shows "u = v"
  using assms by auto

lemma sub_parent_closed:
  assumes "(r, Suc l, u div 512) \<in> sub x" shows "(r, l, u) \<in> sub x"
proof -
  obtain r' l' u' where x: "x = (r', l', u')" using prod_cases3 by blast
  then have "r = r'" "Suc l \<le> l'" "u div 512 div 512 ^ (l' - Suc l) = u'" using assms by auto
  moreover have "(512::nat) ^ (l' - l) = 512 * 512 ^ (l' - Suc l)"
    using \<open>Suc l \<le> l'\<close> by (metis Suc_diff_le diff_Suc_Suc power_Suc)
  ultimately show ?thesis using x by (simp add: div_mult2_eq)
qed

subsection \<open>The invariant with one entry open\<close>

definition entries_but :: "position set \<Rightarrow> (position \<rightharpoonup> nat) \<Rightarrow> 'a pmem_scheme \<Rightarrow> bool" where
  "entries_but E M s \<longleftrightarrow>
     (\<forall>r l u p. \<forall>i<512. M (r, Suc l, u) = Some p \<longrightarrow> (r, l, u * 512 + i) \<notin> E \<longrightarrow>
        (case M (r, l, u * 512 + i) of
           None \<Rightarrow> \<not> valid (word_at s (p + 8 * i))
         | Some q \<Rightarrow> word_at s (p + 8 * i) = pt_entry q))"

lemma entries_butD:
  assumes "entries_but E M s" "M (r, Suc l, u) = Some p" "i < 512" "(r, l, u * 512 + i) \<notin> E"
  shows "case M (r, l, u * 512 + i) of None \<Rightarrow> \<not> valid (word_at s (p + 8 * i))
    | Some q \<Rightarrow> word_at s (p + 8 * i) = pt_entry q"
  using assms unfolding entries_but_def by blast

lemma entries_but_none: "entries_but {} M s \<longleftrightarrow> entries_ok M s"
  by (simp add: entries_but_def entries_ok_def)

definition vm_but :: "position set \<Rightarrow> (position \<rightharpoonup> nat) \<Rightarrow> 'a pmem_scheme \<Rightarrow> bool" where
  "vm_but E M s \<longleftrightarrow> tables_ok M (km s) \<and> entries_but E M s"

lemma vm_but_none [simp]: "vm_but {} M s \<longleftrightarrow> vm_ok M s"
  by (simp add: vm_but_def vm_ok_def entries_but_none)

lemma vm_but_root:
  assumes "vm_but {(r, 2, 0)} M s" shows "vm_ok M s"
proof -
  have "l < 2" if "M (r', Suc l, u) = Some p" for r' l u p
    using assms that unfolding vm_but_def tables_ok_def by fastforce
  then have "entries_but {} M s" using assms unfolding vm_but_def entries_but_def by blast
  then show ?thesis using assms by (simp add: vm_but_def vm_ok_def entries_but_none)
qed

text \<open>The tables at the positions \<open>S\<close> have been given back.\<close>

definition gone :: "position set \<Rightarrow> position set \<Rightarrow> (position \<rightharpoonup> nat) \<Rightarrow> 'a pmem_scheme \<Rightarrow> 'a pmem_scheme \<Rightarrow> bool" where
  "gone E S M s t \<longleftrightarrow> vm_but E (M |` (- S)) t \<and> kend (km t) = kend (km s) \<and>
     free_mem (km t) = free_mem (km s) \<union> (\<lambda>p. p div PGSIZE) ` ran (M |` S) \<and>
     (\<forall>r u p. \<forall>i<512. M (r, 0, u) = Some p \<longrightarrow> (r, 0, u) \<notin> S \<longrightarrow>
        word_at t (p + 8 * i) = word_at s (p + 8 * i)) \<and>
     (\<forall>q. data_page M s q \<longrightarrow> used_page (km t) q)"

lemma goneD:
  assumes "gone E S M s t"
  shows "vm_but E (M |` (- S)) t" "kend (km t) = kend (km s)"
    "free_mem (km t) = free_mem (km s) \<union> (\<lambda>p. p div PGSIZE) ` ran (M |` S)"
    "\<And>r u p i. i < 512 \<Longrightarrow> M (r, 0, u) = Some p \<Longrightarrow> (r, 0, u) \<notin> S \<Longrightarrow> word_at t (p + 8 * i) = word_at s (p + 8 * i)"
    "\<And>q. data_page M s q \<Longrightarrow> used_page (km t) q"
  using assms unfolding gone_def by blast+

lemma restrict_Some: "(M |` A) x = Some p \<longleftrightarrow> M x = Some p \<and> x \<in> A"
  by (auto simp: restrict_map_def)

lemma ran_restrict: "p \<in> ran (M |` A) \<longleftrightarrow> (\<exists>x\<in>A. M x = Some p)"
  by (auto simp: ran_def restrict_Some)

lemma restrict_all [simp]: "M |` UNIV = M"
  by (simp add: restrict_map_def)

lemma gone_refl: "vm_ok M s \<Longrightarrow> gone {} {} M s s"
  by (auto simp: gone_def data_page_def)

lemma gone_trans:
  assumes a: "gone {} S M s t" and b: "gone E S' (M |` (- S)) t u" shows "gone E (S \<union> S') M s u"
  unfolding gone_def
proof (intro conjI allI impI)
  show "vm_but E (M |` (- (S \<union> S'))) u" using goneD(1) [OF b] by (simp add: Int_def Compl_Un)
  show "kend (km u) = kend (km s)" using goneD(2) [OF a] goneD(2) [OF b] by simp
  have "ran (M |` (S \<union> S')) = ran (M |` S) \<union> ran ((M |` (- S)) |` S')"
    by (auto simp: set_eq_iff ran_restrict restrict_Some)
  then show "free_mem (km u) = free_mem (km s) \<union> (\<lambda>p. p div PGSIZE) ` ran (M |` (S \<union> S'))"
    using goneD(3) [OF a] goneD(3) [OF b] by (simp add: image_Un Un_assoc)
  show "word_at u (p + 8 * i) = word_at s (p + 8 * i)" if "i < 512" "M (r, 0, v) = Some p" "(r, 0, v) \<notin> S \<union> S'" for r v p i
    using goneD(4) [OF a that(1,2)] goneD(4) [OF b that(1), of r v p] that(2,3) by (simp add: restrict_map_def)
  show "used_page (km u) q" if "data_page M s q" for q
  proof -
    have "q \<notin> ran (M |` (- S))" using that by (auto simp: data_page_def ran_def restrict_Some)
    then show ?thesis using goneD(5) [OF a that] goneD(5) [OF b, of q] by (simp add: data_page_def)
  qed
qed

subsection \<open>One table page\<close>

lemma tables_okD:
  assumes "tables_ok M k"
  shows "kmem_ok k" "\<And>x p. M x = Some p \<Longrightarrow> used_page k p"
    "\<And>x y p. M x = Some p \<Longrightarrow> M y = Some p \<Longrightarrow> x = y"
    "\<And>r l u p. M (r, l, u) = Some p \<Longrightarrow> l \<le> 2 \<and> (l = 2 \<longrightarrow> p = r \<and> u = 0) \<and> u * 2 ^ (21 + 9 * l) < MAXVA"
    "\<And>r l u. l < 2 \<Longrightarrow> M (r, l, u) \<noteq> None \<Longrightarrow> M (r, Suc l, u div 512) \<noteq> None"
  using assms unfolding tables_ok_def by blast+

lemma tables_cut:
  assumes ok: "tables_ok M k" and x: "M x = Some p" and k': "kmem_ok k'" "kend k' = kend k"
    "free_mem k' = insert (p div PGSIZE) (free_mem k)" "ref_cnt k' = (ref_cnt k)(p div PGSIZE := 0)"
  shows "tables_ok (M |` (- sub x)) k'"
  unfolding tables_ok_def
proof (intro conjI allI impI)
  show "kmem_ok k'" by fact
  show "used_page k' q" if "(M |` (- sub x)) y = Some q" for y q
  proof -
    have q: "M y = Some q" "y \<noteq> x" using that by (auto simp: restrict_Some)
    then have "q \<noteq> p" using tables_okD(3) [OF ok, of y q x] x by auto
    then show ?thesis
      using used_page_freed [OF tables_okD(2) [OF ok q(1)] _ k'(2-4)]
        used_other_frame [OF tables_okD(2) [OF ok q(1)] tables_okD(2) [OF ok x]] by blast
  qed
  show "y = z" if "(M |` (- sub x)) y = Some q" "(M |` (- sub x)) z = Some q" for y z q
    using that tables_okD(3) [OF ok, of y q z] by (simp add: restrict_Some)
  show "l \<le> 2" "u * 2 ^ (21 + 9 * l) < MAXVA" if "(M |` (- sub x)) (r, l, u) = Some q" for r l u q
    using that tables_okD(4) [OF ok, of r l u q] by (simp_all add: restrict_Some)
  show "q = r" "u = 0" if "(M |` (- sub x)) (r, l, u) = Some q" "l = 2" for r l u q
    using that tables_okD(4) [OF ok, of r l u q] by (simp_all add: restrict_Some)
  show "(M |` (- sub x)) (r, Suc l, u div 512) \<noteq> None" if "l < 2" "(M |` (- sub x)) (r, l, u) \<noteq> None" for r l u
  proof -
    have "M (r, l, u) \<noteq> None" "(r, l, u) \<notin> sub x" using that(2) by (auto simp: restrict_map_def split: if_splits)
    then show ?thesis
      using tables_okD(5) [OF ok that(1)] sub_parent_closed [of r l u x] by (auto simp: restrict_map_def)
  qed
qed

text \<open>\<open>x\<close> has no tables below it.\<close>

lemma free_lone:
  assumes ok: "vm_ok M s" and x: "M x = Some p" and lone: "\<And>y. y \<in> sub x \<Longrightarrow> M y \<noteq> None \<Longrightarrow> y = x"
  obtains t where "pm_kfree me p s = Done () t" "gone {x} (sub x) M s t"
proof -
  have u: "used_page (km s) p" by (rule vm_okD(3) [OF ok x])
  obtain t where t: "pm_kfree me p s = Done () t" "kmem_ok (km t)" "kend (km t) = kend (km s)"
    "free_mem (km t) = insert (p div PGSIZE) (free_mem (km s))" "ref_cnt (km t) = (ref_cnt (km s))(p div PGSIZE := 0)"
    "word_at t = fill_words p 0x0101010101010101 (word_at s)"
    using pm_kfree_last [OF vm_okD(1) [OF ok] u] by metis
  have al: "PGSIZE dvd p" using u by (simp add: used_page_def page_addr_def)
  have w: "word_at t (q + 8 * i) = word_at s (q + 8 * i)" if "i < 512" "M y = Some q" "y \<noteq> x" for y q i
  proof -
    have "q \<noteq> p" using vm_okD(4) [OF ok that(2), of x] x that(3) by auto
    then have "q div PGSIZE \<noteq> p div PGSIZE" by (rule used_other_frame [OF vm_okD(3) [OF ok that(2)] u])
    then show ?thesis unfolding t(6)
      by (intro fill_words_off [OF al]) (simp add: slot_frame [OF table_aligned [OF ok that(2)] that(1)])
  qed
  have "entries_but {x} (M |` (- sub x)) t"
    unfolding entries_but_def
  proof (intro allI impI)
    fix r l v q i assume i: "i < (512::nat)" and q: "(M |` (- sub x)) (r, Suc l, v) = Some q"
      and ne: "(r, l, v * 512 + i) \<notin> {x}"
    have q': "M (r, Suc l, v) = Some q" "(r, Suc l, v) \<noteq> x" using q by (auto simp: restrict_Some)
    have "(M |` (- sub x)) (r, l, v * 512 + i) = M (r, l, v * 512 + i)"
      using lone [of "(r, l, v * 512 + i)"] ne by (cases "M (r, l, v * 512 + i)") (auto simp: restrict_map_def)
    then show "case (M |` (- sub x)) (r, l, v * 512 + i) of None \<Rightarrow> \<not> valid (word_at t (q + 8 * i))
      | Some p \<Rightarrow> word_at t (q + 8 * i) = pt_entry p"
      using vm_okD(2) [OF ok, unfolded entries_ok_def, rule_format, OF i q'(1)] unfolding w [OF i q'] by simp
  qed
  moreover have "tables_ok M (km s)" using ok by (simp add: vm_ok_def)
  then have "tables_ok (M |` (- sub x)) (km t)" using tables_cut x t(2-5) by blast
  ultimately have vb: "vm_but {x} (M |` (- sub x)) t" by (simp add: vm_but_def)
  have "ran (M |` sub x) = {p}" using x lone by (auto simp: set_eq_iff ran_restrict) (metis option.distinct(1) option.sel)
  then have fr: "free_mem (km t) = free_mem (km s) \<union> (\<lambda>p. p div PGSIZE) ` ran (M |` sub x)" using t(4) by simp
  have dp: "used_page (km t) q" if "data_page M s q" for q
  proof -
    have q: "used_page (km s) q" "q \<noteq> p" using that x by (auto simp: data_page_def dest: ranI)
    show ?thesis by (rule used_page_freed [OF q(1) used_other_frame [OF q(1) u q(2)] t(3-5)])
  qed
  have "word_at t (q + 8 * i) = word_at s (q + 8 * i)" if "i < 512" "M (r, 0, v) = Some q" "(r, 0, v) \<notin> sub x" for r v q i
    using w [OF that(1,2)] that(3) sub_self by blast
  then have "gone {x} (sub x) M s t"
    unfolding gone_def using vb t(3) fr dp by blast
  then show ?thesis using that t(1) by blast
qed

subsection \<open>The recursion\<close>

text \<open>Clearing the entry that led to a subtree closes the invariant again.\<close>

lemma gone_poke:
  assumes g: "gone {c} (sub c) M s t" and c: "c = (r, l, u * 512 + i)" and pt: "M (r, Suc l, u) = Some pt" and i: "i < 512"
    and ok: "vm_ok M s"
  shows "gone {} (sub c) M s (poke (pt + 8 * i) 0 t)"
proof -
  let ?M = "M |` (- sub c)" and ?t = "poke (pt + 8 * i) 0 t"
  have ns: "(r, Suc l, u) \<notin> sub c" using c by auto
  have cn: "?M c = None" by (simp add: restrict_map_def)
  have tb: "tables_ok ?M (km ?t)" and eb: "entries_but {c} ?M t" using goneD(1) [OF g] by (simp_all add: vm_but_def)
  have eq: "q + 8 * j = pt + 8 * i \<longleftrightarrow> y = (r, Suc l, u) \<and> j = i" if "M y = Some q" "j < 512" for y q j
    using table_slot_eq [OF ok that(1) pt that(2) i] .
  have "entries_but {} ?M ?t"
    unfolding entries_but_def
  proof (intro allI impI)
    fix r' l' v q j assume j: "j < (512::nat)" and q: "?M (r', Suc l', v) = Some q"
    have q': "M (r', Suc l', v) = Some q" using q by (simp add: restrict_Some)
    show "case ?M (r', l', v * 512 + j) of None \<Rightarrow> \<not> valid (word_at ?t (q + 8 * j))
      | Some p \<Rightarrow> word_at ?t (q + 8 * j) = pt_entry p"
    proof (cases "(r', l', v * 512 + j) = c")
      case True
      then have "r' = r" "l' = l" "v = u" "j = i" using c pos_eq [OF j i] by auto
      then show ?thesis using True cn pt q' by simp
    next
      case False
      then have "\<not> ((r', Suc l', v) = (r, Suc l, u) \<and> j = i)" using c by auto
      then have "q + 8 * j \<noteq> pt + 8 * i" using eq [OF q' j] by blast
      then have w: "word_at ?t (q + 8 * j) = word_at t (q + 8 * j)" by simp
      show ?thesis using entries_butD [OF eb q j] False unfolding w by blast
    qed
  qed
  then have "vm_but {} ?M ?t" using tb by (simp add: vm_but_def)
  moreover have "word_at ?t (p + 8 * j) = word_at s (p + 8 * j)"
    if "j < 512" "M (r', 0, v) = Some p" "(r', 0, v) \<notin> sub c" for r' v p j
    using eq [OF that(2,1)] goneD(4) [OF g that] by simp
  ultimately show ?thesis using goneD(2,3,5) [OF g] unfolding gone_def by simp
qed

lemma no_rwx:
  assumes "PTE2PA (pt_entry q) = q" shows "pt_entry q AND (PTE_R OR PTE_W OR PTE_X) = 0"
proof -
  have "PTE_FLAGS (pt_entry q) = PTE_V" unfolding pt_entry_def by (rule PTE_FLAGS_entry) (simp add: PTE_V_def)
  moreover have "(PTE_R OR PTE_W OR PTE_X) = 0x3FF AND (PTE_R OR PTE_W OR PTE_X)"
    by (simp add: PTE_R_def PTE_W_def PTE_X_def)
  ultimately have "pt_entry q AND (PTE_R OR PTE_W OR PTE_X) = PTE_V AND (PTE_R OR PTE_W OR PTE_X)"
    unfolding PTE_FLAGS_def by (metis and.assoc)
  then show ?thesis by (simp add: PTE_V_def PTE_R_def PTE_W_def PTE_X_def)
qed

text \<open>The leaf entries of the tables at the positions \<open>S\<close> are clear.\<close>

definition no_leaves :: "position set \<Rightarrow> (position \<rightharpoonup> nat) \<Rightarrow> 'a pmem_scheme \<Rightarrow> bool" where
  "no_leaves S M s \<longleftrightarrow> (\<forall>r u p. \<forall>i<512. M (r, 0, u) = Some p \<longrightarrow> (r, 0, u) \<in> S \<longrightarrow> \<not> valid (word_at s (p + 8 * i)))"

lemma no_leaves_gone:
  assumes "no_leaves S M s" "gone E S' M s t" shows "no_leaves S (M |` (- S')) t"
  unfolding no_leaves_def
proof (intro allI impI)
  fix r u p i assume i: "i < (512::nat)" and p: "(M |` (- S')) (r, 0, u) = Some p" "(r, 0, u) \<in> S"
  then have "M (r, 0, u) = Some p" "(r, 0, u) \<notin> S'" by (simp_all add: restrict_Some)
  then show "\<not> valid (word_at t (p + 8 * i))"
    using goneD(4) [OF assms(2) i] assms(1) i p(2) unfolding no_leaves_def by simp
qed

lemma no_leaves_sub: "no_leaves S M s \<Longrightarrow> S' \<subseteq> S \<Longrightarrow> no_leaves S' M s"
  unfolding no_leaves_def by blast

lemma climb:
  assumes ok: "vm_ok M s" and m: "M (r, l, v) \<noteq> None" and "l + k \<le> 2"
  shows "M (r, l + k, v div 512 ^ k) \<noteq> None"
  using assms(3)
proof (induction k)
  case 0 then show ?case using m by simp
next
  case (Suc k)
  then have "M (r, Suc (l + k), v div 512 ^ k div 512) \<noteq> None" using vm_okD(7) [OF ok] by fastforce
  then show ?case by (simp add: div_mult2_eq [symmetric] mult.commute)
qed

lemma sub_none:
  assumes ok: "vm_ok M s" and c: "M (r, l, u) = None" "l \<le> 2" and y: "y \<in> sub (r, l, u)" shows "M y = None"
proof (rule ccontr)
  assume m: "M y \<noteq> None"
  obtain l' v where v: "y = (r, l', v)" "l' \<le> l" "v div 512 ^ (l - l') = u" using y by auto
  from climb [OF ok m [unfolded v(1)], of "l - l'"] show False using v c by simp
qed

lemma root_sub:
  assumes ok: "vm_ok M s" and m: "M (r, l, v) = Some p" shows "(r, l, v) \<in> sub (r, 2, 0)"
proof -
  have l: "l \<le> 2" by (rule vm_okD(5) [OF ok m])
  have "M (r, 2, v div 512 ^ (2 - l)) \<noteq> None" using climb [OF ok, of r l v "2 - l"] m l by simp
  then have "v div 512 ^ (2 - l) = 0" using vm_okD(6) [OF ok] by blast
  then show ?thesis using l by simp
qed

lemma freewalk_loop_skip:
  assumes "\<And>i. 512 - n \<le> i \<Longrightarrow> i < 512 \<Longrightarrow> \<not> valid (word_at s (pt + 8 * i))" "n \<le> 512"
  shows "freewalk_loop me d pt n s = Done () s"
  using assms
proof (induction n)
  case (Suc n)
  have "\<not> valid (word_at s (pt + 8 * (511 - n)))" using Suc.prems(1) [of "511 - n"] Suc.prems(2) by simp
  moreover have "freewalk_loop me d pt n s = Done () s" using Suc.prems by (intro Suc.IH) auto
  ultimately show ?case by (simp add: Let_def and_PTE_V)
qed simp

text \<open>The loop over the children \<open>512 - n\<close> to 511 of a table, given that the recursive calls are right.\<close>

lemma freewalk_loop_ok:
  fixes s :: "'a pmem_scheme"
  assumes rec: "\<And>M (s :: 'a pmem_scheme) v q. vm_ok M s \<Longrightarrow> M (r, l, v) = Some q \<Longrightarrow> no_leaves (sub (r, l, v)) M s \<Longrightarrow>
      \<exists>t. freewalk me d q s = Done () t \<and> gone {(r, l, v)} (sub (r, l, v)) M s t"
  shows "vm_ok M s \<Longrightarrow> M (r, Suc l, u) = Some pt \<Longrightarrow> n \<le> 512 \<Longrightarrow> no_leaves (sub (r, Suc l, u)) M s \<Longrightarrow>
    \<exists>t. freewalk_loop me d pt n s = Done () t \<and> gone {} (\<Union>i\<in>{512 - n..<512}. sub (r, l, u * 512 + i)) M s t"
proof (induction n arbitrary: M s)
  case 0 then show ?case using gone_refl [OF 0(1)] by simp
next
  case (Suc n M s)
  note ok = Suc.prems(1) and pt = Suc.prems(2) and nl = Suc.prems(4)
  let ?i = "511 - n" let ?c = "(r, l, u * 512 + ?i)" let ?e = "word_at s (pt + 8 * ?i)"
  have i: "?i < 512" and n: "n \<le> 512" using Suc.prems(3) by auto
  have un: "(\<Union>i\<in>{512 - Suc n..<512}. sub (r, l, u * 512 + i)) = sub ?c \<union> (\<Union>i\<in>{512 - n..<512}. sub (r, l, u * 512 + i))"
  proof -
    have "{512 - Suc n..<512} = insert ?i {512 - n..<512}" using Suc.prems(3) by auto
    then show ?thesis by simp
  qed
  have ent: "case M ?c of None \<Rightarrow> \<not> valid ?e | Some q \<Rightarrow> ?e = pt_entry q"
    using vm_okD(2) [OF ok, unfolded entries_ok_def, rule_format, OF i pt] .
  have cs: "sub ?c \<subseteq> sub (r, Suc l, u)" unfolding sub_Suc using i by blast
  show ?case
  proof (cases "M ?c")
    case None
    have l: "l \<le> 2" using vm_okD(5) [OF ok pt] by simp
    have none: "M y = None" if "y \<in> sub ?c" for y using sub_none [OF ok None l that] .
    have M: "M |` (- sub ?c) = M" using none by (auto simp: restrict_map_def fun_eq_iff)
    have "M |` sub ?c = Map.empty" using none by (auto simp: restrict_map_def fun_eq_iff)
    then have "gone {} (sub ?c) M s s" using ok M by (simp add: gone_def data_page_def)
    moreover obtain t where t: "freewalk_loop me d pt n s = Done () t"
      "gone {} (\<Union>i\<in>{512 - n..<512}. sub (r, l, u * 512 + i)) M s t"
      using Suc.IH [OF ok pt n nl] by blast
    ultimately have "gone {} (\<Union>i\<in>{512 - Suc n..<512}. sub (r, l, u * 512 + i)) M s t"
      unfolding un by (intro gone_trans) (simp_all only: M)
    moreover have "freewalk_loop me d pt (Suc n) s = Done () t"
      using ent None t(1) by (simp add: Let_def and_PTE_V)
    ultimately show ?thesis by blast
  next
    case (Some q)
    have e: "?e = pt_entry q" using ent Some by simp
    have q: "PTE2PA (pt_entry q) = q"
      using PTE2PA_pt_entry [OF vm_okD(1) [OF ok]] vm_okD(3) [OF ok Some] by (simp add: used_page_def)
    obtain t where t: "freewalk me d q s = Done () t" "gone {?c} (sub ?c) M s t"
      using rec [OF ok Some no_leaves_sub [OF nl cs]] by blast
    let ?t = "poke (pt + 8 * ?i) 0 t" and ?M = "M |` (- sub ?c)"
    have g: "gone {} (sub ?c) M s ?t" by (rule gone_poke [OF t(2) refl pt i ok])
    have ok': "vm_ok ?M ?t" using goneD(1) [OF g] by simp
    have "?M (r, Suc l, u) = Some pt" using pt by (simp add: restrict_Some)
    then obtain u' where u: "freewalk_loop me d pt n ?t = Done () u'"
      "gone {} (\<Union>i\<in>{512 - n..<512}. sub (r, l, u * 512 + i)) ?M ?t u'"
      using Suc.IH [OF ok' _ n no_leaves_gone [OF nl g]] by blast
    have "freewalk_loop me d pt (Suc n) s = Done () u'"
      using e q t(1) u(1) no_rwx [OF q] by (simp add: Let_def and_PTE_V)
    then show ?thesis using gone_trans [OF g u(2)] unfolding un by blast
  qed
qed

lemma freewalk_ok:
  assumes "vm_ok M s" "M (r, l, u) = Some pt" "no_leaves (sub (r, l, u)) M s" "l < d"
  shows "\<exists>t. freewalk me d pt s = Done () t \<and> gone {(r, l, u)} (sub (r, l, u)) M s t"
  using assms
proof (induction l arbitrary: d u pt M s)
  case (0 d u pt M s)
  obtain d' where d: "d = Suc d'" using 0(4) gr0_implies_Suc by blast
  have "\<not> valid (word_at s (pt + 8 * i))" if "i < 512" for i
    using 0(2,3) that by (simp add: no_leaves_def)
  then have "freewalk_loop me d' pt 512 s = Done () s" by (intro freewalk_loop_skip) auto
  moreover obtain t where "pm_kfree me pt s = Done () t" "gone {(r, 0, u)} (sub (r, 0, u)) M s t"
    using free_lone [OF 0(1,2), of me] by (auto simp: sub_leaf)
  ultimately show ?case unfolding d by auto
next
  case (Suc l d u pt M s)
  obtain d' where d: "d = Suc d'" "l < d'" using Suc.prems(4) Suc_lessE by blast
  let ?S = "\<Union>i\<in>{512 - 512..<512}. sub (r, l, u * 512 + i)" and ?x = "(r, Suc l, u)"
  obtain t where t: "freewalk_loop me d' pt 512 s = Done () t" "gone {} ?S M s t"
    using freewalk_loop_ok [of r l me d', OF Suc.IH Suc.prems(1,2) order_refl Suc.prems(3)] d(2) by blast
  let ?M = "M |` (- ?S)"
  have S: "sub ?x = insert ?x ?S" unfolding sub_Suc by (simp add: lessThan_atLeast0)
  have x: "?M ?x = Some pt" using Suc.prems(2) by (auto simp: restrict_Some)
  have ok: "vm_ok ?M t" using goneD(1) [OF t(2)] by simp
  have lone: "y = ?x" if "y \<in> sub ?x" "?M y \<noteq> None" for y
    using that unfolding S by (auto simp: restrict_map_def split: if_splits)
  obtain v where v: "pm_kfree me pt t = Done () v" "gone {?x} (sub ?x) ?M t v"
    using free_lone [OF ok x lone, of me] by blast
  have "?S \<union> sub ?x = sub ?x" unfolding S by blast
  then have "gone {?x} (sub ?x) M s v" using gone_trans [OF t(2) v(2)] by simp
  then show ?case using t(1) v(1) unfolding d(1) by simp
qed

end
