(* ===== verification/Vm_Grow.thy ===== *)
theory Vm_Grow
  imports Vm_Free
begin

unbundle bit_operations_syntax

section \<open>The life of an address space\<close>

text \<open>
  \<open>uvmcreate\<close> makes an empty address space, \<open>uvmalloc\<close> maps fresh zeroed pages into it,
  and \<open>uvmfree\<close> gives back the pages and the tables.
\<close>

subsection \<open>Fresh pages and roots\<close>

lemma fresh_vm:
  assumes ok: "vm_ok M s" and k: "pm_kalloc me s = Done q u"
  shows "vm_ok M (pm_memset0 q u)" "data_page M (pm_memset0 q u) q"
    "\<And>r va. is_root M r \<Longrightarrow> va < MAXVA \<Longrightarrow> pte (pm_memset0 q u) r va = pte s r va"
proof -
  let ?t = "pm_memset0 q u"
  note f = fresh_page [OF vm_okD(1) [OF ok] k]
  have al: "PGSIZE dvd q" using f(5) by (simp add: page_addr_def)
  have w: "word_at ?t (p + 8 * i) = word_at s (p + 8 * i)" if "M x = Some p" "i < 512" for x p i
    unfolding f(7) by (rule table_off_page [OF ok that al f(4)])
  have "entries_ok M ?t" by (rule entries_cong [OF vm_okD(2) [OF ok] w])
  moreover have "tables_ok M (km ?t)"
    using ok f(1) used_page_keeps [OF _ f(2)] unfolding vm_ok_def tables_ok_def by blast
  ultimately show vm: "vm_ok M ?t" by (simp add: vm_ok_def)
  have "q \<notin> ran M" using vm_okD(3) [OF ok] f(4) by (auto simp: ran_def used_page_def)
  then show "data_page M ?t q" using f(3) by (simp add: data_page_def)
  show "pte ?t r va = pte s r va" if "is_root M r" "va < MAXVA" for r va
    using w [OF _ PX_less] unfolding pte_leaf [OF vm that] pte_leaf [OF ok that] by (auto split: option.split)
qed

lemma uvmcreate_ok:
  assumes ok: "vm_ok M s" and ne: "free_mem (km s) \<noteq> {}"
  obtains r t where "uvmcreate me s = Done r t" "vm_ok (M((r, 2, 0) \<mapsto> r)) t" "keeps s t"
    "free_mem (km t) = free_mem (km s) - {r div PGSIZE}" "r div PGSIZE \<in> free_mem (km s)"
    "\<And>l u. M (r, l, u) = None" "r \<notin> ran M"
    "\<And>va. va < MAXVA \<Longrightarrow> pte t r va = 0"
    "\<And>r' va. is_root M r' \<Longrightarrow> va < MAXVA \<Longrightarrow> pte t r' va = pte s r' va"
proof -
  obtain r u where k: "pm_kalloc me s = Done r u" using pm_kalloc_ok [OF vm_okD(1) [OF ok] ne, of me] by metis
  let ?t = "pm_memset0 r u" and ?M = "M((r, 2, 0) \<mapsto> r)"
  note f = fresh_page [OF vm_okD(1) [OF ok] k] and v = fresh_vm [OF ok k]
  have nr: "r \<notin> ran M" using v(2) by (simp add: data_page_def)
  have top: "M (r, 2, u) = None" for u
  proof (rule ccontr)
    assume "M (r, 2, u) \<noteq> None"
    then obtain p where "M (r, 2, u) = Some p" by blast
    then show False using vm_okD(6) [OF ok] nr by (auto dest: ranI)
  qed
  have one: "M (r, 1, u) = None" for u
    using vm_okD(7) [OF ok, of 1 r u] top [of "u div 512"]
    by (cases "M (r, 1, u)") (simp_all add: numeral_2_eq_2)
  have zero: "M (r, 0, u) = None" for u
    using vm_okD(7) [OF ok, of 0 r u] one [of "u div 512"] by (cases "M (r, 0, u)") auto
  have none: "M (r, l, u) = None" for l u
  proof (cases "M (r, l, u)")
    case (Some p)
    then have "l = 0 \<or> l = 1 \<or> l = 2" using vm_okD(5) [OF ok Some] by auto
    then show ?thesis using top one zero by auto
  qed
  have al: "PGSIZE dvd r" using f(5) by (simp add: page_addr_def)
  have "entries_ok ?M ?t"
    unfolding entries_ok_def
  proof (intro allI impI)
    fix r' l w p i assume i: "i < (512::nat)" and p: "?M (r', Suc l, w) = Some p"
    have l: "(r', l, w * 512 + i) \<noteq> (r, 2, 0)" if "(r', Suc l, w) \<noteq> (r, 2, 0)"
      using p that none vm_okD(5) [OF ok, of r' "Suc l" w p] by auto
    show "case ?M (r', l, w * 512 + i) of None \<Rightarrow> \<not> valid (word_at ?t (p + 8 * i))
      | Some q \<Rightarrow> word_at ?t (p + 8 * i) = pt_entry q"
    proof (cases "(r', Suc l, w) = (r, 2, 0)")
      case True
      then have "?M (r', l, w * 512 + i) = None" "p = r" using none p by auto
      then show ?thesis using i by (simp add: fill_words_in)
    next
      case False
      then have "M (r', Suc l, w) = Some p" "?M (r', l, w * 512 + i) = M (r', l, w * 512 + i)"
        using p l by auto
      then show ?thesis using vm_okD(2) [OF v(1), unfolded entries_ok_def, rule_format, OF i] by (simp only:)
    qed
  qed
  moreover have "tables_ok ?M (km ?t)"
    unfolding tables_ok_def
  proof (intro conjI allI impI)
    show "kmem_ok (km ?t)" by (rule f(1))
    show "used_page (km ?t) p" if "?M x = Some p" for x p
      using that f(3) vm_okD(3) [OF v(1), of x p] by (cases "x = (r, 2, 0)") auto
    show "x = y" if "?M x = Some p" "?M y = Some p" for x y p
      using that nr vm_okD(4) [OF ok, of x p y] by (auto dest: ranI split: if_splits)
    fix r' l w p assume "?M (r', l, w) = Some p"
    then show "l \<le> 2" "w * 2 ^ (21 + 9 * l) < MAXVA"
      using vm_okD(5,8) [OF ok, of r' l w p] by (auto simp: MAXVA_def split: if_splits)
  next
    show "p = r'" "w = 0" if "?M (r', l, w) = Some p" "l = 2" for r' l w p
      using that vm_okD(6) [OF ok, of r' w p] by (auto split: if_splits)
    show "?M (r', Suc l, w div 512) \<noteq> None" if "l < 2" "?M (r', l, w) \<noteq> None" for r' l w
      using that none vm_okD(7) [OF ok that(1), of r' w] by (auto split: if_splits)
  qed
  ultimately have vm: "vm_ok ?M ?t" by (simp add: vm_ok_def)
  have "r \<noteq> 0" using page_addr_range(2) [OF vm_okD(1) [OF ok] f(5)] by simp
  then have c: "uvmcreate me s = Done r ?t" using k by (simp add: uvmcreate_def)
  have "pte ?t r va = 0" if "va < MAXVA" for va
    using pte_leaf [OF vm _ that, of r] none by (simp add: is_root_def)
  then show ?thesis using that [OF c vm f(2,6,4) none nr] v(3) by blast
qed

subsection \<open>uvmalloc\<close>

lemma data_page_keeps:
  assumes ok: "vm_ok M s" "vm_ok M' t" and d: "data_page M s q" and k: "keeps s t"
    and sub: "table_frames M' \<subseteq> free_mem (km s) \<union> table_frames M"
  shows "data_page M' t q"
proof -
  have u: "used_page (km s) q" "q \<notin> ran M" using d by (simp_all add: data_page_def)
  have "q \<notin> ran M'"
  proof
    assume "q \<in> ran M'"
    then have "q div PGSIZE \<in> free_mem (km s) \<union> table_frames M" using sub by (auto simp: table_frames_def)
    then obtain p where p: "p \<in> ran M" "p div PGSIZE = q div PGSIZE"
      using u(1) by (auto simp: used_page_def table_frames_def)
    then have "used_page (km s) p" using vm_okD(3) [OF ok(1)] by (auto simp: ran_def)
    then show False using used_other_frame [OF _ u(1)] p u(2) by blast
  qed
  then show ?thesis using used_page_keeps [OF u(1) k] by (simp add: data_page_def)
qed

text \<open>The pages \<open>qs\<close>, taken from the allocator, are mapped one after the other from \<open>va\<close> on.\<close>

definition alloc_view :: "nat \<Rightarrow> nat \<Rightarrow> nat list \<Rightarrow> nat \<Rightarrow> (nat \<Rightarrow> nat \<Rightarrow> nat) \<Rightarrow> nat \<Rightarrow> nat \<Rightarrow> nat" where
  "alloc_view r va qs perm V = (\<lambda>r' va'.
     if r' = r \<and> in_range va (length qs) va'
     then PA2PTE (qs ! (va' div PGSIZE - va div PGSIZE)) OR perm OR PTE_V else V r' va')"

definition alloced :: "(position \<rightharpoonup> nat) \<Rightarrow> 'a pmem_scheme \<Rightarrow> (position \<rightharpoonup> nat) \<Rightarrow> 'a pmem_scheme \<Rightarrow> nat \<Rightarrow> nat \<Rightarrow> nat list \<Rightarrow> nat \<Rightarrow> bool" where
  "alloced M s M' t r va qs perm \<longleftrightarrow> vm_ok M' t \<and> keeps s t \<and> M \<subseteq>\<^sub>m M' \<and> (\<forall>r. is_root M' r = is_root M r) \<and>
     only_root r M M' \<and> distinct qs \<and> (\<forall>q\<in>set qs. data_page M' t q \<and> q div PGSIZE \<in> free_mem (km s)) \<and>
     free_mem (km t) \<union> table_frames M' \<union> (\<lambda>q. q div PGSIZE) ` set qs = free_mem (km s) \<union> table_frames M \<and>
     (\<forall>r' va'. is_root M r' \<longrightarrow> va' < MAXVA \<longrightarrow> pte t r' va' = alloc_view r va qs perm (pte s) r' va')"

lemma allocedD:
  assumes "alloced M s M' t r va qs perm"
  shows "vm_ok M' t" "keeps s t" "M \<subseteq>\<^sub>m M'" "\<And>r. is_root M' r = is_root M r" "distinct qs"
    "\<And>q. q \<in> set qs \<Longrightarrow> data_page M' t q" "\<And>q. q \<in> set qs \<Longrightarrow> q div PGSIZE \<in> free_mem (km s)"
    "free_mem (km t) \<union> table_frames M' \<union> (\<lambda>q. q div PGSIZE) ` set qs = free_mem (km s) \<union> table_frames M"
    "\<And>r' va'. is_root M r' \<Longrightarrow> va' < MAXVA \<Longrightarrow> pte t r' va' = alloc_view r va qs perm (pte s) r' va'"
    "only_root r M M'"
  using assms by (simp_all add: alloced_def)

lemma alloced_Nil: "vm_ok M s \<Longrightarrow> alloced M s M s r va [] perm"
  by (simp add: alloced_def alloc_view_def only_root_def)

lemma alloc_view_Cons:
  "alloc_view r va (q # qs) perm V r' va' =
     (if r' = r \<and> va' div PGSIZE = va div PGSIZE then PA2PTE q OR perm OR PTE_V
      else alloc_view r (va + PGSIZE) qs perm V r' va')"
proof (cases "r' = r \<and> in_range (va + PGSIZE) (length qs) va'")
  case True
  then have "va' div PGSIZE - va div PGSIZE = Suc (va' div PGSIZE - (va + PGSIZE) div PGSIZE)"
    unfolding in_range_def next_page by arith
  then show ?thesis using True by (auto simp: alloc_view_def in_range_Suc in_range_def next_page)
qed (auto simp: alloc_view_def in_range_Suc in_range_def next_page)

text \<open>One page: \<open>kalloc\<close>, \<open>memset\<close>, \<open>mappages\<close>.\<close>

lemma alloc_one:
  assumes ok: "vm_ok M s" and r: "is_root M r" and va: "PGSIZE dvd va" "va < MAXVA"
    and nv: "\<not> valid (pte s r va)" and fr: "3 \<le> card (free_mem (km s))"
  obtains q u M' t where "pm_kalloc me s = Done q u" "q \<noteq> 0"
    "mappages me r va PGSIZE q perm (pm_memset0 q u) = Done 0 t" "alloced M s M' t r va [q] perm"
    "card (free_mem (km s)) \<le> card (free_mem (km t)) + 3"
proof -
  have fin: "finite (free_mem (km s))" "free_mem (km s) \<noteq> {}" using fr by (auto intro: card_ge_0_finite)
  obtain q u where k: "pm_kalloc me s = Done q u" using pm_kalloc_ok [OF vm_okD(1) [OF ok] fin(2), of me] by metis
  let ?u = "pm_memset0 q u"
  note f = fresh_page [OF vm_okD(1) [OF ok] k] and v = fresh_vm [OF ok k]
  have c: "card (free_mem (km s)) = Suc (card (free_mem (km ?u)))"
    using card_Suc_Diff1 [OF fin(1) f(4)] f(6) by simp
  have le: "va + 1 * PGSIZE \<le> MAXVA" using va by (auto simp: PGSIZE_def MAXVA_def elim!: dvdE)
  have nv': "\<not> valid (pte ?u r (va + k * PGSIZE))" if "k < 1" for k using that nv v(3) [OF r va(2)] by simp
  have fr': "2 * 1 \<le> card (free_mem (km ?u))" using c fr by simp
  obtain M' t where t: "mappages me r va (1 * PGSIZE) q perm ?u = Done 0 t"
    "vm_step r M ?u M' t (map_view r va 1 q perm (pte ?u))" "card (free_mem (km ?u)) \<le> card (free_mem (km t)) + 2 * 1"
    using mappages_ok [OF v(1) r va(1) zero_less_one le fr' nv'] by metis
  note s = vm_stepD [OF t(2)]
  have tf: "table_frames M' \<subseteq> free_mem (km ?u) \<union> table_frames M" using s(6) by (auto simp: conserved_def)
  have dq: "data_page M' t q" by (rule data_page_keeps [OF v(1) s(1) v(2) s(3) tf])
  have view: "pte t r' va' = alloc_view r va [q] perm (pte s) r' va'" if "is_root M r'" "va' < MAXVA" for r' va'
    using s(5) [OF that] v(3) [OF that] by (auto simp: map_view_def alloc_view_def in_range_def)
  have "free_mem (km t) \<union> table_frames M' \<union> {q div PGSIZE} = free_mem (km s) \<union> table_frames M"
    using s(6) f(4,6) by (auto simp: conserved_def)
  then have "alloced M s M' t r va [q] perm"
    unfolding alloced_def using s(1,2,4,7) keeps_trans [OF f(2) s(3)] dq f(4) view by simp
  moreover have "q \<noteq> 0" using page_addr_range(2) [OF vm_okD(1) [OF ok] f(5)] by simp
  ultimately show ?thesis using that [OF k _ _ _] t(1,3) c by simp
qed

lemma alloced_Cons:
  assumes ok: "vm_ok M s" and a: "alloced M s M' t r va [q] perm" and b: "alloced M' t M'' u r (va + PGSIZE) qs perm"
  shows "alloced M s M'' u r va (q # qs) perm"
proof -
  note A = allocedD [OF a] and B = allocedD [OF b]
  have q: "data_page M' t q" using A(6) by simp
  have tf: "table_frames M'' \<subseteq> free_mem (km t) \<union> table_frames M'" using B(8) by blast
  have dq: "data_page M'' u q" by (rule data_page_keeps [OF A(1) B(1) q B(2) tf])
  have "q div PGSIZE \<notin> free_mem (km t)" using q by (simp add: data_page_def used_page_def)
  then have "q \<notin> set qs" using B(7) by blast
  moreover have "q' div PGSIZE \<in> free_mem (km s)" if "q' \<in> set (q # qs)" for q'
    using that A(7) B(7) keepsD(2) [OF A(2)] by auto
  moreover have "pte u r' va' = alloc_view r va (q # qs) perm (pte s) r' va'" if "is_root M r'" "va' < MAXVA" for r' va'
  proof -
    have d: "va' div PGSIZE \<noteq> va div PGSIZE" if "in_range (va + PGSIZE) (length qs) va'"
      using that by (simp add: in_range_def next_page)
    show ?thesis
      using B(9) [of r' va'] A(9) [OF that] A(4) that d
      by (auto simp: alloc_view_Cons alloc_view_def [of r "va + PGSIZE"])
  qed
  moreover have "free_mem (km u) \<union> table_frames M'' \<union> (\<lambda>q. q div PGSIZE) ` set (q # qs) = free_mem (km s) \<union> table_frames M"
    using A(8) B(8) by auto
  moreover have "only_root r M M''" using A(10) B(10) by (simp add: only_root_def)
  ultimately show ?thesis
    unfolding alloced_def using B(1,4,5,6) A(4) dq keeps_trans [OF A(2) B(2)] map_le_trans [OF A(3) B(3)] by simp
qed

text \<open>The loop of \<open>uvmalloc\<close> over the \<open>n\<close> pages from \<open>va\<close> on.\<close>

lemma alloc_loop_ok:
  assumes "vm_ok M s" "is_root M r" "PGSIZE dvd va" "newsz \<le> va + n * PGSIZE" "va + n * PGSIZE \<le> MAXVA"
    "\<And>k. k < n \<Longrightarrow> va + k * PGSIZE < newsz" "\<And>k. k < n \<Longrightarrow> \<not> valid (pte s r (va + k * PGSIZE))"
    "3 * n \<le> card (free_mem (km s))"
  shows "\<exists>qs M' t. alloc_loop me r oldsz va newsz xperm s = Done newsz t \<and> length qs = n \<and>
    alloced M s M' t r va qs (PTE_R OR PTE_U OR xperm) \<and> card (free_mem (km s)) \<le> card (free_mem (km t)) + 3 * n"
  using assms
proof (induction n arbitrary: va s M)
  case (0 va s M)
  then show ?case using alloced_Nil [OF 0(1)] by (subst alloc_loop.simps) auto
next
  case (Suc n va s M)
  note ok = Suc.prems(1) and r = Suc.prems(2)
  have va: "va < MAXVA" "va < newsz" using Suc.prems(5) Suc.prems(6) [of 0] by (simp_all add: PGSIZE_def)
  have nv: "\<not> valid (pte s r va)" using Suc.prems(7) [of 0] by simp
  have "3 \<le> card (free_mem (km s))" using Suc.prems(8) by simp
  then obtain q u M' t where t: "pm_kalloc me s = Done q u" "q \<noteq> 0"
    "mappages me r va PGSIZE q (PTE_R OR PTE_U OR xperm) (pm_memset0 q u) = Done 0 t"
    and a: "alloced M s M' t r va [q] (PTE_R OR PTE_U OR xperm)" and c: "card (free_mem (km s)) \<le> card (free_mem (km t)) + 3"
    using alloc_one [OF ok r Suc.prems(3) va(1) nv] by metis
  note A = allocedD [OF a]
  have nv': "\<not> valid (pte t r (va + PGSIZE + k * PGSIZE))" if "k < n" for k
  proof -
    have "Suc k * PGSIZE < Suc n * PGSIZE" using that by (simp add: PGSIZE_def)
    then have lt: "va + Suc k * PGSIZE < MAXVA" using Suc.prems(5) by linarith
    have "(va + Suc k * PGSIZE) div PGSIZE = Suc (va div PGSIZE + k)" by (simp add: PGSIZE_def)
    then have "pte t r (va + Suc k * PGSIZE) = pte s r (va + Suc k * PGSIZE)"
      using A(9) [OF r lt] by (simp add: alloc_view_def in_range_def)
    then show ?thesis using Suc.prems(7) [of "Suc k"] that by (simp add: add.assoc)
  qed
  have "\<exists>qs M'' v. alloc_loop me r oldsz (va + PGSIZE) newsz xperm t = Done newsz v \<and> length qs = n \<and>
    alloced M' t M'' v r (va + PGSIZE) qs (PTE_R OR PTE_U OR xperm) \<and>
    card (free_mem (km t)) \<le> card (free_mem (km v)) + 3 * n"
  proof (rule Suc.IH [OF A(1)])
    show "is_root M' r" using A(4) r by simp
    show "PGSIZE dvd va + PGSIZE" using Suc.prems(3) by simp
    show "newsz \<le> va + PGSIZE + n * PGSIZE" "va + PGSIZE + n * PGSIZE \<le> MAXVA" using Suc.prems(4,5) by simp_all
    show "va + PGSIZE + k * PGSIZE < newsz" if "k < n" for k using Suc.prems(6) [of "Suc k"] that by (simp add: add.assoc)
    show "\<not> valid (pte t r (va + PGSIZE + k * PGSIZE))" if "k < n" for k by (rule nv' [OF that])
    show "3 * n \<le> card (free_mem (km t))" using c Suc.prems(8) by simp
  qed
  then obtain qs M'' v where v: "alloc_loop me r oldsz (va + PGSIZE) newsz xperm t = Done newsz v" "length qs = n"
    "alloced M' t M'' v r (va + PGSIZE) qs (PTE_R OR PTE_U OR xperm)" "card (free_mem (km t)) \<le> card (free_mem (km v)) + 3 * n"
    by blast
  have "alloc_loop me r oldsz va newsz xperm s = Done newsz v"
    using t v(1) va(2) by (subst alloc_loop.simps) simp
  moreover have "card (free_mem (km s)) \<le> card (free_mem (km v)) + 3 * Suc n" using c v(4) by simp
  ultimately show ?case using alloced_Cons [OF ok a v(3)] v(2) by (metis length_Cons)
qed

text \<open>The number of pages between two sizes.\<close>

definition pages_between :: "nat \<Rightarrow> nat \<Rightarrow> nat" where
  "pages_between oldsz newsz = (PGROUNDUP newsz - PGROUNDUP oldsz) div PGSIZE"

lemma pages_between:
  assumes "oldsz \<le> newsz"
  shows "newsz \<le> PGROUNDUP oldsz + pages_between oldsz newsz * PGSIZE"
    "PGROUNDUP oldsz + pages_between oldsz newsz * PGSIZE = PGROUNDUP newsz"
    "k < pages_between oldsz newsz \<Longrightarrow> PGROUNDUP oldsz + k * PGSIZE < newsz"
proof -
  have le: "PGROUNDUP oldsz \<le> PGROUNDUP newsz" using assms by (simp add: PGROUNDUP_def PGSIZE_def div_le_mono)
  have "PGSIZE dvd PGROUNDUP newsz - PGROUNDUP oldsz" using PGROUNDUP_aligned dvd_diff_nat by blast
  then have "pages_between oldsz newsz * PGSIZE = PGROUNDUP newsz - PGROUNDUP oldsz" by (simp add: pages_between_def)
  then show e: "PGROUNDUP oldsz + pages_between oldsz newsz * PGSIZE = PGROUNDUP newsz" using le by simp
  then show "newsz \<le> PGROUNDUP oldsz + pages_between oldsz newsz * PGSIZE" using PGROUNDUP_ge [of newsz] by simp
  assume "k < pages_between oldsz newsz"
  then have "Suc k * PGSIZE \<le> pages_between oldsz newsz * PGSIZE" by (intro mult_le_mono1) simp
  moreover have "PGROUNDUP newsz < newsz + PGSIZE" by (simp add: PGROUNDUP_def PGSIZE_def)
  ultimately show "PGROUNDUP oldsz + k * PGSIZE < newsz" using e by simp
qed

lemma PGROUNDUP_MAXVA: "sz \<le> MAXVA \<Longrightarrow> PGROUNDUP sz \<le> MAXVA"
  by (simp add: PGROUNDUP_def PGSIZE_def MAXVA_def)

lemma uvmalloc_ok:
  assumes "vm_ok M s" "is_root M r" "oldsz \<le> newsz" "newsz \<le> MAXVA" "3 * pages_between oldsz newsz \<le> card (free_mem (km s))"
    "\<And>va. va < MAXVA \<Longrightarrow> in_range (PGROUNDUP oldsz) (pages_between oldsz newsz) va \<Longrightarrow> \<not> valid (pte s r va)"
  obtains qs M' t where "uvmalloc me r oldsz newsz xperm s = Done newsz t" "length qs = pages_between oldsz newsz"
    "alloced M s M' t r (PGROUNDUP oldsz) qs (PTE_R OR PTE_U OR xperm)"
    "card (free_mem (km s)) \<le> card (free_mem (km t)) + 3 * pages_between oldsz newsz"
proof -
  let ?n = "pages_between oldsz newsz" and ?a = "PGROUNDUP oldsz"
  note p = pages_between [OF assms(3)]
  have hi: "?a + ?n * PGSIZE \<le> MAXVA" using p(2) PGROUNDUP_MAXVA [OF assms(4)] by simp
  have nv: "\<not> valid (pte s r (?a + k * PGSIZE))" if "k < ?n" for k
  proof (rule assms(6))
    show "?a + k * PGSIZE < MAXVA" using p(3) [OF that] assms(4) by simp
    show "in_range ?a ?n (?a + k * PGSIZE)" using that by (simp add: in_range_def PGSIZE_def)
  qed
  obtain qs M' t where "alloc_loop me r ?a ?a newsz xperm s = Done newsz t" "length qs = ?n"
    "alloced M s M' t r ?a qs (PTE_R OR PTE_U OR xperm)" "card (free_mem (km s)) \<le> card (free_mem (km t)) + 3 * ?n"
    using alloc_loop_ok [OF assms(1,2) PGROUNDUP_aligned p(1) hi p(3) nv assms(5), of me ?a xperm] by blast
  then show ?thesis using that assms(3) by (simp add: uvmalloc_def)
qed

subsection \<open>uvmfree\<close>

lemma no_leaves_view:
  assumes ok: "vm_ok M s" and r: "is_root M r" and v: "\<And>va. va < MAXVA \<Longrightarrow> \<not> valid (pte s r va)"
  shows "no_leaves (sub (r, 2, 0)) M s"
  unfolding no_leaves_def
proof (intro allI impI)
  fix r' u p i assume i: "i < (512::nat)" and p: "M (r', 0, u) = Some p" and "(r', 0, u) \<in> sub (r, 2, 0)"
  then have "r' = r" by simp
  let ?va = "u * 2 ^ 21 + i * 4096"
  have "u * 2 ^ 21 < MAXVA" using vm_okD(8) [OF ok p] by simp
  then have lt: "?va < MAXVA" using i by (simp add: MAXVA_def)
  have "prefix_of 0 ?va = u" "PX 0 ?va = i" using i by (simp_all add: prefix_of_def PX_eq)
  then have "pte s r ?va = word_at s (p + 8 * i)" using pte_leaf [OF ok r lt] p \<open>r' = r\<close> by simp
  then show "\<not> valid (word_at s (p + 8 * i))" using v [OF lt] by simp
qed

lemma uvmfree_ok:
  assumes ok: "vm_ok M s" and r: "is_root M r" and sz: "sz \<le> MAXVA" and c: "can_unmap M s r 0 (pages_between 0 sz) True"
    and v: "\<And>va. va < MAXVA \<Longrightarrow> valid (pte s r va) \<Longrightarrow> va div PGSIZE < pages_between 0 sz"
  obtains t where "uvmfree me r sz s = Done () t" "vm_ok (M |` (- sub (r, 2, 0))) t"
    "free_mem (km t) = free_mem (km s) \<union> freed True (range_ptes r 0 (pages_between 0 sz) s) \<union>
       (\<lambda>p. p div PGSIZE) ` ran (M |` sub (r, 2, 0))"
    "\<And>r' va. is_root M r' \<Longrightarrow> r' \<noteq> r \<Longrightarrow> va < MAXVA \<Longrightarrow> pte t r' va = pte s r' va"
proof -
  let ?n = "pages_between 0 sz"
  have n: "?n = PGROUNDUP sz div PGSIZE" by (simp add: pages_between_def PGROUNDUP_def PGSIZE_def)
  have hi: "0 + ?n * PGSIZE \<le> MAXVA" using PGROUNDUP_MAXVA [OF sz] unfolding n by (metis add_0 dvd_div_mult_self PGROUNDUP_aligned)
  obtain u where u: "uvmunmap me r 0 ?n True s = Done () u"
    "unmapped M s u (unmap_view r 0 ?n (pte s)) (freed True (range_ptes r 0 ?n s))"
    using uvmunmap_ok [OF ok r _ hi c, of me] by auto
  have "uvmfree me r sz s = freewalk me 3 r u"
  proof (cases "sz = 0")
    case True
    then have "?n = 0" by (simp add: pages_between_def)
    then have "u = s" using u(1) by (simp add: uvmunmap_def unmap_loop.simps [of me r 0 0])
    then show ?thesis using True by (simp add: uvmfree_def)
  qed (use u(1) in \<open>simp add: uvmfree_def n\<close>)
  moreover have nl: "no_leaves (sub (r, 2, 0)) M u"
  proof (rule no_leaves_view [OF unmappedD(1) [OF u(2)] r])
    fix va assume "va < MAXVA"
    then show "\<not> valid (pte u r va)"
      using unmappedD(5) [OF u(2) r] v [of va] by (auto simp: unmap_view_def in_range_def)
  qed
  moreover obtain t where t: "freewalk me 3 r u = Done () t" "gone {(r, 2, 0)} (sub (r, 2, 0)) M u t"
    using freewalk_ok [OF unmappedD(1) [OF u(2)] _ nl, of r 3 me] r by (auto simp: is_root_def)
  moreover have "pte t r' va = pte s r' va" if r': "is_root M r'" "r' \<noteq> r" and va: "va < MAXVA" for r' va
  proof -
    have vt: "vm_ok (M |` (- sub (r, 2, 0))) t" by (rule vm_but_root [OF goneD(1) [OF t(2)]])
    have ns: "(r', l, w) \<notin> sub (r, 2, 0)" for l w using r'(2) by simp
    have "is_root (M |` (- sub (r, 2, 0))) r'" using r' ns by (simp add: is_root_def restrict_Some)
    from pte_leaf [OF vt this va] have "pte t r' va = pte u r' va"
      using pte_leaf [OF unmappedD(1) [OF u(2)] r'(1) va] goneD(4) [OF t(2) PX_less _ ns] r'(2)
      by (simp add: restrict_map_def split: option.split)
    then show ?thesis using unmappedD(5) [OF u(2) r'(1) va] r'(2) by (simp add: unmap_view_def)
  qed
  ultimately show ?thesis
    using that vm_but_root [OF goneD(1) [OF t(2)]] goneD(3) [OF t(2)] unmappedD(3) [OF u(2)] by simp
qed

subsection \<open>The whole life\<close>

lemma or_less_nat: "(a::nat) < 2 ^ n \<Longrightarrow> b < 2 ^ n \<Longrightarrow> a OR b < 2 ^ n"
  by (simp flip: take_bit_nat_eq_self_iff)

lemma PTE2PA_leaf:
  assumes "vm_ok M s" "used_page (km s) q" "perm < 2 ^ 10"
  shows "PTE2PA (PA2PTE q OR perm OR PTE_V) = q" "PTE_FLAGS (PA2PTE q OR perm OR PTE_V) = perm OR PTE_V"
proof -
  have f: "perm OR PTE_V < 2 ^ 10"
    using assms(3) by (intro or_less_nat) (simp_all add: PTE_V_def)
  show "PTE2PA (PA2PTE q OR perm OR PTE_V) = q"
    using PTE2PA_entry [OF _ _ f] page_addr_range [OF vm_okD(1) [OF assms(1)]] assms(2)
    by (simp add: used_page_def or.assoc)
  show "PTE_FLAGS (PA2PTE q OR perm OR PTE_V) = perm OR PTE_V"
    using PTE_FLAGS_entry [OF f] by (simp add: or.assoc)
qed

text \<open>What \<open>uvmalloc\<close> has mapped into an empty address space can be unmapped.\<close>

lemma alloced_range:
  assumes a: "alloced M s M' t r va qs perm" and r: "is_root M r" and hi: "va + length qs * PGSIZE \<le> MAXVA"
  shows "range_ptes r va (length qs) t = map (\<lambda>q. PA2PTE q OR perm OR PTE_V) qs"
proof -
  have "pte t r (va + k * PGSIZE) = PA2PTE (qs ! k) OR perm OR PTE_V" if "k < length qs" for k
  proof -
    have "k * PGSIZE < length qs * PGSIZE" using that by (simp add: PGSIZE_def)
    then have "va + k * PGSIZE < MAXVA" using hi by linarith
    moreover have "(va + k * PGSIZE) div PGSIZE = va div PGSIZE + k" by (simp add: PGSIZE_def)
    ultimately show ?thesis using allocedD(9) [OF a r] that by (simp add: alloc_view_def in_range_def)
  qed
  then have "map (\<lambda>k. pte t r (va + k * PGSIZE)) [0..<length qs] = map (\<lambda>q. PA2PTE q OR perm OR PTE_V) qs"
    by (intro nth_equalityI) simp_all
  then show ?thesis unfolding range_ptes_def by (simp add: filter_id_conv)
qed

lemma alloced_can_unmap:
  assumes a: "alloced M s M' t r va qs perm" and r: "is_root M r" and hi: "va + length qs * PGSIZE \<le> MAXVA"
    and p: "perm < 2 ^ 10" "perm OR PTE_V \<noteq> PTE_V"
  shows "can_unmap M' t r va (length qs) True"
    "freed True (range_ptes r va (length qs) t) = (\<lambda>q. q div PGSIZE) ` set qs"
proof -
  note A = allocedD [OF a]
  have u: "used_page (km t) q" if "q \<in> set qs" for q using A(6) [OF that] by (simp add: data_page_def)
  note L = PTE2PA_leaf [OF A(1) u p(1)]
  have e: "map PTE2PA (range_ptes r va (length qs) t) = qs"
    unfolding alloced_range [OF a r hi] using L(1) by (simp add: map_idI)
  then have s: "set (range_ptes r va (length qs) t) = (\<lambda>q. PA2PTE q OR perm OR PTE_V) ` set qs"
    unfolding alloced_range [OF a r hi] by simp
  show "can_unmap M' t r va (length qs) True"
    unfolding can_unmap_def e s using A(5,6) L p(2) by auto
  show "freed True (range_ptes r va (length qs) t) = (\<lambda>q. q div PGSIZE) ` set qs"
    unfolding freed_def s using L(1) by (auto simp: image_image)
qed

lemma only_root_rest:
  assumes ok: "vm_ok M' t" and o: "only_root r (M((r, 2, 0) \<mapsto> p)) M'" and n: "\<And>l u. M (r, l, u) = None"
  shows "M' |` (- sub (r, 2, 0)) = M"
proof
  fix y :: position
  obtain r' l u where y: "y = (r', l, u)" using prod_cases3 by blast
  show "(M' |` (- sub (r, 2, 0))) y = M y"
  proof (cases "r' = r")
    case True
    then show ?thesis using root_sub [OF ok, of r l u] n y by (cases "M' y") (auto simp: restrict_map_def)
  next
    case False
    then show ?thesis using o y by (simp add: only_root_def restrict_map_def)
  qed
qed

lemma conserve_sets:
  assumes "F2 \<union> T2 \<union> Q = F1 \<union> T1" "T2 = X \<union> T" "T1 = insert r T" "F1 = F - {r}" "r \<in> F" "G = F2 \<union> Q \<union> X"
  shows "G \<union> T = F \<union> T"
  using assms by blast

lemma ran_split: "ran M = ran (M |` S) \<union> ran (M |` (- S))"
  unfolding set_eq_iff Un_iff ran_restrict by (auto simp: ran_def)

lemma tables_not_free:
  assumes "vm_ok M s" shows "table_frames M \<inter> free_mem (km s) = {}"
proof -
  have "p div PGSIZE \<notin> free_mem (km s)" if "M x = Some p" for x p
    using vm_okD(3) [OF assms that] by (simp add: used_page_def)
  then show ?thesis unfolding table_frames_def ran_def by blast
qed

text \<open>
  C22. The life of an address space loses no memory.  From a well-formed state with enough
  free pages (three for each page mapped and one for the root) \<open>uvmcreate\<close>, \<open>uvmalloc\<close>
  to any size below \<open>MAXVA\<close> and \<open>uvmfree\<close> all return normally, no panic of the page-table
  code is reached, every page is free again afterwards, and the other address spaces are
  mapped as before.
\<close>

theorem address_space_lifecycle:
  assumes ok: "vm_ok M s" and sz: "sz \<le> MAXVA" and xp: "xperm < 2 ^ 10"
    and fr: "3 * pages_between 0 sz + 1 \<le> card (free_mem (km s))"
  shows "\<exists>r s1 s2 t. uvmcreate me s = Done r s1 \<and> uvmalloc me r 0 sz xperm s1 = Done sz s2 \<and>
    uvmfree me r sz s2 = Done () t \<and> vm_ok M t \<and> free_mem (km t) = free_mem (km s) \<and>
    (\<forall>r' va. is_root M r' \<longrightarrow> va < MAXVA \<longrightarrow> pte t r' va = pte s r' va)"
proof -
  let ?n = "pages_between 0 sz" and ?perm = "PTE_R OR PTE_U OR xperm"
  have ne: "free_mem (km s) \<noteq> {}" "finite (free_mem (km s))" using fr by (auto intro: card_ge_0_finite)
  obtain r s1 where c: "uvmcreate me s = Done r s1" "vm_ok (M((r, 2, 0) \<mapsto> r)) s1" "keeps s s1"
    "free_mem (km s1) = free_mem (km s) - {r div PGSIZE}" "r div PGSIZE \<in> free_mem (km s)"
    "\<And>l u. M (r, l, u) = None" "r \<notin> ran M" "\<And>va. va < MAXVA \<Longrightarrow> pte s1 r va = 0"
    "\<And>r' va. is_root M r' \<Longrightarrow> va < MAXVA \<Longrightarrow> pte s1 r' va = pte s r' va"
    by (rule uvmcreate_ok [OF ok ne(1), of me]) (rule that)
  let ?M = "M((r, 2, 0) \<mapsto> r)"
  have r: "is_root ?M r" by (simp add: is_root_def)
  have fr1: "3 * ?n \<le> card (free_mem (km s1))" using fr c(4,5) ne(2) by (simp add: card_Diff_singleton)
  obtain qs M2 s2 where a: "uvmalloc me r 0 sz xperm s1 = Done sz s2" "length qs = ?n"
    "alloced ?M s1 M2 s2 r (PGROUNDUP 0) qs ?perm"
    by (rule uvmalloc_ok [OF c(2) r le0 sz fr1, of me xperm]) (simp add: c(8), rule that)
  have P0: "PGROUNDUP 0 = 0" by (simp add: PGROUNDUP_def PGSIZE_def)
  note a3 = a(3) [unfolded P0] and A = allocedD [OF a(3) [unfolded P0]]
  have r2: "is_root M2 r" using A(4) r by simp
  have hi: "0 + length qs * PGSIZE \<le> MAXVA"
    using pages_between(2) [of 0 sz] PGROUNDUP_MAXVA [OF sz] a(2) P0 by simp
  have perm: "?perm < 2 ^ 10" "?perm OR PTE_V \<noteq> PTE_V"
  proof -
    show "?perm < 2 ^ 10" using xp by (intro or_less_nat) (simp_all add: PTE_R_def PTE_U_def)
    have "bit PTE_R 1" "\<not> bit PTE_V 1" by (simp_all add: PTE_R_def PTE_V_def bit_iff_odd)
    then have "bit (?perm OR PTE_V) 1" "\<not> bit PTE_V 1" by (simp_all add: bit_or_iff)
    then show "?perm OR PTE_V \<noteq> PTE_V" by metis
  qed
  note U = alloced_can_unmap [OF a3 r hi perm]
  have v: "va div PGSIZE < pages_between 0 sz" if "va < MAXVA" "valid (pte s2 r va)" for va
    using A(9) [OF r that(1)] c(8) [OF that(1)] that(2) a(2) by (auto simp: alloc_view_def in_range_def split: if_splits)
  obtain t where t: "uvmfree me r sz s2 = Done () t" "vm_ok (M2 |` (- sub (r, 2, 0))) t"
    "free_mem (km t) = free_mem (km s2) \<union> freed True (range_ptes r 0 ?n s2) \<union> (\<lambda>p. p div PGSIZE) ` ran (M2 |` sub (r, 2, 0))"
    "\<And>r' va. is_root M2 r' \<Longrightarrow> r' \<noteq> r \<Longrightarrow> va < MAXVA \<Longrightarrow> pte t r' va = pte s2 r' va"
    by (rule uvmfree_ok [OF A(1) r2 sz U(1) [unfolded a(2)], of me]) (rule v, assumption+, rule that)
  have M: "M2 |` (- sub (r, 2, 0)) = M" by (rule only_root_rest [OF A(1) A(10) c(6)])
  have "table_frames M2 = (\<lambda>p. p div PGSIZE) ` ran (M2 |` sub (r, 2, 0)) \<union> table_frames M"
    using ran_split [of M2 "sub (r, 2, 0)"] unfolding table_frames_def M by (simp add: image_Un)
  moreover have "table_frames ?M = insert (r div PGSIZE) (table_frames M)"
    using c(6) by (simp add: table_frames_def)
  ultimately have "free_mem (km t) \<union> table_frames M = free_mem (km s) \<union> table_frames M"
    by (intro conserve_sets [OF A(8) _ _ c(4,5) t(3) [unfolded U(2) [unfolded a(2)]]])
  then have "free_mem (km t) = free_mem (km s)"
    using tables_not_free [OF ok] tables_not_free [OF t(2) [unfolded M]] by blast
  moreover have "pte t r' va = pte s r' va" if "is_root M r'" "va < MAXVA" for r' va
  proof -
    have ne: "r' \<noteq> r" using that(1) c(6) by (auto simp: is_root_def)
    then have "is_root ?M r'" using that(1) by (simp add: is_root_def)
    then show ?thesis using t(4) [OF _ ne that(2)] A(4) A(9) [OF _ that(2)] c(9) [OF that] ne by (simp add: alloc_view_def)
  qed
  ultimately show ?thesis using c(1) a(1) t(1,2) unfolding M by blast
qed

definition boot_pmem :: "kmem \<Rightarrow> pmem" where
  "boot_pmem k = \<lparr>km = k, word_at = (\<lambda>_. 0)\<rparr>"

lemma boot_vm_ok:
  obtains k where "kinit boot_kmem = Done () k" "vm_ok Map.empty (boot_pmem k)" "1000 \<le> card (free_mem (km (boot_pmem k)))"
proof -
  have pg: "PGROUNDUP 0x80021000 = 0x80021000" by (simp add: PGROUNDUP_def PGSIZE_def)
  obtain k where k: "kinit boot_kmem = Done () k" "refs_ok k k []"
    "free_mem k = {PGROUNDUP (kend boot_kmem) div PGSIZE ..< PHYSTOP div PGSIZE}"
    using kinit_ok [of boot_kmem] by (auto simp: boot_kmem_def pg KERNBASE_def PHYSTOP_def)
  have "card (free_mem k) = PHYSTOP div PGSIZE - 0x80021000 div PGSIZE"
    unfolding k(3) by (simp add: boot_kmem_def pg)
  then have "1000 \<le> card (free_mem k)" by (simp add: PHYSTOP_def KERNBASE_def PGSIZE_def)
  moreover have "vm_ok Map.empty (boot_pmem k)"
    using refs_okD(1) [OF k(2)] by (simp add: vm_ok_def tables_ok_def entries_ok_def boot_pmem_def)
  ultimately show ?thesis using that k(1) by (simp add: boot_pmem_def)
qed

theorem address_space_lifecycle_witness:
  "\<exists>k r s1 s2 t. kinit boot_kmem = Done () k \<and> uvmcreate 0 (boot_pmem k) = Done r s1 \<and>
     uvmalloc 0 r 0 100000 PTE_W s1 = Done 100000 s2 \<and> uvmfree 0 r 100000 s2 = Done () t \<and>
     free_mem (km t) = free_mem k"
proof -
  obtain k where k: "kinit boot_kmem = Done () k" "vm_ok Map.empty (boot_pmem k)" "1000 \<le> card (free_mem (km (boot_pmem k)))"
    using boot_vm_ok .
  have "3 * pages_between 0 100000 + 1 \<le> card (free_mem (km (boot_pmem k)))"
    using k(3) by (simp add: pages_between_def PGROUNDUP_def PGSIZE_def)
  moreover have "PTE_W < 2 ^ 10" "(100000::nat) \<le> MAXVA" by (simp_all add: PTE_W_def MAXVA_def)
  ultimately show ?thesis
    using address_space_lifecycle [OF k(2), of 100000 PTE_W 0] k(1) by (auto simp: boot_pmem_def)
qed

end
