(* ===== verification/Vm_Copy.thy ===== *)
theory Vm_Copy
  imports Vm_Grow
begin

unbundle bit_operations_syntax

section \<open>Copies to, from and between address spaces\<close>

text \<open>
  What \<open>copyout\<close> stores at user addresses is what \<open>copyin\<close> reads there; and what
  \<open>uvmcopy\<close> does to the page counts of the parent.
\<close>

subsection \<open>User memory\<close>

text \<open>The physical address behind a user address.\<close>

definition upa :: "'a pmem_scheme \<Rightarrow> nat \<Rightarrow> nat \<Rightarrow> nat" where
  "upa s r va = PTE2PA (pte s r va) + va mod PGSIZE"

lemma slot_phys [simp]: "slot l p va (store_bytes a bs s) = slot l p va s"
  by (induction l arbitrary: p) (simp_all add: store_bytes_def Let_def)

lemma store_bytes_fields [simp]:
  "word_at (store_bytes a bs s) = word_at s" "pmem.more (store_bytes a bs s) = pmem.more s"
  "phys (km (store_bytes a bs s)) x = (if a \<le> x \<and> x < a + length bs then bs ! (x - a) else phys (km s) x)"
  by (simp_all add: store_bytes_def)

lemma pte_store [simp]: "pte (store_bytes a bs s) r va = pte s r va"
  by (simp add: pte_def split: option.split)

lemma upa_store [simp]: "upa (store_bytes a bs s) r va = upa s r va"
  by (simp add: upa_def)

lemma vm_ok_phys [simp]: "vm_ok M (s\<lparr>km := (km s)\<lparr>phys := h\<rparr>\<rparr>) = vm_ok M s"
proof -
  have "tables_ok M ((km s)\<lparr>phys := h\<rparr>) = tables_ok M (km s)"
    by (simp add: tables_ok_def kmem_ok_def used_page_def page_addr_def free_mem_def)
  moreover have "entries_ok M (s\<lparr>km := k\<rparr>) = entries_ok M s" for k
    by (rule iffI; erule entries_cong) simp_all
  ultimately show ?thesis by (simp add: vm_ok_def)
qed

lemma vm_ok_store [simp]: "vm_ok M (store_bytes a bs s) = vm_ok M s"
  unfolding store_bytes_def by simp

lemma page_offset: "va - PGROUNDDOWN va = va mod PGSIZE" "va mod PGSIZE < PGSIZE"
  by (simp_all add: PGROUNDDOWN_def minus_div_mult_eq_mod PGSIZE_def)

lemma PGROUNDDOWN_div [simp]: "PGROUNDDOWN va div PGSIZE = va div PGSIZE"
  by (simp add: PGROUNDDOWN_def PGSIZE_def)

lemma same_page:
  assumes "i < PGSIZE - va mod PGSIZE"
  shows "(va + i) div PGSIZE = va div PGSIZE" "(va + i) mod PGSIZE = va mod PGSIZE + i"
proof -
  have l: "va mod PGSIZE + i < PGSIZE" using assms by simp
  have e: "(a * PGSIZE + c) div PGSIZE = a" "(a * PGSIZE + c) mod PGSIZE = c" if "c < PGSIZE" for a c
    using that by (simp_all add: PGSIZE_def)
  have "va + i = va div PGSIZE * PGSIZE + (va mod PGSIZE + i)" by (simp add: add.assoc [symmetric])
  then show "(va + i) div PGSIZE = va div PGSIZE" "(va + i) mod PGSIZE = va mod PGSIZE + i"
    using e [OF l] by metis+
qed

text \<open>The user bytes of a chunk of one page are consecutive in physical memory.\<close>

lemma upa_chunk:
  assumes "vm_ok M s" "is_root M r" "va + i < MAXVA" "i < PGSIZE - va mod PGSIZE"
  shows "upa s r (va + i) = PTE2PA (pte s r (PGROUNDDOWN va)) + va mod PGSIZE + i"
proof -
  have "PGROUNDDOWN va < MAXVA" using PGROUNDDOWN_le [of va] assms(3) by simp
  then have "pte s r (va + i) = pte s r (PGROUNDDOWN va)"
    using pte_same_page [OF assms(1,2) _ assms(3), of "PGROUNDDOWN va"] same_page(1) [OF assms(4)] by simp
  then show ?thesis using same_page(2) [OF assms(4)] by (simp add: upa_def)
qed

lemma map_upt_split:
  assumes "k \<le> n" shows "map (\<lambda>i. f (va + i)) [0..<n] = map (\<lambda>i. f (va + i)) [0..<k] @ map (\<lambda>i. f (va + k + i)) [0..<n - k]"
  using assms by (intro nth_equalityI) (auto simp: nth_append add.assoc)

lemma next_chunk: "PGROUNDDOWN va + PGSIZE = va + (PGSIZE - va mod PGSIZE)"
  using page_offset [of va] PGROUNDDOWN_le [of va] by simp

text \<open>Readable and writable ranges.\<close>

definition readable :: "'a pmem_scheme \<Rightarrow> nat \<Rightarrow> nat \<Rightarrow> nat \<Rightarrow> bool" where
  "readable s r va n \<longleftrightarrow> va + n \<le> MAXVA \<and>
     (\<forall>w. va \<le> w \<and> w < va + n \<longrightarrow> valid (pte s r w) \<and> pte s r w AND PTE_U \<noteq> 0 \<and> PTE2PA (pte s r w) \<noteq> 0)"

definition writable :: "'a pmem_scheme \<Rightarrow> nat \<Rightarrow> nat \<Rightarrow> nat \<Rightarrow> bool" where
  "writable s r va n \<longleftrightarrow> readable s r va n \<and> (\<forall>w. va \<le> w \<and> w < va + n \<longrightarrow> pte s r w AND PTE_W \<noteq> 0)"

text \<open>Different pages of the range have different page frames.\<close>

definition unshared :: "'a pmem_scheme \<Rightarrow> nat \<Rightarrow> nat \<Rightarrow> nat \<Rightarrow> bool" where
  "unshared s r va n \<longleftrightarrow> (\<forall>v w. va \<le> v \<and> v < va + n \<longrightarrow> va \<le> w \<and> w < va + n \<longrightarrow>
     PTE2PA (pte s r v) = PTE2PA (pte s r w) \<longrightarrow> v div PGSIZE = w div PGSIZE)"

lemma PTE2PA_aligned: "PTE2PA e mod PGSIZE = 0"
proof -
  have "PTE2PA e mod 2 ^ 12 = take_bit 12 (push_bit 12 (drop_bit 10 e))"
    unfolding PTE2PA_def take_bit_eq_mod [symmetric] by (simp add: take_bit_take_bit)
  then show ?thesis by (simp add: PGSIZE_def take_bit_push_bit)
qed

lemma upa_inj:
  assumes "unshared s r va n" "va \<le> v" "v < va + n" "va \<le> w" "w < va + n" "upa s r v = upa s r w"
  shows "v = w"
proof -
  have m: "upa s r x mod PGSIZE = x mod PGSIZE" for x
    using PTE2PA_aligned [of "pte s r x"] by (simp add: upa_def mod_add_left_eq [symmetric])
  have "v mod PGSIZE = w mod PGSIZE" using m [of v] m [of w] assms(6) by simp
  moreover from this have "PTE2PA (pte s r v) = PTE2PA (pte s r w)" using assms(6) by (simp add: upa_def)
  then have "v div PGSIZE = w div PGSIZE" using assms(1-5) unfolding unshared_def by blast
  ultimately show ?thesis by (metis div_mult_mod_eq)
qed

subsection \<open>copyin\<close>

lemma walkaddr_ok:
  assumes ok: "vm_ok M s" and r: "is_root M r" and va: "va < MAXVA" and v: "valid (pte s r va)" "pte s r va AND PTE_U \<noteq> 0"
  shows "walkaddr me r va s = Done (PTE2PA (pte s r va)) s"
proof -
  obtain p where p: "M (r, 0, prefix_of 0 va) = Some p" "pte s r va = word_at s (p + 8 * PX 0 va)"
    using pte_leaf [OF ok r va] v(1) by (cases "M (r, 0, prefix_of 0 va)") auto
  then show ?thesis
    using walk_read [OF ok r va, of me] va v table_pos [OF ok p(1)] by (simp add: walkaddr_def and_PTE_V)
qed

lemma copyin_ok:
  assumes "vm_ok M s" "is_root M r" "readable s r va n"
  shows "copyin me r va n s = Done (0, map (\<lambda>i. phys (km s) (upa s r (va + i))) [0..<n]) s"
  using assms(3)
proof (induction n arbitrary: va rule: less_induct)
  case (less n va)
  show ?case
  proof (cases "n = 0")
    case True then show ?thesis by (subst copyin.simps) simp
  next
    case False
    let ?va0 = "PGROUNDDOWN va" let ?k = "min (PGSIZE - (va - ?va0)) n"
    have lt: "va < MAXVA" "?va0 < MAXVA" using less.prems False PGROUNDDOWN_le [of va] by (auto simp: readable_def)
    have e: "pte s r ?va0 = pte s r va" by (rule pte_same_page [OF assms(1,2) lt(1,2)]) simp
    have v: "valid (pte s r va)" "pte s r va AND PTE_U \<noteq> 0" "PTE2PA (pte s r va) \<noteq> 0"
      using less.prems False by (auto simp: readable_def)
    have w: "walkaddr me r ?va0 s = Done (PTE2PA (pte s r ?va0)) s"
      by (rule walkaddr_ok [OF assms(1,2) lt(2)]) (use v in \<open>simp_all add: e\<close>)
    have k: "0 < ?k" "?k \<le> n" "?k \<le> PGSIZE - va mod PGSIZE"
      using False page_offset [of va] by auto
    have l: "load_bytes (PTE2PA (pte s r ?va0) + (va - ?va0)) ?k s = map (\<lambda>i. phys (km s) (upa s r (va + i))) [0..<?k]"
      unfolding load_bytes_def
    proof (rule map_cong [OF refl])
      fix i assume "i \<in> set [0..<?k]"
      then have i: "i < PGSIZE - va mod PGSIZE" "va + i < MAXVA" using k less.prems by (auto simp: readable_def)
      show "phys (km s) (PTE2PA (pte s r ?va0) + (va - ?va0) + i) = phys (km s) (upa s r (va + i))"
        unfolding upa_chunk [OF assms(1,2) i(2,1)] page_offset ..
    qed
    have rest: "copyin me r (?va0 + PGSIZE) (n - ?k) s =
      Done (0, map (\<lambda>i. phys (km s) (upa s r (va + ?k + i))) [0..<n - ?k]) s"
    proof (cases "n = ?k")
      case True then show ?thesis by (subst copyin.simps) simp
    next
      case ne: False
      then have a: "?va0 + PGSIZE = va + ?k" using k next_chunk [of va] page_offset [of va] by auto
      have rd: "readable s r (va + ?k) (n - ?k)" using less.prems k by (auto simp: readable_def)
      have "n - ?k < n" using k(1) False by simp
      then show ?thesis unfolding a by (rule less.IH [OF _ rd])
    qed
    have "map (\<lambda>i. phys (km s) (upa s r (va + i))) [0..<n] =
      map (\<lambda>i. phys (km s) (upa s r (va + i))) [0..<?k] @ map (\<lambda>i. phys (km s) (upa s r (va + ?k + i))) [0..<n - ?k]"
      by (rule map_upt_split [OF k(2), where f = "\<lambda>x. phys (km s) (upa s r x)" and va = va])
    moreover have "PTE2PA (pte s r ?va0) \<noteq> 0" using v(3) e by simp
    ultimately show ?thesis using False w l rest by (subst copyin.simps) (simp add: Let_def)
  qed
qed

subsection \<open>copyout\<close>

text \<open>\<open>t\<close> is \<open>s\<close> with the bytes \<open>bs\<close> stored at the user address \<open>va\<close>, and nothing else changed.\<close>

definition stored :: "'a pmem_scheme \<Rightarrow> nat \<Rightarrow> nat \<Rightarrow> 8 word list \<Rightarrow> 'a pmem_scheme \<Rightarrow> bool" where
  "stored s r va bs t \<longleftrightarrow> (\<exists>h. t = s\<lparr>km := (km s)\<lparr>phys := h\<rparr>\<rparr> \<and>
     (\<forall>i<length bs. h (upa s r (va + i)) = bs ! i) \<and>
     (\<forall>a. (\<forall>i<length bs. a \<noteq> upa s r (va + i)) \<longrightarrow> h a = phys (km s) a))"

lemma upa_phys [simp]: "upa (s\<lparr>km := k\<rparr>) r va = upa s r va" "pte (s\<lparr>km := k\<rparr>) r va = pte s r va"
proof -
  have "slot l p va (s\<lparr>km := k\<rparr>) = slot l p va s" for l p by (induction l arbitrary: p) (simp_all add: Let_def)
  then show "pte (s\<lparr>km := k\<rparr>) r va = pte s r va" by (simp add: pte_def split: option.split)
  then show "upa (s\<lparr>km := k\<rparr>) r va = upa s r va" by (simp add: upa_def)
qed

lemma stored_chunk:
  assumes "vm_ok M s" "is_root M r" "va + length bs \<le> MAXVA" "length bs \<le> PGSIZE - va mod PGSIZE"
  shows "stored s r va bs (store_bytes (PTE2PA (pte s r (PGROUNDDOWN va)) + (va - PGROUNDDOWN va)) bs s)"
proof -
  let ?a = "PTE2PA (pte s r (PGROUNDDOWN va)) + va mod PGSIZE"
  have u: "upa s r (va + i) = ?a + i" if "i < length bs" for i
    using upa_chunk [OF assms(1,2), of va i] assms(3,4) that by simp
  show ?thesis
    unfolding stored_def page_offset store_bytes_def
  proof (intro exI conjI allI impI, rule refl)
    fix i assume "i < length bs"
    then show "(if ?a \<le> upa s r (va + i) \<and> upa s r (va + i) < ?a + length bs
        then bs ! (upa s r (va + i) - ?a) else phys (km s) (upa s r (va + i))) = bs ! i"
      by (simp add: u)
  next
    fix a assume n: "\<forall>i<length bs. a \<noteq> upa s r (va + i)"
    have "\<not> (?a \<le> a \<and> a < ?a + length bs)"
    proof
      assume "?a \<le> a \<and> a < ?a + length bs"
      then have "a - ?a < length bs" "a = ?a + (a - ?a)" by auto
      then show False using n u by metis
    qed
    then show "(if ?a \<le> a \<and> a < ?a + length bs then bs ! (a - ?a) else phys (km s) a) = phys (km s) a" by (simp only: if_False)
  qed
qed

lemma stored_append:
  assumes a: "stored s r va bs t" and b: "stored t r (va + length bs) cs u" and un: "unshared s r va (length bs + length cs)"
  shows "stored s r va (bs @ cs) u"
proof -
  obtain h where h: "t = s\<lparr>km := (km s)\<lparr>phys := h\<rparr>\<rparr>" "\<And>i. i < length bs \<Longrightarrow> h (upa s r (va + i)) = bs ! i"
    "\<And>a. (\<And>i. i < length bs \<Longrightarrow> a \<noteq> upa s r (va + i)) \<Longrightarrow> h a = phys (km s) a"
    using a unfolding stored_def by blast
  obtain g where g: "u = t\<lparr>km := (km t)\<lparr>phys := g\<rparr>\<rparr>"
    "\<And>i. i < length cs \<Longrightarrow> g (upa s r (va + length bs + i)) = cs ! i"
    "\<And>a. (\<And>i. i < length cs \<Longrightarrow> a \<noteq> upa s r (va + length bs + i)) \<Longrightarrow> g a = h a"
    using b h(1) unfolding stored_def by auto
  have "u = s\<lparr>km := (km s)\<lparr>phys := g\<rparr>\<rparr>" using g(1) h(1) by simp
  moreover have "g (upa s r (va + i)) = (bs @ cs) ! i" if i: "i < length (bs @ cs)" for i
  proof (cases "i < length bs")
    case True
    have "g (upa s r (va + i)) = h (upa s r (va + i))"
    proof (rule g(3))
      fix j assume "j < length cs"
      then show "upa s r (va + i) \<noteq> upa s r (va + length bs + j)"
        using upa_inj [OF un, of "va + i" "va + length bs + j"] True by auto
    qed
    then show ?thesis using h(2) [OF True] True by (simp add: nth_append)
  next
    case False
    then show ?thesis using g(2) [of "i - length bs"] i by (simp add: nth_append)
  qed
  moreover have "g a = phys (km s) a" if a: "\<forall>i<length (bs @ cs). a \<noteq> upa s r (va + i)" for a
  proof -
    have "a \<noteq> upa s r (va + length bs + i)" if "i < length cs" for i using a that by (simp add: add.assoc)
    then have "g a = h a" by (rule g(3))
    also have "\<dots> = phys (km s) a" by (rule h(3)) (use a in auto)
    finally show ?thesis .
  qed
  ultimately show ?thesis unfolding stored_def by blast
qed

lemma copyout_ok:
  assumes "vm_ok M s" "is_root M r" "writable s r va (length bs)" "unshared s r va (length bs)"
  shows "\<exists>t. copyout me r va bs s = Done 0 t \<and> stored s r va bs t"
  using assms
proof (induction bs arbitrary: va s rule: length_induct)
  case (1 bs va s)
  note ok = 1(2) and r = 1(3)
  show ?case
  proof (cases "bs = []")
    case True
    moreover have "stored s r va [] s" by (auto simp: stored_def intro: exI [of _ "phys (km s)"])
    ultimately show ?thesis by (subst copyout.simps) auto
  next
    case False
    let ?va0 = "PGROUNDDOWN va" let ?k = "min (PGSIZE - (va - ?va0)) (length bs)"
    have rd: "readable s r va (length bs)" using 1(4) by (simp add: writable_def)
    have n0: "0 < length bs" using False by simp
    have "va + length bs \<le> MAXVA" using rd by (simp add: readable_def)
    then have lt: "va < MAXVA" "?va0 < MAXVA" using n0 PGROUNDDOWN_le [of va] by linarith+
    have e: "pte s r ?va0 = pte s r va" by (rule pte_same_page [OF ok r lt(1,2)]) simp
    have v: "valid (pte s r va)" "pte s r va AND PTE_U \<noteq> 0" "pte s r va AND PTE_W \<noteq> 0"
      using 1(4) False by (auto simp: writable_def readable_def)
    obtain p where p: "M (r, 0, prefix_of 0 ?va0) = Some p" "pte s r ?va0 = word_at s (p + 8 * PX 0 ?va0)"
      using pte_leaf [OF ok r lt(2)] v(1) e by (cases "M (r, 0, prefix_of 0 ?va0)") auto
    have k: "0 < ?k" "?k \<le> length bs" "?k \<le> PGSIZE - va mod PGSIZE" using False page_offset [of va] by auto
    let ?pa = "PTE2PA (pte s r ?va0) + (va - ?va0)" let ?t = "store_bytes ?pa (take ?k bs) s"
    have len: "length (take ?k bs) = ?k" using k(2) by simp
    have st: "stored s r va (take ?k bs) ?t"
      by (rule stored_chunk [OF ok r]) (use rd k len in \<open>auto simp: readable_def\<close>)
    have step: "copyout me r va bs s = copyout me r (?va0 + PGSIZE) (drop ?k bs) ?t"
      using False lt(2) walk_read [OF ok r lt(2), of me] p v e table_pos [OF ok p(1)]
      by (subst copyout.simps) (simp add: and_PTE_V Let_def)
    show ?thesis
    proof (cases "length bs = ?k")
      case True
      then have "take ?k bs = bs" "drop ?k bs = []" by simp_all
      then show ?thesis using step st by (simp only: copyout.simps [of me r _ "[]"]) auto
    next
      case ne: False
      then have a: "?va0 + PGSIZE = va + ?k" using k next_chunk [of va] page_offset [of va] by auto
      have "writable ?t r (va + ?k) (length (drop ?k bs))" "unshared ?t r (va + ?k) (length (drop ?k bs))"
        using 1(4,5) k(2) by (auto simp: writable_def readable_def unshared_def)
      moreover have "length (drop ?k bs) < length bs" using k(1) False by simp
      ultimately obtain u where u: "copyout me r (va + ?k) (drop ?k bs) ?t = Done 0 u" "stored ?t r (va + ?k) (drop ?k bs) u"
        using 1(1) ok r vm_ok_store by blast
      have "stored s r va (take ?k bs @ drop ?k bs) u"
        by (rule stored_append [OF st]) (use u(2) 1(5) k(2) len in auto)
      then show ?thesis using step a u(1) by (simp only: append_take_drop_id) auto
    qed
  qed
qed


subsection \<open>uvmcopy\<close>

lemma fresh_vm0:
  assumes ok: "vm_ok M s" and k: "pm_kalloc me s = Done q u"
  shows "vm_ok M u" "\<And>r va. is_root M r \<Longrightarrow> va < MAXVA \<Longrightarrow> pte u r va = pte s r va"
proof -
  note f = fresh_page [OF vm_okD(1) [OF ok] k]
  have al: "PGSIZE dvd q" using f(5) by (simp add: page_addr_def)
  have w: "word_at u (p + 8 * i) = word_at s (p + 8 * i)" if "M x = Some p" "i < 512" for x p i
    unfolding f(8) by (rule table_off_page [OF ok that al f(4)])
  have "entries_ok M u" by (rule entries_cong [OF vm_okD(2) [OF ok] w])
  moreover have "tables_ok M (km u)"
    using ok f(9) used_page_keeps [OF _ f(10)] unfolding vm_ok_def tables_ok_def by blast
  ultimately show vm: "vm_ok M u" by (simp add: vm_ok_def)
  show "pte u r va = pte s r va" if "is_root M r" "va < MAXVA" for r va
    using w [OF _ PX_less] unfolding pte_leaf [OF vm that] pte_leaf [OF ok that] by (auto split: option.split)
qed

text \<open>Counting one more reference to a page that is no table.\<close>

lemma pm_kaddrefcnt_ok:
  assumes ok: "vm_ok M s" and pa: "page_addr (km s) pa" "pa \<notin> ran M" "pa div PGSIZE \<notin> free_mem (km s)"
  obtains t where "pm_kaddrefcnt me pa s = Done 0 t" "vm_ok M t" "word_at t = word_at s" "phys (km t) = phys (km s)"
    "free_mem (km t) = free_mem (km s)" "kend (km t) = kend (km s)"
    "ref_cnt (km t) = (ref_cnt (km s))(pa div PGSIZE := ref_cnt (km s) (pa div PGSIZE) + 1)"
proof -
  let ?k = "(km s)\<lparr>ref_cnt := (ref_cnt (km s))(pa div PGSIZE := ref_cnt (km s) (pa div PGSIZE) + 1)\<rparr>"
  let ?t = "s\<lparr>km := ?k\<rparr>"
  have "pm_kaddrefcnt me pa s = Done 0 ?t"
    using kaddrefcnt_ok [OF vm_okD(1) [OF ok] pa(1), of me] by (simp add: pm_kaddrefcnt_def)
  moreover have "vm_ok M ?t"
  proof (rule vm_okI)
    show "kmem_ok (km ?t)" using kmem_ok_cnt [OF vm_okD(1) [OF ok] pa(3)] by simp
    show "entries_ok M ?t" by (rule entries_cong [OF vm_okD(2) [OF ok]]) simp
    show "used_page (km ?t) p" if "M x = Some p" for x p
    proof -
      have u: "used_page (km s) p" by (rule vm_okD(3) [OF ok that])
      have "p div PGSIZE \<noteq> pa div PGSIZE"
        using page_addr_frame_inj [of "km s" p pa] pa(1,2) u that by (auto simp: used_page_def dest: ranI)
      then show ?thesis using u by (simp add: used_page_def page_addr_def free_mem_def)
    qed
    show "x = y" if "M x = Some p" "M y = Some p" for x y p using vm_okD(4) [OF ok that] .
    show "l \<le> 2 \<and> (l = 2 \<longrightarrow> p = r \<and> u = 0) \<and> u * 2 ^ (21 + 9 * l) < MAXVA" if "M (r, l, u) = Some p" for r l u p
      using vm_okD(5,8) [OF ok that] vm_okD(6) [OF ok, of r u p] that by auto
    show "M (r, Suc l, u div 512) \<noteq> None" if "l < 2" "M (r, l, u) \<noteq> None" for r l u
      using vm_okD(7) [OF ok that(1)] that(2) by auto
  qed
  ultimately show ?thesis using that [of ?t] by (simp add: free_mem_def)
qed

lemma bit_clear_bits: "bit (clear_bits x m) n \<longleftrightarrow> bit x n \<and> \<not> bit m n"
  by (auto simp: clear_bits_def bit_xor_iff bit_or_iff)

lemma clear_bits_less: "x < 2 ^ n \<Longrightarrow> clear_bits x m < 2 ^ n"
proof -
  assume "x < 2 ^ n"
  then have "\<not> bit x k" if "n \<le> k" for k
    using that by (metis bit_take_bit_iff not_less take_bit_nat_eq_self)
  then have "take_bit n (clear_bits x m) = clear_bits x m"
    by (intro bit_eqI) (auto simp: bit_take_bit_iff bit_clear_bits, metis not_less)
  then show ?thesis by (simp add: take_bit_nat_eq_self_iff)
qed

lemma PTE_FLAGS_bits: "PTE_FLAGS e < 2 ^ 10" "n < 10 \<Longrightarrow> bit (PTE_FLAGS e) n = bit e n"
proof -
  have "PTE_FLAGS e = take_bit 10 e" using and_low_mask_nat [of e 10] by (simp add: PTE_FLAGS_def take_bit_eq_mod)
  then show "PTE_FLAGS e < 2 ^ 10" "n < 10 \<Longrightarrow> bit (PTE_FLAGS e) n = bit e n"
    using take_bit_nat_less_exp [of 10 e] by (simp_all add: bit_take_bit_iff)
qed

lemma PTE_FLAGS_W: "PTE_FLAGS e AND PTE_W = e AND PTE_W"
proof -
  have "0x3FF AND PTE_W = PTE_W" by (simp add: PTE_W_def)
  then show ?thesis by (simp add: PTE_FLAGS_def and.assoc)
qed

lemma PGSIZE_pos: "0 < PGSIZE"
  by (simp add: PGSIZE_def)

text \<open>The entry of a writable page after \<open>uvmcopy\<close> has marked it.\<close>

definition cow_flags :: "nat \<Rightarrow> nat" where
  "cow_flags e = clear_bits (PTE_FLAGS e OR PTE_F) PTE_W"

lemma cow_flags:
  assumes "valid e" shows "cow_flags e < 2 ^ 10" "valid (x OR cow_flags e)" "cow_flags e \<noteq> PTE_V"
proof -
  have c: "bit PTE_F 8" "\<not> bit PTE_W 8" "\<not> bit PTE_W 0" by (simp_all add: PTE_W_def PTE_F_def bit_iff_odd)
  have "bit e 0" using assms by (simp add: valid_odd bit_0)
  then have b: "bit (cow_flags e) 0" "bit (cow_flags e) 8"
    using PTE_FLAGS_bits(2) [of 0 e] c unfolding cow_flags_def bit_clear_bits bit_or_iff by simp_all
  show "cow_flags e < 2 ^ 10"
    unfolding cow_flags_def by (intro clear_bits_less or_less_nat PTE_FLAGS_bits(1)) (simp add: PTE_F_def)
  show "valid (x OR cow_flags e)" using b(1) by (simp add: valid_odd even_or_iff bit_0)
  have "\<not> bit PTE_V 8" by (simp add: PTE_V_def bit_iff_odd)
  then show "cow_flags e \<noteq> PTE_V" using b(2) by metis
qed

lemma pte_poke_km: "pte (poke a v (s\<lparr>km := k\<rparr>)) r va = pte (poke a v s) r va"
proof -
  have "poke a v (s\<lparr>km := k\<rparr>) = (poke a v s)\<lparr>km := k\<rparr>" by (cases s) (simp add: poke_def)
  then show ?thesis by (simp only: upa_phys)
qed

lemma pm_kfree_shared:
  assumes "kmem_ok (km s)" "page_addr (km s) pa" "ref_cnt (km s) (pa div PGSIZE) \<noteq> 1"
  shows "pm_kfree me pa s =
    Done () (s\<lparr>km := (km s)\<lparr>ref_cnt := (ref_cnt (km s))(pa div PGSIZE := ref_cnt (km s) (pa div PGSIZE) - 1)\<rparr>\<rparr>)"
  using kfree_shared [OF assms, of me] assms(3) by (simp add: pm_kfree_def)

lemma uvmcopy_page:
  assumes ok: "vm_ok M s" and rt: "is_root M old" "is_root M new" "old \<noteq> new" and fr: "3 \<le> card (free_mem (km s))"
    and v: "valid (pte s old 0)" "pte s old 0 AND PTE_W \<noteq> 0" and d: "data_page M s pa" "pa = PTE2PA (pte s old 0)"
    and nv: "\<not> valid (pte s new 0)"
  obtains M' t q where "uvmcopy me old new PGSIZE s = Done 0 t" "vm_ok M' t" "\<And>r. is_root M' r = is_root M r"
    "page_addr (km t) pa" "pa div PGSIZE \<notin> free_mem (km t)" "ref_cnt (km t) (pa div PGSIZE) = 2" "pa \<notin> ran M'"
    "\<And>r va. is_root M r \<Longrightarrow> va < MAXVA \<Longrightarrow> pte t r va =
      (if r = new \<and> va div PGSIZE = 0 then PA2PTE q OR cow_flags (pte s old 0) OR PTE_V
       else if r = old \<and> va div PGSIZE = 0 then PA2PTE pa OR cow_flags (pte s old 0) else pte s r va)"
    "q div PGSIZE \<in> free_mem (km s)" "page_addr (km s) q"
proof -
  have z: "0 < MAXVA" by (simp add: MAXVA_def)
  obtain p where p: "M (old, 0, prefix_of 0 0) = Some p" and e: "pte s old 0 = word_at s (p + 8 * PX 0 0)"
    using pte_leaf [OF ok rt(1) z] v(1) by (cases "M (old, 0, prefix_of 0 0)") auto
  let ?fl = "cow_flags (pte s old 0)" let ?s1 = "poke (p + 8 * PX 0 0) (PA2PTE pa OR ?fl) s"
  note P = poke_leaf [OF ok p, where e = "PA2PTE pa OR ?fl"]
  have fin: "finite (free_mem (km s))" "free_mem (km s) \<noteq> {}" using fr by (auto intro: card_ge_0_finite)
  obtain q u where k: "pm_kalloc me ?s1 = Done q u"
    using pm_kalloc_ok [OF vm_okD(1) [OF P(1)], of me] fin(2) by auto metis
  note f = fresh_page [OF vm_okD(1) [OF P(1)] k] and w = fresh_vm0 [OF P(1) k]
  let ?u = "store_bytes q (load_bytes pa PGSIZE u) u"
  have c: "card (free_mem (km s)) = Suc (card (free_mem (km u)))"
    using card_Suc_Diff1 [OF fin(1), of "q div PGSIZE"] f(4,12) by simp
  have fk: "free_mem (km ?u) = free_mem (km u)" by (simp add: store_bytes_def free_mem_def)
  have nv': "\<not> valid (pte ?u new (0 + k * PGSIZE))" if "k < 1" for k
    using that nv w(2) [OF rt(2) z] P(2) [OF rt(2) z] rt(3) by simp
  have le: "0 + 1 * PGSIZE \<le> MAXVA" by (simp add: PGSIZE_def MAXVA_def)
  have fr': "2 * 1 \<le> card (free_mem (km ?u))" using c fr fk by simp
  have wu: "vm_ok M ?u" using w(1) by simp
  obtain M' t where t: "mappages me new 0 (1 * PGSIZE) q ?fl ?u = Done 0 t"
    "vm_step new M ?u M' t (map_view new 0 1 q ?fl (pte ?u))"
    using mappages_ok [OF wu rt(2) dvd_0_right zero_less_one le fr' nv'] by metis
  note S = vm_stepD [OF t(2)]
  have u0: "used_page (km s) pa" "pa \<notin> ran M" using d(1) by (simp_all add: data_page_def)
  have "used_page (km u) pa" using used_page_keeps [of ?s1 pa u] u0(1) f(10) by simp
  then have "data_page M ?u pa" using u0(2) by (simp add: data_page_def used_page_def page_addr_def free_mem_def store_bytes_def)
  moreover have "table_frames M' \<subseteq> free_mem (km ?u) \<union> table_frames M" using S(6) by (auto simp: conserved_def)
  ultimately have dt: "data_page M' t pa" using data_page_keeps [OF _ S(1) _ S(3)] w(1) by simp
  then have pt: "page_addr (km t) pa" "pa \<notin> ran M'" "pa div PGSIZE \<notin> free_mem (km t)" "ref_cnt (km t) (pa div PGSIZE) = 1"
    by (simp_all add: data_page_def used_page_def)
  obtain t' where t': "pm_kaddrefcnt me pa t = Done 0 t'" "vm_ok M' t'" "word_at t' = word_at t" "phys (km t') = phys (km t)"
    "free_mem (km t') = free_mem (km t)" "kend (km t') = kend (km t)"
    "ref_cnt (km t') = (ref_cnt (km t))(pa div PGSIZE := ref_cnt (km t) (pa div PGSIZE) + 1)"
    by (rule pm_kaddrefcnt_ok [OF S(1) pt(1-3), of me]) (rule that)
  have same: "pte t' r va = pte t r va" if "is_root M r" "va < MAXVA" for r va
    using pte_leaf [OF t'(2) _ that(2), of r] pte_leaf [OF S(1) _ that(2), of r] S(4) that(1) t'(3)
    by (simp split: option.split)
  have q0: "q \<noteq> 0" using page_addr_range(2) [OF vm_okD(1) [OF P(1)] f(5)] by simp
  have "copy_loop me old new 0 PGSIZE s = copy_loop me old new PGSIZE PGSIZE t'"
    using walk_read [OF ok rt(1) z, of me] p e v d(2) table_pos [OF ok p] k q0 t(1) t'(1) PTE_FLAGS_W PGSIZE_pos
    by (subst copy_loop.simps) (simp add: and_PTE_V Let_def cow_flags_def)
  then have "uvmcopy me old new PGSIZE s = Done 0 t'" by (simp add: uvmcopy_def copy_loop.simps [of me old new PGSIZE])
  moreover have "pte t' r va =
      (if r = new \<and> va div PGSIZE = 0 then PA2PTE q OR ?fl OR PTE_V
       else if r = old \<and> va div PGSIZE = 0 then PA2PTE pa OR ?fl else pte s r va)" if "is_root M r" "va < MAXVA" for r va
    using same [OF that] S(5) [OF that] w(2) [OF that] P(2) [OF that] by (auto simp: map_view_def)
  ultimately show ?thesis
    using that [of t' M' q] t'(2,5,6,7) S(4) pt f(4,5) by (simp add: page_addr_def)
qed

text \<open>
  C24. \<open>uvmcopy\<close> loses memory.  For a parent with one writable page that nothing else maps,
  \<open>uvmcopy\<close> gives the child a copy in another page, and yet counts a second reference to
  the parent's page.  When the parent later unmaps the page with \<open>do_free\<close>, no address space
  maps the page any more, but it is not free.
\<close>

theorem uvmcopy_leaks_page:
  assumes ok: "vm_ok M s" and rt: "is_root M old" "is_root M new" "old \<noteq> new" and fr: "3 \<le> card (free_mem (km s))"
    and v: "valid (pte s old 0)" "pte s old 0 AND PTE_W \<noteq> 0" and d: "data_page M s pa" "pa = PTE2PA (pte s old 0)"
    and nv: "\<not> valid (pte s new 0)"
    and sole: "\<And>r va. is_root M r \<Longrightarrow> va < MAXVA \<Longrightarrow> valid (pte s r va) \<Longrightarrow> PTE2PA (pte s r va) = pa \<Longrightarrow>
      r = old \<and> va div PGSIZE = 0"
  shows "\<exists>t u. uvmcopy me old new PGSIZE s = Done 0 t \<and> uvmunmap me old 0 1 True t = Done () u \<and>
    pa div PGSIZE \<notin> free_mem (km u) \<and>
    (\<forall>r va. is_root M r \<longrightarrow> va < MAXVA \<longrightarrow> valid (pte u r va) \<longrightarrow> PTE2PA (pte u r va) \<noteq> pa)"
proof -
  obtain M' t q where t: "uvmcopy me old new PGSIZE s = Done 0 t" "vm_ok M' t" "\<And>r. is_root M' r = is_root M r"
    "page_addr (km t) pa" "pa div PGSIZE \<notin> free_mem (km t)" "ref_cnt (km t) (pa div PGSIZE) = 2" "pa \<notin> ran M'"
    "\<And>r va. is_root M r \<Longrightarrow> va < MAXVA \<Longrightarrow> pte t r va =
      (if r = new \<and> va div PGSIZE = 0 then PA2PTE q OR cow_flags (pte s old 0) OR PTE_V
       else if r = old \<and> va div PGSIZE = 0 then PA2PTE pa OR cow_flags (pte s old 0) else pte s r va)"
    "q div PGSIZE \<in> free_mem (km s)" "page_addr (km s) q"
    by (rule uvmcopy_page [OF ok rt fr v d nv, of me]) (rule that)
  note c = cow_flags [OF v(1)]
  have z: "0 < MAXVA" by (simp add: MAXVA_def)
  have old0: "pte t old 0 = PA2PTE pa OR cow_flags (pte s old 0)" using t(8) [OF rt(1) z] rt(3) by simp
  have pa: "PGSIZE dvd pa" "pa < 2 ^ 56" using page_addr_range [OF vm_okD(1) [OF t(2)] t(4)] by auto
  have E: "PTE2PA (pte t old 0) = pa" "PTE_FLAGS (pte t old 0) \<noteq> PTE_V" "valid (pte t old 0)"
    unfolding old0 using PTE2PA_entry [OF pa c(1)] PTE_FLAGS_entry [OF c(1)] c(2,3) by simp_all
  obtain p where p: "M' (old, 0, prefix_of 0 0) = Some p" and e: "pte t old 0 = word_at t (p + 8 * PX 0 0)"
    using pte_leaf [OF t(2) _ z, of old] t(3) rt(1) E(3) by (cases "M' (old, 0, prefix_of 0 0)") auto
  let ?k = "(km t)\<lparr>ref_cnt := (ref_cnt (km t))(pa div PGSIZE := ref_cnt (km t) (pa div PGSIZE) - 1)\<rparr>"
  let ?u = "poke (p + 8 * PX 0 0) 0 (t\<lparr>km := ?k\<rparr>)"
  have free: "pm_kfree me pa t = Done () (t\<lparr>km := ?k\<rparr>)" using pm_kfree_shared [OF vm_okD(1) [OF t(2)] t(4)] t(6) by simp
  have "uvmunmap me old 0 1 True t = Done () ?u"
    using walk_read [OF t(2) _ z, of old me] t(3) rt(1) p e E free table_pos [OF t(2) p]
    by (simp add: uvmunmap_def unmap_loop.simps [of me old 0] unmap_loop.simps [of me old 4096] and_PTE_V PGSIZE_def)
  moreover have "pa div PGSIZE \<notin> free_mem (km ?u)" using t(5) by (simp add: free_mem_def)
  moreover have "PTE2PA (pte ?u r va) \<noteq> pa" if r: "is_root M r" and va: "va < MAXVA" and vu: "valid (pte ?u r va)" for r va
  proof
    assume a: "PTE2PA (pte ?u r va) = pa"
    have "pte ?u r va = pte (poke (p + 8 * PX 0 0) 0 t) r va" by (rule pte_poke_km)
    then have u: "pte ?u r va = (if r = old \<and> va div PGSIZE = 0 then 0 else pte t r va)"
      using poke_leaf(2) [OF t(2) p _ va, of r 0] t(3) r by simp
    show False
    proof (cases "r = new \<and> va div PGSIZE = 0")
      case True
      have q: "PGSIZE dvd q" "q < 2 ^ 56" using page_addr_range [OF vm_okD(1) [OF ok] t(10)] by auto
      have "cow_flags (pte s old 0) OR PTE_V < 2 ^ 10" using c(1) by (intro or_less_nat) (simp_all add: PTE_V_def)
      then have "PTE2PA (pte ?u r va) = q"
        using u True rt(3) t(8) [OF r va] PTE2PA_entry [OF q] by simp
      then show False using a t(9) d(1) by (simp add: data_page_def used_page_def)
    next
      case False
      then have "pte ?u r va = pte s r va" "\<not> (r = old \<and> va div PGSIZE = 0)"
        using u t(8) [OF r va] vu by (auto split: if_splits)
      then show False using sole [OF r va] vu a by simp
    qed
  qed
  ultimately show ?thesis using t(1) by blast
qed

subsection \<open>A concrete address space\<close>

text \<open>The pages a process gets from \<open>uvmalloc\<close> are writable user pages in different frames.\<close>

lemma alloced_pte:
  assumes a: "alloced M s M' t r 0 qs perm" and r: "is_root M r" and hi: "w < length qs * PGSIZE" "w < MAXVA"
    and p: "perm < 2 ^ 10"
  shows "pte t r w = PA2PTE (qs ! (w div PGSIZE)) OR perm OR PTE_V" "PTE2PA (pte t r w) = qs ! (w div PGSIZE)"
    "w div PGSIZE < length qs" "data_page M' t (qs ! (w div PGSIZE))"
proof -
  show k: "w div PGSIZE < length qs" using hi(1) by (simp add: PGSIZE_def)
  show e: "pte t r w = PA2PTE (qs ! (w div PGSIZE)) OR perm OR PTE_V"
    using allocedD(9) [OF a r hi(2)] k by (simp add: alloc_view_def in_range_def)
  show "data_page M' t (qs ! (w div PGSIZE))" using allocedD(6) [OF a] k by simp
  then show "PTE2PA (pte t r w) = qs ! (w div PGSIZE)"
    unfolding e using PTE2PA_leaf(1) [OF allocedD(1) [OF a] _ p] by (simp add: data_page_def)
qed

lemma alloced_writable:
  assumes a: "alloced M s M' t r 0 qs perm" and r: "is_root M r" and hi: "length qs * PGSIZE \<le> MAXVA"
    and p: "perm < 2 ^ 10" "perm AND PTE_U \<noteq> 0" "perm AND PTE_W \<noteq> 0" and n: "va + n \<le> length qs * PGSIZE"
  shows "writable t r va n" "unshared t r va n"
proof -
  have w: "w < length qs * PGSIZE" "w < MAXVA" if "w < va + n" for w using that hi n by simp_all
  note P = alloced_pte [OF a r w p(1)]
  have "(x OR perm OR PTE_V) AND m \<noteq> 0" if "perm AND m \<noteq> 0" for x m
  proof -
    obtain i where "bit perm i" "bit m i" using \<open>perm AND m \<noteq> 0\<close> by (auto simp: bit_eq_iff bit_and_iff)
    then have "bit ((x OR perm OR PTE_V) AND m) i" by (simp add: bit_and_iff bit_or_iff)
    then show ?thesis by (metis bit_0_eq bot_apply bot_bool_def)
  qed
  note b = this [OF p(2)] this [OF p(3)]
  have "0 < qs ! (w div PGSIZE)" if "w < va + n" for w
    using P(4) [OF that] page_addr_range(2) [OF vm_okD(1) [OF allocedD(1) [OF a]]] that
    by (simp add: data_page_def used_page_def)
  then show "writable t r va n" using P(1,2) b hi n by (simp add: writable_def readable_def)
  show "unshared t r va n"
    using P(2,3) allocedD(5) [OF a] by (simp add: unshared_def nth_eq_iff_index_eq)
qed

text \<open>After boot: two address spaces, the first with three pages.\<close>

lemma two_spaces:
  obtains k old s1 new s2 M s qs where "kinit boot_kmem = Done () k" "uvmcreate 0 (boot_pmem k) = Done old s1"
    "uvmcreate 0 s1 = Done new s2" "uvmalloc 0 old 0 12288 PTE_W s2 = Done 12288 s"
    "vm_ok M s" "is_root M old" "is_root M new" "old \<noteq> new" "\<And>r. is_root M r \<Longrightarrow> r = old \<or> r = new" "3 \<le> card (free_mem (km s))"
    "\<And>va. va < MAXVA \<Longrightarrow> pte s new va = 0" "\<And>va. va < MAXVA \<Longrightarrow> 12288 \<le> va \<Longrightarrow> pte s old va = 0"
    "writable s old 0 12288" "unshared s old 0 12288" "\<And>va. va < 12288 \<Longrightarrow> data_page M s (PTE2PA (pte s old va))"
proof -
  obtain k where k: "kinit boot_kmem = Done () k" "vm_ok Map.empty (boot_pmem k)" "1000 \<le> card (free_mem (km (boot_pmem k)))"
    using boot_vm_ok .
  then have "free_mem (km (boot_pmem k)) \<noteq> {}" by auto
  then obtain old s1 where c: "uvmcreate 0 (boot_pmem k) = Done old s1" "vm_ok [(old, 2, 0) \<mapsto> old] s1"
    "free_mem (km s1) = free_mem (km (boot_pmem k)) - {old div PGSIZE}" "\<And>va. va < MAXVA \<Longrightarrow> pte s1 old va = 0"
    by (rule uvmcreate_ok [OF k(2), where me = 0]) (rule that)
  let ?M = "[(old, 2, 0) \<mapsto> old] :: position \<rightharpoonup> nat"
  have n1: "999 \<le> card (free_mem (km s1))" using k(3) unfolding c(3) by (auto simp: card_Diff_singleton_if)
  then have "free_mem (km s1) \<noteq> {}" by auto
  then obtain new s2 where d: "uvmcreate 0 s1 = Done new s2" "vm_ok (?M((new, 2, 0) \<mapsto> new)) s2"
    "free_mem (km s2) = free_mem (km s1) - {new div PGSIZE}" "\<And>l u. ?M (new, l, u) = None"
    "\<And>va. va < MAXVA \<Longrightarrow> pte s2 new va = 0" "\<And>r va. is_root ?M r \<Longrightarrow> va < MAXVA \<Longrightarrow> pte s2 r va = pte s1 r va"
    by (rule uvmcreate_ok [OF c(2), where me = 0]) (rule that)
  let ?M2 = "?M((new, 2, 0) \<mapsto> new)"
  have ne: "old \<noteq> new" using d(4) [of 2 0] by (auto split: if_splits)
  have R: "is_root ?M2 r \<longleftrightarrow> r = old \<or> r = new" for r by (auto simp: is_root_def)
  have old0: "pte s2 old va = 0" if "va < MAXVA" for va using d(6) [of old va] c(4) that by (simp add: is_root_def)
  have n2: "998 \<le> card (free_mem (km s2))" using n1 unfolding d(3) by (auto simp: card_Diff_singleton_if)
  have pb: "pages_between 0 12288 = 3" "PGROUNDUP 0 = 0" by (simp_all add: pages_between_def PGROUNDUP_def PGSIZE_def)
  obtain qs M s where a: "uvmalloc 0 old 0 12288 PTE_W s2 = Done 12288 s" "length qs = 3"
    "alloced ?M2 s2 M s old 0 qs (PTE_R OR PTE_U OR PTE_W)" "card (free_mem (km s2)) \<le> card (free_mem (km s)) + 9"
    by (rule uvmalloc_ok [OF d(2), of old 0 12288 0 PTE_W, unfolded pb])
      (use R n2 in \<open>simp_all add: MAXVA_def old0 that\<close>)
  note A = allocedD [OF a(3)]
  have perm: "PTE_R OR PTE_U OR PTE_W < 2 ^ 10" "(PTE_R OR PTE_U OR PTE_W) AND PTE_U \<noteq> 0"
    "(PTE_R OR PTE_U OR PTE_W) AND PTE_W \<noteq> 0" by (simp_all add: PTE_R_def PTE_U_def PTE_W_def)
  have len: "length qs * PGSIZE \<le> MAXVA" "0 + 12288 \<le> length qs * PGSIZE" using a(2) by (simp_all add: PGSIZE_def MAXVA_def)
  have r: "is_root ?M2 old" using R by simp
  note W = alloced_writable [OF a(3) r len(1) perm len(2)]
  have "data_page M s (PTE2PA (pte s old va))" if "va < 12288" for va
    using alloced_pte [OF a(3) r _ _ perm(1), of va] that a(2) by (simp add: PGSIZE_def MAXVA_def)
  moreover have "pte s new va = 0" if "va < MAXVA" for va
    using A(9) [of new va] R d(5) that ne by (simp add: alloc_view_def)
  moreover have "pte s old va = 0" if "va < MAXVA" "12288 \<le> va" for va
  proof -
    have "\<not> in_range 0 3 va" using that(2) by (simp add: in_range_def PGSIZE_def)
    then show ?thesis using A(9) [OF r that(1)] old0 [OF that(1)] a(2) by (simp add: alloc_view_def)
  qed
  moreover have "3 \<le> card (free_mem (km s))" using a(4) n2 by simp
  ultimately show ?thesis
    using that [OF k(1) c(1) d(1) a(1) A(1)] A(4) R ne W by simp
qed


theorem uvmcopy_leaks_page_witness:
  "\<exists>k old s1 new s2 s t u. kinit boot_kmem = Done () k \<and> uvmcreate 0 (boot_pmem k) = Done old s1 \<and>
     uvmcreate 0 s1 = Done new s2 \<and> uvmalloc 0 old 0 12288 PTE_W s2 = Done 12288 s \<and>
     uvmcopy 0 old new PGSIZE s = Done 0 t \<and> uvmunmap 0 old 0 1 True t = Done () u \<and>
     PTE2PA (pte s old 0) div PGSIZE \<notin> free_mem (km u)"
proof -
  obtain k old s1 new s2 M s where a: "kinit boot_kmem = Done () k" "uvmcreate 0 (boot_pmem k) = Done old s1"
    "uvmcreate 0 s1 = Done new s2" "uvmalloc 0 old 0 12288 PTE_W s2 = Done 12288 s"
    "vm_ok M s" "is_root M old" "is_root M new" "old \<noteq> new" "\<And>r. is_root M r \<Longrightarrow> r = old \<or> r = new" "3 \<le> card (free_mem (km s))"
    "\<And>va. va < MAXVA \<Longrightarrow> pte s new va = 0" "\<And>va. va < MAXVA \<Longrightarrow> 12288 \<le> va \<Longrightarrow> pte s old va = 0"
    "writable s old 0 12288" "unshared s old 0 12288" "\<And>va. va < 12288 \<Longrightarrow> data_page M s (PTE2PA (pte s old va))"
    by (rule two_spaces) (rule that)
  have v: "valid (pte s old 0)" "pte s old 0 AND PTE_W \<noteq> 0" "\<not> valid (pte s new 0)"
    using a(11) [of 0] a(13) by (simp_all add: writable_def readable_def MAXVA_def)
  have sole: "r = old \<and> va div PGSIZE = 0" if r: "is_root M r" and va: "va < MAXVA" and vv: "valid (pte s r va)"
    and e: "PTE2PA (pte s r va) = PTE2PA (pte s old 0)" for r va
  proof -
    have o: "r = old" "va < 12288" using a(9) [OF r] a(11,12) [OF va] vv by (auto simp: not_le [symmetric])
    then have "va div PGSIZE = 0 div PGSIZE"
      using a(14) e unfolding unshared_def by (metis add_0 le0 zero_less_numeral)
    then show ?thesis using o by simp
  qed
  have d: "data_page M s (PTE2PA (pte s old 0))" using a(15) [of 0] by simp
  obtain t u where "uvmcopy 0 old new PGSIZE s = Done 0 t \<and> uvmunmap 0 old 0 1 True t = Done () u \<and>
     PTE2PA (pte s old 0) div PGSIZE \<notin> free_mem (km u)"
    using uvmcopy_leaks_page [OF a(5-8,10) v(1,2) d refl v(3) sole, of 0] by blast
  then show ?thesis using a(1-4) by blast
qed

end
