(* ===== verification/Grep.thy ===== *)
theory Grep
  imports Prelude
begin

section \<open>The pattern matcher of grep (user/grep.c)\<close>

text \<open>
  \<open>match\<close>, \<open>matchhere\<close> and \<open>matchstar\<close> on C strings, written as lists of characters
  other than NUL (reading at the end of the list reads the NUL), the loop of \<open>grep\<close> over
  a file and \<open>main\<close>.  A file descriptor is the list of the non-empty pieces in which
  successive calls of \<open>read\<close> deliver the data; \<open>read\<close> returns at most as many bytes as
  it is asked for and 0 at the end.

  The reference is the language of a pattern: a list of single characters and starred
  characters, possibly anchored at either end.
\<close>

subsection \<open>The code\<close>

function (sequential) matchhere :: "string \<Rightarrow> string \<Rightarrow> bool"
  and matchstar :: "char \<Rightarrow> string \<Rightarrow> string \<Rightarrow> bool" where
  "matchhere [] str = True"
| "matchhere (c # re) str =
     (if re \<noteq> [] \<and> hd re = CHR ''*'' then matchstar c (tl re) str
      else if c = CHR ''$'' \<and> re = [] then str = []
      else if str \<noteq> [] \<and> (c = CHR ''.'' \<or> c = hd str) then matchhere re (tl str)
      else False)"
| "matchstar c re str =
     (if matchhere re str then True
      else if str \<noteq> [] \<and> (hd str = c \<or> c = CHR ''.'') then matchstar c re (tl str)
      else False)"
  by pat_completeness auto

termination
  by (relation "measures [case_sum (\<lambda>(re, str). length re) (\<lambda>(c, re, str). Suc (length re)),
                          case_sum (\<lambda>(re, str). length str) (\<lambda>(c, re, str). length str)]")
    (auto simp: neq_Nil_conv)

fun match_from :: "string \<Rightarrow> string \<Rightarrow> bool" where
  "match_from re [] = matchhere re []"
| "match_from re (x # str) = (if matchhere re (x # str) then True else match_from re str)"

definition match :: "string \<Rightarrow> string \<Rightarrow> bool" where
  "match re str = (if re \<noteq> [] \<and> hd re = CHR ''^'' then matchhere (tl re) str else match_from re str)"

text \<open>\<open>read(fd, p, n)\<close>.\<close>

fun u_read :: "nat \<Rightarrow> string list \<Rightarrow> string \<times> string list" where
  "u_read n [] = ([], [])"
| "u_read n (b # bs) = (take n b, if length b \<le> n then bs else drop n b # bs)"

text \<open>
  The lines of the buffer: \<open>strchr\<close> finds the next newline before the next NUL.  The result
  is what is written to the standard output and what is left at \<open>p\<close>.
\<close>

function grep_lines :: "string \<Rightarrow> string \<Rightarrow> string \<times> string" where
  "grep_lines pattern p =
     (let line = takeWhile (\<lambda>c. c \<noteq> CHR 0x0A \<and> c \<noteq> CHR 0x00) p; q = drop (length line) p in
      if q = [] \<or> hd q = CHR 0x00 then ([], p)
      else let (out, rest) = grep_lines pattern (tl q) in
           ((if match pattern line then line @ [CHR 0x0A] else []) @ out, rest))"
  by pat_completeness auto

termination
proof (relation "measure (\<lambda>(pattern, p). length p)", goal_cases)
  case (2 pattern p line q)
  then show ?case by (cases q) (auto dest: arg_cong [where f = length])
qed simp

lemma u_read_length: "u_read n fd = (b, fd') \<Longrightarrow> length (concat fd) = length b + length (concat fd')"
  by (cases fd) (auto split: if_splits)

text \<open>\<open>sizeof(buf)\<close> is 1024; \<open>buf\<close> is the bytes kept from the previous round.\<close>

function grep_loop :: "string \<Rightarrow> string \<Rightarrow> string list \<Rightarrow> string" where
  "grep_loop pattern buf fd =
     (let (b, fd') = u_read (1024 - length buf - 1) fd in
      if b \<noteq> [] then let (out, rest) = grep_lines pattern (buf @ b) in out @ grep_loop pattern rest fd' else [])"
  by pat_completeness auto

termination
proof (relation "measure (\<lambda>(pattern, buf, fd). length (concat fd))", goal_cases)
  case (2 pattern buf fd x b fd' y out rest)
  then show ?case using u_read_length [of "1024 - length buf - 1" fd b fd'] by auto
qed simp

definition grep :: "string \<Rightarrow> string list \<Rightarrow> string" where
  "grep pattern fd = grep_loop pattern [] fd"

text \<open>
  \<open>main\<close>: the result is the standard output, the error output and the exit status;
  \<open>opn\<close> is \<open>open(..., O_RDONLY)\<close>, \<open>None\<close> when it fails.
\<close>

fun grep_files :: "string \<Rightarrow> (string \<Rightarrow> string list option) \<Rightarrow> string list \<Rightarrow> string \<times> nat" where
  "grep_files pattern opn [] = ([], 0)"
| "grep_files pattern opn (f # fs) =
     (case opn f of
        None \<Rightarrow> (''grep: cannot open '' @ f @ [CHR 0x0A], 1)
      | Some fd \<Rightarrow> (let (out, st) = grep_files pattern opn fs in (grep pattern fd @ out, st)))"

definition grep_main :: "string list \<Rightarrow> (string \<Rightarrow> string list option) \<Rightarrow> string list \<Rightarrow> string \<times> string \<times> nat" where
  "grep_main argv opn stdin =
     (if length argv \<le> 1 then ([], ''usage: grep pattern [file ...]'' @ [CHR 0x0A], 1)
      else if length argv \<le> 2 then (grep (argv ! 1) stdin, [], 0)
      else let (out, st) = grep_files (argv ! 1) opn (drop 2 argv) in (out, [], st))"

declare matchhere.simps [simp del] matchstar.simps [simp del] grep_lines.simps [simp del] grep_loop.simps [simp del]

subsection \<open>The language of a pattern\<close>

datatype atom = Any | Lit char

datatype piece = One atom | Star atom

definition atom_of :: "char \<Rightarrow> atom" where
  "atom_of c = (if c = CHR ''.'' then Any else Lit c)"

fun accepts :: "atom \<Rightarrow> char \<Rightarrow> bool" where
  "accepts Any x = True"
| "accepts (Lit c) x = (x = c)"

fun lang :: "piece list \<Rightarrow> string set" where
  "lang [] = {[]}"
| "lang (One a # ps) = {x # w | x w. accepts a x \<and> w \<in> lang ps}"
| "lang (Star a # ps) = {u @ w | u w. (\<forall>x\<in>set u. accepts a x) \<and> w \<in> lang ps}"

text \<open>The pieces of a pattern after the \<open>^\<close>, and whether it ends in the anchor \<open>$\<close>.\<close>

fun pieces :: "string \<Rightarrow> piece list" where
  "pieces [] = []"
| "pieces [c] = (if c = CHR ''$'' then [] else [One (atom_of c)])"
| "pieces (c # d # re) = (if d = CHR ''*'' then Star (atom_of c) # pieces re else One (atom_of c) # pieces (d # re))"

fun end_anchored :: "string \<Rightarrow> bool" where
  "end_anchored [] = False"
| "end_anchored [c] = (c = CHR ''$'')"
| "end_anchored (c # d # re) = (if d = CHR ''*'' then end_anchored re else end_anchored (d # re))"

definition matches_at :: "string \<Rightarrow> string \<Rightarrow> bool" where
  "matches_at re str \<longleftrightarrow> (\<exists>v w. str = v @ w \<and> v \<in> lang (pieces re) \<and> (end_anchored re \<longrightarrow> w = []))"

subsection \<open>The matcher decides the language\<close>

text \<open>Splittings of a text.\<close>

lemma ex_split_Nil: "(\<exists>u v. [] = u @ v \<and> P u v) \<longleftrightarrow> P [] []"
  by auto

lemma ex_split_Cons: "(\<exists>u v. x # t = u @ v \<and> P u v) \<longleftrightarrow> P [] (x # t) \<or> (\<exists>u v. t = u @ v \<and> P (x # u) v)"
  by (auto simp: Cons_eq_append_conv)

lemmas ex_split = ex_split_Nil ex_split_Cons

lemma accepts_atom_of: "accepts (atom_of c) x \<longleftrightarrow> x = c \<or> c = CHR ''.''"
  by (simp add: atom_of_def)

lemma matchstar_iff:
  "matchstar c re str \<longleftrightarrow> (\<exists>u v. str = u @ v \<and> (\<forall>x\<in>set u. accepts (atom_of c) x) \<and> matchhere re v)"
proof (induction str)
  case Nil
  then show ?case by (subst matchstar.simps) (simp add: ex_split)
next
  case (Cons x str)
  show ?case using Cons by (subst matchstar.simps) (auto simp: accepts_atom_of ex_split)
qed

lemma matchhere_iff: "matchhere re str \<longleftrightarrow> matches_at re str"
proof (induction re arbitrary: str rule: pieces.induct)
  case 1
  then show ?case by (simp add: matchhere.simps matches_at_def)
next
  case (2 c)
  then show ?case
    by (cases str) (auto simp: matchhere.simps matches_at_def accepts_atom_of ex_split)
next
  case (3 c d re)
  show ?case
  proof (cases "d = CHR ''*''")
    case True
    then have "matchhere (c # d # re) str \<longleftrightarrow> matchstar c re str" by (simp add: matchhere.simps)
    also have "\<dots> \<longleftrightarrow> (\<exists>u v. str = u @ v \<and> (\<forall>x\<in>set u. accepts (atom_of c) x) \<and> matches_at re v)"
      using 3(1) [OF True] by (simp add: matchstar_iff)
    also have "\<dots> \<longleftrightarrow> (\<exists>u v w. str = u @ v @ w \<and> (\<forall>x\<in>set u. accepts (atom_of c) x) \<and> v \<in> lang (pieces re) \<and>
      (end_anchored re \<longrightarrow> w = []))"
      unfolding matches_at_def by blast
    also have "\<dots> \<longleftrightarrow> (\<exists>v w. str = v @ w \<and> v \<in> lang (Star (atom_of c) # pieces re) \<and> (end_anchored re \<longrightarrow> w = []))"
      unfolding lang.simps mem_Collect_eq append.assoc [symmetric] by blast
    also have "\<dots> \<longleftrightarrow> matches_at (c # d # re) str" using True by (simp add: matches_at_def)
    finally show ?thesis .
  next
    case False
    then show ?thesis
      using 3(2) [OF False] by (cases str) (auto simp: matchhere.simps matches_at_def accepts_atom_of ex_split)
  qed
qed

lemma match_from_iff: "match_from re str \<longleftrightarrow> (\<exists>u v. str = u @ v \<and> matchhere re v)"
  by (induction str) (auto simp: Cons_eq_append_conv)

text \<open>
  C25. \<open>match\<close> decides the language of the pattern: the text contains a substring in it,
  at the beginning of the text if the pattern starts with \<open>^\<close> and at its end if it ends in
  \<open>$\<close>.  A \<open>*\<close> after a character makes it any number of them, \<open>.\<close> is any character,
  and the anchors are ordinary characters elsewhere.
\<close>

theorem match_decides_language:
  "match re str \<longleftrightarrow>
     (let anchored = (\<exists>re'. re = CHR ''^'' # re'); body = (if anchored then tl re else re) in
      \<exists>u v w. str = u @ v @ w \<and> v \<in> lang (pieces body) \<and> (anchored \<longrightarrow> u = []) \<and> (end_anchored body \<longrightarrow> w = []))"
proof (cases "\<exists>re'. re = CHR ''^'' # re'")
  case True
  then have "match re str = matches_at (tl re) str" by (auto simp: match_def matchhere_iff)
  then show ?thesis using True unfolding matches_at_def Let_def by auto
next
  case False
  then have "match re str \<longleftrightarrow> (\<exists>u v. str = u @ v \<and> matches_at re v)"
    by (cases re) (auto simp: match_def match_from_iff matchhere_iff)
  then show ?thesis using False unfolding matches_at_def Let_def by auto
qed

theorem match_decides_language_witness: "''abb'' \<in> lang (pieces ''ab*$'')"
proof -
  have "match ''^ab*$'' ''abb''" by code_simp
  then show ?thesis using match_decides_language [of "''^ab*$''" "''abb''"] by auto
qed

subsection \<open>The loop over the file\<close>

text \<open>The complete lines of a text and what follows the last newline.\<close>

fun lines_of :: "string \<Rightarrow> string list \<times> string" where
  "lines_of [] = ([], [])"
| "lines_of (c # s) =
     (let (ls, r) = lines_of s in
      if c = CHR 0x0A then ([] # ls, r) else case ls of [] \<Rightarrow> ([], c # r) | l # ls' \<Rightarrow> ((c # l) # ls', r))"

definition selected :: "string \<Rightarrow> string list \<Rightarrow> string" where
  "selected pattern ls = concat (map (\<lambda>l. l @ [CHR 0x0A]) (filter (match pattern) ls))"

lemma cut_none: "fst (lines_of s) = [] \<Longrightarrow> snd (lines_of s) = s"
  by (induction s) (auto split: prod.splits list.splits if_splits)

lemma cut_line: "CHR 0x0A \<notin> set l \<Longrightarrow> lines_of (l @ CHR 0x0A # s) = (l # fst (lines_of s), snd (lines_of s))"
  by (induction l) (auto split: prod.splits)

lemma cut_no_line: "CHR 0x0A \<notin> set l \<Longrightarrow> lines_of l = ([], l)"
  by (induction l) auto

lemma cut_append:
  "lines_of (s @ t) = (fst (lines_of s) @ fst (lines_of (snd (lines_of s) @ t)), snd (lines_of (snd (lines_of s) @ t)))"
proof (induction s)
  case (Cons c s)
  show ?case
  proof (cases "fst (lines_of s)")
    case Nil
    then show ?thesis
      using cut_none [OF Nil] by (cases "c = CHR 0x0A") (simp_all add: case_prod_beta)
  next
    case (Cons l ls)
    then show ?thesis using Cons.IH by (simp add: case_prod_beta)
  qed
qed simp

lemma cut_rest: "CHR 0x0A \<notin> set (snd (lines_of s))" "set (snd (lines_of s)) \<subseteq> set s"
  by (induction s) (auto split: prod.splits list.splits if_splits)

text \<open>A text without newline is part of the first line, or of the rest, of every continuation.\<close>

lemma cut_first:
  assumes "CHR 0x0A \<notin> set l" "\<forall>x\<in>set (fst (lines_of (l @ t))). length x \<le> n" "length (snd (lines_of (l @ t))) \<le> n"
  shows "length l \<le> n"
proof -
  have "if fst (lines_of (l @ t)) = [] then length l \<le> length (snd (lines_of (l @ t))) else length l \<le> length (hd (fst (lines_of (l @ t))))"
    using assms(1) by (induction l) (auto split: prod.splits list.splits if_splits)
  then show ?thesis using assms(2,3) by (cases "fst (lines_of (l @ t))") auto
qed

lemma grep_lines_cut: "CHR 0x00 \<notin> set p \<Longrightarrow> grep_lines pattern p = (selected pattern (fst (lines_of p)), snd (lines_of p))"
proof (induction pattern p rule: grep_lines.induct)
  case (1 pattern p)
  let ?P = "\<lambda>c. c \<noteq> CHR 0x0A \<and> c \<noteq> CHR 0x00"
  define line where "line = takeWhile ?P p"
  define q where "q = drop (length line) p"
  have q: "q = dropWhile ?P p" by (simp add: q_def line_def dropWhile_eq_drop)
  have p: "p = line @ q" unfolding q line_def by (rule takeWhile_dropWhile_id [symmetric])
  have l: "CHR 0x0A \<notin> set line" unfolding line_def by (blast dest: set_takeWhileD)
  show ?case
  proof (cases q)
    case Nil
    then have "length p \<le> length line" using p by simp
    then have "grep_lines pattern p = ([], p)" by (subst grep_lines.simps) (simp add: Let_def flip: line_def)
    moreover have "lines_of p = ([], p)" using p l Nil cut_no_line by simp
    ultimately show ?thesis by (simp add: selected_def)
  next
    case (Cons c q')
    have "CHR 0x00 \<noteq> c" using 1(2) p Cons by auto
    then have c: "c = CHR 0x0A" using hd_dropWhile [of ?P p] Cons unfolding q by auto
    have "grep_lines pattern q' = (selected pattern (fst (lines_of q')), snd (lines_of q'))"
      using 1(1) [OF line_def q_def] Cons c 1(2) p by simp
    moreover have lt: "\<not> length p \<le> length line" using p Cons by simp
    have "grep_lines pattern p =
      (let (out, rest) = grep_lines pattern q' in ((if match pattern line then line @ [CHR 0x0A] else []) @ out, rest))"
      using Cons c lt by (subst grep_lines.simps) (simp add: Let_def flip: q_def line_def)
    ultimately show ?thesis using cut_line [OF l, of q'] p Cons c by (simp add: selected_def)
  qed
qed

lemma u_read_some:
  assumes "[] \<notin> set fd" "0 < n" "u_read n fd = (b, fd')"
  shows "concat fd = b @ concat fd'" "[] \<notin> set fd'" "b = [] \<longleftrightarrow> fd = []"
  using assms by (cases fd; auto split: if_splits)+

lemma grep_loop_selects:
  assumes "[] \<notin> set fd" "CHR 0x00 \<notin> set (buf @ concat fd)" "CHR 0x0A \<notin> set buf"
    "\<forall>l\<in>set (fst (lines_of (buf @ concat fd))). length l \<le> 1022" "length (snd (lines_of (buf @ concat fd))) \<le> 1022"
  shows "grep_loop pattern buf fd = selected pattern (fst (lines_of (buf @ concat fd)))"
  using assms
proof (induction pattern buf fd rule: grep_loop.induct)
  case (1 pattern buf fd)
  obtain b fd' where u: "u_read (1024 - length buf - 1) fd = (b, fd')" by fastforce
  have "length buf \<le> 1022" by (rule cut_first [OF 1(4,5,6)])
  then have n: "0 < 1024 - length buf - 1" by simp
  note U = u_read_some [OF 1(2) n u]
  show ?case
  proof (cases "b = []")
    case True
    then show ?thesis
      using U(3) u cut_no_line [OF 1(4)] by (subst grep_loop.simps) (simp add: selected_def)
  next
    case False
    let ?rest = "snd (lines_of (buf @ b))"
    have g: "grep_lines pattern (buf @ b) = (selected pattern (fst (lines_of (buf @ b))), ?rest)"
      using 1(3) U(1) by (intro grep_lines_cut) auto
    have c: "lines_of (buf @ concat fd) =
      (fst (lines_of (buf @ b)) @ fst (lines_of (?rest @ concat fd')), snd (lines_of (?rest @ concat fd')))"
      using cut_append [of "buf @ b" "concat fd'"] U(1) by simp
    have "grep_loop pattern ?rest fd' = selected pattern (fst (lines_of (?rest @ concat fd')))"
    proof (rule 1(1) [OF u [symmetric] refl False g [symmetric] refl U(2)])
      show "CHR 0x00 \<notin> set (?rest @ concat fd')" using 1(3) U(1) cut_rest(2) [of "buf @ b"] by auto
      show "CHR 0x0A \<notin> set ?rest" by (rule cut_rest)
      show "\<forall>l\<in>set (fst (lines_of (?rest @ concat fd'))). length l \<le> 1022" "length (snd (lines_of (?rest @ concat fd'))) \<le> 1022"
        using 1(5,6) unfolding c by simp_all
    qed
    then show ?thesis using u False g unfolding c by (subst grep_loop.simps) (simp add: selected_def)
  qed
qed



end
