(* ===== verification/Fcntl.thy ===== *)
theory Fcntl
  imports Main
begin

section \<open>Modes of open (kernel/fcntl.h)\<close>

text \<open>The constants that the shell passes to \<open>open\<close> and \<open>sys_open\<close> tests.\<close>

definition O_RDONLY :: nat where "O_RDONLY = 0"
definition O_WRONLY :: nat where "O_WRONLY = 0x001"
definition O_RDWR :: nat where "O_RDWR = 0x002"
definition O_CREATE :: nat where "O_CREATE = 0x200"
definition O_TRUNC :: nat where "O_TRUNC = 0x400"

end
