(* ===== verification/Sh.thy ===== *)
theory Sh
  imports Prelude Fcntl
begin

section \<open>The parser of the shell (user/sh.c)\<close>

text \<open>
  The recursive-descent parser of \<open>sh\<close>.  A pointer into the command line is the rest of
  the line from there on: \<open>s < es\<close> is \<open>s \<noteq> []\<close>, \<open>*s\<close> is the first character or the
  terminating NUL, \<open>s++\<close> is the tail, and the position in the buffer is the length of the
  buffer minus the length of the rest.  The parse tree keeps the pointers \<open>q\<close> and
  \<open>eq\<close> of the tokens, as the code does; \<open>nulterminate\<close> then writes NULs into the
  buffer at the ends of the tokens.

  The loops end by themselves; the mutual recursion \<open>parseline\<close>, \<open>parsepipe\<close>,
  \<open>parseexec\<close>, \<open>parseblock\<close> has fuel, with which \<open>parsecmd\<close> never runs out.
  \<open>panic\<close> of the shell prints its message and exits: the result \<open>Err\<close>.
\<close>

subsection \<open>The code\<close>

type_synonym ptr = string

datatype cmd =
    EXEC "(ptr \<times> ptr) list"          \<comment> \<open>\<open>argv\<close>, \<open>eargv\<close> up to the null pointer\<close>
  | REDIR cmd ptr ptr nat nat           \<comment> \<open>\<open>file\<close>, \<open>efile\<close>, \<open>mode\<close>, \<open>fd\<close>\<close>
  | PIPE cmd cmd
  | LIST cmd cmd
  | BACK cmd

datatype 'a parse = Ok 'a | Err string | NoFuel

fun andthen :: "'a parse \<Rightarrow> ('a \<Rightarrow> 'b parse) \<Rightarrow> 'b parse" where
  "andthen (Ok x) f = f x"
| "andthen (Err e) f = Err e"
| "andthen NoFuel f = NoFuel"

definition MAXARGS :: nat where "MAXARGS = 10"

definition NUL :: char where "NUL = CHR 0x00"

definition whitespace :: string where "whitespace = [CHR '' '', CHR 0x09, CHR 0x0D, CHR 0x0A, CHR 0x0B]"
definition symbols :: string where "symbols = ''<|>&;()''"

definition char_at :: "ptr \<Rightarrow> char" where
  "char_at s = (if s = [] then NUL else hd s)"

definition skip_ws :: "ptr \<Rightarrow> ptr" where
  "skip_ws s = dropWhile (\<lambda>c. c \<in> set whitespace) s"

definition word_char :: "char \<Rightarrow> bool" where
  "word_char c \<longleftrightarrow> c \<notin> set whitespace \<and> c \<notin> set symbols"

text \<open>The switch of \<open>gettoken\<close>: the token at \<open>q\<close> and where it ends.\<close>

definition scan :: "ptr \<Rightarrow> char \<times> ptr" where
  "scan q =
     (let c = char_at q in
      if c = NUL then (c, q)
      else if c \<in> set ''|();&<'' then (c, tl q)
      else if c = CHR ''>'' then
        (if char_at (tl q) = CHR ''>'' then (CHR ''+'', tl (tl q)) else (c, tl q))
      else (CHR ''a'', dropWhile word_char q))"

definition gettoken :: "ptr \<Rightarrow> char \<times> ptr \<times> ptr \<times> ptr" where
  "gettoken s = (let q = skip_ws s; (ret, eq) = scan q in (ret, q, eq, skip_ws eq))"

definition peek :: "string \<Rightarrow> ptr \<Rightarrow> bool \<times> ptr" where
  "peek toks s = (let s = skip_ws s in (char_at s \<noteq> NUL \<and> char_at s \<in> set toks, s))"

lemma char_at_simps [simp]: "char_at [] = NUL" "char_at (c # s) = c"
  by (simp_all add: char_at_def)

lemma skip_ws_length: "length (skip_ws s) \<le> length s"
  by (simp add: skip_ws_def length_dropWhile_le)

lemma skip_ws_hd: "skip_ws s = c # r \<Longrightarrow> c \<notin> set whitespace"
  using hd_dropWhile [of "\<lambda>c. c \<in> set whitespace" s] by (simp add: skip_ws_def)

lemma symbols_iff: "c \<in> set symbols \<longleftrightarrow> c \<in> set ''|();&<'' \<or> c = CHR ''>''"
  by (auto simp: symbols_def)

lemma scan_length:
  assumes "c \<notin> set whitespace" "c \<noteq> NUL" shows "length (snd (scan (c # r))) \<le> length r"
proof (cases "c \<in> set symbols")
  case True
  then show ?thesis using assms(2) unfolding symbols_iff by (auto simp: scan_def Let_def)
next
  case False
  then have "word_char c" using assms(1) by (simp add: word_char_def)
  then show ?thesis using False assms(2) length_dropWhile_le [of word_char r] unfolding symbols_iff
    by (simp add: scan_def Let_def)
qed

lemma gettoken_length:
  assumes "gettoken s = (tok, q, eq, s')" shows "length s' \<le> length s" "tok \<noteq> NUL \<Longrightarrow> length s' < length s"
proof -
  have e: "q = skip_ws s" "s' = skip_ws eq" "scan q = (tok, eq)"
    using assms by (auto simp: gettoken_def Let_def split: prod.splits)
  have "tok = NUL \<and> eq = q \<or> length eq < length q"
  proof (cases "char_at q = NUL")
    case True
    then show ?thesis using e(3) by (simp add: scan_def)
  next
    case False
    then obtain c r where "q = c # r" by (cases q) auto
    then show ?thesis using scan_length [of c r] skip_ws_hd [of s c r] e False by simp
  qed
  then show "length s' \<le> length s" "tok \<noteq> NUL \<Longrightarrow> length s' < length s"
    using skip_ws_length [of eq] skip_ws_length [of s] e by auto
qed

lemma peek_length: "peek toks s = (hit, s') \<Longrightarrow> length s' \<le> length s"
  using skip_ws_length [of s] by (auto simp: peek_def Let_def)

lemma scan_tok: "char_at q \<noteq> NUL \<Longrightarrow> fst (scan q) \<noteq> NUL"
  by (simp add: scan_def Let_def NUL_def)

lemma skip_ws_idem [simp]: "skip_ws (skip_ws s) = skip_ws s"
  by (cases "skip_ws s") (auto simp: skip_ws_hd skip_ws_def [of "_ # _"] skip_ws_def [of "[]"])

lemma peek_gettoken:
  assumes "peek toks s = (True, s1)" "gettoken s1 = (tok, q, eq, s2)" shows "length s2 < length s"
proof -
  have "char_at (skip_ws s1) \<noteq> NUL" using assms(1) by (auto simp: peek_def Let_def)
  then have "tok \<noteq> NUL" using scan_tok [of "skip_ws s1"] assms(2) by (auto simp: gettoken_def Let_def split: prod.splits)
  then show ?thesis using gettoken_length(2) [OF assms(2)] peek_length [OF assms(1)] by simp
qed

lemma redir_shorter:
  assumes "(hit, s1) = peek toks s" "(tok, a, b, s2) = gettoken s1" "(CHR ''a'', q, eq, s3) = gettoken s2"
  shows "length s3 < length s"
  using peek_length [OF assms(1) [symmetric]] gettoken_length(1) [OF assms(2) [symmetric]]
    gettoken_length(2) [OF assms(3) [symmetric]] by (simp add: NUL_def)

function parseredirs :: "cmd \<Rightarrow> ptr \<Rightarrow> (cmd \<times> ptr) parse" where
  "parseredirs cmd s =
     (case peek ''<>'' s of (hit, s) \<Rightarrow>
      if hit then
        (case gettoken s of (tok, _, _, s) \<Rightarrow> case gettoken s of (tok2, q, eq, s) \<Rightarrow>
         if tok2 \<noteq> CHR ''a'' then Err ''missing file for redirection''
         else parseredirs
           (if tok = CHR ''<'' then REDIR cmd q eq O_RDONLY 0
            else if tok = CHR ''>'' then REDIR cmd q eq (O_WRONLY + O_CREATE + O_TRUNC) 1
            else if tok = CHR ''+'' then REDIR cmd q eq (O_WRONLY + O_CREATE) 1
            else cmd) s)
      else Ok (cmd, s))"
  by pat_completeness auto

termination
  by (relation "measure (\<lambda>(cmd, s). length s)") (auto intro: redir_shorter)

text \<open>
  The exec node is at the end of the chain of redirections built around it; the loop of
  \<open>parseexec\<close> stores the next argument in it.
\<close>

fun add_arg :: "ptr \<times> ptr \<Rightarrow> cmd \<Rightarrow> cmd" where
  "add_arg a (EXEC argv) = EXEC (argv @ [a])"
| "add_arg a (REDIR c q eq m fd) = REDIR (add_arg a c) q eq m fd"
| "add_arg a c = c"

function parseargs :: "nat \<Rightarrow> cmd \<Rightarrow> ptr \<Rightarrow> (cmd \<times> ptr) parse" where
  "parseargs argc ret s =
     (case peek ''|)&;'' s of (hit, s) \<Rightarrow>
      if hit then Ok (ret, s)
      else case gettoken s of (tok, q, eq, s) \<Rightarrow>
        if tok = NUL then Ok (ret, s)
        else if tok \<noteq> CHR ''a'' then Err ''syntax''
        else if MAXARGS \<le> argc + 1 then Err ''too many args''
        else andthen (parseredirs (add_arg (q, eq) ret) s) (\<lambda>(ret, s). parseargs (argc + 1) ret s))"
  by pat_completeness auto

termination
  by (relation "measure (\<lambda>(argc, ret, s). MAXARGS - argc)") auto

function parseamps :: "cmd \<Rightarrow> ptr \<Rightarrow> cmd \<times> ptr" where
  "parseamps cmd s =
     (case peek ''&'' s of (hit, s) \<Rightarrow>
      if hit then (case gettoken s of (_, _, _, s) \<Rightarrow> parseamps (BACK cmd) s) else (cmd, s))"
  by pat_completeness auto

termination
  by (relation "measure (\<lambda>(cmd, s). length s)") (auto dest: sym intro!: peek_gettoken)

fun parseline :: "nat \<Rightarrow> ptr \<Rightarrow> (cmd \<times> ptr) parse"
  and parsepipe :: "nat \<Rightarrow> ptr \<Rightarrow> (cmd \<times> ptr) parse"
  and parseblock :: "nat \<Rightarrow> ptr \<Rightarrow> (cmd \<times> ptr) parse"
  and parseexec :: "nat \<Rightarrow> ptr \<Rightarrow> (cmd \<times> ptr) parse" where
  "parseline 0 s = NoFuel"
| "parseline (Suc n) s =
     andthen (parsepipe n s) (\<lambda>(cmd, s).
     case parseamps cmd s of (cmd, s) \<Rightarrow>
     case peek '';'' s of (hit, s) \<Rightarrow>
     if hit then (case gettoken s of (_, _, _, s) \<Rightarrow>
       andthen (parseline n s) (\<lambda>(right, s). Ok (LIST cmd right, s)))
     else Ok (cmd, s))"
| "parsepipe 0 s = NoFuel"
| "parsepipe (Suc n) s =
     andthen (parseexec n s) (\<lambda>(cmd, s).
     case peek ''|'' s of (hit, s) \<Rightarrow>
     if hit then (case gettoken s of (_, _, _, s) \<Rightarrow>
       andthen (parsepipe n s) (\<lambda>(right, s). Ok (PIPE cmd right, s)))
     else Ok (cmd, s))"
| "parseblock 0 s = NoFuel"
| "parseblock (Suc n) s =
     (case peek ''('' s of (hit, s) \<Rightarrow>
      if \<not> hit then Err ''parseblock''
      else case gettoken s of (_, _, _, s) \<Rightarrow>
      andthen (parseline n s) (\<lambda>(cmd, s).
      case peek '')'' s of (hit, s) \<Rightarrow>
      if \<not> hit then Err ''syntax - missing )''
      else case gettoken s of (_, _, _, s) \<Rightarrow> parseredirs cmd s))"
| "parseexec 0 s = NoFuel"
| "parseexec (Suc n) s =
     (case peek ''('' s of (hit, s) \<Rightarrow>
      if hit then parseblock n s
      else andthen (parseredirs (EXEC []) s) (\<lambda>(ret, s). parseargs 0 ret s))"

text \<open>\<open>*p = 0\<close> for a pointer into the command line; the NUL at its end is not part of it.\<close>

definition nul_at :: "ptr \<Rightarrow> string \<Rightarrow> string" where
  "nul_at p buf = buf[length buf - length p := NUL]"

fun nulterminate :: "cmd \<Rightarrow> string \<Rightarrow> string" where
  "nulterminate (EXEC argv) buf = fold (\<lambda>(q, eq). nul_at eq) argv buf"
| "nulterminate (REDIR c q eq m fd) buf = nul_at eq (nulterminate c buf)"
| "nulterminate (PIPE l r) buf = nulterminate r (nulterminate l buf)"
| "nulterminate (LIST l r) buf = nulterminate r (nulterminate l buf)"
| "nulterminate (BACK c) buf = nulterminate c buf"

text \<open>The result is the tree and the buffer, into which the tree points.\<close>

definition parsecmd :: "string \<Rightarrow> (cmd \<times> string) parse" where
  "parsecmd s =
     andthen (parseline (4 * length s + 4) s) (\<lambda>(cmd, r).
     case peek [] r of (_, r) \<Rightarrow>
     if r \<noteq> [] then Err ''syntax'' else Ok (cmd, nulterminate cmd s))"

declare parseredirs.simps [simp del] parseargs.simps [simp del] parseamps.simps [simp del]

subsection \<open>The parser always returns\<close>

text \<open>The result of a function that reads on from \<open>s\<close>.\<close>

definition reads_on :: "(cmd \<times> ptr) parse \<Rightarrow> ptr \<Rightarrow> bool" where
  "reads_on r s \<longleftrightarrow> r \<noteq> NoFuel \<and> (\<forall>c s'. r = Ok (c, s') \<longrightarrow> length s' \<le> length s)"

lemma reads_on_simps [simp]: "reads_on (Ok (c, s')) s \<longleftrightarrow> length s' \<le> length s" "reads_on (Err e) s" "\<not> reads_on NoFuel s"
  by (simp_all add: reads_on_def)

lemma reads_on_trans: "reads_on r s \<Longrightarrow> length s \<le> length s' \<Longrightarrow> reads_on r s'"
  by (auto simp: reads_on_def)

lemma reads_on_andthen:
  assumes "reads_on m s" "\<And>c s'. m = Ok (c, s') \<Longrightarrow> length s' \<le> length s \<Longrightarrow> reads_on (f (c, s')) s"
  shows "reads_on (andthen m f) s"
  using assms by (cases m) (auto simp: reads_on_def)

lemma parseredirs_reads: "reads_on (parseredirs c s) s"
proof (induction "length s" arbitrary: c s rule: less_induct)
  case less
  obtain hit s1 where p: "peek ''<>'' s = (hit, s1)" by fastforce
  obtain tok a b s2 where g: "gettoken s1 = (tok, a, b, s2)" by (metis prod_cases4)
  obtain tok2 q eq s3 where h: "gettoken s2 = (tok2, q, eq, s3)" by (metis prod_cases4)
  have lt: "length s3 < length s" if "tok2 = CHR ''a''"
    using redir_shorter [OF p [symmetric] g [symmetric]] h that by simp
  have "reads_on (parseredirs c' s3) s" if "tok2 = CHR ''a''" for c'
    using reads_on_trans [OF less [OF lt [OF that]]] lt [OF that] by simp
  then show ?case using peek_length [OF p] by (subst parseredirs.simps) (simp add: p g h)
qed

lemma parseargs_reads: "reads_on (parseargs n c s) s"
proof (induction "MAXARGS - n" arbitrary: n c s rule: less_induct)
  case less
  obtain hit s1 where p: "peek ''|)&;'' s = (hit, s1)" by fastforce
  obtain tok q eq s2 where g: "gettoken s1 = (tok, q, eq, s2)" by (metis prod_cases4)
  have le: "length s1 \<le> length s" "length s2 \<le> length s"
    using peek_length [OF p] gettoken_length(1) [OF g] by simp_all
  have "reads_on (andthen (parseredirs c' s2) (\<lambda>(ret, s). parseargs (n + 1) ret s)) s" if "\<not> MAXARGS \<le> n + 1" for c'
  proof (rule reads_on_andthen [OF reads_on_trans [OF parseredirs_reads le(2)]])
    fix c'' and s' :: ptr assume "length s' \<le> length s"
    then show "reads_on (case (c'', s') of (ret, s) \<Rightarrow> parseargs (n + 1) ret s) s"
      using reads_on_trans [OF less] that by auto
  qed
  then show ?case using le by (subst parseargs.simps) (simp add: p g)
qed

lemma parseamps_length: "parseamps c s = (c', s') \<Longrightarrow> length s' \<le> length s"
proof (induction "length s" arbitrary: c s rule: less_induct)
  case less
  obtain hit s1 where p: "peek ''&'' s = (hit, s1)" by fastforce
  obtain tok q eq s2 where g: "gettoken s1 = (tok, q, eq, s2)" by (metis prod_cases4)
  show ?case
  proof (cases hit)
    case True
    then have "length s2 < length s" using peek_gettoken p g by simp
    then show ?thesis using less(1) [of s2 "BACK c"] less(2) True p g by (subst (asm) parseamps.simps) simp
  next
    case False
    then show ?thesis using less(2) p peek_length [OF p] by (subst (asm) parseamps.simps) simp
  qed
qed

lemma tail_reads:
  assumes "\<And>s'. length s' < length s \<Longrightarrow> reads_on (f s') s'"
  shows "reads_on (case peek toks s of (hit, s) \<Rightarrow>
    if hit then (case gettoken s of (_, _, _, s) \<Rightarrow> andthen (f s) (\<lambda>(right, s). Ok (g right, s))) else Ok (c, s)) s"
proof -
  obtain hit s1 where p: "peek toks s = (hit, s1)" by fastforce
  obtain tok q eq s2 where g: "gettoken s1 = (tok, q, eq, s2)" by (metis prod_cases4)
  have "reads_on (andthen (f s2) (\<lambda>(right, s). Ok (g right, s))) s" if hit
  proof (rule reads_on_andthen)
    have lt: "length s2 < length s" using peek_gettoken p g that by simp
    then show "reads_on (f s2) s" using reads_on_trans [OF assms [OF lt]] by simp
  qed simp
  then show ?thesis using peek_length [OF p] by (simp add: p g)
qed

text \<open>How much fuel is enough: four calls for every character.\<close>

lemma parse_reads:
  "4 * length s + 4 \<le> n \<Longrightarrow> reads_on (parseline n s) s"
  "4 * length s + 3 \<le> n \<Longrightarrow> reads_on (parsepipe n s) s"
  "4 * length s + 1 \<le> n \<Longrightarrow> reads_on (parseblock n s) s"
  "4 * length s + 2 \<le> n \<Longrightarrow> reads_on (parseexec n s) s"
proof (induction n arbitrary: s)
  case (Suc n)
  {
    case fuel: 1
    show ?case unfolding parseline.simps
    proof (rule reads_on_andthen, goal_cases)
      case 1
      then show ?case using Suc(2) fuel by simp
    next
      case (2 c s1)
      obtain c' s2 where a: "parseamps c s1 = (c', s2)" by fastforce
      have le: "length s2 \<le> length s" using parseamps_length [OF a] 2(2) by simp
      have "reads_on (parseline n s') s'" if "length s' < length s2" for s' using Suc(1) le that fuel by simp
      then show ?case using reads_on_trans [OF tail_reads le] by (simp add: a)
    qed
  next
    case fuel: 2
    show ?case unfolding parsepipe.simps
    proof (rule reads_on_andthen, goal_cases)
      case 1
      then show ?case using Suc(4) fuel by simp
    next
      case (2 c s1)
      have "reads_on (parsepipe n s') s'" if "length s' < length s1" for s' using Suc(2) 2(2) that fuel by simp
      then show ?case using reads_on_trans [OF tail_reads 2(2)] by simp
    qed
  next
    case fuel: 3
    obtain hit s1 where p: "peek ''('' s = (hit, s1)" by fastforce
    obtain tok q eq s2 where g: "gettoken s1 = (tok, q, eq, s2)" by (metis prod_cases4)
    show ?case
    proof (cases hit)
      case True
      then have lt: "length s2 < length s" using peek_gettoken p g by simp
      have "reads_on (andthen (parseline n s2) (\<lambda>(cmd, s). case peek '')'' s of (hit, s) \<Rightarrow>
        if \<not> hit then Err ''syntax - missing )'' else case gettoken s of (_, _, _, s) \<Rightarrow> parseredirs cmd s)) s"
      proof (rule reads_on_andthen, goal_cases)
        case 1
        then show ?case using reads_on_trans [OF Suc(1)] lt fuel by simp
      next
        case (2 c s3)
        obtain hit' s4 where p': "peek '')'' s3 = (hit', s4)" by fastforce
        obtain tok' q' eq' s5 where g': "gettoken s4 = (tok', q', eq', s5)" by (metis prod_cases4)
        have "length s5 \<le> length s" using peek_length [OF p'] gettoken_length(1) [OF g'] 2(2) by simp
        then show ?case using reads_on_trans [OF parseredirs_reads] by (simp add: p' g')
      qed
      then show ?thesis using True by (simp add: p g)
    qed (simp add: p)
  next
    case fuel: 4
    obtain hit s1 where p: "peek ''('' s = (hit, s1)" by fastforce
    have le: "length s1 \<le> length s" by (rule peek_length [OF p])
    have "reads_on (andthen (parseredirs (EXEC []) s1) (\<lambda>(ret, s). parseargs 0 ret s)) s"
      using reads_on_trans [OF parseredirs_reads le]
      by (rule reads_on_andthen) (auto intro: reads_on_trans [OF parseargs_reads])
    moreover have "reads_on (parseblock n s1) s" if hit using reads_on_trans [OF Suc(3) le] le fuel by simp
    ultimately show ?case by (simp add: p)
  }
qed simp_all

text \<open>More fuel does not change a result.\<close>

lemma andthen_more:
  assumes "andthen m f \<noteq> NoFuel" "m \<noteq> NoFuel \<Longrightarrow> m' = m" "\<And>x. f x \<noteq> NoFuel \<Longrightarrow> f' x = f x"
  shows "andthen m' f' = andthen m f"
  using assms by (cases m) auto

text \<open>One round of the mutual recursion, with the recursive calls as parameters.\<close>

definition line_step where
  "line_step P L s = andthen (P s) (\<lambda>(cmd, s). case parseamps cmd s of (cmd, s) \<Rightarrow>
     case peek '';'' s of (hit, s) \<Rightarrow>
     if hit then (case gettoken s of (_, _, _, s) \<Rightarrow> andthen (L s) (\<lambda>(right, s). Ok (LIST cmd right, s))) else Ok (cmd, s))"

definition pipe_step where
  "pipe_step E P s = andthen (E s) (\<lambda>(cmd, s). case peek ''|'' s of (hit, s) \<Rightarrow>
     if hit then (case gettoken s of (_, _, _, s) \<Rightarrow> andthen (P s) (\<lambda>(right, s). Ok (PIPE cmd right, s))) else Ok (cmd, s))"

definition block_step where
  "block_step L s = (case peek ''('' s of (hit, s) \<Rightarrow>
     if \<not> hit then Err ''parseblock''
     else case gettoken s of (_, _, _, s) \<Rightarrow>
     andthen (L s) (\<lambda>(cmd, s). case peek '')'' s of (hit, s) \<Rightarrow>
       if \<not> hit then Err ''syntax - missing )''
       else case gettoken s of (_, _, _, s) \<Rightarrow> parseredirs cmd s))"

lemma parse_steps:
  "parseline (Suc n) s = line_step (parsepipe n) (parseline n) s"
  "parsepipe (Suc n) s = pipe_step (parseexec n) (parsepipe n) s"
  "parseblock (Suc n) s = block_step (parseline n) s"
  by (simp_all add: line_step_def pipe_step_def block_step_def)

lemma line_step_more:
  assumes "line_step P L s \<noteq> NoFuel" "\<And>s. P s \<noteq> NoFuel \<Longrightarrow> P' s = P s" "\<And>s. L s \<noteq> NoFuel \<Longrightarrow> L' s = L s"
  shows "line_step P' L' s = line_step P L s"
  using assms(1) unfolding line_step_def
proof (rule andthen_more)
  show "P s \<noteq> NoFuel \<Longrightarrow> P' s = P s" by (rule assms(2))
qed (auto split: prod.split_asm prod.split if_split_asm intro!: andthen_more assms(3))

lemma pipe_step_more:
  assumes "pipe_step P L s \<noteq> NoFuel" "\<And>s. P s \<noteq> NoFuel \<Longrightarrow> P' s = P s" "\<And>s. L s \<noteq> NoFuel \<Longrightarrow> L' s = L s"
  shows "pipe_step P' L' s = pipe_step P L s"
  using assms(1) unfolding pipe_step_def
proof (rule andthen_more)
  show "P s \<noteq> NoFuel \<Longrightarrow> P' s = P s" by (rule assms(2))
qed (auto split: prod.split_asm prod.split if_split_asm intro!: andthen_more assms(3))

lemma block_step_more:
  assumes "block_step L s \<noteq> NoFuel" "\<And>s. L s \<noteq> NoFuel \<Longrightarrow> L' s = L s"
  shows "block_step L' s = block_step L s"
proof -
  obtain hit s1 where p: "peek ''('' s = (hit, s1)" by fastforce
  obtain tok q eq s2 where g: "gettoken s1 = (tok, q, eq, s2)" by (metis prod_cases4)
  show ?thesis
  proof (cases hit)
    case True
    show ?thesis using assms(1) unfolding block_step_def p g
      by (simp add: True g, elim andthen_more) (simp_all add: assms(2))
  qed (simp add: block_step_def p)
qed

lemma more_fuel:
  "parseline n s \<noteq> NoFuel \<Longrightarrow> parseline (Suc n) s = parseline n s"
  "parsepipe n s \<noteq> NoFuel \<Longrightarrow> parsepipe (Suc n) s = parsepipe n s"
  "parseblock n s \<noteq> NoFuel \<Longrightarrow> parseblock (Suc n) s = parseblock n s"
  "parseexec n s \<noteq> NoFuel \<Longrightarrow> parseexec (Suc n) s = parseexec n s"
proof (induction n arbitrary: s)
  case (Suc n)
  {
    case 1
    then have "line_step (parsepipe n) (parseline n) s \<noteq> NoFuel" using parse_steps(1) [of n s] by metis
    from line_step_more [OF this Suc(2,1)] show ?case using parse_steps(1) by metis
  next
    case 2
    then have "pipe_step (parseexec n) (parsepipe n) s \<noteq> NoFuel" using parse_steps(2) [of n s] by metis
    from pipe_step_more [OF this Suc(4,2)] show ?case using parse_steps(2) by metis
  next
    case 3
    then have "block_step (parseline n) s \<noteq> NoFuel" using parse_steps(3) [of n s] by metis
    from block_step_more [OF this Suc(1)] show ?case using parse_steps(3) by metis
  next
    case 4
    obtain hit s1 where "peek ''('' s = (hit, s1)" by fastforce
    then show ?case using 4 Suc(3) [of s1] unfolding parseexec.simps by (cases hit) simp_all
  }
qed simp_all

lemma parseline_fuel:
  assumes "4 * length s + 4 \<le> n" shows "parseline n s = parseline (4 * length s + 4) s"
  using assms
proof (induction n rule: dec_induct)
  case (step n)
  then have "parseline n s \<noteq> NoFuel" using parse_reads(1) [of s n] by auto
  then show ?case using more_fuel(1) [of n s] step by simp
qed simp

text \<open>
  C29. The parser returns on every command line, with a tree or an error message: the
  recursion is at most four calls deep for every character of the line, and allowing more
  gives the same result.
\<close>

theorem parser_returns:
  "parsecmd s \<noteq> NoFuel \<and> (\<exists>r. r \<noteq> NoFuel \<and> (\<forall>n. parseline (4 * length s + 4 + n) s = r))"
proof -
  have r: "reads_on (parseline (4 * length s + 4) s) s" by (rule parse_reads) simp
  then have "parseline (4 * length s + 4) s \<noteq> NoFuel" by auto
  moreover have "parsecmd s \<noteq> NoFuel"
    unfolding parsecmd_def using r by (cases "parseline (4 * length s + 4) s") (auto split: prod.splits)
  ultimately show ?thesis using parseline_fuel [of s] by (metis le_add1)
qed

end
