(* ===== verification/Sh_Correct.thy ===== *)
theory Sh_Correct
  imports Sh "HOL-Library.Sublist"
begin

section \<open>Correctness of the parser of the shell\<close>

text \<open>
  For every command line, the C strings to which the parse tree points after
  \<open>nulterminate\<close> are the words of the line.
\<close>

subsection \<open>What the tree points to\<close>

text \<open>Commands with their words as values.\<close>

datatype command =
    Exec "string list"
  | Redir command string nat nat
  | Pipe command command
  | Seq command command
  | Bg command

text \<open>The C string at a pointer into the buffer.\<close>

definition cstr :: "string \<Rightarrow> ptr \<Rightarrow> string" where
  "cstr buf p = takeWhile (\<lambda>c. c \<noteq> NUL) (drop (length buf - length p) buf)"

fun strings_of :: "string \<Rightarrow> cmd \<Rightarrow> command" where
  "strings_of buf (EXEC argv) = Exec (map (\<lambda>(q, eq). cstr buf q) argv)"
| "strings_of buf (REDIR c q eq m fd) = Redir (strings_of buf c) (cstr buf q) m fd"
| "strings_of buf (PIPE l r) = Pipe (strings_of buf l) (strings_of buf r)"
| "strings_of buf (LIST l r) = Seq (strings_of buf l) (strings_of buf r)"
| "strings_of buf (BACK c) = Bg (strings_of buf c)"

text \<open>The part of the line between the two pointers of a token.\<close>

definition slice :: "ptr \<times> ptr \<Rightarrow> string" where
  "slice a = take (length (fst a) - length (snd a)) (fst a)"

fun texts :: "cmd \<Rightarrow> command" where
  "texts (EXEC argv) = Exec (map slice argv)"
| "texts (REDIR c q eq m fd) = Redir (texts c) (slice (q, eq)) m fd"
| "texts (PIPE l r) = Pipe (texts l) (texts r)"
| "texts (LIST l r) = Seq (texts l) (texts r)"
| "texts (BACK c) = Bg (texts c)"

fun tokens :: "cmd \<Rightarrow> (ptr \<times> ptr) set" where
  "tokens (EXEC argv) = set argv"
| "tokens (REDIR c q eq m fd) = insert (q, eq) (tokens c)"
| "tokens (PIPE l r) = tokens l \<union> tokens r"
| "tokens (LIST l r) = tokens l \<union> tokens r"
| "tokens (BACK c) = tokens c"

definition word_ok :: "string \<Rightarrow> bool" where
  "word_ok w \<longleftrightarrow> w \<noteq> [] \<and> (\<forall>c\<in>set w. word_char c \<and> c \<noteq> NUL)"

text \<open>Commands that a line can contain: fewer than \<open>MAXARGS\<close> arguments, the three redirections.\<close>

fun command_ok :: "command \<Rightarrow> bool" where
  "command_ok (Exec ws) \<longleftrightarrow> length ws < MAXARGS \<and> (\<forall>w\<in>set ws. word_ok w)"
| "command_ok (Redir c f m fd) \<longleftrightarrow> command_ok c \<and> word_ok f \<and>
     (m, fd) \<in> {(O_RDONLY, 0), (O_WRONLY + O_CREATE + O_TRUNC, 1), (O_WRONLY + O_CREATE, 1)}"
| "command_ok (Pipe l r) \<longleftrightarrow> command_ok l \<and> command_ok r"
| "command_ok (Seq l r) \<longleftrightarrow> command_ok l \<and> command_ok r"
| "command_ok (Bg c) \<longleftrightarrow> command_ok c"

subsection \<open>The tokens of the tree are the words of the line\<close>

text \<open>A token: a word of the line with nothing that continues it.\<close>

definition token_ok :: "string \<Rightarrow> ptr \<times> ptr \<Rightarrow> bool" where
  "token_ok buf a \<longleftrightarrow> suffix (fst a) buf \<and> (\<exists>w. fst a = w @ snd a \<and> word_ok w) \<and> \<not> (snd a \<noteq> [] \<and> word_char (hd (snd a)))"

definition reads :: "string \<Rightarrow> (cmd \<times> ptr) parse \<Rightarrow> bool" where
  "reads buf r \<longleftrightarrow> (\<forall>c s. r = Ok (c, s) \<longrightarrow> suffix s buf \<and> tokens c \<subseteq> Collect (token_ok buf) \<and> command_ok (texts c))"

lemma token_slice: "token_ok buf (q, eq) \<Longrightarrow> word_ok (slice (q, eq)) \<and> q = slice (q, eq) @ eq"
  by (auto simp: token_ok_def slice_def)

lemma suffix_skip_ws: "suffix s buf \<Longrightarrow> suffix (skip_ws s) buf"
  by (metis skip_ws_def suffix_dropWhile suffix_order.trans)

lemma suffix_peek: "peek toks s = (hit, s') \<Longrightarrow> suffix s buf \<Longrightarrow> suffix s' buf"
  by (auto simp: peek_def Let_def suffix_skip_ws)

lemma suffix_tl: "suffix s buf \<Longrightarrow> suffix (tl s) buf"
  by (metis suffix_order.trans suffix_tl)

lemma suffix_scan: "suffix q buf \<Longrightarrow> suffix (snd (scan q)) buf"
  by (auto simp: scan_def Let_def suffix_tl intro: suffix_order.trans [OF suffix_dropWhile])

lemma scan_word:
  assumes "c \<notin> set whitespace" "fst (scan (c # r)) = CHR ''a''"
  shows "word_char c" "c \<noteq> NUL" "snd (scan (c # r)) = dropWhile word_char (c # r)"
proof -
  have "c \<notin> set ''|();&<''" "c \<noteq> CHR ''>''" "c \<noteq> NUL"
    using assms(2) by (auto simp: scan_def Let_def NUL_def split: if_splits)
  moreover from this show "word_char c" using assms(1) unfolding word_char_def symbols_iff by simp
  ultimately show "c \<noteq> NUL" "snd (scan (c # r)) = dropWhile word_char (c # r)" by (simp_all add: scan_def Let_def)
qed

lemma gettoken_reads:
  assumes "gettoken s = (tok, q, eq, s')" "suffix s buf" "NUL \<notin> set buf"
  shows "suffix s' buf" "tok = CHR ''a'' \<Longrightarrow> token_ok buf (q, eq)"
proof -
  have e: "q = skip_ws s" "s' = skip_ws eq" "scan q = (tok, eq)"
    using assms(1) by (auto simp: gettoken_def Let_def split: prod.splits)
  have q: "suffix q buf" using e(1) suffix_skip_ws [OF assms(2)] by simp
  then show "suffix s' buf" using suffix_scan [OF q] e suffix_skip_ws by simp
  assume a: "tok = CHR ''a''"
  then obtain c r where c: "q = c # r" using e(3) by (cases q) (auto simp: scan_def NUL_def)
  have n: "NUL \<notin> set q" using q assms(3) by (meson set_mono_suffix subset_iff)
  have s: "word_char c" "eq = dropWhile word_char q"
    using scan_word [of c r] skip_ws_hd [of s c r] c e a by simp_all
  have "q = takeWhile word_char q @ eq" using s(2) by simp
  moreover have "word_ok (takeWhile word_char q)"
    using s(1) c n by (auto simp: word_ok_def dest: set_takeWhileD)
  moreover have "\<not> (eq \<noteq> [] \<and> word_char (hd eq))" using s(2) hd_dropWhile [of word_char q] by auto
  ultimately show "token_ok buf (q, eq)" using q unfolding token_ok_def fst_conv snd_conv by blast
qed

lemma reads_andthen:
  assumes "reads buf m" "\<And>c s. suffix s buf \<Longrightarrow> tokens c \<subseteq> Collect (token_ok buf) \<Longrightarrow> command_ok (texts c) \<Longrightarrow> reads buf (f (c, s))"
  shows "reads buf (andthen m f)"
proof (cases m)
  case (Ok x)
  obtain c s where x: "x = (c, s)" by fastforce
  have "reads buf (f (c, s))" using assms(1) Ok x by (intro assms(2)) (simp_all add: reads_def)
  then show ?thesis using Ok x by simp
qed (simp_all add: reads_def)

lemma reads_simps [simp]:
  "reads buf (Ok (c, s)) \<longleftrightarrow> suffix s buf \<and> tokens c \<subseteq> Collect (token_ok buf) \<and> command_ok (texts c)" "reads buf (Err e)" "reads buf NoFuel"
  by (simp_all add: reads_def)

text \<open>The exec node under the redirections and its number of arguments.\<close>

fun nargs :: "cmd \<Rightarrow> nat option" where
  "nargs (EXEC argv) = Some (length argv)"
| "nargs (REDIR c q eq m fd) = nargs c"
| "nargs c = None"

lemma parseredirs_nargs: "parseredirs c s = Ok (c', s') \<Longrightarrow> nargs c' = nargs c"
proof (induction "length s" arbitrary: c s rule: less_induct)
  case less
  obtain hit s1 where p: "peek ''<>'' s = (hit, s1)" by fastforce
  obtain tok a b s2 where g: "gettoken s1 = (tok, a, b, s2)" by (metis prod_cases4)
  obtain tok2 q eq s3 where h: "gettoken s2 = (tok2, q, eq, s3)" by (metis prod_cases4)
  have lt: "length s3 < length s" if "tok2 = CHR ''a''"
    using redir_shorter [OF p [symmetric] g [symmetric]] h that by simp
  have IH: "nargs c' = nargs d" if "tok2 = CHR ''a''" "parseredirs d s3 = Ok (c', s')" for d
    using less(1) [OF lt [OF that(1)] that(2)] .
  note less(2) [unfolded parseredirs.simps [of c s]]
  then show ?case using IH by (auto simp: p g h split: if_splits)
qed

lemma parseredirs_ok:
  assumes "suffix s buf" "NUL \<notin> set buf" "tokens c \<subseteq> Collect (token_ok buf)" "command_ok (texts c)"
  shows "reads buf (parseredirs c s)"
  using assms
proof (induction "length s" arbitrary: c s rule: less_induct)
  case less
  obtain hit s1 where p: "peek ''<>'' s = (hit, s1)" by fastforce
  obtain tok a b s2 where g: "gettoken s1 = (tok, a, b, s2)" by (metis prod_cases4)
  obtain tok2 q eq s3 where h: "gettoken s2 = (tok2, q, eq, s3)" by (metis prod_cases4)
  have lt: "length s3 < length s" if "tok2 = CHR ''a''"
    using redir_shorter [OF p [symmetric] g [symmetric]] h that by simp
  have s1: "suffix s1 buf" by (rule suffix_peek [OF p less(2)])
  have s2: "suffix s2 buf" by (rule gettoken_reads(1) [OF g s1 less(3)])
  note s3 = gettoken_reads [OF h s2 less(3)]
  have "reads buf (parseredirs (if tok = CHR ''<'' then REDIR c q eq O_RDONLY 0
            else if tok = CHR ''>'' then REDIR c q eq (O_WRONLY + O_CREATE + O_TRUNC) 1
            else if tok = CHR ''+'' then REDIR c q eq (O_WRONLY + O_CREATE) 1 else c) s3)" if t: "tok2 = CHR ''a''"
    by (rule less(1) [OF lt [OF t] s3(1) less(3)])
      (use s3(2) [OF t] less(4,5) token_slice [OF s3(2) [OF t], THEN conjunct1] in simp_all)
  then show ?case using s1 less(4,5) by (subst parseredirs.simps) (simp add: p g h)
qed

lemma add_arg_ok:
  assumes "nargs c = Some n" "Suc n < MAXARGS" "token_ok buf a" "tokens c \<subseteq> Collect (token_ok buf)" "command_ok (texts c)"
  shows "nargs (add_arg a c) = Some (Suc n)" "tokens (add_arg a c) \<subseteq> Collect (token_ok buf)" "command_ok (texts (add_arg a c))"
proof -
  have "word_ok (slice a)" using token_slice [of buf "fst a" "snd a"] assms(3) by simp
  then show "command_ok (texts (add_arg a c))" using assms(1,2,5) by (induction c) auto
  show "nargs (add_arg a c) = Some (Suc n)" using assms(1) by (induction c) simp_all
  have "tokens (add_arg a c) \<subseteq> insert a (tokens c)" by (induction c) auto
  then show "tokens (add_arg a c) \<subseteq> Collect (token_ok buf)" using assms(3,4) by blast
qed

lemma parseargs_ok:
  assumes "suffix s buf" "NUL \<notin> set buf" "tokens c \<subseteq> Collect (token_ok buf)" "command_ok (texts c)" "nargs c = Some n"
  shows "reads buf (parseargs n c s)"
  using assms
proof (induction "MAXARGS - n" arbitrary: n c s rule: less_induct)
  case less
  obtain hit s1 where p: "peek ''|)&;'' s = (hit, s1)" by fastforce
  obtain tok q eq s2 where g: "gettoken s1 = (tok, q, eq, s2)" by (metis prod_cases4)
  have s1: "suffix s1 buf" by (rule suffix_peek [OF p less(2)])
  note s2 = gettoken_reads [OF g s1 less(3)]
  have "reads buf (andthen (parseredirs (add_arg (q, eq) c) s2) (\<lambda>(ret, s). parseargs (n + 1) ret s))"
    if t: "tok = CHR ''a''" and n: "\<not> MAXARGS \<le> n + 1"
  proof -
    have "Suc n < MAXARGS" using n by simp
    note a = add_arg_ok [OF less(6) this s2(2) [OF t] less(4,5)]
    have r: "reads buf (parseredirs (add_arg (q, eq) c) s2)" by (rule parseredirs_ok [OF s2(1) less(3) a(2,3)])
    show ?thesis
    proof (cases "parseredirs (add_arg (q, eq) c) s2")
      case (Ok x)
      obtain c' s' where x: "x = (c', s')" by fastforce
      have "reads buf (parseargs (n + 1) c' s')"
        by (rule less(1)) (use n r Ok x less(3) parseredirs_nargs [of "add_arg (q, eq) c" s2 c' s'] a(1) in auto)
      then show ?thesis using Ok x by simp
    qed simp_all
  qed
  then show ?case using s1 s2(1) less(4,5) by (subst parseargs.simps) (simp add: p g)
qed

lemma parseamps_ok:
  assumes "parseamps c s = (c', s')" "suffix s buf" "NUL \<notin> set buf" "tokens c \<subseteq> Collect (token_ok buf)" "command_ok (texts c)"
  shows "suffix s' buf" "tokens c' \<subseteq> Collect (token_ok buf)" "command_ok (texts c')"
proof -
  have "reads buf (Ok (parseamps c s))"
    using assms(2-)
  proof (induction "length s" arbitrary: c s rule: less_induct)
    case less
    obtain hit s1 where p: "peek ''&'' s = (hit, s1)" by fastforce
    obtain tok q eq s2 where g: "gettoken s1 = (tok, q, eq, s2)" by (metis prod_cases4)
    have s1: "suffix s1 buf" by (rule suffix_peek [OF p less(2)])
    have "reads buf (Ok (parseamps (BACK c) s2))" if hit
      by (rule less(1)) (use peek_gettoken [of _ s s1 tok q eq s2] p g that gettoken_reads(1) [OF g s1] less in auto)
    then show ?case using s1 less(4,5) by (subst parseamps.simps) (simp add: p g)
  qed
  then show "suffix s' buf" "tokens c' \<subseteq> Collect (token_ok buf)" "command_ok (texts c')"
    using assms(1) by simp_all
qed

lemma tail_ok:
  assumes "suffix s buf" "NUL \<notin> set buf" "tokens c \<subseteq> Collect (token_ok buf)" "command_ok (texts c)"
    "\<And>s. suffix s buf \<Longrightarrow> reads buf (f s)" "\<And>c'. tokens (g c') = tokens c \<union> tokens c'"
    "\<And>c'. command_ok (texts (g c')) = (command_ok (texts c) \<and> command_ok (texts c'))"
  shows "reads buf (case peek toks s of (hit, s) \<Rightarrow>
    if hit then (case gettoken s of (_, _, _, s) \<Rightarrow> andthen (f s) (\<lambda>(right, s). Ok (g right, s))) else Ok (c, s))"
proof -
  obtain hit s1 where p: "peek toks s = (hit, s1)" by fastforce
  obtain tok q eq s2 where g: "gettoken s1 = (tok, q, eq, s2)" by (metis prod_cases4)
  have s1: "suffix s1 buf" by (rule suffix_peek [OF p assms(1)])
  have s2: "suffix s2 buf" by (rule gettoken_reads(1) [OF g s1 assms(2)])
  have "reads buf (andthen (f s2) (\<lambda>(right, s). Ok (g right, s)))"
    by (rule reads_andthen [OF assms(5) [OF s2]]) (use assms(3,4,6,7) in simp)
  then show ?thesis using s1 assms(3,4) by (simp add: p g)
qed

lemma parse_ok:
  assumes "NUL \<notin> set buf"
  shows "suffix s buf \<Longrightarrow> reads buf (parseline n s)" "suffix s buf \<Longrightarrow> reads buf (parsepipe n s)"
    "suffix s buf \<Longrightarrow> reads buf (parseblock n s)" "suffix s buf \<Longrightarrow> reads buf (parseexec n s)"
proof (induction n arbitrary: s)
  case (Suc n)
  {
    case s: 1
    show ?case unfolding parseline.simps
    proof (rule reads_andthen [OF Suc(2) [OF s]], goal_cases)
      case (1 c s1)
      obtain c' s2 where a: "parseamps c s1 = (c', s2)" by fastforce
      note A = parseamps_ok [OF a 1(1) assms 1(2,3)]
      show ?case using tail_ok [OF A(1) assms A(2,3) Suc(1), where g = "LIST c'" and toks = "'';''"] by (simp add: a)
    qed
  next
    case s: 2
    show ?case unfolding parsepipe.simps
    proof (rule reads_andthen [OF Suc(4) [OF s]], goal_cases)
      case (1 c s1)
      show ?case using tail_ok [OF 1(1) assms 1(2,3) Suc(2), where g = "PIPE c" and toks = "''|''"] by simp
    qed
  next
    case s: 3
    obtain hit s1 where p: "peek ''('' s = (hit, s1)" by fastforce
    obtain tok q eq s2 where g: "gettoken s1 = (tok, q, eq, s2)" by (metis prod_cases4)
    have s2: "suffix s2 buf" by (rule gettoken_reads(1) [OF g suffix_peek [OF p s] assms])
    have "reads buf (andthen (parseline n s2) (\<lambda>(cmd, s). case peek '')'' s of (hit, s) \<Rightarrow>
      if \<not> hit then Err ''syntax - missing )'' else case gettoken s of (_, _, _, s) \<Rightarrow> parseredirs cmd s))"
    proof (rule reads_andthen [OF Suc(1) [OF s2]], goal_cases)
      case (1 c s3)
      obtain hit' s4 where p': "peek '')'' s3 = (hit', s4)" by fastforce
      obtain tok' q' eq' s5 where g': "gettoken s4 = (tok', q', eq', s5)" by (metis prod_cases4)
      have "suffix s5 buf" by (rule gettoken_reads(1) [OF g' suffix_peek [OF p' 1(1)] assms])
      then show ?case using parseredirs_ok [OF _ assms 1(2,3)] by (simp add: p' g')
    qed
    then show ?case by (simp add: p g)
  next
    case s: 4
    obtain hit s1 where p: "peek ''('' s = (hit, s1)" by fastforce
    have s1: "suffix s1 buf" by (rule suffix_peek [OF p s])
    have "reads buf (andthen (parseredirs (EXEC []) s1) (\<lambda>(ret, s). parseargs 0 ret s))"
    proof (cases "parseredirs (EXEC []) s1")
      case (Ok x)
      obtain c s2 where x: "x = (c, s2)" by fastforce
      have "reads buf (Ok (c, s2))" using parseredirs_ok [OF s1 assms, of "EXEC []"] Ok x by (simp add: MAXARGS_def)
      then have "reads buf (parseargs 0 c s2)"
        using parseargs_ok [OF _ assms, of s2 c 0] parseredirs_nargs [of "EXEC []" s1 c s2] Ok x by simp
      then show ?thesis using Ok x by simp
    qed simp_all
    then show ?case using Suc(3) [OF s1] by (simp add: p)
  }
qed simp_all

subsection \<open>nulterminate\<close>

lemma length_nul_args: "length (fold (\<lambda>(q, eq). nul_at eq) argv buf) = length buf"
  by (induction argv arbitrary: buf) (auto simp: nul_at_def)

lemma length_nulterminate [simp]: "length (nulterminate c buf) = length buf"
  by (induction c arbitrary: buf) (simp_all add: nul_at_def length_nul_args)

lemma nul_at_nth: "i < length buf \<Longrightarrow> nul_at p buf ! i = (if i = length buf - length p then NUL else buf ! i)"
  and length_nul_at: "length (nul_at p buf) = length buf"
  by (auto simp: nul_at_def)

lemma nth_nulterminate:
  "i < length buf \<Longrightarrow> nulterminate c buf ! i =
     (if i \<in> (\<lambda>a. length buf - length (snd a)) ` tokens c then NUL else buf ! i)"
proof (induction c arbitrary: buf)
  case (EXEC argv)
  then show ?case
  proof (induction argv arbitrary: buf)
    case (Cons a argv)
    then show ?case by (cases a) (auto simp: nul_at_nth length_nul_at)
  qed simp
qed (simp_all add: nul_at_nth image_Un)

lemma cstr_token:
  assumes t: "tokens c \<subseteq> Collect (token_ok buf)" and a: "(q, eq) \<in> tokens c"
  shows "cstr (nulterminate c buf) q = slice (q, eq)"
proof -
  have "token_ok buf (q, eq)" using t a by blast
  then obtain w pre where w: "q = w @ eq" "word_ok w" and pre: "buf = pre @ q"
    by (auto simp: token_ok_def suffix_def)
  let ?b = "nulterminate c buf" and ?E = "(\<lambda>a. length buf - length (snd a)) ` tokens c"
  have keep: "?b ! (length pre + k) = w ! k" if k: "k < length w" for k
  proof -
    have "length pre + k \<notin> ?E"
    proof
      assume "length pre + k \<in> ?E"
      then obtain q' eq' where e: "(q', eq') \<in> tokens c" "length pre + k = length buf - length eq'" by auto
      then have "token_ok buf (q', eq')" using t by blast
      then obtain pre' where p': "buf = pre' @ eq'" and nw: "\<not> (eq' \<noteq> [] \<and> word_char (hd eq'))"
        by (auto simp: token_ok_def suffix_def) 
      have "length pre' = length pre + k" "eq' \<noteq> []" using e(2) p' pre w k by auto
      then have "hd eq' = buf ! (length pre + k)" using p' by (metis hd_conv_nth nth_append_length_plus add.right_neutral)
      also have "\<dots> = w ! k" using pre w k by (simp add: nth_append)
      finally show False using nw \<open>eq' \<noteq> []\<close> w(2) k by (auto simp: word_ok_def)
    qed
    then show ?thesis using pre w k by (simp add: nth_nulterminate nth_append)
  qed
  have d: "drop (length pre) ?b = w @ drop (length pre + length w) ?b"
  proof (rule nth_equalityI)
    fix i assume "i < length (drop (length pre) ?b)"
    then show "drop (length pre) ?b ! i = (w @ drop (length pre + length w) ?b) ! i"
      using keep [of i] pre w by (simp add: nth_append)
  qed (use pre w in simp)
  have "takeWhile (\<lambda>c. c \<noteq> NUL) (drop (length pre + length w) ?b) = []"
  proof (cases eq)
    case (Cons x r)
    have "length buf - length eq \<in> ?E" using a by force
    then have "?b ! (length pre + length w) = NUL" using pre w Cons by (simp add: nth_nulterminate)
    moreover have "length pre + length w < length ?b" using pre w Cons by simp
    ultimately show ?thesis by (simp flip: Cons_nth_drop_Suc)
  qed (use pre w in simp)
  moreover have "takeWhile (\<lambda>c. c \<noteq> NUL) w = w" using w(2) by (auto simp: word_ok_def takeWhile_eq_all_conv)
  moreover have "slice (q, eq) = w" using w by (simp add: slice_def)
  ultimately show ?thesis
    unfolding cstr_def using d pre w(2) by (simp add: takeWhile_append word_ok_def)
qed

lemma strings_texts:
  assumes "\<And>q eq. (q, eq) \<in> tokens c \<Longrightarrow> cstr buf q = slice (q, eq)" shows "strings_of buf c = texts c"
  using assms by (induction c) auto

lemma parsecmd_Ok:
  assumes "parsecmd s = Ok (c, buf)" "NUL \<notin> set s"
  shows "strings_of buf c = texts c" "command_ok (texts c)"
proof -
  obtain r where r: "parseline (4 * length s + 4) s = Ok (c, r)" and b: "buf = nulterminate c s"
    using assms(1) unfolding parsecmd_def
    by (cases "parseline (4 * length s + 4) s") (auto simp: peek_def Let_def split: if_splits)
  have "reads s (Ok (c, r))" using parse_ok(1) [OF assms(2) suffix_order.refl] r by metis
  then have t: "tokens c \<subseteq> Collect (token_ok s)" and "command_ok (texts c)" by simp_all
  then show "command_ok (texts c)" "strings_of buf c = texts c"
    using strings_texts [of c buf] cstr_token [OF t] b by simp_all
qed

text \<open>
  C28. For every command line that the parser accepts, the strings of the tree, read as C
  strings from the buffer after all the NULs have been written, are the words between the
  two pointers of their tokens: no NUL cuts another word short, every word ends at a NUL.
  They are non-empty words without white space and without the shell's symbols, and every
  argument vector has fewer than \<open>MAXARGS\<close> entries, so that its null pointer is inside
  the array.
\<close>

theorem nulterminate_strings:
  assumes "NUL \<notin> set s" "parsecmd s = Ok (c, buf)"
  shows "strings_of buf c = texts c \<and> command_ok (strings_of buf c)"
  using parsecmd_Ok [OF assms(2,1)] by simp

theorem nulterminate_strings_witness:
  "\<exists>c buf. parsecmd ''(ls -l>x;y)&'' = Ok (c, buf) \<and>
     strings_of buf c = Bg (Seq (Redir (Exec [''ls'', ''-l'']) ''x'' 0x601 1) (Exec [''y'']))"
proof -
  let ?s = "''(ls -l>x;y)&''"
  have "case parsecmd ?s of Ok (c, buf) \<Rightarrow> texts c = Bg (Seq (Redir (Exec [''ls'', ''-l'']) ''x'' 0x601 1) (Exec [''y''])) | _ \<Rightarrow> False"
    by code_simp
  then obtain c buf where c: "parsecmd ?s = Ok (c, buf)"
    "texts c = Bg (Seq (Redir (Exec [''ls'', ''-l'']) ''x'' 0x601 1) (Exec [''y'']))"
    by (cases "parsecmd ?s") auto
  have "NUL \<notin> set ?s" by (simp add: NUL_def)
  then show ?thesis using nulterminate_strings [OF _ c(1)] c by metis
qed

end
