(* ===== verification/Sh_Print.thy ===== *)
theory Sh_Print
  imports Sh_Correct
begin

section \<open>The parser of the shell inverts printing\<close>

text \<open>
  Every tree of commands, printed with parentheses where the grammar needs them, is read
  back by \<open>parsecmd\<close>.
\<close>

subsection \<open>Printing and reading back\<close>

definition show_word :: "string \<Rightarrow> string" where
  "show_word w = w @ '' ''"

definition show_redir :: "string \<times> nat \<times> nat \<Rightarrow> string" where
  "show_redir = (\<lambda>(f, m, fd).
     (if m = O_RDONLY then ''< '' else if m = O_WRONLY + O_CREATE + O_TRUNC then ''> '' else ''>> '') @ show_word f)"

definition paren :: "bool \<Rightarrow> string \<Rightarrow> string" where
  "paren b s = (if b then ''('' @ s @ '') '' else s)"

text \<open>
  Printing at a level of the grammar: 0 for \<open>parseexec\<close>, 1 for \<open>parsepipe\<close>, 2 for a
  pipeline with its \<open>&\<close>, 3 for \<open>parseline\<close>.
\<close>

fun show_at :: "nat \<Rightarrow> command \<Rightarrow> string" where
  "show_at l (Exec ws) = concat (map show_word ws)"
| "show_at l (Redir c f m fd) = show_at 0 c @ show_redir (f, m, fd)"
| "show_at l (Pipe a b) = paren (l < 1) (show_at 0 a @ ''| '' @ show_at 1 b)"
| "show_at l (Bg c) = paren (l < 2) (show_at 2 c @ ''& '')"
| "show_at l (Seq a b) = paren (l < 3) (show_at 2 a @ ''; '' @ show_at 3 b)"

lemma skip_ws_simps [simp]:
  "skip_ws [] = []" "skip_ws (CHR '' '' # s) = skip_ws s" "c \<notin> set whitespace \<Longrightarrow> skip_ws (c # s) = c # s"
  by (simp_all add: skip_ws_def whitespace_def)

lemma symbol_not_ws [simp]:
  "CHR ''<'' \<notin> set whitespace" "CHR ''>'' \<notin> set whitespace" "CHR ''|'' \<notin> set whitespace" "CHR ''&'' \<notin> set whitespace"
  "CHR '';'' \<notin> set whitespace" "CHR ''('' \<notin> set whitespace" "CHR '')'' \<notin> set whitespace"
  by (simp_all add: whitespace_def)

lemma peek_eq: "peek toks s = (char_at (skip_ws s) \<noteq> NUL \<and> char_at (skip_ws s) \<in> set toks, skip_ws s)"
  by (simp add: peek_def Let_def)

lemma gettoken_symbol:
  "c \<in> set ''|();&<'' \<Longrightarrow> gettoken (c # s) = (c, c # s, s, skip_ws s)"
  "char_at s \<noteq> CHR ''>'' \<Longrightarrow> gettoken (CHR ''>'' # s) = (CHR ''>'', CHR ''>'' # s, s, skip_ws s)"
  "gettoken (CHR ''>'' # CHR ''>'' # s) = (CHR ''+'', CHR ''>'' # CHR ''>'' # s, s, skip_ws s)"
proof -
  assume c: "c \<in> set ''|();&<''"
  then have "c \<notin> set whitespace" by (auto simp: whitespace_def)
  moreover have "scan (c # s) = (c, s)" using c by (auto simp: scan_def NUL_def)
  ultimately show "gettoken (c # s) = (c, c # s, s, skip_ws s)" by (simp add: gettoken_def)
next
  assume "char_at s \<noteq> CHR ''>''"
  then have "scan (CHR ''>'' # s) = (CHR ''>'', s)" by (simp add: scan_def NUL_def)
  then show "gettoken (CHR ''>'' # s) = (CHR ''>'', CHR ''>'' # s, s, skip_ws s)" by (simp add: gettoken_def)
next
  have "scan (CHR ''>'' # CHR ''>'' # s) = (CHR ''+'', s)" by (simp add: scan_def NUL_def)
  then show "gettoken (CHR ''>'' # CHR ''>'' # s) = (CHR ''+'', CHR ''>'' # CHR ''>'' # s, s, skip_ws s)"
    by (simp add: gettoken_def)
qed

lemma gettoken_word:
  assumes "word_ok w" shows "skip_ws (w @ t) = w @ t"
    "gettoken (w @ CHR '' '' # t) = (CHR ''a'', w @ CHR '' '' # t, CHR '' '' # t, skip_ws t)"
    "char_at (w @ t) \<noteq> NUL" "char_at (w @ t) \<notin> set symbols"
proof -
  obtain c r where c: "w = c # r" "word_char c" "c \<noteq> NUL" using assms by (cases w) (auto simp: word_ok_def)
  show s: "skip_ws (w @ t) = w @ t" for t using c by (simp add: word_char_def)
  show "char_at (w @ t) \<noteq> NUL" "char_at (w @ t) \<notin> set symbols" using c by (simp_all add: word_char_def)
  have d: "dropWhile word_char (w @ CHR '' '' # t) = CHR '' '' # t"
    using assms by (auto simp: word_ok_def dropWhile_append word_char_def whitespace_def)
  have "c \<notin> set ''|();&<''" "c \<noteq> CHR ''>''" using c(2) unfolding word_char_def symbols_iff by simp_all
  then have "scan (w @ CHR '' '' # t) = (CHR ''a'', CHR '' '' # t)" using c d by (simp add: scan_def)
  then show "gettoken (w @ CHR '' '' # t) = (CHR ''a'', w @ CHR '' '' # t, CHR '' '' # t, skip_ws t)"
    by (simp add: gettoken_def s)
qed

lemma slice_word [simp]: "slice (w @ t, t) = w"
  by (simp add: slice_def)

definition stops :: "string \<Rightarrow> string \<Rightarrow> bool" where
  "stops cs t \<longleftrightarrow> char_at (skip_ws t) = NUL \<or> char_at (skip_ws t) \<in> set cs"

lemma parse_skip:
  "parseredirs c (skip_ws s) = parseredirs c s" "parseargs n c (skip_ws s) = parseargs n c s"
  "parseamps c (skip_ws s) = parseamps c s"
proof -
  show "parseredirs c (skip_ws s) = parseredirs c s" by (subst (1 2) parseredirs.simps) (simp add: peek_eq)
  show "parseargs n c (skip_ws s) = parseargs n c s" by (subst (1 2) parseargs.simps) (simp add: peek_eq)
  show "parseamps c (skip_ws s) = parseamps c s" by (subst (1 2) parseamps.simps) (simp add: peek_eq)
qed

lemma parseredirs_none: "stops ''|)&;'' t \<Longrightarrow> parseredirs c t = Ok (c, skip_ws t)"
proof -
  assume "stops ''|)&;'' t"
  then have "peek ''<>'' t = (False, skip_ws t)" by (auto simp: peek_eq stops_def)
  then show ?thesis by (simp add: parseredirs.simps [of c t])
qed

abbreviation redirect :: "command \<Rightarrow> string \<times> nat \<times> nat \<Rightarrow> command" where
  "redirect c r \<equiv> Redir c (fst r) (fst (snd r)) (snd (snd r))"

definition redir_ok :: "string \<times> nat \<times> nat \<Rightarrow> bool" where
  "redir_ok r \<longleftrightarrow> word_ok (fst r) \<and>
     snd r \<in> {(O_RDONLY, 0), (O_WRONLY + O_CREATE + O_TRUNC, 1), (O_WRONLY + O_CREATE, 1)}"

lemma parseredirs_one:
  assumes "redir_ok r"
  obtains c' where "parseredirs c (show_redir r @ t) = parseredirs c' (skip_ws t)" "texts c' = redirect (texts c) r"
proof -
  obtain f m fd where r: "r = (f, m, fd)" by (metis prod_cases3)
  have w: "word_ok f" using assms r by (simp add: redir_ok_def)
  note g = gettoken_word [OF w]
  let ?q = "f @ CHR '' '' # t" and ?e = "CHR '' '' # t"
  have one: "parseredirs c (show_redir r @ t) = parseredirs (REDIR c ?q ?e m fd) (skip_ws t)"
    using assms unfolding redir_ok_def r
    by (subst parseredirs.simps)
      (auto simp: show_redir_def show_word_def peek_eq NUL_def gettoken_symbol g O_RDONLY_def O_WRONLY_def O_CREATE_def O_TRUNC_def)
  show ?thesis by (rule that [OF one]) (simp add: r)
qed

lemma parseredirs_show:
  assumes "\<forall>r\<in>set rs. redir_ok r" "stops ''|)&;'' t"
  obtains c' where "parseredirs c (concat (map show_redir rs) @ t) = Ok (c', skip_ws t)" "texts c' = foldl redirect (texts c) rs"
proof -
  have "\<exists>c'. parseredirs c (concat (map show_redir rs) @ t) = Ok (c', skip_ws t) \<and> texts c' = foldl redirect (texts c) rs"
    using assms(1)
  proof (induction rs arbitrary: c)
    case Nil
    then show ?case using parseredirs_none [OF assms(2)] by simp
  next
    case (Cons r rs)
    obtain c1 where c1: "parseredirs c (show_redir r @ concat (map show_redir rs) @ t) =
        parseredirs c1 (skip_ws (concat (map show_redir rs) @ t))" "texts c1 = redirect (texts c) r"
      using parseredirs_one [of r c "concat (map show_redir rs) @ t"] Cons(2) by auto
    then show ?case using Cons(1) [of c1] Cons(2) by (simp add: parse_skip)
  qed
  then show ?thesis using that by blast
qed

lemma parseargs_stop: "stops ''|)&;'' t \<Longrightarrow> parseargs n c t = Ok (c, skip_ws t)"
proof (cases "char_at (skip_ws t) = NUL")
  case True
  then have "gettoken (skip_ws t) = (NUL, skip_ws t, skip_ws t, skip_ws t)"
    by (simp add: gettoken_def scan_def Let_def)
  then show ?thesis using True by (simp add: parseargs.simps [of n c t] peek_eq)
next
  case False
  assume "stops ''|)&;'' t"
  then show ?thesis using False by (simp add: parseargs.simps [of n c t] peek_eq stops_def)
qed

lemma parseargs_show:
  assumes "\<forall>w\<in>set ws. word_ok w" "ws \<noteq> []" "length argv + length ws < MAXARGS" "\<forall>r\<in>set rs. redir_ok r" "stops ''|)&;'' t"
  shows "\<exists>c'. parseargs (length argv) (EXEC argv) (concat (map show_word ws) @ concat (map show_redir rs) @ t) = Ok (c', skip_ws t) \<and>
    texts c' = foldl redirect (Exec (map slice argv @ ws)) rs"
  using assms(1-3)
proof (induction ws arbitrary: argv)
  case (Cons w ws)
  let ?r = "concat (map show_redir rs) @ t" and ?n = "length argv"
  let ?t = "concat (map show_word ws) @ ?r"
  have w: "word_ok w" using Cons(2) by simp
  note g = gettoken_word [OF w]
  have p: "char_at (w @ s) \<notin> set ''|)&;''" for s using g(4) [of s] unfolding symbols_iff by simp
  let ?argv = "argv @ [(w @ CHR '' '' # ?t, CHR '' '' # ?t)]"
  have one: "parseargs ?n (EXEC argv) (w @ CHR '' '' # ?t) =
    andthen (parseredirs (EXEC ?argv) (skip_ws ?t)) (\<lambda>(ret, s). parseargs (Suc ?n) ret s)"
    using Cons(4) g p [of "CHR '' '' # ?t"] by (subst parseargs.simps) (simp add: peek_eq NUL_def)
  show ?case
  proof (cases ws)
    case Nil
    obtain c' where c': "parseredirs (EXEC ?argv) ?r = Ok (c', skip_ws t)" "texts c' = foldl redirect (texts (EXEC ?argv)) rs"
      by (rule parseredirs_show [OF assms(4,5)])
    then show ?thesis
      using one Nil parse_skip parseargs_stop [OF assms(5), of "Suc ?n" c'] by (simp add: show_word_def)
  next
    case (Cons w2 ws2)
    have w2: "word_ok w2" using Cons.prems(1) Cons by simp
    have "parseredirs (EXEC ?argv) ?t = Ok (EXEC ?argv, ?t)"
      using gettoken_word(1,4) [OF w2] Cons unfolding symbols_iff
      by (subst parseredirs.simps) (simp add: peek_eq show_word_def)
    moreover have "\<exists>c'. parseargs (length ?argv) (EXEC ?argv) ?t = Ok (c', skip_ws t) \<and>
        texts c' = foldl redirect (Exec (map slice ?argv @ ws)) rs"
      by (rule Cons.IH) (use Cons.prems Cons in simp_all)
    ultimately show ?thesis using one parse_skip by (simp add: show_word_def [of w])
  qed
qed simp

text \<open>Enough fuel, as in \<open>more_fuel\<close>.\<close>

lemma parse_fuel:
  "parseline n s = Ok x \<Longrightarrow> parseline (n + k) s = Ok x" "parsepipe n s = Ok x \<Longrightarrow> parsepipe (n + k) s = Ok x"
  "parseexec n s = Ok x \<Longrightarrow> parseexec (n + k) s = Ok x"
  by (induction k) (simp_all del: parseline.simps parsepipe.simps parseexec.simps add: more_fuel)

lemma parseline_skip: "parseline n (skip_ws s) = parseline n s" "parsepipe n (skip_ws s) = parsepipe n s"
proof -
  have "parseexec n (skip_ws s) = parseexec n s" for n by (cases n) (simp_all add: peek_eq)
  then show p: "parsepipe n (skip_ws s) = parsepipe n s" for n by (cases n) simp_all
  show "parseline n (skip_ws s) = parseline n s" by (cases n) (simp_all add: p)
qed

text \<open>What is read back at each level of the grammar.\<close>

definition exec_back :: "command \<Rightarrow> bool" where
  "exec_back c \<longleftrightarrow> (\<forall>rs t. (\<forall>r\<in>set rs. redir_ok r) \<longrightarrow> stops ''|)&;'' t \<longrightarrow>
     (\<exists>n c'. parseexec n (show_at 0 c @ concat (map show_redir rs) @ t) = Ok (c', skip_ws t) \<and> texts c' = foldl redirect c rs))"

definition pipe_back :: "command \<Rightarrow> bool" where
  "pipe_back c \<longleftrightarrow> (\<forall>t. stops '')&;'' t \<longrightarrow>
     (\<exists>n c'. parsepipe n (show_at 1 c @ t) = Ok (c', skip_ws t) \<and> texts c' = c))"

definition amps_back :: "command \<Rightarrow> bool" where
  "amps_back c \<longleftrightarrow> (\<forall>t. stops '')&;'' t \<longrightarrow>
     (\<exists>n c1 s1 c'. parsepipe n (show_at 2 c @ t) = Ok (c1, s1) \<and> parseamps c1 s1 = parseamps c' t \<and> texts c' = c))"

definition line_back :: "command \<Rightarrow> bool" where
  "line_back c \<longleftrightarrow> (\<forall>t. stops '')'' t \<longrightarrow>
     (\<exists>n c'. parseline n (show_at 3 c @ t) = Ok (c', skip_ws t) \<and> texts c' = c))"

lemma stops_mono: "stops cs t \<Longrightarrow> set cs \<subseteq> set ds \<Longrightarrow> stops ds t"
  by (auto simp: stops_def)

lemma not_peek: "stops cs t \<Longrightarrow> c \<notin> set cs \<Longrightarrow> peek [c] t = (False, skip_ws t)"
  by (auto simp: peek_eq stops_def)

lemma peek_symbol: "c \<notin> set whitespace \<Longrightarrow> c \<noteq> NUL \<Longrightarrow> peek [c] (c # s) = (True, c # s)"
  by (simp add: peek_eq)

lemma pipe_of_exec: "exec_back c \<Longrightarrow> show_at 1 c = show_at 0 c \<Longrightarrow> pipe_back c"
proof -
  assume e: "exec_back c" and s: "show_at 1 c = show_at 0 c"
  show ?thesis unfolding pipe_back_def
  proof (intro allI impI)
    fix t assume t: "stops '')&;'' t"
    have t': "stops ''|)&;'' t" by (rule stops_mono [OF t]) simp
    obtain n c' where n: "parseexec n (show_at 0 c @ t) = Ok (c', skip_ws t)" "texts c' = c"
      using e [unfolded exec_back_def, rule_format, of "[]" t] t' by auto
    have "peek ''|'' (skip_ws t) = (False, skip_ws t)" using not_peek [OF t, of "CHR ''|''"] by (simp add: peek_eq)
    then have "parsepipe (Suc n) (show_at 1 c @ t) = Ok (c', skip_ws t)" using n(1) s by simp
    then show "\<exists>n c'. parsepipe n (show_at 1 c @ t) = Ok (c', skip_ws t) \<and> texts c' = c" using n(2) by blast
  qed
qed

lemma amps_of_pipe: "pipe_back c \<Longrightarrow> show_at 2 c = show_at 1 c \<Longrightarrow> amps_back c"
  unfolding pipe_back_def amps_back_def using parse_skip(3) by metis

lemma line_of_amps: "amps_back c \<Longrightarrow> show_at 3 c = show_at 2 c \<Longrightarrow> line_back c"
proof -
  assume a: "amps_back c" and s: "show_at 3 c = show_at 2 c"
  show ?thesis unfolding line_back_def
  proof (intro allI impI)
    fix t assume t: "stops '')'' t"
    have t': "stops '')&;'' t" by (rule stops_mono [OF t]) simp
    obtain n c1 s1 c' where n: "parsepipe n (show_at 2 c @ t) = Ok (c1, s1)" "parseamps c1 s1 = parseamps c' t" "texts c' = c"
      using a t' unfolding amps_back_def by blast
    have "parseamps c' t = (c', skip_ws t)" using not_peek [OF t, of "CHR ''&''"] by (simp add: parseamps.simps [of c' t])
    moreover have "peek '';'' (skip_ws t) = (False, skip_ws t)" using not_peek [OF t, of "CHR '';''"] by (simp add: peek_eq)
    ultimately have "parseline (Suc n) (show_at 3 c @ t) = Ok (c', skip_ws t)" using n(1,2) s by simp
    then show "\<exists>n c'. parseline n (show_at 3 c @ t) = Ok (c', skip_ws t) \<and> texts c' = c" using n(3) by blast
  qed
qed

text \<open>A command in parentheses.\<close>

lemma exec_of_line: "line_back c \<Longrightarrow> show_at 0 c = ''('' @ show_at 3 c @ '') '' \<Longrightarrow> exec_back c"
proof -
  assume l: "line_back c" and s: "show_at 0 c = ''('' @ show_at 3 c @ '') ''"
  show ?thesis unfolding exec_back_def
  proof (intro allI impI)
    fix rs t assume rs: "\<forall>r\<in>set rs. redir_ok r" and t: "stops ''|)&;'' t"
    let ?t = "concat (map show_redir rs) @ t"
    have "stops '')'' ('') '' @ ?t)" by (simp add: stops_def)
    then obtain n c' where n: "parseline n (show_at 3 c @ '') '' @ ?t) = Ok (c', skip_ws ('') '' @ ?t))" "texts c' = c"
      using l unfolding line_back_def by blast
    obtain c'' where c'': "parseredirs c' ?t = Ok (c'', skip_ws t)" "texts c'' = foldl redirect (texts c') rs"
      by (rule parseredirs_show [OF rs t])
    have "parseblock (Suc n) (show_at 0 c @ ?t) = Ok (c'', skip_ws t)"
      using n(1) c''(1) by (simp add: s peek_symbol NUL_def gettoken_symbol parse_skip parseline_skip)
    then have "parseexec (Suc (Suc n)) (show_at 0 c @ ?t) = Ok (c'', skip_ws t)"
      by (simp add: s peek_symbol NUL_def del: parseblock.simps)
    moreover have "texts c'' = foldl redirect c rs" using n(2) c''(2) by simp
    ultimately show "\<exists>n c'. parseexec n (show_at 0 c @ ?t) = Ok (c', skip_ws t) \<and> texts c' = foldl redirect c rs" by blast
  qed
qed

lemma show_redir_hd: "char_at (skip_ws (show_redir r @ s)) \<noteq> CHR ''(''"
  by (cases r) (simp add: show_redir_def)

lemma exec_back_Exec: "command_ok (Exec ws) \<Longrightarrow> exec_back (Exec ws)"
proof -
  assume ok: "command_ok (Exec ws)"
  show ?thesis unfolding exec_back_def
  proof (intro allI impI)
    fix rs t assume rs: "\<forall>r\<in>set rs. redir_ok r" and t: "stops ''|)&;'' t"
    let ?s = "concat (map show_word ws) @ concat (map show_redir rs) @ t"
    have np: "peek ''('' ?s = (False, skip_ws ?s)"
    proof (cases ws)
      case Nil
      then show ?thesis using t show_redir_hd by (cases rs) (auto simp: peek_eq stops_def)
    next
      case (Cons w ws')
      then have "word_ok w" using ok by simp
      then show ?thesis using Cons gettoken_word [of w] unfolding symbols_iff by (simp add: peek_eq show_word_def)
    qed
    have "\<exists>c'. andthen (parseredirs (EXEC []) ?s) (\<lambda>(ret, s). parseargs 0 ret s) = Ok (c', skip_ws t) \<and>
      texts c' = foldl redirect (Exec ws) rs"
    proof (cases ws)
      case Nil
      obtain c' where "parseredirs (EXEC []) (concat (map show_redir rs) @ t) = Ok (c', skip_ws t)"
        "texts c' = foldl redirect (texts (EXEC [])) rs" by (rule parseredirs_show [OF rs t])
      then show ?thesis using Nil parseargs_stop [OF t, of 0 c'] by (simp add: parse_skip)
    next
      case (Cons w ws')
      then have "word_ok w" using ok by simp
      then have "peek ''<>'' ?s = (False, ?s)"
        using Cons gettoken_word(1,4) [of w] unfolding symbols_iff by (simp add: peek_eq show_word_def [of w])
      then have e: "parseredirs (EXEC []) ?s = Ok (EXEC [], ?s)" by (subst parseredirs.simps) simp
      have "ws \<noteq> []" using Cons by simp
      then show ?thesis unfolding e using parseargs_show [of ws "[]" rs t] ok rs t by simp
    qed
    moreover have "parseexec (Suc 0) ?s = andthen (parseredirs (EXEC []) ?s) (\<lambda>(ret, s). parseargs 0 ret s)"
      unfolding parseexec.simps np by (simp only: parse_skip split_conv if_False)
    ultimately show "\<exists>n c'. parseexec n (show_at 0 (Exec ws) @ concat (map show_redir rs) @ t) = Ok (c', skip_ws t) \<and>
      texts c' = foldl redirect (Exec ws) rs" unfolding show_at.simps by metis
  qed
qed

lemma exec_back_Redir:
  assumes "exec_back c" "redir_ok (f, m, fd)" shows "exec_back (Redir c f m fd)"
  unfolding exec_back_def
proof (intro allI impI)
  fix rs t assume "\<forall>r\<in>set rs. redir_ok r" "stops ''|)&;'' t"
  then show "\<exists>n c'. parseexec n (show_at 0 (Redir c f m fd) @ concat (map show_redir rs) @ t) = Ok (c', skip_ws t) \<and>
      texts c' = foldl redirect (Redir c f m fd) rs"
    using assms(1) [unfolded exec_back_def, THEN spec [of _ "(f, m, fd) # rs"], THEN spec [of _ t]] assms(2) by simp
qed

lemma pipe_back_Pipe:
  assumes "exec_back a" "pipe_back b" shows "pipe_back (Pipe a b)"
  unfolding pipe_back_def
proof (intro allI impI)
  fix t assume t: "stops '')&;'' t"
  let ?t = "''| '' @ show_at 1 b @ t"
  have "stops ''|)&;'' ?t" by (simp add: stops_def)
  then obtain n a' where a: "parseexec n (show_at 0 a @ ?t) = Ok (a', ?t)" "texts a' = a"
    using assms(1) [unfolded exec_back_def, rule_format, of "[]" ?t] by auto
  obtain m b' where b: "parsepipe m (show_at 1 b @ t) = Ok (b', skip_ws t)" "texts b' = b"
    using assms(2) t unfolding pipe_back_def by blast
  have "parsepipe (Suc (n + m)) (show_at 0 a @ ?t) = Ok (PIPE a' b', skip_ws t)"
    using parse_fuel(3) [OF a(1), of m] parse_fuel(2) [OF b(1), of n]
    by (simp add: peek_symbol NUL_def gettoken_symbol parseline_skip add.commute [of n])
  then show "\<exists>n c'. parsepipe n (show_at 1 (Pipe a b) @ t) = Ok (c', skip_ws t) \<and> texts c' = Pipe a b"
    using a(2) b(2) by (intro exI [of _ "Suc (n + m)"] exI [of _ "PIPE a' b'"]) (simp add: paren_def)
qed

lemma amps_back_Bg:
  assumes "amps_back c" shows "amps_back (Bg c)"
  unfolding amps_back_def
proof (intro allI impI)
  fix t assume t: "stops '')&;'' t"
  have "stops '')&;'' (''& '' @ t)" by (simp add: stops_def)
  then obtain n c1 s1 c' where n: "parsepipe n (show_at 2 c @ ''& '' @ t) = Ok (c1, s1)"
    "parseamps c1 s1 = parseamps c' (''& '' @ t)" "texts c' = c"
    using assms unfolding amps_back_def by blast
  have "parseamps c' (''& '' @ t) = parseamps (BACK c') t"
    by (simp add: parseamps.simps [of c' "CHR ''&'' # CHR '' '' # t"] peek_symbol NUL_def gettoken_symbol parse_skip)
  then show "\<exists>n c1 s1 c'. parsepipe n (show_at 2 (Bg c) @ t) = Ok (c1, s1) \<and> parseamps c1 s1 = parseamps c' t \<and> texts c' = Bg c"
    using n by (intro exI [of _ n] exI [of _ c1] exI [of _ s1] exI [of _ "BACK c'"]) (simp add: paren_def)
qed

lemma line_back_Seq:
  assumes "amps_back a" "line_back b" shows "line_back (Seq a b)"
  unfolding line_back_def
proof (intro allI impI)
  fix t assume t: "stops '')'' t"
  let ?t = "''; '' @ show_at 3 b @ t"
  have s: "stops '')&;'' ?t" by (simp add: stops_def)
  obtain n c1 s1 a' where a: "parsepipe n (show_at 2 a @ ?t) = Ok (c1, s1)" "parseamps c1 s1 = parseamps a' ?t" "texts a' = a"
    using assms(1) s unfolding amps_back_def by blast
  have amp: "parseamps a' ?t = (a', ?t)"
    by (simp add: parseamps.simps [of a' "CHR '';'' # CHR '' '' # show_at 3 b @ t"] peek_eq)
  obtain m b' where b: "parseline m (show_at 3 b @ t) = Ok (b', skip_ws t)" "texts b' = b"
    using assms(2) t unfolding line_back_def by blast
  have "parseline (Suc (n + m)) (show_at 2 a @ ?t) = Ok (LIST a' b', skip_ws t)"
    using parse_fuel(2) [OF a(1), of m] parse_fuel(1) [OF b(1), of n] a(2) amp
    by (simp add: peek_symbol NUL_def gettoken_symbol parseline_skip add.commute [of n])
  then show "\<exists>n c'. parseline n (show_at 3 (Seq a b) @ t) = Ok (c', skip_ws t) \<and> texts c' = Seq a b"
    using a(3) b(2) by (intro exI [of _ "Suc (n + m)"] exI [of _ "LIST a' b'"]) (simp add: paren_def)
qed

lemma all_back:
  assumes "command_ok c" shows "exec_back c \<and> pipe_back c \<and> amps_back c \<and> line_back c"
  using assms
proof (induction c)
  case (Exec ws)
  have "exec_back (Exec ws)" by (rule exec_back_Exec [OF Exec])
  then show ?case by (simp add: pipe_of_exec amps_of_pipe line_of_amps)
next
  case (Redir c f m fd)
  then have "exec_back (Redir c f m fd)" by (intro exec_back_Redir) (simp_all add: redir_ok_def)
  then show ?case by (simp add: pipe_of_exec amps_of_pipe line_of_amps)
next
  case (Pipe a b)
  then have p: "pipe_back (Pipe a b)" by (simp add: pipe_back_Pipe)
  then have l: "line_back (Pipe a b)" by (simp add: amps_of_pipe line_of_amps paren_def)
  then show ?case using p by (simp add: amps_of_pipe exec_of_line paren_def)
next
  case (Seq a b)
  then have l: "line_back (Seq a b)" by (simp add: line_back_Seq)
  then have "exec_back (Seq a b)" by (simp add: exec_of_line paren_def)
  then show ?case using l by (simp add: pipe_of_exec amps_of_pipe paren_def)
next
  case (Bg c)
  then have a: "amps_back (Bg c)" by (simp add: amps_back_Bg)
  then have l: "line_back (Bg c)" by (simp add: line_of_amps paren_def)
  then have "exec_back (Bg c)" by (simp add: exec_of_line paren_def)
  then show ?case using a l by (simp add: pipe_of_exec paren_def)
qed

lemma show_at_no_NUL: "command_ok c \<Longrightarrow> NUL \<notin> set (show_at l c)"
proof (induction c arbitrary: l)
  case (Exec ws)
  then show ?case by (auto simp: show_word_def word_ok_def NUL_def)
qed (auto simp: paren_def show_redir_def show_word_def word_ok_def NUL_def)

text \<open>
  C27. The parser inverts printing: for every tree of commands with words that the shell can
  write, at most nine arguments and the three redirections, \<open>parsecmd\<close> on the printed tree
  succeeds, and the tree read from the buffer is the tree printed.
\<close>

theorem parse_print:
  assumes "command_ok c"
  shows "\<exists>cmd buf. parsecmd (show_at 3 c) = Ok (cmd, buf) \<and> strings_of buf cmd = c"
proof -
  let ?s = "show_at 3 c"
  obtain n c' where n: "parseline n ?s = Ok (c', [])" "texts c' = c"
    using all_back [OF assms] unfolding line_back_def by (auto simp: stops_def dest: spec [of _ "[]"])
  have "parseline (4 * length ?s + 4) ?s = Ok (c', [])"
    using parse_fuel(1) [OF n(1), of "4 * length ?s + 4"] parseline_fuel [of ?s "n + (4 * length ?s + 4)"] by simp
  then have p: "parsecmd ?s = Ok (c', nulterminate c' ?s)" by (simp add: parsecmd_def peek_eq)
  then show ?thesis using parsecmd_Ok(1) [OF p show_at_no_NUL [OF assms]] n(2) by blast
qed

theorem parse_print_witness:
  "\<exists>cmd buf. parsecmd (show_at 3 (Seq (Bg (Pipe (Redir (Exec [''cat'']) ''f'' O_RDONLY 0) (Seq (Exec [''a'']) (Exec []))))
       (Redir (Pipe (Exec [''b'']) (Exec [''c'', ''-d''])) ''g'' (O_WRONLY + O_CREATE) 1))) = Ok (cmd, buf) \<and>
     strings_of buf cmd = Seq (Bg (Pipe (Redir (Exec [''cat'']) ''f'' O_RDONLY 0) (Seq (Exec [''a'']) (Exec []))))
       (Redir (Pipe (Exec [''b'']) (Exec [''c'', ''-d''])) ''g'' (O_WRONLY + O_CREATE) 1)"
  by (rule parse_print) code_simp

end
