(* ===== verification/Printf.thy ===== *)
theory Printf
  imports Spinlock
begin

section \<open>Formatted output (kernel/printf.c, user/printf.c)\<close>

text \<open>
  Both \<open>printf\<close>s: what they print for a format and a list of arguments.  An argument is
  the 64-bit register it is passed in, or a pointer to a string; \<open>va_arg(ap, int)\<close> is the
  low half of the register.  \<open>None\<close> is undefined behaviour: an argument is missing or not
  a pointer, or the digits of a number do not fit into \<open>char buf[16]\<close>.  The chains of
  conversions of the two files are the same; they differ in \<open>printint\<close>, which takes an
  \<open>int\<close> in user space and a \<open>long long\<close> in the kernel, and in the case of the digits.
\<close>

subsection \<open>The code\<close>

datatype base = Dec | Hex

fun radix :: "base \<Rightarrow> nat" where
  "radix Dec = 10"
| "radix Hex = 16"

definition u_digits :: string where "u_digits = ''0123456789ABCDEF''"
definition k_digits :: string where "k_digits = ''0123456789abcdef''"

text \<open>The digits, the last one first.\<close>

function digit_loop :: "string \<Rightarrow> base \<Rightarrow> nat \<Rightarrow> string" where
  "digit_loop digits base x =
     digits ! (x mod radix base) # (if x div radix base \<noteq> 0 then digit_loop digits base (x div radix base) else [])"
  by pat_completeness auto

termination
proof (relation "measure (\<lambda>(digits, base, x). x)", goal_cases)
  case (2 digits base x)
  then show ?case by (cases base) (auto simp: div_eq_0_iff)
qed simp

declare digit_loop.simps [simp del]

text \<open>The common end: the minus sign goes into the buffer of 16 bytes, which is printed backwards.\<close>

definition put_digits :: "bool \<Rightarrow> string \<Rightarrow> string option" where
  "put_digits neg buf = (let buf = buf @ (if neg then ''-'' else []) in if length buf \<le> 16 then Some (rev buf) else None)"

definition u_printint :: "32 word \<Rightarrow> base \<Rightarrow> bool \<Rightarrow> string option" where
  "u_printint xx base sign =
     (let neg = (sign \<and> sint xx < 0); x = (if neg then - xx else xx) in
      put_digits neg (digit_loop u_digits base (unat x)))"

definition k_printint :: "64 word \<Rightarrow> base \<Rightarrow> bool \<Rightarrow> string option" where
  "k_printint xx base sign =
     (let neg = (sign \<and> sint xx < 0); x = (if neg then - xx else xx) in
      put_digits neg (digit_loop k_digits base (unat x)))"

definition printptr :: "string \<Rightarrow> 64 word \<Rightarrow> string" where
  "printptr digits x = ''0x'' @ map (\<lambda>i. digits ! unat (drop_bit 60 (push_bit (4 * i) x))) [0..<16]"

datatype arg = Num "64 word" | Str string

text \<open>The chain of conversions: what to print and how many characters after \<open>c0\<close> it takes.\<close>

datatype conversion = Integer bool base bool | Pointer | String | Percent | Unknown

definition conversion_of :: "char \<Rightarrow> char \<Rightarrow> char \<Rightarrow> conversion \<times> nat" where
  "conversion_of c0 c1 c2 =
     (if c0 = CHR ''d'' then (Integer False Dec True, 0)
      else if c0 = CHR ''l'' \<and> c1 = CHR ''d'' then (Integer True Dec True, 1)
      else if c0 = CHR ''l'' \<and> c1 = CHR ''l'' \<and> c2 = CHR ''d'' then (Integer True Dec True, 2)
      else if c0 = CHR ''u'' then (Integer False Dec False, 0)
      else if c0 = CHR ''l'' \<and> c1 = CHR ''u'' then (Integer True Dec False, 1)
      else if c0 = CHR ''l'' \<and> c1 = CHR ''l'' \<and> c2 = CHR ''u'' then (Integer True Dec False, 2)
      else if c0 = CHR ''x'' then (Integer False Hex False, 0)
      else if c0 = CHR ''l'' \<and> c1 = CHR ''x'' then (Integer True Hex False, 1)
      else if c0 = CHR ''l'' \<and> c1 = CHR ''l'' \<and> c2 = CHR ''x'' then (Integer True Hex False, 2)
      else if c0 = CHR ''p'' then (Pointer, 0)
      else if c0 = CHR ''s'' then (String, 0)
      else if c0 = CHR ''%'' then (Percent, 0)
      else (Unknown, 0))"

type_synonym printint = "bool \<Rightarrow> 64 word \<Rightarrow> base \<Rightarrow> bool \<Rightarrow> string option"

fun convert :: "printint \<Rightarrow> string \<Rightarrow> char \<Rightarrow> conversion \<Rightarrow> arg list \<Rightarrow> (string \<times> arg list) option" where
  "convert pr digits c0 (Integer long base sign) (Num x # ap) = map_option (\<lambda>s. (s, ap)) (pr long x base sign)"
| "convert pr digits c0 Pointer (Num x # ap) = Some (printptr digits x, ap)"
| "convert pr digits c0 String (Str s # ap) = Some (s, ap)"
| "convert pr digits c0 String (Num x # ap) = (if x = 0 then Some (''(null)'', ap) else None)"
| "convert pr digits c0 Percent ap = Some (''%'', ap)"
| "convert pr digits c0 Unknown ap = Some ([CHR ''%'', c0], ap)"
| "convert pr digits c0 _ _ = None"

definition next_char :: "string \<Rightarrow> char" where
  "next_char f = (if f = [] then CHR 0x00 else hd f)"

function format :: "printint \<Rightarrow> string \<Rightarrow> string \<Rightarrow> arg list \<Rightarrow> string option" where
  "format pr digits fmt ap =
     (case fmt of
        [] \<Rightarrow> Some []
      | cx # f \<Rightarrow>
        if cx \<noteq> CHR ''%'' then map_option (Cons cx) (format pr digits f ap)
        else case f of
          [] \<Rightarrow> Some []
        | c0 # f \<Rightarrow>
          (let (cv, k) = conversion_of c0 (next_char f) (next_char (drop 1 f)) in
           case convert pr digits c0 cv ap of
             None \<Rightarrow> None
           | Some (s, ap) \<Rightarrow> map_option (append s) (format pr digits (drop k f) ap)))"
  by pat_completeness auto

termination
  by (relation "measure (\<lambda>(pr, digits, fmt, ap). length fmt)") auto

declare format.simps [simp del]

text \<open>User space: every integer is passed to \<open>printint\<close> as an \<open>int\<close>.\<close>

definition u_vprintf :: "string \<Rightarrow> arg list \<Rightarrow> string option" where
  "u_vprintf = format (\<lambda>long x. u_printint (ucast x)) u_digits"

definition k_format :: "string \<Rightarrow> arg list \<Rightarrow> string option" where
  "k_format = format (\<lambda>long x. k_printint (if long then x else scast (ucast x :: 32 word))) k_digits"

text \<open>The kernel's \<open>printf\<close>: \<open>struct pr\<close>, and the console output so far.\<close>

record printer =
  pr_lock :: spinlock
  locking :: bool
  console :: string

definition k_printf :: "nat \<Rightarrow> string \<Rightarrow> arg list \<Rightarrow> printer \<Rightarrow> (int, printer) outcome" where
  "k_printf me fmt ap s =
     (let lk = locking s in
      bnd (if lk then lock_in pr_lock (\<lambda>l s. s\<lparr>pr_lock := l\<rparr>) me s else Done () s) (\<lambda>_ s.
      case k_format fmt ap of
        None \<Rightarrow> Fault
      | Some out \<Rightarrow>
        let s = s\<lparr>console := console s @ out\<rparr> in
        bnd (if lk then unlock_in pr_lock (\<lambda>l s. s\<lparr>pr_lock := l\<rparr>) me s else Done () s) (\<lambda>_ s.
        Done 0 s)))"

text \<open>\<open>panic\<close> prints without the lock and loops for ever.\<close>

definition panic :: "nat \<Rightarrow> string \<Rightarrow> printer \<Rightarrow> (unit, printer) outcome" where
  "panic me m s =
     (let s = s\<lparr>locking := False\<rparr> in
      bnd (k_printf me ''panic: '' [] s) (\<lambda>_ s.
      bnd (k_printf me (''%s'' @ [CHR 0x0A]) [Str m] s) (\<lambda>_ s. Panic m)))"

definition printfinit :: "printer \<Rightarrow> printer" where
  "printfinit s = s\<lparr>pr_lock := initlock, locking := True\<rparr>"

subsection \<open>The digits of a number\<close>

text \<open>The value of a sequence of digits, and of a signed number.\<close>

definition digit_value :: "string \<Rightarrow> char \<Rightarrow> nat" where
  "digit_value digits c = length (takeWhile (\<lambda>d. d \<noteq> c) digits)"

definition number :: "string \<Rightarrow> nat \<Rightarrow> string \<Rightarrow> nat" where
  "number digits r s = foldl (\<lambda>a c. a * r + digit_value digits c) 0 s"

definition signed_number :: "string \<Rightarrow> nat \<Rightarrow> string \<Rightarrow> int" where
  "signed_number digits r s =
     (if s \<noteq> [] \<and> hd s = CHR ''-'' then - int (number digits r (tl s)) else int (number digits r s))"

lemma digit_value_nth: "distinct digits \<Longrightarrow> k < length digits \<Longrightarrow> digit_value digits (digits ! k) = k"
  unfolding digit_value_def by (induction digits arbitrary: k) (auto simp: nth_Cons split: nat.split)

lemma digits_distinct [simp]: "distinct u_digits" "distinct k_digits" "length u_digits = 16" "length k_digits = 16"
  by (simp_all add: u_digits_def k_digits_def)

lemma radix_bounds [simp]: "radix base \<le> 16" "Suc 0 < radix base" "0 < radix base"
  by (cases base; simp)+

lemma div_radix [simp]: "x div radix base = 0 \<longleftrightarrow> x < radix base" "\<not> x < radix base \<Longrightarrow> x div radix base < x"
  "x mod radix base < 16"
proof -
  show "x div radix base = 0 \<longleftrightarrow> x < radix base" by (cases base) (auto simp: div_eq_0_iff)
  show "\<not> x < radix base \<Longrightarrow> x div radix base < x"
    by (cases base) simp_all
  show "x mod radix base < 16" using radix_bounds(1,3) [of base] by (meson mod_less_divisor order_less_le_trans)
qed

lemma number_snoc: "number digits r (s @ [c]) = number digits r s * r + digit_value digits c"
  by (simp add: number_def)

lemma number_digit_loop:
  assumes "distinct digits" "length digits = 16" shows "number digits (radix base) (rev (digit_loop digits base x)) = x"
proof (induction x rule: less_induct)
  case (less x)
  have d: "digit_value digits (digits ! (x mod radix base)) = x mod radix base"
    using digit_value_nth [OF assms(1), of "x mod radix base"] assms(2) by simp
  show ?case
  proof (cases "x < radix base")
    case True
    then show ?thesis using d by (simp add: digit_loop.simps [of digits base x] number_def)
  next
    case False
    from less [OF div_radix(2) [OF False]] show ?thesis
      using False d by (simp add: digit_loop.simps [of digits base x] number_snoc)
  qed
qed

lemma length_digit_loop: "length (digit_loop digits base x) \<le> Suc n \<longleftrightarrow> x < radix base ^ Suc n"
proof (induction n arbitrary: x)
  case 0
  have "digit_loop digits base y \<noteq> []" for y by (simp add: digit_loop.simps [of digits base y])
  then show ?case by (simp add: digit_loop.simps [of digits base x])
next
  case (Suc n)
  have "x div radix base < radix base ^ Suc n \<longleftrightarrow> x < radix base ^ Suc (Suc n)"
    by (simp add: div_less_iff_less_mult mult.commute)
  moreover have "x < radix base \<Longrightarrow> x < radix base ^ Suc (Suc n)"
    using power_increasing [of 1 "Suc (Suc n)" "radix base"] by (simp del: power_Suc)
  ultimately show ?case
    using Suc [of "x div radix base"] by (cases "x < radix base") (simp_all add: digit_loop.simps [of digits base x] del: power_Suc)
qed

lemma digit_loop_no_minus:
  assumes "length digits = 16" "CHR ''-'' \<notin> set digits" shows "CHR ''-'' \<notin> set (digit_loop digits base x)"
proof (induction x rule: less_induct)
  case (less x)
  have "digits ! (x mod radix base) \<in> set digits" using assms(1) by simp
  then have "digits ! (x mod radix base) \<noteq> CHR ''-''" using assms(2) by metis
  then show ?case using less [of "x div radix base"] by (auto simp: digit_loop.simps [of digits base x])
qed

lemma digits_no_minus: "CHR ''-'' \<notin> set u_digits" "CHR ''-'' \<notin> set k_digits"
  by (simp_all add: u_digits_def k_digits_def)

lemma put_digits_number:
  assumes "distinct digits" "length digits = 16" "CHR ''-'' \<notin> set digits" "put_digits neg (digit_loop digits base x) = Some s"
  shows "signed_number digits (radix base) s = (if neg then - int x else int x)"
proof -
  have "s = (if neg then ''-'' else []) @ rev (digit_loop digits base x)"
    using assms(4) by (auto simp: put_digits_def Let_def split: if_splits)
  moreover have "hd (rev (digit_loop digits base x)) \<noteq> CHR ''-''"
    using digit_loop_no_minus [OF assms(2,3), of base x] digit_loop.simps [of digits base x]
    by (metis hd_in_set list.distinct(1) rev_is_Nil_conv set_rev)
  ultimately show ?thesis using number_digit_loop [OF assms(1,2), of base x] by (simp add: signed_number_def)
qed

lemma uint_neg_sint:
  fixes x :: "'a::len word"
  assumes "sint x < 0" shows "uint (- x) = - sint x"
proof -
  have "- x = word_of_int (- sint x)" by simp
  then have "uint (- x) = take_bit LENGTH('a) (- sint x)" by (metis uint_word_of_int_eq)
  moreover have "- (2 ^ (LENGTH('a) - Suc 0)) \<le> sint x" by (rule sint_greater_eq)
  moreover have "(2::int) ^ (LENGTH('a) - Suc 0) < 2 ^ LENGTH('a)" by (intro power_strict_increasing) simp_all
  ultimately have "- sint x < 2 ^ LENGTH('a)" "uint (- x) = take_bit LENGTH('a) (- sint x)" by linarith+
  then show ?thesis using assms by (simp add: take_bit_int_eq_self)
qed
lemma sint_32: "sint (w :: 32 word) = (if uint w < 2 ^ 31 then uint w else uint w - 2 ^ 32)"
proof -
  have u: "0 \<le> uint w" "uint w < 2 ^ 32" using unsigned_less [of w, where 'a = int] by simp_all
  have "sint w = take_bit 32 (uint w + 2 ^ 31) - 2 ^ 31" by (simp add: sint_uint signed_take_bit_eq_take_bit_shift)
  also have "take_bit 32 (uint w + 2 ^ 31) = (if uint w < 2 ^ 31 then uint w + 2 ^ 31 else uint w - 2 ^ 31)"
  proof (cases "uint w < 2 ^ 31")
    case False
    have "take_bit 32 (uint w + 2 ^ 31) = (uint w - 2 ^ 31 + 2 ^ 32) mod 2 ^ 32" by (simp add: take_bit_eq_mod add.commute)
    also have "\<dots> = (uint w - 2 ^ 31) mod 2 ^ 32" by (simp only: mod_add_self2)
    finally show ?thesis using False u by simp
  qed (use u in \<open>simp add: take_bit_eq_mod\<close>)
  finally show ?thesis by simp
qed

text \<open>
  C30. The user's \<open>printint\<close> prints a number that reads back as its argument, an \<open>int\<close>
  printed as signed or unsigned in either base, and never overruns its buffer.
\<close>

theorem u_printint_reads_back:
  "\<exists>s. u_printint xx base sign = Some s \<and>
     signed_number u_digits (radix base) s = (if sign then sint xx else uint xx)"
proof -
  define neg where "neg = (sign \<and> sint xx < 0)"
  define x where "x = (if neg then - xx else xx)"
  have "unat x < 2 ^ 32" using unsigned_less [of x, where 'a = nat] by simp
  then have "unat x < radix base ^ Suc 9" by (cases base) simp_all
  then have "length (digit_loop u_digits base (unat x)) \<le> 10" using length_digit_loop [of u_digits base "unat x" 9] by simp
  then obtain s where s: "put_digits neg (digit_loop u_digits base (unat x)) = Some s"
    by (cases neg) (auto simp: put_digits_def)
  have v: "(if neg then - int (unat x) else int (unat x)) = (if sign then sint xx else uint xx)"
  proof (cases neg)
    case True
    then show ?thesis using uint_neg_sint [of xx] by (simp add: x_def neg_def)
  next
    case False
    have "uint xx < 2 ^ 32" using unsigned_less [of xx, where 'a = int] by simp
    then show ?thesis using False sint_32 [of xx] by (auto simp: x_def neg_def split: if_splits)
  qed
  have "u_printint xx base sign = Some s" using s by (simp add: u_printint_def Let_def neg_def x_def)
  then show ?thesis using put_digits_number [OF _ _ digits_no_minus(1) s] v by simp
qed

lemma uint_scast_64: "uint (scast (w :: 32 word) :: 64 word) = sint w mod 2 ^ 64"
proof -
  have "scast w = (word_of_int (sint w) :: 64 word)" by (rule scast_eq)
  then show ?thesis by (simp only: uint_word_of_int_eq take_bit_eq_mod) simp
qed

lemma k_printint_None: "k_printint x Dec False = None \<longleftrightarrow> 10 ^ 16 \<le> uint x"
proof -
  have "k_printint x Dec False = None \<longleftrightarrow> \<not> unat x < 10 ^ 16"
    using length_digit_loop [of k_digits Dec "unat x" 15] by (simp add: k_printint_def put_digits_def)
  moreover have "int (10 ^ 16) \<le> int (unat x) \<longleftrightarrow> 10 ^ 16 \<le> unat x" by (rule of_nat_le_iff)
  ultimately show ?thesis by (simp add: not_less)
qed

lemma sign_extended_big: "10 ^ 16 \<le> uint (scast (w :: 32 word) :: 64 word) \<longleftrightarrow> 2 ^ 31 \<le> uint w"
proof -
  have u: "0 \<le> uint w" "uint w < 2 ^ 32" using unsigned_less [of w, where 'a = int] by simp_all
  show ?thesis
  proof (cases "uint w < 2 ^ 31")
    case True
    then show ?thesis unfolding uint_scast_64 sint_32 using u by simp
  next
    case False
    have "(uint w - 2 ^ 32) mod 2 ^ 64 = (uint w - 2 ^ 32 + 2 ^ 64) mod 2 ^ 64" by (simp only: mod_add_self2)
    also have "\<dots> = uint w - 2 ^ 32 + 2 ^ 64" using u by (intro mod_pos_pos_trivial) simp_all
    finally show ?thesis unfolding uint_scast_64 sint_32 using False u by simp
  qed
qed

text \<open>
  C31. The kernel's \<open>printf\<close> overruns the buffer of \<open>printint\<close> exactly when \<open>%u\<close> is
  given an \<open>unsigned int\<close> of \<open>2 ^ 31\<close> or more: the value is read as an \<open>int\<close>, sign
  extended, and printed as a number of twenty digits.
\<close>

theorem k_printf_unsigned_overruns:
  "k_format ''%u'' [Num x] = None \<longleftrightarrow> 2 ^ 31 \<le> uint (ucast x :: 32 word)"
proof -
  have "conversion_of (CHR ''u'') (CHR 0x00) (CHR 0x00) = (Integer False Dec False, 0)" by (simp add: conversion_of_def)
  then show ?thesis
    using k_printint_None [of "scast (ucast x :: 32 word)"] sign_extended_big [of "ucast x"]
    by (cases "k_printint (scast (ucast x :: 32 word)) Dec False")
      (simp_all add: k_format_def format.simps [of _ _ "''%u''"] format.simps [of _ _ "[]"] next_char_def)
qed

end
