(* ===== verification/Bio.thy ===== *)
theory Bio
  imports Spinlock
begin

section \<open>The buffer cache (kernel/bio.c)\<close>

text \<open>
  The cache of disk blocks: \<open>NBUF\<close> buffers in a list ordered by how recently they were
  used.  The doubly linked list is the list \<open>lru\<close> of the indices of the buffers from
  \<open>head.next\<close> on.  A block is a function from byte offsets to bytes.

  The disk is the function \<open>disk\<close> from device and block number to blocks.
  \<open>virtio_disk_rw\<close> is modelled by its effect on it; \<open>writes\<close> lists the blocks written
  since boot, in order, which is what a crash can cut short.  \<open>me\<close> is the hart and
  \<open>pid\<close> the process; which sleepers \<open>releasesleep\<close> wakes up is not recorded.
\<close>

subsection \<open>Blocks and little-endian integers\<close>

type_synonym block = "nat \<Rightarrow> 8 word"

definition BSIZE :: nat where "BSIZE = 1024"
definition MAXOPBLOCKS :: nat where "MAXOPBLOCKS = 10"
definition LOGSIZE :: nat where "LOGSIZE = MAXOPBLOCKS * 3"
definition NBUF :: nat where "NBUF = MAXOPBLOCKS * 3"

text \<open>Loads and stores of \<open>uint\<close> and \<open>ushort\<close> values at a byte offset.\<close>

definition byte :: "nat \<Rightarrow> nat \<Rightarrow> 8 word" where
  "byte v k = of_nat (v div 256 ^ k)"

definition ld32 :: "block \<Rightarrow> nat \<Rightarrow> nat" where
  "ld32 b off = unat (b off) + 256 * unat (b (off + 1)) + 256 ^ 2 * unat (b (off + 2)) + 256 ^ 3 * unat (b (off + 3))"

definition st32 :: "nat \<Rightarrow> nat \<Rightarrow> block \<Rightarrow> block" where
  "st32 off v b = b(off := byte v 0, off + 1 := byte v 1, off + 2 := byte v 2, off + 3 := byte v 3)"

definition ld16 :: "block \<Rightarrow> nat \<Rightarrow> nat" where
  "ld16 b off = unat (b off) + 256 * unat (b (off + 1))"

definition st16 :: "nat \<Rightarrow> nat \<Rightarrow> block \<Rightarrow> block" where
  "st16 off v b = b(off := byte v 0, off + 1 := byte v 1)"

subsection \<open>The code\<close>

record buf =
  b_valid :: bool
  b_dev :: nat
  b_blockno :: nat
  b_lock :: sleeplock
  b_refcnt :: nat
  b_data :: block

record bio =
  bc_lock :: spinlock
  bufs :: "nat \<Rightarrow> buf"
  lru :: "nat list"
  disk :: "nat \<Rightarrow> nat \<Rightarrow> block"
  writes :: "(nat \<times> nat \<times> block) list"

abbreviation lock_bcache :: "nat \<Rightarrow> 'a bio_scheme \<Rightarrow> (unit, 'a bio_scheme) outcome" where
  "lock_bcache \<equiv> lock_in bc_lock (\<lambda>l s. s\<lparr>bc_lock := l\<rparr>)"

abbreviation unlock_bcache :: "nat \<Rightarrow> 'a bio_scheme \<Rightarrow> (unit, 'a bio_scheme) outcome" where
  "unlock_bcache \<equiv> unlock_in bc_lock (\<lambda>l s. s\<lparr>bc_lock := l\<rparr>)"

definition upd_buf :: "nat \<Rightarrow> (buf \<Rightarrow> buf) \<Rightarrow> 'a bio_scheme \<Rightarrow> 'a bio_scheme" where
  "upd_buf i f s = s\<lparr>bufs := (bufs s)(i := f (bufs s i))\<rparr>"

definition set_data :: "nat \<Rightarrow> block \<Rightarrow> 'a bio_scheme \<Rightarrow> 'a bio_scheme" where
  "set_data i d = upd_buf i (\<lambda>b. b\<lparr>b_data := d\<rparr>)"

text \<open>A call on the sleep lock of buffer \<open>i\<close>.\<close>

definition on_lock :: "nat \<Rightarrow> (sleeplock \<Rightarrow> ('r, sleeplock) outcome) \<Rightarrow> 'a bio_scheme \<Rightarrow> ('r, 'a bio_scheme) outcome" where
  "on_lock i = zoom (\<lambda>s. b_lock (bufs s i)) (\<lambda>l. upd_buf i (\<lambda>b. b\<lparr>b_lock := l\<rparr>))"

definition binit :: "'a bio_scheme \<Rightarrow> 'a bio_scheme" where
  "binit s = s\<lparr>bc_lock := initlock, lru := rev [0..<NBUF],
     bufs := (\<lambda>i. if i < NBUF then bufs s i\<lparr>b_lock := initsleeplock\<rparr> else bufs s i)\<rparr>"

definition bget :: "nat \<Rightarrow> int \<Rightarrow> nat \<Rightarrow> nat \<Rightarrow> 'a bio_scheme \<Rightarrow> (nat, 'a bio_scheme) outcome" where
  "bget me pid dev bn s =
     bnd (lock_bcache me s) (\<lambda>_ s.
     case find (\<lambda>i. b_dev (bufs s i) = dev \<and> b_blockno (bufs s i) = bn) (lru s) of
       Some i \<Rightarrow>
         bnd (unlock_bcache me (upd_buf i (\<lambda>b. b\<lparr>b_refcnt := b_refcnt b + 1\<rparr>) s)) (\<lambda>_ s.
         bnd (on_lock i (acquiresleep me pid i) s) (\<lambda>_ s. Done i s))
     | None \<Rightarrow>
         (case find (\<lambda>i. b_refcnt (bufs s i) = 0) (rev (lru s)) of
            Some i \<Rightarrow>
              bnd (unlock_bcache me
                (upd_buf i (\<lambda>b. b\<lparr>b_dev := dev, b_blockno := bn, b_valid := False, b_refcnt := 1\<rparr>) s)) (\<lambda>_ s.
              bnd (on_lock i (acquiresleep me pid i) s) (\<lambda>_ s. Done i s))
          | None \<Rightarrow> Panic ''bget: no buffers''))"

definition virtio_disk_rw :: "nat \<Rightarrow> bool \<Rightarrow> 'a bio_scheme \<Rightarrow> 'a bio_scheme" where
  "virtio_disk_rw i write s =
     (let b = bufs s i in
      if write
      then s\<lparr>disk := (disk s)(b_dev b := (disk s (b_dev b))(b_blockno b := b_data b)),
             writes := writes s @ [(b_dev b, b_blockno b, b_data b)]\<rparr>
      else set_data i (disk s (b_dev b) (b_blockno b)) s)"

definition bread :: "nat \<Rightarrow> int \<Rightarrow> nat \<Rightarrow> nat \<Rightarrow> 'a bio_scheme \<Rightarrow> (nat, 'a bio_scheme) outcome" where
  "bread me pid dev bn s =
     bnd (bget me pid dev bn s) (\<lambda>i s.
     if b_valid (bufs s i) then Done i s
     else Done i (upd_buf i (\<lambda>b. b\<lparr>b_valid := True\<rparr>) (virtio_disk_rw i False s)))"

definition bwrite :: "nat \<Rightarrow> int \<Rightarrow> nat \<Rightarrow> 'a bio_scheme \<Rightarrow> (unit, 'a bio_scheme) outcome" where
  "bwrite me pid i s =
     bnd (on_lock i (holdingsleep me pid) s) (\<lambda>h s.
     if \<not> h then Panic ''bwrite'' else Done () (virtio_disk_rw i True s))"

text \<open>\<open>refcnt\<close> is a \<open>uint\<close>.\<close>

definition dec_ref :: "buf \<Rightarrow> buf" where
  "dec_ref b = b\<lparr>b_refcnt := (b_refcnt b + (2 ^ 32 - 1)) mod 2 ^ 32\<rparr>"

definition brelse :: "nat \<Rightarrow> int \<Rightarrow> nat \<Rightarrow> 'a bio_scheme \<Rightarrow> (unit, 'a bio_scheme) outcome" where
  "brelse me pid i s =
     bnd (on_lock i (holdingsleep me pid) s) (\<lambda>h s.
     if \<not> h then Panic ''brelse''
     else
       bnd (on_lock i (releasesleep me i) s) (\<lambda>_ s.
       bnd (lock_bcache me s) (\<lambda>_ s.
       let s = upd_buf i dec_ref s;
           s = (if b_refcnt (bufs s i) = 0 then s\<lparr>lru := i # remove1 i (lru s)\<rparr> else s) in
       unlock_bcache me s)))"

definition bpin :: "nat \<Rightarrow> nat \<Rightarrow> 'a bio_scheme \<Rightarrow> (unit, 'a bio_scheme) outcome" where
  "bpin me i s =
     bnd (lock_bcache me s) (\<lambda>_ s.
     unlock_bcache me (upd_buf i (\<lambda>b. b\<lparr>b_refcnt := b_refcnt b + 1\<rparr>) s))"

definition bunpin :: "nat \<Rightarrow> nat \<Rightarrow> 'a bio_scheme \<Rightarrow> (unit, 'a bio_scheme) outcome" where
  "bunpin me i s = bnd (lock_bcache me s) (\<lambda>_ s. unlock_bcache me (upd_buf i dec_ref s))"

end
