(* ===== verification/Bio_Correct.thy ===== *)
theory Bio_Correct
  imports Bio
begin

section \<open>Correctness of the buffer cache\<close>

text \<open>
  The cache hides the disk: \<open>bread\<close> returns the current content of a block, which is the
  content of its valid buffer or of the disk.  The invariant counts the references: one for
  every pinned block and one for the process that holds the buffer.
\<close>

subsection \<open>Integers in blocks\<close>

lemma byte_sum:
  assumes "v < (2 ^ 32 :: nat)"
  shows "v mod 256 + 256 * (v div 256 mod 256) + 256 ^ 2 * (v div 256 ^ 2 mod 256) + 256 ^ 3 * (v div 256 ^ 3 mod 256) = v"
proof -
  define a b c where "a = v div 256" and "b = a div 256" and "c = b div 256"
  have "v div 256 ^ 2 = b" "v div 256 ^ 3 = c" by (simp_all add: a_def b_def c_def div_mult2_eq power2_eq_square power3_eq_cube)
  moreover have "c < 256" using assms by (simp add: a_def b_def c_def less_mult_imp_div_less)
  moreover have "v = 256 * a + v mod 256" "a = 256 * b + a mod 256" "b = 256 * c + b mod 256"
    by (simp_all add: a_def b_def c_def)
  ultimately show ?thesis unfolding a_def [symmetric] by simp
qed

lemma unat_byte: "unat (byte v k) = v div 256 ^ k mod 256"
  by (simp add: byte_def unat_of_nat)

lemma ld32_st32 [simp]: "v < 2 ^ 32 \<Longrightarrow> ld32 (st32 off v b) off = v"
  using byte_sum [of v] by (simp add: ld32_def st32_def unat_byte)

lemma ld32_st32_other [simp]: "off' + 4 \<le> off \<or> off + 4 \<le> off' \<Longrightarrow> ld32 (st32 off v b) off' = ld32 b off'"
  by (auto simp: ld32_def st32_def)

lemma ld16_st16 [simp]: "v < 2 ^ 16 \<Longrightarrow> ld16 (st16 off v b) off = v"
proof -
  assume "v < 2 ^ 16"
  then have "v div 256 < 256" by (simp add: less_mult_imp_div_less)
  then have "v mod 256 + 256 * (v div 256 mod 256) = v" by simp
  then show ?thesis by (simp add: ld16_def st16_def unat_byte)
qed

lemma ld16_st16_other [simp]: "off' + 2 \<le> off \<or> off + 2 \<le> off' \<Longrightarrow> ld16 (st16 off v b) off' = ld16 b off'"
  by (auto simp: ld16_def st16_def)

subsection \<open>The invariant\<close>

definition key :: "'a bio_scheme \<Rightarrow> nat \<Rightarrow> nat \<times> nat" where
  "key s i = (b_dev (bufs s i), b_blockno (bufs s i))"

abbreviation rcnt :: "'a bio_scheme \<Rightarrow> nat \<Rightarrow> nat" where "rcnt s i \<equiv> b_refcnt (bufs s i)"
abbreviation bdata :: "'a bio_scheme \<Rightarrow> nat \<Rightarrow> block" where "bdata s i \<equiv> b_data (bufs s i)"

definition dsk :: "'a bio_scheme \<Rightarrow> nat \<times> nat \<Rightarrow> block" where
  "dsk s k = disk s (fst k) (snd k)"

text \<open>The content of a block: that of its valid buffer, or that of the disk.\<close>

definition view :: "'a bio_scheme \<Rightarrow> nat \<times> nat \<Rightarrow> block" where
  "view s k = (case find (\<lambda>i. key s i = k \<and> b_valid (bufs s i)) [0..<NBUF] of Some i \<Rightarrow> bdata s i | None \<Rightarrow> dsk s k)"

definition held_lock :: "int \<Rightarrow> sleeplock" where
  "held_lock pid = \<lparr>sl_locked = 1, sl_lk = initlock, sl_pid = pid\<rparr>"

text \<open>\<open>P\<close> are the pinned blocks, \<open>H\<close> the buffers that process \<open>pid\<close> has locked.\<close>

definition bio_ok :: "(nat \<times> nat) set \<Rightarrow> nat set \<Rightarrow> int \<Rightarrow> 'a bio_scheme \<Rightarrow> bool" where
  "bio_ok P H pid s \<longleftrightarrow> unheld (bc_lock s) \<and> distinct (lru s) \<and> set (lru s) = {..<NBUF} \<and>
     (\<forall>i<NBUF. \<forall>j<NBUF. key s i = key s j \<longrightarrow> b_dev (bufs s i) \<noteq> 0 \<longrightarrow> i = j) \<and>
     (\<forall>i<NBUF. rcnt s i = of_bool (key s i \<in> P) + of_bool (i \<in> H)) \<and>
     (\<forall>i<NBUF. b_lock (bufs s i) = (if i \<in> H then held_lock pid else initsleeplock)) \<and>
     (\<forall>i\<in>H. i < NBUF \<and> b_valid (bufs s i) \<and> b_dev (bufs s i) \<noteq> 0) \<and>
     (\<forall>k\<in>P. fst k \<noteq> 0 \<and> (\<exists>i<NBUF. key s i = k \<and> b_valid (bufs s i))) \<and>
     (\<forall>i<NBUF. b_valid (bufs s i) \<longleftrightarrow> b_dev (bufs s i) \<noteq> 0) \<and>
     (\<forall>i<NBUF. b_valid (bufs s i) \<longrightarrow> key s i \<notin> P \<longrightarrow> i \<notin> H \<longrightarrow> bdata s i = dsk s (key s i))"

lemma bio_okD:
  assumes "bio_ok P H pid s"
  shows "unheld (bc_lock s)" "distinct (lru s)" "set (lru s) = {..<NBUF}"
    "\<And>i j. i < NBUF \<Longrightarrow> j < NBUF \<Longrightarrow> key s i = key s j \<Longrightarrow> b_dev (bufs s i) \<noteq> 0 \<Longrightarrow> i = j"
    "\<And>i. i < NBUF \<Longrightarrow> rcnt s i = of_bool (key s i \<in> P) + of_bool (i \<in> H)"
    "\<And>i. i < NBUF \<Longrightarrow> b_lock (bufs s i) = (if i \<in> H then held_lock pid else initsleeplock)"
    "\<And>i. i \<in> H \<Longrightarrow> i < NBUF \<and> b_valid (bufs s i) \<and> b_dev (bufs s i) \<noteq> 0"
    "\<And>k. k \<in> P \<Longrightarrow> fst k \<noteq> 0 \<and> (\<exists>i<NBUF. key s i = k \<and> b_valid (bufs s i))"
    "\<And>i. i < NBUF \<Longrightarrow> b_valid (bufs s i) \<longleftrightarrow> b_dev (bufs s i) \<noteq> 0"
    "\<And>i. i < NBUF \<Longrightarrow> b_valid (bufs s i) \<Longrightarrow> key s i \<notin> P \<Longrightarrow> i \<notin> H \<Longrightarrow> bdata s i = dsk s (key s i)"
  using assms unfolding bio_ok_def by (elim conjE, simp)+

lemma view_buf:
  assumes ok: "bio_ok P H pid s" and i: "i < NBUF" "b_valid (bufs s i)" shows "view s (key s i) = bdata s i"
proof -
  obtain j where j: "find (\<lambda>j. key s j = key s i \<and> b_valid (bufs s j)) [0..<NBUF] = Some j"
    using i by (metis (mono_tags, lifting) find_None_iff2 not_Some_eq atLeastLessThan_iff le0 set_upt)
  then have "j < NBUF" "key s j = key s i" "b_valid (bufs s j)" by (auto simp: find_Some_iff)
  then have "j = i" using bio_okD(4) [OF ok] bio_okD(9) [OF ok] i(1) by blast
  then show ?thesis using j by (simp add: view_def)
qed

lemma view_disk: "(\<And>i. i < NBUF \<Longrightarrow> b_valid (bufs s i) \<Longrightarrow> key s i \<noteq> k) \<Longrightarrow> view s k = dsk s k"
proof -
  assume "\<And>i. i < NBUF \<Longrightarrow> b_valid (bufs s i) \<Longrightarrow> key s i \<noteq> k"
  then have "find (\<lambda>j. key s j = k \<and> b_valid (bufs s j)) [0..<NBUF] = None" by (auto simp: find_None_iff)
  then show ?thesis by (simp add: view_def)
qed

text \<open>A block that is neither pinned nor in use is the same in the cache and on the disk.\<close>

lemma view_clean:
  assumes ok: "bio_ok P H pid s" and "k \<notin> P" "\<And>i. i \<in> H \<Longrightarrow> key s i \<noteq> k" shows "view s k = dsk s k"
proof (cases "\<exists>i<NBUF. b_valid (bufs s i) \<and> key s i = k")
  case True
  then obtain i where "i < NBUF" "b_valid (bufs s i)" "key s i = k" by blast
  then show ?thesis using view_buf [OF ok] bio_okD(10) [OF ok] assms(2,3) by metis
next
  case False
  then show ?thesis using view_disk by blast
qed

text \<open>A change of one buffer, as every operation of the cache makes.\<close>

definition bkey :: "buf \<Rightarrow> nat \<times> nat" where
  "bkey b = (b_dev b, b_blockno b)"

lemma key_eq: "key s i = bkey (bufs s i)"
  by (simp add: key_def bkey_def)

lemma change_buf:
  assumes ok: "bio_ok P H pid s" and i: "i < NBUF" and t: "bufs t = (bufs s)(i := b)" and dev: "b_dev b \<noteq> 0" "b_valid b"
    and frame: "unheld (bc_lock t)" "distinct (lru t)" "set (lru t) = set (lru s)"
    and dk: "\<And>k. k \<noteq> bkey b \<Longrightarrow> dsk t k = dsk s k"
    and uniq: "\<And>j. j < NBUF \<Longrightarrow> j \<noteq> i \<Longrightarrow> key s j \<noteq> bkey b"
    and others: "\<And>j. j < NBUF \<Longrightarrow> j \<noteq> i \<Longrightarrow> (key s j \<in> P' \<longleftrightarrow> key s j \<in> P) \<and> (j \<in> H' \<longleftrightarrow> j \<in> H)"
    and b: "b_refcnt b = of_bool (bkey b \<in> P') + of_bool (i \<in> H')" "b_lock b = (if i \<in> H' then held_lock pid else initsleeplock)"
      "bkey b \<notin> P' \<Longrightarrow> i \<notin> H' \<Longrightarrow> b_data b = dsk t (bkey b)"
    and sub: "H' \<subseteq> insert i H" "\<And>k. k \<in> P' \<Longrightarrow> k = bkey b \<or> k \<in> P \<and> k \<noteq> key s i"
  shows "bio_ok P' H' pid t"
    "view t k = (if k = bkey b then b_data b else if k = key s i \<and> b_valid (bufs s i) then dsk s k else view s k)"
proof -
  note D = bio_okD [OF ok]
  have kt: "key t j = (if j = i then bkey b else key s j)" for j by (simp add: t key_eq)
  have e: "dsk t (key s j) = dsk s (key s j)" if "j < NBUF" "j \<noteq> i" for j
    using dk uniq that by blast
  have inj: "i' = j" if "i' < NBUF" "j < NBUF" "key t i' = key t j" "b_dev (bufs t i') \<noteq> 0" for i' j
  proof (cases "i' = i \<or> j = i")
    case True
    then show ?thesis using that(1-3) uniq [of i'] uniq [of j] by (auto simp: kt split: if_splits)
  next
    case False
    then show ?thesis using D(4) [OF that(1,2)] that(3,4) by (simp add: kt t)
  qed
  have pins: "fst k \<noteq> 0 \<and> (\<exists>j<NBUF. key t j = k \<and> b_valid (bufs t j))" if k: "k \<in> P'" for k
  proof (cases "k = bkey b")
    case True
    then show ?thesis using k i dev by (auto simp: kt t bkey_def intro!: exI [of _ i])
  next
    case False
    then have k': "k \<in> P" "k \<noteq> key s i" using sub(2) [OF k] by auto
    then obtain j where "j < NBUF" "key s j = k" "b_valid (bufs s j)" "fst k \<noteq> 0" using D(8) by blast
    then show ?thesis using k'(2) by (intro conjI exI [of _ j]) (auto simp: kt t)
  qed
  have cnt: "rcnt t j = of_bool (key t j \<in> P') + of_bool (j \<in> H')"
    "b_lock (bufs t j) = (if j \<in> H' then held_lock pid else initsleeplock)"
    "b_valid (bufs t j) \<longleftrightarrow> b_dev (bufs t j) \<noteq> 0"
    "b_valid (bufs t j) \<Longrightarrow> key t j \<notin> P' \<Longrightarrow> j \<notin> H' \<Longrightarrow> bdata t j = dsk t (key t j)" if j: "j < NBUF" for j
    using D(5,6,9,10) [OF j] others [OF j] b dev e [OF j] by (auto simp: kt t)
  have held: "j < NBUF \<and> b_valid (bufs t j) \<and> b_dev (bufs t j) \<noteq> 0" if "j \<in> H'" for j
    using that D(7) [of j] sub(1) dev i by (auto simp: t)
  show bt: "bio_ok P' H' pid t"
    unfolding bio_ok_def using frame(1,2) frame(3) [unfolded D(3)] inj pins cnt held by blast
  have vi: "view t (bkey b) = b_data b" using view_buf [OF bt i] dev by (simp add: kt t)
  show "view t k = (if k = bkey b then b_data b else if k = key s i \<and> b_valid (bufs s i) then dsk s k else view s k)"
  proof (cases "k = bkey b")
    case kb: False
    show ?thesis
    proof (cases "\<exists>j<NBUF. j \<noteq> i \<and> key s j = k \<and> b_valid (bufs s j)")
      case True
      then obtain j where j: "j < NBUF" "j \<noteq> i" "key s j = k" "b_valid (bufs s j)" by blast
      have "view t k = bdata s j" using view_buf [OF bt j(1)] j by (simp add: kt t)
      moreover have "k \<noteq> key s i" using D(4) [OF j(1) i] D(9) [OF j(1)] j by blast
      ultimately show ?thesis using view_buf [OF ok j(1,4)] j(3) kb by simp
    next
      case False
      have "view t k = dsk t k" by (rule view_disk) (use False kb in \<open>auto simp: kt t\<close>)
      moreover have "view s k = dsk s k" if "k \<noteq> key s i \<or> \<not> b_valid (bufs s i)"
        by (rule view_disk) (use False that in metis)
      ultimately show ?thesis using dk [OF kb] kb by auto
    qed
  qed (simp add: vi)
qed

subsection \<open>The operations\<close>

lemma on_lock_eq:
  assumes "f (b_lock (bufs s i)) = Done r l"
  shows "on_lock i f s = Done r (upd_buf i (\<lambda>b. b\<lparr>b_lock := l\<rparr>) s)"
  using assms by (simp add: on_lock_def)

lemma held_lock_simps [simp]:
  "acquiresleep me pid x initsleeplock = Done () (held_lock pid)"
  "holdingsleep me pid (held_lock pid) = Done True (held_lock pid)"
  "releasesleep me x (held_lock pid) = Done (C_sleeplock x) initsleeplock"
proof -
  show "acquiresleep me pid x initsleeplock = Done () (held_lock pid)"
    using acquiresleep_free [of initsleeplock me pid x] by (simp add: initsleeplock_def held_lock_def unheld_def)
  show "holdingsleep me pid (held_lock pid) = Done True (held_lock pid)"
    using holdingsleep_eq [of "held_lock pid" me pid] by (simp add: held_lock_def unheld_def)
  show "releasesleep me x (held_lock pid) = Done (C_sleeplock x) initsleeplock"
    using releasesleep_eq [of "held_lock pid" me x] by (simp add: initsleeplock_def held_lock_def unheld_def)
qed

lemma bnd_lock_cycle:
  assumes "unheld (bc_lock s)"
  shows "lock_bcache me s = Done () (s\<lparr>bc_lock := \<lparr>locked = 1, cpu = Some me\<rparr>\<rparr>)"
    "bc_lock t = \<lparr>locked = 1, cpu = Some me\<rparr> \<Longrightarrow> unlock_bcache me t = Done () (t\<lparr>bc_lock := initlock\<rparr>)"
  using assms by (auto simp: held_by_def)

text \<open>What an operation leaves alone.\<close>

definition bio_frame :: "'a bio_scheme \<Rightarrow> 'a bio_scheme \<Rightarrow> bool" where
  "bio_frame s t \<longleftrightarrow> disk t = disk s \<and> writes t = writes s \<and> bio.more t = bio.more s"

lemma same_lock: "unheld (bc_lock s) \<Longrightarrow> s\<lparr>bc_lock := initlock\<rparr> = s"
  by (cases s) (simp add: unheld_def)

lemma bget_eq:
  assumes ok: "bio_ok P H pid s" and i: "i < NBUF" "i \<notin> H"
  shows "find (\<lambda>i. b_dev (bufs s i) = dev \<and> b_blockno (bufs s i) = bn) (lru s) = Some i \<Longrightarrow>
      bget me pid dev bn s = Done i (upd_buf i (\<lambda>b. b\<lparr>b_refcnt := b_refcnt b + 1, b_lock := held_lock pid\<rparr>) s)"
    "find (\<lambda>i. b_dev (bufs s i) = dev \<and> b_blockno (bufs s i) = bn) (lru s) = None \<Longrightarrow>
      find (\<lambda>i. b_refcnt (bufs s i) = 0) (rev (lru s)) = Some i \<Longrightarrow>
      bget me pid dev bn s =
        Done i (upd_buf i (\<lambda>b. b\<lparr>b_dev := dev, b_blockno := bn, b_valid := False, b_refcnt := 1, b_lock := held_lock pid\<rparr>) s)"
proof -
  note l = bio_okD(1) [OF ok] and k = bio_okD(6) [OF ok i(1)]
  have a: "bnd (on_lock i (acquiresleep me pid i) t) (\<lambda>_ s. Done i s) =
      Done i (upd_buf i (\<lambda>b. b\<lparr>b_lock := held_lock pid\<rparr>) t)" if "b_lock (bufs t i) = initsleeplock" for t :: "'a bio_scheme"
    using that by (simp add: on_lock_eq)
  show "bget me pid dev bn s = Done i (upd_buf i (\<lambda>b. b\<lparr>b_refcnt := b_refcnt b + 1, b_lock := held_lock pid\<rparr>) s)"
    if "find (\<lambda>i. b_dev (bufs s i) = dev \<and> b_blockno (bufs s i) = bn) (lru s) = Some i"
    using that l k i(2) by (simp add: bget_def held_by_def upd_buf_def a same_lock)
  show "bget me pid dev bn s =
      Done i (upd_buf i (\<lambda>b. b\<lparr>b_dev := dev, b_blockno := bn, b_valid := False, b_refcnt := 1, b_lock := held_lock pid\<rparr>) s)"
    if "find (\<lambda>i. b_dev (bufs s i) = dev \<and> b_blockno (bufs s i) = bn) (lru s) = None"
      "find (\<lambda>i. b_refcnt (bufs s i) = 0) (rev (lru s)) = Some i"
    using that l k i(2) by (simp add: bget_def held_by_def upd_buf_def a same_lock)
qed

lemma free_buffer:
  assumes ok: "bio_ok P H pid s" and fin: "finite P" and room: "card P + card H < NBUF"
  obtains i where "i < NBUF" "rcnt s i = 0"
proof -
  let ?U = "{i. i < NBUF \<and> key s i \<in> P}"
  have "inj_on (key s) ?U" using bio_okD(4,8) [OF ok] by (auto simp: inj_on_def) (metis fst_conv key_def)
  then have "card ?U \<le> card P" using fin by (intro card_inj_on_le) auto
  moreover have "H \<subseteq> {..<NBUF}" using bio_okD(7) [OF ok] by auto
  then have "finite H" by (rule finite_subset) simp
  ultimately have "card (?U \<union> H) < NBUF" using card_Un_le [of ?U H] room by simp
  then have "\<not> {..<NBUF} \<subseteq> ?U \<union> H" using card_mono [of "?U \<union> H" "{..<NBUF}"] \<open>finite H\<close> by auto
  then obtain i where "i < NBUF" "key s i \<notin> P" "i \<notin> H" by auto
  then show ?thesis using bio_okD(5) [OF ok] by (intro that) auto
qed

text \<open>Changes that leave the buffer to its block.\<close>

lemma touch_buf:
  assumes ok: "bio_ok P H pid s" and i: "i < NBUF" "b_dev (bufs s i) \<noteq> 0"
    and t: "bufs t = (bufs s)(i := b)" "bkey b = key s i" "b_valid b" "b_lock b = (if i \<in> H' then held_lock pid else initsleeplock)"
      "b_refcnt b = of_bool (key s i \<in> P') + of_bool (i \<in> H')" "key s i \<notin> P' \<Longrightarrow> i \<notin> H' \<Longrightarrow> b_data b = dsk t (key s i)"
    and frame: "unheld (bc_lock t)" "distinct (lru t)" "set (lru t) = set (lru s)" "\<And>k. k \<noteq> key s i \<Longrightarrow> dsk t k = dsk s k"
    and sets: "P' - {key s i} = P - {key s i}" "H' - {i} = H - {i}"
  shows "bio_ok P' H' pid t" "view t = (view s)(key s i := b_data b)"
proof -
  have d: "b_dev b \<noteq> 0" using i(2) t(2) by (simp add: bkey_def key_def)
  have u: "key s j \<noteq> key s i" if "j < NBUF" "j \<noteq> i" for j
    using bio_okD(4) [OF ok i(1) that(1)] i(2) that(2) by metis
  have o: "(key s j \<in> P' \<longleftrightarrow> key s j \<in> P) \<and> (j \<in> H' \<longleftrightarrow> j \<in> H)" if "j < NBUF" "j \<noteq> i" for j
    using u [OF that] that(2) sets by blast
  have h: "H' \<subseteq> insert i H" using sets(2) by blast
  have p: "k = bkey b \<or> k \<in> P \<and> k \<noteq> key s i" if "k \<in> P'" for k using sets(1) that t(2) by auto
  note k = frame(4) [folded t(2)] u [folded t(2)] t(5,6) [folded t(2)]
  show "bio_ok P' H' pid t"
    by (rule change_buf(1) [OF ok i(1) t(1) d t(3) frame(1-3)]) (fact k o t(4) h p)+
  have "view t k = (if k = bkey b then b_data b else if k = key s i \<and> b_valid (bufs s i) then dsk s k else view s k)" for k
    by (rule change_buf(2) [OF ok i(1) t(1) d t(3) frame(1-3), of P' H']) (fact k o t(4) h p)+
  then show "view t = (view s)(key s i := b_data b)" using t(2) by (auto simp: fun_eq_iff)
qed

lemma bread_ok:
  assumes ok: "bio_ok P H pid s" and dev: "dev \<noteq> 0" and nh: "\<And>i. i \<in> H \<Longrightarrow> key s i \<noteq> (dev, bn)"
    and room: "(dev, bn) \<in> P \<or> card P + card H < NBUF" and fin: "finite P"
  obtains i t where "bread me pid dev bn s = Done i t" "bio_ok P (insert i H) pid t" "i \<notin> H" "key t i = (dev, bn)"
    "bdata t i = view s (dev, bn)" "view t = view s" "bio_frame s t" "\<And>j. j \<in> H \<Longrightarrow> bufs t j = bufs s j"
proof (cases "find (\<lambda>i. b_dev (bufs s i) = dev \<and> b_blockno (bufs s i) = bn) (lru s)")
  case (Some i)
  have m: "i \<in> set (lru s)" "key s i = (dev, bn)" using Some by (auto simp: find_Some_iff key_def)
  then have i: "i < NBUF" "b_dev (bufs s i) \<noteq> 0" using bio_okD(3) [OF ok] dev by (auto simp: key_def)
  have iH: "i \<notin> H" using nh m(2) by blast
  have v: "b_valid (bufs s i)" using bio_okD(9) [OF ok i(1)] i(2) by simp
  let ?b = "(bufs s i)\<lparr>b_refcnt := b_refcnt (bufs s i) + 1, b_lock := held_lock pid\<rparr>"
  let ?t = "upd_buf i (\<lambda>b. b\<lparr>b_refcnt := b_refcnt b + 1, b_lock := held_lock pid\<rparr>) s"
  have "bread me pid dev bn s = Done i ?t"
    using bget_eq(1) [OF ok i(1) iH Some, of me] v by (simp add: bread_def upd_buf_def)
  moreover have C: "bio_ok P (insert i H) pid ?t" "view ?t = (view s)(key s i := b_data ?b)"
    by (rule touch_buf [OF ok i, where b = ?b and P' = P and H' = "insert i H"]; use v bio_okD(1,2) [OF ok] bio_okD(5) [OF ok i(1)] iH in
      \<open>auto simp: upd_buf_def bkey_def key_def dsk_def\<close>)+
  moreover have "view ?t = view s" using C(2) view_buf [OF ok i(1) v] by (auto simp: fun_eq_iff)
  moreover have "key ?t i = (dev, bn)" "bdata ?t i = view s (dev, bn)" "bio_frame s ?t" "\<And>j. j \<in> H \<Longrightarrow> bufs ?t j = bufs s j"
    using m(2) view_buf [OF ok i(1) v] iH by (auto simp: upd_buf_def key_def bio_frame_def)
  ultimately show ?thesis using that iH by blast
next
  case None
  have nc: "key s j \<noteq> (dev, bn)" if "j < NBUF" for j
    using None that bio_okD(3) [OF ok] by (auto simp: find_None_iff key_def)
  then have "card P + card H < NBUF" using room bio_okD(8) [OF ok, of "(dev, bn)"] by blast
  then obtain i0 where "i0 < NBUF" "rcnt s i0 = 0" using free_buffer [OF ok fin] by blast
  then obtain i where f: "find (\<lambda>i. b_refcnt (bufs s i) = 0) (rev (lru s)) = Some i"
    using bio_okD(3) [OF ok] by (cases "find (\<lambda>i. b_refcnt (bufs s i) = 0) (rev (lru s))") (auto simp: find_None_iff)
  then have "rcnt s i = 0" "i \<in> set (rev (lru s))" by (auto simp: find_Some_iff simp del: set_rev dest: nth_mem)
  then have i: "i < NBUF" "rcnt s i = 0" using bio_okD(3) [OF ok] by auto
  have iH: "i \<notin> H" "key s i \<notin> P" using bio_okD(5) [OF ok i(1)] i(2) by auto
  let ?b = "(bufs s i)\<lparr>b_dev := dev, b_blockno := bn, b_refcnt := 1, b_lock := held_lock pid, b_data := disk s dev bn, b_valid := True\<rparr>"
  let ?t = "s\<lparr>bufs := (bufs s)(i := ?b)\<rparr>"
  have r: "bread me pid dev bn s = Done i ?t"
    using bget_eq(2) [OF ok i(1) iH(1) None f, of me] by (simp add: bread_def upd_buf_def virtio_disk_rw_def set_data_def Let_def)
  have kb: "bkey ?b = (dev, bn)" by (simp add: bkey_def)
  have nP: "(dev, bn) \<notin> P" using bio_okD(8) [OF ok, of "(dev, bn)"] nc by blast
  have C: "bio_ok P (insert i H) pid ?t"
    "view ?t k = (if k = bkey ?b then b_data ?b else if k = key s i \<and> b_valid (bufs s i) then dsk s k else view s k)" for k
    by (rule change_buf [OF ok i(1), where b = ?b and P' = P and H' = "insert i H"]; use dev bio_okD(1,2) [OF ok] nc nP iH kb in \<open>auto simp: dsk_def\<close>)+
  have vd: "view s (dev, bn) = disk s dev bn" using view_disk [of s "(dev, bn)"] nc by (simp add: dsk_def)
  have "view ?t = view s" (is "?v = _")
  proof
    fix k show "?v k = view s k"
    using C(2) [of k] vd view_clean [OF ok iH(2)] view_buf [OF ok i(1)] bio_okD(10) [OF ok i(1)] iH kb by (auto simp: dsk_def)
  qed
  then show ?thesis
    by (intro that [OF r C(1) iH(1)]) (use vd iH(1) in \<open>auto simp: key_def bio_frame_def\<close>)
qed

lemma set_data_ok:
  assumes ok: "bio_ok P H pid s" and i: "i \<in> H"
  shows "bio_ok P H pid (set_data i d s)" "view (set_data i d s) = (view s)(key s i := d)" "bio_frame s (set_data i d s)"
    "bufs (set_data i d s) = (bufs s)(i := (bufs s i)\<lparr>b_data := d\<rparr>)"
proof -
  note h = bio_okD(7) [OF ok i]
  have n: "i < NBUF" "b_dev (bufs s i) \<noteq> 0" using h by auto
  show "bufs (set_data i d s) = (bufs s)(i := (bufs s i)\<lparr>b_data := d\<rparr>)" "bio_frame s (set_data i d s)"
    by (simp_all add: set_data_def upd_buf_def bio_frame_def)
  have "bio_ok P H pid (set_data i d s)" "view (set_data i d s) = (view s)(key s i := b_data ((bufs s i)\<lparr>b_data := d\<rparr>))"
    by (rule touch_buf [OF ok n, where b = "(bufs s i)\<lparr>b_data := d\<rparr>" and P' = P and H' = H];
      use h i bio_okD(1,2) [OF ok] bio_okD(5,6) [OF ok n(1)] in \<open>auto simp: set_data_def upd_buf_def bkey_def key_def dsk_def\<close>)+
  then show "bio_ok P H pid (set_data i d s)" "view (set_data i d s) = (view s)(key s i := d)" by simp_all
qed

lemma upd_lock_same: "b_lock (bufs s i) = l \<Longrightarrow> upd_buf i (\<lambda>b. b\<lparr>b_lock := l\<rparr>) s = s"
proof -
  assume "b_lock (bufs s i) = l"
  then have "bufs s i\<lparr>b_lock := l\<rparr> = bufs s i" by (cases "bufs s i") auto
  then show ?thesis by (simp add: upd_buf_def)
qed

lemma bwrite_ok:
  assumes ok: "bio_ok P H pid s" and i: "i \<in> H"
  obtains t where "bwrite me pid i s = Done () t" "bio_ok P H pid t" "view t = view s" "bufs t = bufs s"
    "disk t = (\<lambda>d n. if (d, n) = key s i then bdata s i else disk s d n)"
    "writes t = writes s @ [(fst (key s i), snd (key s i), bdata s i)]" "bio.more t = bio.more s"
proof -
  note h = bio_okD(7) [OF ok i]
  have n: "i < NBUF" "b_dev (bufs s i) \<noteq> 0" using h by auto
  let ?t = "virtio_disk_rw i True s"
  have l: "b_lock (bufs s i) = held_lock pid" using bio_okD(6) [OF ok n(1)] i by simp
  have same: "upd_buf i (\<lambda>b. b\<lparr>b_lock := held_lock pid\<rparr>) s = s" using l by (rule upd_lock_same)
  have w: "bwrite me pid i s = Done () ?t" using l same by (simp add: bwrite_def on_lock_eq)
  have b: "bufs ?t = bufs s" "bufs ?t = (bufs s)(i := bufs s i)" by (simp_all add: virtio_disk_rw_def Let_def)
  have C: "bio_ok P H pid ?t" "view ?t = (view s)(key s i := b_data (bufs s i))"
    by (rule touch_buf [OF ok n b(2), where P' = P and H' = H];
      use h i l bio_okD(1,2) [OF ok] bio_okD(5) [OF ok n(1)] in \<open>auto simp: virtio_disk_rw_def Let_def bkey_def key_def dsk_def\<close>)+
  have "view ?t = view s" using C(2) view_buf [OF ok n(1)] h by (auto simp: fun_eq_iff)
  then show ?thesis
    by (rule that [OF w C(1) _ b(1)]) (auto simp: virtio_disk_rw_def Let_def key_def fun_eq_iff)
qed

lemma dec_ref_eq: "0 < b_refcnt b \<Longrightarrow> b_refcnt b \<le> 2 \<Longrightarrow> dec_ref b = b\<lparr>b_refcnt := b_refcnt b - 1\<rparr>"
proof -
  assume a: "0 < b_refcnt b" "b_refcnt b \<le> 2"
  have "b_refcnt b + (2 ^ 32 - 1) = b_refcnt b - 1 + 2 ^ 32" using a by simp
  then have "(b_refcnt b + (2 ^ 32 - 1)) mod 2 ^ 32 = (b_refcnt b - 1 + 2 ^ 32) mod 2 ^ 32" by (simp only:)
  also have "\<dots> = b_refcnt b - 1" using a by (simp only: mod_add_self2) simp
  finally show ?thesis by (simp add: dec_ref_def)
qed

lemma brelse_ok:
  assumes ok: "bio_ok P H pid s" and i: "i \<in> H" and cl: "key s i \<in> P \<or> bdata s i = dsk s (key s i)"
  obtains t where "brelse me pid i s = Done () t" "bio_ok P (H - {i}) pid t" "view t = view s" "bio_frame s t"
    "\<And>j. j \<noteq> i \<Longrightarrow> bufs t j = bufs s j"
proof -
  note h = bio_okD(7) [OF ok i]
  have n: "i < NBUF" "b_dev (bufs s i) \<noteq> 0" using h by auto
  have l: "b_lock (bufs s i) = held_lock pid" using bio_okD(6) [OF ok n(1)] i by simp
  have rc: "rcnt s i = of_bool (key s i \<in> P) + 1" using bio_okD(5) [OF ok n(1)] i by simp
  let ?b = "(bufs s i)\<lparr>b_lock := initsleeplock, b_refcnt := of_bool (key s i \<in> P)\<rparr>"
  let ?t = "s\<lparr>bufs := (bufs s)(i := ?b), lru := (if key s i \<in> P then lru s else i # remove1 i (lru s))\<rparr>"
  have same: "upd_buf i (\<lambda>b. b\<lparr>b_lock := held_lock pid\<rparr>) s = s" using l by (rule upd_lock_same)
  have dr: "dec_ref ((bufs s i)\<lparr>b_lock := initsleeplock\<rparr>) = ?b" using rc by (subst dec_ref_eq) auto
  have r: "brelse me pid i s = Done () ?t"
    using l same bio_okD(1) [OF ok] dr
    by (simp add: brelse_def on_lock_eq upd_buf_def held_by_def same_lock Let_def)
  have d: "distinct (lru ?t)" "set (lru ?t) = set (lru s)"
    using bio_okD(2,3) [OF ok] n(1) by (auto simp: set_remove1_eq)
  have C: "bio_ok P (H - {i}) pid ?t" "view ?t = (view s)(key s i := b_data ?b)"
    by (rule touch_buf [OF ok n, where b = ?b and P' = P and H' = "H - {i}"];
      use h i cl d bio_okD(1) [OF ok] in \<open>auto simp: bkey_def key_def dsk_def\<close>)+
  have "view ?t = view s" using C(2) view_buf [OF ok n(1)] h by (auto simp: fun_eq_iff)
  then show ?thesis by (rule that [OF r C(1)]) (auto simp: bio_frame_def)
qed

lemma bpin_ok:
  assumes ok: "bio_ok P H pid s" and i: "i \<in> H" and new: "key s i \<notin> P"
  obtains t where "bpin me i s = Done () t" "bio_ok (insert (key s i) P) H pid t" "view t = view s" "bio_frame s t"
    "\<And>j. key t j = key s j" "bdata t i = bdata s i"
proof -
  note h = bio_okD(7) [OF ok i]
  have n: "i < NBUF" "b_dev (bufs s i) \<noteq> 0" using h by auto
  let ?b = "(bufs s i)\<lparr>b_refcnt := b_refcnt (bufs s i) + 1\<rparr>"
  let ?t = "s\<lparr>bufs := (bufs s)(i := ?b)\<rparr>"
  have r: "bpin me i s = Done () ?t" using bio_okD(1) [OF ok] by (simp add: bpin_def upd_buf_def held_by_def same_lock)
  have C: "bio_ok (insert (key s i) P) H pid ?t" "view ?t = (view s)(key s i := b_data ?b)"
    by (rule touch_buf [OF ok n, where b = ?b and P' = "insert (key s i) P" and H' = H];
      use h i new bio_okD(1,2) [OF ok] bio_okD(5,6) [OF ok n(1)] in \<open>auto simp: bkey_def key_def dsk_def\<close>)+
  have "view ?t = view s" using C(2) view_buf [OF ok n(1)] h by (auto simp: fun_eq_iff)
  then show ?thesis by (rule that [OF r C(1)]) (auto simp: bio_frame_def key_def)
qed

lemma bunpin_ok:
  assumes ok: "bio_ok P H pid s" and i: "i \<in> H" and old: "key s i \<in> P"
  obtains t where "bunpin me i s = Done () t" "bio_ok (P - {key s i}) H pid t" "view t = view s" "bio_frame s t"
    "\<And>j. key t j = key s j" "\<And>j. bdata t j = bdata s j"
proof -
  note h = bio_okD(7) [OF ok i]
  have n: "i < NBUF" "b_dev (bufs s i) \<noteq> 0" using h by auto
  have rc: "rcnt s i = 2" using bio_okD(5) [OF ok n(1)] i old by simp
  let ?b = "(bufs s i)\<lparr>b_refcnt := 1\<rparr>"
  let ?t = "s\<lparr>bufs := (bufs s)(i := ?b)\<rparr>"
  have "dec_ref (bufs s i) = ?b" using rc by (simp add: dec_ref_eq)
  then have r: "bunpin me i s = Done () ?t" using bio_okD(1) [OF ok] by (simp add: bunpin_def upd_buf_def held_by_def same_lock)
  have C: "bio_ok (P - {key s i}) H pid ?t" "view ?t = (view s)(key s i := b_data ?b)"
    by (rule touch_buf [OF ok n, where b = ?b and P' = "P - {key s i}" and H' = H];
      use h i bio_okD(1,2) [OF ok] bio_okD(6) [OF ok n(1)] in \<open>auto simp: bkey_def key_def dsk_def\<close>)+
  have "view ?t = view s" using C(2) view_buf [OF ok n(1)] h by (auto simp: fun_eq_iff)
  then show ?thesis by (rule that [OF r C(1)]) (auto simp: bio_frame_def key_def)
qed

end
