(* ===== verification/Log.thy ===== *)
theory Log
  imports Bio_Correct
begin

section \<open>The log (kernel/log.c)\<close>

text \<open>
  The write-ahead log that makes file system calls atomic across crashes.  The in-memory
  header \<open>log.lh\<close> is the list \<open>lh\<close> of its first \<open>n\<close> block numbers.  A system call
  brackets its work by \<open>begin_op\<close> and \<open>end_op\<close> and passes the blocks it has changed to
  \<open>log_write\<close>, which pins them in the cache; the last \<open>end_op\<close> commits them.
  \<open>end_op\<close> returns the channels it wakes up.
\<close>

subsection \<open>The code\<close>

record log_state = bio +
  log_lock :: spinlock
  log_start :: nat
  log_size :: nat
  outstanding :: int
  committing :: bool
  log_dev :: nat
  lh :: "nat list"

record superblock =
  sb_magic :: nat
  sb_size :: nat
  sb_nblocks :: nat
  sb_ninodes :: nat
  sb_nlog :: nat
  sb_logstart :: nat
  sb_inodestart :: nat
  sb_bmapstart :: nat

abbreviation lock_log :: "nat \<Rightarrow> 'a log_state_scheme \<Rightarrow> (unit, 'a log_state_scheme) outcome" where
  "lock_log \<equiv> lock_in log_lock (\<lambda>l s. s\<lparr>log_lock := l\<rparr>)"

abbreviation unlock_log :: "nat \<Rightarrow> 'a log_state_scheme \<Rightarrow> (unit, 'a log_state_scheme) outcome" where
  "unlock_log \<equiv> unlock_in log_lock (\<lambda>l s. s\<lparr>log_lock := l\<rparr>)"

fun install_loop :: "nat \<Rightarrow> int \<Rightarrow> bool \<Rightarrow> nat \<Rightarrow> nat list \<Rightarrow> 'a log_state_scheme \<Rightarrow> (unit, 'a log_state_scheme) outcome" where
  "install_loop me pid recovering tail [] s = Done () s"
| "install_loop me pid recovering tail (b # bs) s =
     bnd (bread me pid (log_dev s) (log_start s + tail + 1) s) (\<lambda>lbuf s.
     bnd (bread me pid (log_dev s) b s) (\<lambda>dbuf s.
     bnd (bwrite me pid dbuf (set_data dbuf (b_data (bufs s lbuf)) s)) (\<lambda>_ s.
     bnd (if recovering then Done () s else bunpin me dbuf s) (\<lambda>_ s.
     bnd (brelse me pid lbuf s) (\<lambda>_ s.
     bnd (brelse me pid dbuf s) (\<lambda>_ s.
     install_loop me pid recovering (tail + 1) bs s))))))"

definition install_trans :: "nat \<Rightarrow> int \<Rightarrow> bool \<Rightarrow> 'a log_state_scheme \<Rightarrow> (unit, 'a log_state_scheme) outcome" where
  "install_trans me pid recovering s = install_loop me pid recovering 0 (lh s) s"

text \<open>The header block: the count, then the block numbers.  A negative count is an empty
  log, and a count above \<open>LOGSIZE\<close> overruns \<open>log.lh.block\<close>.\<close>

definition read_head :: "nat \<Rightarrow> int \<Rightarrow> 'a log_state_scheme \<Rightarrow> (unit, 'a log_state_scheme) outcome" where
  "read_head me pid s =
     bnd (bread me pid (log_dev s) (log_start s) s) (\<lambda>i s.
     let d = b_data (bufs s i); n = ld32 d 0 in
     if 2 ^ 31 \<le> n then brelse me pid i (s\<lparr>lh := []\<rparr>)
     else if LOGSIZE < n then Fault
     else brelse me pid i (s\<lparr>lh := map (\<lambda>j. ld32 d (4 + 4 * j)) [0..<n]\<rparr>))"

fun put_blocks :: "nat \<Rightarrow> nat list \<Rightarrow> block \<Rightarrow> block" where
  "put_blocks off [] d = d"
| "put_blocks off (b # bs) d = put_blocks (off + 4) bs (st32 off b d)"

definition write_head :: "nat \<Rightarrow> int \<Rightarrow> 'a log_state_scheme \<Rightarrow> (unit, 'a log_state_scheme) outcome" where
  "write_head me pid s =
     bnd (bread me pid (log_dev s) (log_start s) s) (\<lambda>i s.
     let d = put_blocks 4 (lh s) (st32 0 (length (lh s)) (b_data (bufs s i))) in
     bnd (bwrite me pid i (set_data i d s)) (\<lambda>_ s.
     brelse me pid i s))"

definition recover_from_log :: "nat \<Rightarrow> int \<Rightarrow> 'a log_state_scheme \<Rightarrow> (unit, 'a log_state_scheme) outcome" where
  "recover_from_log me pid s =
     bnd (read_head me pid s) (\<lambda>_ s.
     bnd (install_trans me pid True s) (\<lambda>_ s.
     write_head me pid (s\<lparr>lh := []\<rparr>)))"

definition initlog :: "nat \<Rightarrow> int \<Rightarrow> nat \<Rightarrow> superblock \<Rightarrow> 'a log_state_scheme \<Rightarrow> (unit, 'a log_state_scheme) outcome" where
  "initlog me pid dev sb s =
     (if BSIZE \<le> 4 + 4 * LOGSIZE then Panic ''initlog: too big logheader''
      else recover_from_log me pid
        (s\<lparr>log_lock := initlock, log_start := sb_logstart sb, log_size := sb_nlog sb, log_dev := dev\<rparr>))"

definition begin_op :: "nat \<Rightarrow> 'a log_state_scheme \<Rightarrow> (unit, 'a log_state_scheme) outcome" where
  "begin_op me s =
     bnd (lock_log me s) (\<lambda>_ s.
     if committing s then bnd (unlock_log me s) (\<lambda>_ s. Sleep C_log s)
     else if int (length (lh s)) + (outstanding s + 1) * int MAXOPBLOCKS > int LOGSIZE
     then bnd (unlock_log me s) (\<lambda>_ s. Sleep C_log s)
     else unlock_log me (s\<lparr>outstanding := outstanding s + 1\<rparr>))"

fun write_log_loop :: "nat \<Rightarrow> int \<Rightarrow> nat \<Rightarrow> nat list \<Rightarrow> 'a log_state_scheme \<Rightarrow> (unit, 'a log_state_scheme) outcome" where
  "write_log_loop me pid tail [] s = Done () s"
| "write_log_loop me pid tail (b # bs) s =
     bnd (bread me pid (log_dev s) (log_start s + tail + 1) s) (\<lambda>to s.
     bnd (bread me pid (log_dev s) b s) (\<lambda>from s.
     bnd (bwrite me pid to (set_data to (b_data (bufs s from)) s)) (\<lambda>_ s.
     bnd (brelse me pid from s) (\<lambda>_ s.
     bnd (brelse me pid to s) (\<lambda>_ s.
     write_log_loop me pid (tail + 1) bs s)))))"

definition write_log :: "nat \<Rightarrow> int \<Rightarrow> 'a log_state_scheme \<Rightarrow> (unit, 'a log_state_scheme) outcome" where
  "write_log me pid s = write_log_loop me pid 0 (lh s) s"

definition commit :: "nat \<Rightarrow> int \<Rightarrow> 'a log_state_scheme \<Rightarrow> (unit, 'a log_state_scheme) outcome" where
  "commit me pid s =
     (if 0 < length (lh s) then
        bnd (write_log me pid s) (\<lambda>_ s.
        bnd (write_head me pid s) (\<lambda>_ s.
        bnd (install_trans me pid False s) (\<lambda>_ s.
        write_head me pid (s\<lparr>lh := []\<rparr>))))
      else Done () s)"

definition end_op :: "nat \<Rightarrow> int \<Rightarrow> 'a log_state_scheme \<Rightarrow> (chan list, 'a log_state_scheme) outcome" where
  "end_op me pid s =
     bnd (lock_log me s) (\<lambda>_ s.
     let s = s\<lparr>outstanding := outstanding s - 1\<rparr> in
     if committing s then Panic ''log.committing''
     else if outstanding s = 0 then
       bnd (unlock_log me (s\<lparr>committing := True\<rparr>)) (\<lambda>_ s.
       bnd (commit me pid s) (\<lambda>_ s.
       bnd (lock_log me s) (\<lambda>_ s.
       bnd (unlock_log me (s\<lparr>committing := False\<rparr>)) (\<lambda>_ s. Done [C_log] s))))
     else bnd (unlock_log me s) (\<lambda>_ s. Done [C_log] s))"

text \<open>Block \<open>i\<close> of \<open>lh\<close> with \<open>lh ! i = blockno\<close> is written with the same number again, so
  an absorbed write leaves \<open>lh\<close> alone.\<close>

definition log_write :: "nat \<Rightarrow> nat \<Rightarrow> 'a log_state_scheme \<Rightarrow> (unit, 'a log_state_scheme) outcome" where
  "log_write me i s =
     bnd (lock_log me s) (\<lambda>_ s.
     if LOGSIZE \<le> length (lh s) \<or> int (log_size s) - 1 \<le> int (length (lh s)) then Panic ''too big a transaction''
     else if outstanding s < 1 then Panic ''log_write outside of trans''
     else
       let bn = b_blockno (bufs s i) in
       bnd (if bn \<in> set (lh s) then Done () s
            else bnd (bpin me i s) (\<lambda>_ s. Done () (s\<lparr>lh := lh s @ [bn]\<rparr>))) (\<lambda>_ s.
       unlock_log me s))"

end
