(* ===== verification/Log_Correct.thy ===== *)
theory Log_Correct
  imports Log
begin

section \<open>Correctness of the log\<close>

text \<open>
  What a crash leaves is the disk after some prefix of the writes of \<open>commit\<close>.  The lemmas
  give these writes for \<open>write_log\<close>, \<open>write_head\<close> and \<open>install_trans\<close>, and the disk
  that \<open>initlog\<close> makes of each prefix.
\<close>

subsection \<open>Writes and the header block\<close>

definition apply_writes :: "(nat \<times> nat \<times> block) list \<Rightarrow> (nat \<Rightarrow> nat \<Rightarrow> block) \<Rightarrow> nat \<Rightarrow> nat \<Rightarrow> block" where
  "apply_writes ws D = fold (\<lambda>(d, b, x) D. D(d := (D d)(b := x))) ws D"

lemma apply_writes_simps [simp]:
  "apply_writes [] D = D"
  "apply_writes ((d, b, x) # ws) D = apply_writes ws (D(d := (D d)(b := x)))"
  "apply_writes (ws @ vs) D = apply_writes vs (apply_writes ws D)"
  by (simp_all add: apply_writes_def)

lemma apply_writes_other: "(\<And>x. (d, b, x) \<notin> set ws) \<Longrightarrow> apply_writes ws D d b = D d b"
proof (induction ws arbitrary: D)
  case (Cons w ws)
  obtain d' b' x where w: "w = (d', b', x)" by (cases w)
  have "(d, b) \<noteq> (d', b')" using Cons.prems [of x] w by auto
  moreover have "apply_writes ws E d b = E d b" for E using Cons by auto
  ultimately show ?case by (auto simp: w)
qed simp

lemma apply_writes_last:
  "(d, b, x) \<in> set ws \<Longrightarrow> (\<And>y. (d, b, y) \<in> set ws \<Longrightarrow> y = x) \<Longrightarrow> apply_writes ws D d b = x"
proof (induction ws arbitrary: D)
  case (Cons w ws)
  obtain d' b' x' where w: "w = (d', b', x')" by (cases w)
  show ?case
  proof (cases "(d, b, x) \<in> set ws")
    case True
    have "apply_writes ws (D(d' := (D d')(b' := x'))) d b = x"
      by (rule Cons.IH [OF True]) (use Cons.prems(2) in simp)
    then show ?thesis by (simp add: w)
  next
    case False
    then have "w = (d, b, x)" using Cons.prems(1) by auto
    moreover have "(d, b, y) \<notin> set ws" for y using Cons.prems(2) [of y] False by (metis list.set_intros(2))
    ultimately show ?thesis by (simp add: apply_writes_other)
  qed
qed simp

definition head_of :: "nat list \<Rightarrow> block \<Rightarrow> block" where
  "head_of bs d = put_blocks 4 bs (st32 0 (length bs) d)"

definition parse_head :: "block \<Rightarrow> nat list" where
  "parse_head d = map (\<lambda>j. ld32 d (4 + 4 * j)) [0..<ld32 d 0]"

lemma put_blocks_before: "off' + 4 \<le> off \<Longrightarrow> ld32 (put_blocks off bs d) off' = ld32 d off'"
  by (induction off bs d rule: put_blocks.induct) auto

lemma put_blocks_nth:
  "list_all (\<lambda>b. b < 2 ^ 32) bs \<Longrightarrow> j < length bs \<Longrightarrow> ld32 (put_blocks off bs d) (off + 4 * j) = bs ! j"
proof (induction off bs d arbitrary: j rule: put_blocks.induct)
  case (2 off b bs d)
  then show ?case using put_blocks_before [of off "off + 4" bs "st32 off b d"]
    by (cases j) (auto simp: algebra_simps)
qed simp

lemma parse_head_of:
  assumes "list_all (\<lambda>b. b < 2 ^ 32) bs" "length bs \<le> LOGSIZE"
  shows "parse_head (head_of bs d) = bs" "ld32 (head_of bs d) 0 = length bs"
proof -
  have n: "length bs < 2 ^ 32" using assms(2) by (simp add: LOGSIZE_def MAXOPBLOCKS_def)
  show l: "ld32 (head_of bs d) 0 = length bs" using n by (simp add: head_of_def put_blocks_before)
  show "parse_head (head_of bs d) = bs"
    by (rule nth_equalityI) (use l assms(1) in \<open>auto simp: parse_head_def head_of_def put_blocks_nth\<close>)
qed

subsection \<open>Moving a block between its log slot and its home\<close>

lemma log_same:
  assumes "bio.more t = bio.more s"
  shows "log_dev t = log_dev s" "log_start t = log_start s" "log_size t = log_size s" "lh t = lh s"
    "log_lock t = log_lock s" "outstanding t = outstanding s" "committing t = committing s"
    "log_state.more t = log_state.more s"
  using assms by (cases s, cases t, simp)+

lemma read_pair:
  assumes ok: "bio_ok P {} pid s" and dev: "dev \<noteq> 0" and ne: "lb \<noteq> b" and fin: "finite P"
    and room: "card P < NBUF" "(dev, b) \<in> P \<or> card P + 1 < NBUF"
  obtains i s1 j t where "bread me pid dev lb s = Done i s1" "bio.more s1 = bio.more s" "bread me pid dev b s1 = Done j t"
    "bio_ok P {i, j} pid t" "i \<noteq> j" "key t i = (dev, lb)" "key t j = (dev, b)"
    "bdata t i = view s (dev, lb)" "bdata t j = view s (dev, b)" "view t = view s" "bio_frame s t"
proof -
  obtain i s1 where a: "bread me pid dev lb s = Done i s1" "bio_ok P {i} pid s1" "key s1 i = (dev, lb)"
    "bdata s1 i = view s (dev, lb)" "view s1 = view s" "bio_frame s s1"
    by (rule bread_ok [OF ok dev _ _ fin, of lb me]) (use room in auto)
  obtain j t where b: "bread me pid dev b s1 = Done j t" "bio_ok P {j, i} pid t" "j \<noteq> i" "key t j = (dev, b)"
    "bdata t j = view s1 (dev, b)" "view t = view s1" "bio_frame s1 t" "bufs t i = bufs s1 i"
    by (rule bread_ok [OF a(2) dev _ _ fin, of b me]) (use a ne room in auto)
  show ?thesis
    by (rule that [OF a(1) _ b(1)]) (use a b in \<open>auto simp: bio_frame_def key_def insert_commute\<close>)
qed


lemma store_ok:
  assumes ok: "bio_ok P H pid s" and i: "i \<in> H" and k: "key s i = (dev, b)"
  obtains t where "bwrite me pid i (set_data i d s) = Done () t" "bio_ok P H pid t" "view t = (view s)((dev, b) := d)"
    "bufs t = (bufs s)(i := (bufs s i)\<lparr>b_data := d\<rparr>)" "\<And>m. key t m = key s m"
    "disk t = apply_writes [(dev, b, d)] (disk s)" "writes t = writes s @ [(dev, b, d)]" "bio.more t = bio.more s"
proof -
  let ?t = "set_data i d s"
  note s1 = set_data_ok [OF ok i, of d]
  have k1: "key ?t m = key s m" for m using s1(4) by (simp add: key_def)
  have d1: "bdata ?t i = d" "disk ?t = disk s" "writes ?t = writes s" "bio.more ?t = bio.more s"
    using s1(3,4) by (simp_all add: bio_frame_def)
  obtain t where b: "bwrite me pid i ?t = Done () t" "bio_ok P H pid t" "view t = view ?t" "bufs t = bufs ?t"
    "disk t = (\<lambda>d n. if (d, n) = key ?t i then bdata ?t i else disk ?t d n)"
    "writes t = writes ?t @ [(fst (key ?t i), snd (key ?t i), bdata ?t i)]" "bio.more t = bio.more ?t"
    by (rule bwrite_ok [OF s1(1) i, of me])
  show ?thesis
  proof (rule that [OF b(1,2)])
    show "disk t = apply_writes [(dev, b, d)] (disk s)" unfolding b(5) k1 k d1 by (simp add: fun_eq_iff)
    show "view t = (view s)((dev, b) := d)" using b(3) s1(2) k by simp
    show "bufs t = (bufs s)(i := (bufs s i)\<lparr>b_data := d\<rparr>)" using b(4) s1(4) by simp
    then show "key t m = key s m" for m by (simp add: key_def)
    show "writes t = writes s @ [(dev, b, d)]" "bio.more t = bio.more s" using b(6,7) k1 k d1 by simp_all
  qed
qed

lemma write_log_step:
  assumes ok: "bio_ok P {} pid s" and dev: "log_dev s = dev" "dev \<noteq> 0" and fin: "finite P" "card P < NBUF"
    and b: "(dev, b) \<in> P" and l: "(dev, lb) \<notin> P" and lb: "lb = log_start s + tail + 1"
  obtains t where "write_log_loop me pid tail (b # bs) s = write_log_loop me pid (tail + 1) bs t" "bio_ok P {} pid t"
    "bio.more t = bio.more s" "writes t = writes s @ [(dev, lb, view s (dev, b))]"
    "disk t = apply_writes [(dev, lb, view s (dev, b))] (disk s)" "view t = (view s)((dev, lb) := view s (dev, b))"
proof -
  have ne: "lb \<noteq> b" using b l by blast
  obtain i s1 j t0 where a: "bread me pid dev lb s = Done i s1" "bio.more s1 = bio.more s"
    "bread me pid dev b s1 = Done j t0" "bio_ok P {i, j} pid t0" "i \<noteq> j"
    "key t0 i = (dev, lb)" "key t0 j = (dev, b)" "bdata t0 j = view s (dev, b)" "view t0 = view s" "bio_frame s t0"
    by (rule read_pair [OF ok dev(2) ne fin, of me]) (use b in auto)
  have iH: "i \<in> {i, j}" by simp
  obtain t2 where b2: "bwrite me pid i (set_data i (bdata t0 j) t0) = Done () t2" "bio_ok P {i, j} pid t2"
    "view t2 = (view t0)((dev, lb) := bdata t0 j)" "bufs t2 = (bufs t0)(i := (bufs t0 i)\<lparr>b_data := bdata t0 j\<rparr>)"
    "\<And>m. key t2 m = key t0 m" "disk t2 = apply_writes [(dev, lb, bdata t0 j)] (disk t0)"
    "writes t2 = writes t0 @ [(dev, lb, bdata t0 j)]" "bio.more t2 = bio.more t0"
    by (rule store_ok [OF a(4) iH a(6), of me "bdata t0 j"]) (rule that)
  obtain t3 where b3: "brelse me pid j t2 = Done () t3" "bio_ok P ({i, j} - {j}) pid t3" "view t3 = view t2" "bio_frame t2 t3"
    "bufs t3 i = bufs t2 i"
    by (rule brelse_ok [OF b2(2), of j me]) (use b2(5) a(5,7) b in auto)
  have h3: "{i, j} - {j} = {i}" using a(5) by auto
  have "key t3 i = (dev, lb)" using b3(5) b2(5) a(6) by (simp add: key_def)
  then have c3: "bdata t3 i = dsk t3 (key t3 i)" using b3(4,5) b2(4,6) by (simp add: bio_frame_def dsk_def)
  obtain t where b4: "brelse me pid i t3 = Done () t" "bio_ok P ({i} - {i}) pid t" "view t = view t3" "bio_frame t3 t"
    by (rule brelse_ok [OF b3(2) [unfolded h3], of i me]) (use c3 in auto)
  have f: "bio.more t = bio.more s" "disk t = disk t2" "writes t = writes t2" "disk t0 = disk s" "writes t0 = writes s"
    using a(2,10) b2(8) b3(4) b4(4) by (simp_all add: bio_frame_def)
  have "write_log_loop me pid tail (b # bs) s = write_log_loop me pid (tail + 1) bs t"
    using a(1,3) b2(1) b3(1) b4(1) log_same [OF a(2)] dev(1) lb by simp
  then show ?thesis
    by (rule that) (use b4(2,3) b3(3) b2(3,6,7) a(8,9) f in simp_all)
qed

lemma write_log_loop_ok:
  assumes "bio_ok P {} pid s" "log_dev s = dev" "dev \<noteq> 0" "finite P" "card P < NBUF" "Pair dev ` set bs \<subseteq> P"
    "\<And>j. j < length bs \<Longrightarrow> (dev, log_start s + tail + 1 + j) \<notin> P"
  shows "\<exists>t ws. write_log_loop me pid tail bs s = Done () t \<and> bio_ok P {} pid t \<and> bio.more t = bio.more s \<and>
    writes t = writes s @ ws \<and> disk t = apply_writes ws (disk s) \<and> (\<forall>k\<in>P. view t k = view s k) \<and>
    ws = map (\<lambda>j. (dev, log_start s + tail + 1 + j, view s (dev, bs ! j))) [0..<length bs]"
  using assms
proof (induction bs arbitrary: tail s)
  case (Cons b bs)
  let ?w = "(dev, log_start s + tail + 1, view s (dev, b))"
  have lP: "(dev, log_start s + tail + 1) \<notin> P" using Cons.prems(7) [of 0] by simp
  obtain t where t: "write_log_loop me pid tail (b # bs) s = write_log_loop me pid (tail + 1) bs t" "bio_ok P {} pid t"
    "bio.more t = bio.more s" "writes t = writes s @ [?w]" "disk t = apply_writes [?w] (disk s)"
    "view t = (view s)((dev, log_start s + tail + 1) := view s (dev, b))"
    by (rule write_log_step [OF Cons.prems(1-5) _ lP refl, of b me bs]) (use Cons.prems(6) in auto)
  note same = log_same [OF t(3)]
  have l: "(dev, log_start t + (tail + 1) + 1 + j) \<notin> P" if "j < length bs" for j
    using Cons.prems(7) [of "Suc j"] that same by simp
  have v: "view t k = view s k" if "k \<in> P" for k using t(6) lP that by auto
  have vb: "view t (dev, bs ! j) = view s (dev, bs ! j)" if "j < length bs" for j
    using v Cons.prems(6) nth_mem [OF that] by auto
  obtain u ws where u: "write_log_loop me pid (tail + 1) bs t = Done () u" "bio_ok P {} pid u" "bio.more u = bio.more t"
    "writes u = writes t @ ws" "disk u = apply_writes ws (disk t)" "\<forall>k\<in>P. view u k = view t k"
    "ws = map (\<lambda>j. (dev, log_start t + (tail + 1) + 1 + j, view t (dev, bs ! j))) [0..<length bs]"
    using Cons.IH [OF t(2) _ Cons.prems(3-5) _ l] Cons.prems(2,6) same by auto
  have "ws = map (\<lambda>j. (dev, log_start s + tail + 1 + j, view s (dev, (b # bs) ! j))) [1..<length (b # bs)]"
    unfolding u(7) One_nat_def using vb same(2) by (auto simp: map_Suc_upt [symmetric] simp del: upt_Suc)
  then have w: "?w # ws = map (\<lambda>j. (dev, log_start s + tail + 1 + j, view s (dev, (b # bs) ! j))) [0..<length (b # bs)]"
    by (simp add: upt_conv_Cons del: upt_Suc)
  have z: "write_log_loop me pid tail (b # bs) s = Done () u" "bio.more u = bio.more s" "\<forall>k\<in>P. view u k = view s k"
    "writes u = writes s @ ?w # ws" "disk u = apply_writes (?w # ws) (disk s)"
    using t(1,3,4,5) u(1,3,4,5,6) v by (simp, simp, metis, simp, simp)
  show ?case by (rule exI [of _ u], rule exI [of _ "?w # ws"]) (intro conjI; fact z u(2) w)
qed simp


lemma install_step:
  assumes ok: "bio_ok P {} pid s" and dev: "log_dev s = dev" "dev \<noteq> 0" and fin: "finite P" "card P < NBUF"
    and b: "if recovering then P = {} else (dev, b) \<in> P" and l: "(dev, lb) \<notin> P" "lb \<noteq> b" and lb: "lb = log_start s + tail + 1"
  obtains t where "install_loop me pid recovering tail (b # bs) s = install_loop me pid recovering (tail + 1) bs t"
    "bio_ok (P - {(dev, b)}) {} pid t" "bio.more t = bio.more s" "writes t = writes s @ [(dev, b, view s (dev, lb))]"
    "disk t = apply_writes [(dev, b, view s (dev, lb))] (disk s)" "view t = (view s)((dev, b) := view s (dev, lb))"
proof -
  have room: "(dev, b) \<in> P \<or> card P + 1 < NBUF" using b by (auto split: if_splits simp: NBUF_def MAXOPBLOCKS_def)
  obtain i s1 j t0 where a: "bread me pid dev lb s = Done i s1" "bio.more s1 = bio.more s"
    "bread me pid dev b s1 = Done j t0" "bio_ok P {i, j} pid t0" "i \<noteq> j"
    "key t0 i = (dev, lb)" "key t0 j = (dev, b)" "bdata t0 i = view s (dev, lb)" "view t0 = view s" "bio_frame s t0"
    by (rule read_pair [OF ok dev(2) l(2) fin room, of me])
  have jH: "j \<in> {i, j}" by simp
  obtain t2 where b2: "bwrite me pid j (set_data j (bdata t0 i) t0) = Done () t2" "bio_ok P {i, j} pid t2"
    "view t2 = (view t0)((dev, b) := bdata t0 i)" "bufs t2 = (bufs t0)(j := (bufs t0 j)\<lparr>b_data := bdata t0 i\<rparr>)"
    "\<And>m. key t2 m = key t0 m" "disk t2 = apply_writes [(dev, b, bdata t0 i)] (disk t0)"
    "writes t2 = writes t0 @ [(dev, b, bdata t0 i)]" "bio.more t2 = bio.more t0"
    by (rule store_ok [OF a(4) jH a(7), of me "bdata t0 i"]) (rule that)
  obtain t3 where b3: "(if recovering then Done () t2 else bunpin me j t2) = Done () t3" "bio_ok (P - {(dev, b)}) {i, j} pid t3"
    "view t3 = view t2" "bio_frame t2 t3" "\<And>m. key t3 m = key t2 m" "\<And>m. bdata t3 m = bdata t2 m"
  proof (cases recovering)
    case True
    then show ?thesis using that [of t2] b2(2) b by (simp add: bio_frame_def)
  next
    case False
    have k: "key t2 j = (dev, b)" using b2(5) a(7) by simp
    then have "key t2 j \<in> P" using b False by simp
    from bunpin_ok [OF b2(2) jH this, of me, unfolded k] show ?thesis using that False by (metis (mono_tags))
  qed
  have d3: "disk t3 = apply_writes [(dev, b, bdata t0 i)] (disk s)" "view s (dev, lb) = disk s dev lb"
    using b3(4) b2(6) a(10) view_clean [OF ok l(1)] by (simp_all add: bio_frame_def dsk_def)
  have c: "bdata t3 i = dsk t3 (key t3 i)" "bdata t3 j = dsk t3 (key t3 j)"
    using b3(5,6) b2(4,5) a(5,6,7,8) d3 l(2) by (simp_all add: dsk_def)
  obtain t4 where b4: "brelse me pid i t3 = Done () t4" "bio_ok (P - {(dev, b)}) ({i, j} - {i}) pid t4" "view t4 = view t3"
    "bio_frame t3 t4" "bufs t4 j = bufs t3 j"
    by (rule brelse_ok [OF b3(2), of i me]) (use c a(5) in auto)
  have h4: "{i, j} - {i} = {j}" "bdata t4 j = dsk t4 (key t4 j)" using a(5) c b4(4,5) by (auto simp: bio_frame_def dsk_def key_def)
  obtain t where b5: "brelse me pid j t4 = Done () t" "bio_ok (P - {(dev, b)}) ({j} - {j}) pid t" "view t = view t4" "bio_frame t4 t"
    by (rule brelse_ok [OF b4(2) [unfolded h4(1)], of j me]) (use h4 in auto)
  have f: "bio.more t = bio.more s" "disk t = disk t3" "writes t = writes t2" "writes t0 = writes s"
    using a(2,10) b2(8) b3(4) b4(4) b5(4) by (simp_all add: bio_frame_def)
  have "install_loop me pid recovering tail (b # bs) s = install_loop me pid recovering (tail + 1) bs t"
    using a(1,3) b2(1) b3(1) b4(1) b5(1) log_same [OF a(2)] dev(1) lb by simp
  then show ?thesis
    by (rule that) (use b5(2,3) b4(3) b3(3) b2(3,7) a(8,9) f d3(1) in simp_all)
qed


lemma install_loop_ok:
  assumes "bio_ok P {} pid s" "log_dev s = dev" "dev \<noteq> 0" "finite P" "card P < NBUF" "distinct bs"
    "if recovering then P = {} else Pair dev ` set bs \<subseteq> P"
    "\<And>j. j < length bs \<Longrightarrow> (dev, log_start s + tail + 1 + j) \<notin> P \<and> log_start s + tail + 1 + j \<notin> set bs"
  shows "\<exists>t ws. install_loop me pid recovering tail bs s = Done () t \<and> bio_ok (P - Pair dev ` set bs) {} pid t \<and>
    bio.more t = bio.more s \<and> writes t = writes s @ ws \<and> disk t = apply_writes ws (disk s) \<and>
    ws = map (\<lambda>j. (dev, bs ! j, view s (dev, log_start s + tail + 1 + j))) [0..<length bs]"
  using assms
proof (induction bs arbitrary: tail s P)
  case (Cons b bs)
  let ?w = "(dev, b, view s (dev, log_start s + tail + 1))"
  have lP: "(dev, log_start s + tail + 1) \<notin> P" "log_start s + tail + 1 \<noteq> b" using Cons.prems(8) [of 0] by auto
  have p1: "if recovering then P = {} else (dev, b) \<in> P" using Cons.prems(7) by (simp split: if_splits)
  obtain t where t: "install_loop me pid recovering tail (b # bs) s = install_loop me pid recovering (tail + 1) bs t"
    "bio_ok (P - {(dev, b)}) {} pid t" "bio.more t = bio.more s" "writes t = writes s @ [?w]" "disk t = apply_writes [?w] (disk s)"
    "view t = (view s)((dev, b) := view s (dev, log_start s + tail + 1))"
    by (rule install_step [OF Cons.prems(1-5) p1 lP refl, of me bs])
  note same = log_same [OF t(3)]
  have l: "(dev, log_start t + (tail + 1) + 1 + j) \<notin> P - {(dev, b)} \<and> log_start t + (tail + 1) + 1 + j \<notin> set bs" if "j < length bs" for j
    using Cons.prems(8) [of "Suc j"] that same by simp
  have vb: "view t (dev, log_start s + Suc tail + 1 + j) = view s (dev, log_start s + Suc tail + 1 + j)" if "j < length bs" for j
    using t(6) Cons.prems(8) [of "Suc j"] that by auto
  have c: "card (P - {(dev, b)}) < NBUF" using Cons.prems(4,5) by (meson card_Diff1_le le_less_trans)
  have p2: "if recovering then P - {(dev, b)} = {} else Pair dev ` set bs \<subseteq> P - {(dev, b)}"
    using Cons.prems(6,7) by (auto split: if_splits)
  obtain u ws where u: "install_loop me pid recovering (tail + 1) bs t = Done () u"
    "bio_ok (P - {(dev, b)} - Pair dev ` set bs) {} pid u" "bio.more u = bio.more t"
    "writes u = writes t @ ws" "disk u = apply_writes ws (disk t)"
    "ws = map (\<lambda>j. (dev, bs ! j, view t (dev, log_start t + (tail + 1) + 1 + j))) [0..<length bs]"
    using Cons.IH [OF t(2) _ Cons.prems(3) _ c _ p2 l] Cons.prems(2,4,6) same by auto
  have "ws = map (\<lambda>j. (dev, (b # bs) ! j, view s (dev, log_start s + tail + 1 + j))) [1..<length (b # bs)]"
    unfolding u(6) One_nat_def using vb same(2) by (auto simp: map_Suc_upt [symmetric] simp del: upt_Suc)
  then have w: "?w # ws = map (\<lambda>j. (dev, (b # bs) ! j, view s (dev, log_start s + tail + 1 + j))) [0..<length (b # bs)]"
    by (simp add: upt_conv_Cons del: upt_Suc)
  have "P - {(dev, b)} - Pair dev ` set bs = P - Pair dev ` set (b # bs)" by auto
  then have z: "install_loop me pid recovering tail (b # bs) s = Done () u" "bio_ok (P - Pair dev ` set (b # bs)) {} pid u"
    "bio.more u = bio.more s" "writes u = writes s @ ?w # ws" "disk u = apply_writes (?w # ws) (disk s)"
    using t(1,3,4,5) u(1-5) by simp_all
  show ?case by (rule exI [of _ u], rule exI [of _ "?w # ws"]) (intro conjI; fact z w)
qed simp

lemma view_cong: "bufs t = bufs s \<Longrightarrow> disk t = disk s \<Longrightarrow> view t = view s"
  by (rule ext) (simp add: view_def key_def dsk_def cong: option.case_cong)

lemma bio_ok_cong:
  "bufs t = bufs s \<Longrightarrow> disk t = disk s \<Longrightarrow> bc_lock t = bc_lock s \<Longrightarrow> lru t = lru s \<Longrightarrow> bio_ok P H pid t = bio_ok P H pid s"
  by (simp add: bio_ok_def key_def dsk_def)

lemma write_head_ok:
  assumes ok: "bio_ok P {} pid s" and dev: "log_dev s = dev" "dev \<noteq> 0" and fin: "finite P" "card P < NBUF"
    and l: "(dev, log_start s) \<notin> P"
  obtains t where "write_head me pid s = Done () t" "bio_ok P {} pid t" "bio.more t = bio.more s"
    "writes t = writes s @ [(dev, log_start s, head_of (lh s) (disk s dev (log_start s)))]"
    "disk t = apply_writes [(dev, log_start s, head_of (lh s) (disk s dev (log_start s)))] (disk s)"
    "view t = (view s)((dev, log_start s) := head_of (lh s) (disk s dev (log_start s)))"
proof -
  obtain i s1 where a: "bread me pid dev (log_start s) s = Done i s1" "bio_ok P {i} pid s1" "key s1 i = (dev, log_start s)"
    "bdata s1 i = view s (dev, log_start s)" "view s1 = view s" "bio_frame s s1"
    by (rule bread_ok [OF ok dev(2) _ _ fin(1), of "log_start s" me]) (use fin in auto)
  have m: "bio.more s1 = bio.more s" "disk s1 = disk s" "writes s1 = writes s" using a(6) by (simp_all add: bio_frame_def)
  have d: "bdata s1 i = disk s dev (log_start s)" using a(4) view_clean [OF ok l] by (simp add: dsk_def)
  have iH: "i \<in> {i}" by simp
  let ?d = "head_of (lh s) (disk s dev (log_start s))"
  obtain t2 where b2: "bwrite me pid i (set_data i ?d s1) = Done () t2" "bio_ok P {i} pid t2"
    "view t2 = (view s1)((dev, log_start s) := ?d)" "bufs t2 = (bufs s1)(i := (bufs s1 i)\<lparr>b_data := ?d\<rparr>)"
    "\<And>m. key t2 m = key s1 m" "disk t2 = apply_writes [(dev, log_start s, ?d)] (disk s1)"
    "writes t2 = writes s1 @ [(dev, log_start s, ?d)]" "bio.more t2 = bio.more s1"
    by (rule store_ok [OF a(2) iH a(3), of me ?d]) (rule that)
  obtain t where b3: "brelse me pid i t2 = Done () t" "bio_ok P ({i} - {i}) pid t" "view t = view t2" "bio_frame t2 t"
    by (rule brelse_ok [OF b2(2) iH, of me]) (use b2(4,5,6) a(3) in \<open>auto simp: dsk_def\<close>)
  have "write_head me pid s = Done () t"
    using a(1) b2(1) b3(1) dev(1) d log_same [OF m(1)] by (simp add: write_head_def head_of_def)
  then show ?thesis by (rule that) (use b3 b2 m a(5) in \<open>simp_all add: bio_frame_def\<close>)
qed


subsection \<open>Recovery\<close>

text \<open>The log region of the disk, and the blocks outside it.\<close>

definition in_log :: "'a log_state_scheme \<Rightarrow> nat \<Rightarrow> bool" where
  "in_log s b \<longleftrightarrow> log_start s \<le> b \<and> b < log_start s + log_size s"

definition head_ok :: "nat \<Rightarrow> nat \<Rightarrow> block \<Rightarrow> bool" where
  "head_ok start sz d \<longleftrightarrow> ld32 d 0 < sz \<and> sz \<le> LOGSIZE \<and> distinct (parse_head d) \<and>
     (\<forall>b\<in>set (parse_head d). b < start \<or> start + sz \<le> b)"

lemma read_head_ok:
  assumes ok: "bio_ok {} {} pid s" and dev: "log_dev s = dev" "dev \<noteq> 0"
    and h: "ld32 (disk s dev (log_start s)) 0 \<le> LOGSIZE"
  obtains t where "read_head me pid s = Done () t" "bio_ok {} {} pid t" "writes t = writes s" "disk t = disk s"
    "bio.more t = bio.more (s\<lparr>lh := parse_head (disk s dev (log_start s))\<rparr>)"
proof -
  obtain i s1 where a: "bread me pid dev (log_start s) s = Done i s1" "bio_ok {} {i} pid s1" "key s1 i = (dev, log_start s)"
    "bdata s1 i = view s (dev, log_start s)" "view s1 = view s" "bio_frame s s1"
    by (rule bread_ok [OF ok dev(2), of "log_start s" me]) (auto simp: NBUF_def MAXOPBLOCKS_def)
  have d: "bdata s1 i = disk s dev (log_start s)" using a(4) view_clean [OF ok] by (simp add: dsk_def)
  let ?t = "s1\<lparr>lh := parse_head (disk s dev (log_start s))\<rparr>"
  have ok1: "bio_ok {} {i} pid ?t" using a(2) bio_ok_cong [of ?t s1] by simp
  have cl: "bdata ?t i = dsk ?t (key ?t i)" using d a(3,6) by (simp add: dsk_def key_def bio_frame_def)
  obtain t where b: "brelse me pid i ?t = Done () t" "bio_ok {} ({i} - {i}) pid t" "bio_frame ?t t"
    by (rule brelse_ok [OF ok1, of i me]) (use cl in auto)
  have n: "ld32 (disk s dev (log_start s)) 0 < 2 ^ 31" using h by (simp add: LOGSIZE_def MAXOPBLOCKS_def)
  have r: "read_head me pid s = Done () t"
    using a(1) b(1) dev(1) d n h by (simp add: read_head_def Let_def parse_head_def)
  have m: "bio.more t = bio.more (s\<lparr>lh := parse_head (disk s dev (log_start s))\<rparr>)"
    using b(3) a(6) by (cases s, cases s1) (simp add: bio_frame_def)
  show ?thesis by (rule that [OF r _ _ _ m]) (use b a(6) in \<open>simp_all add: bio_frame_def\<close>)
qed

lemma recover_ok:
  assumes ok: "bio_ok {} {} pid s" and dev: "log_dev s = dev" "dev \<noteq> 0"
    and h: "head_ok (log_start s) (log_size s) (disk s dev (log_start s))"
    and hs: "hs = parse_head (disk s dev (log_start s))"
  obtains t x where "recover_from_log me pid s = Done () t" "bio_ok {} {} pid t"
    "disk t = apply_writes (map (\<lambda>j. (dev, hs ! j, disk s dev (log_start s + 1 + j))) [0..<length hs] @ [(dev, log_start s, head_of [] x)]) (disk s)"
    "bio.more t = bio.more (s\<lparr>lh := []\<rparr>)"
proof -
  have len: "length hs < log_size s" "length hs \<le> LOGSIZE" "ld32 (disk s dev (log_start s)) 0 \<le> LOGSIZE"
    using h hs by (auto simp: head_ok_def parse_head_def)
  obtain t1 where a: "read_head me pid s = Done () t1" "bio_ok {} {} pid t1" "writes t1 = writes s" "disk t1 = disk s"
    "bio.more t1 = bio.more (s\<lparr>lh := hs\<rparr>)"
    unfolding hs by (rule read_head_ok [OF ok dev len(3), of me])
  have e1: "log_dev t1 = dev" "log_start t1 = log_start s" "lh t1 = hs" using log_same [OF a(5)] dev(1) by simp_all
  have o: "log_start s + 1 + j \<notin> set hs" if "j < length hs" for j using h hs that len(1) by (fastforce simp: head_ok_def)
  obtain t2 ws where b: "install_trans me pid True t1 = Done () t2" "bio_ok {} {} pid t2" "bio.more t2 = bio.more t1"
    "disk t2 = apply_writes ws (disk t1)" "ws = map (\<lambda>j. (dev, hs ! j, view t1 (dev, log_start s + 1 + j))) [0..<length hs]"
    using install_loop_ok [OF a(2) e1(1) dev(2), where bs = hs and recovering = True and tail = 0 and me = me] h hs o
    by (auto simp: install_trans_def e1 head_ok_def NBUF_def MAXOPBLOCKS_def)
  let ?t2 = "t2\<lparr>lh := []\<rparr>"
  have e2: "log_dev ?t2 = dev" "log_start ?t2 = log_start s" using log_same [OF b(3)] e1 by simp_all
  have k2: "bio_ok {} {} pid ?t2" using b(2) bio_ok_cong [of ?t2 t2] by simp
  obtain t where c: "write_head me pid ?t2 = Done () t" "bio_ok {} {} pid t" "bio.more t = bio.more ?t2"
    "disk t = apply_writes [(dev, log_start ?t2, head_of (lh ?t2) (disk ?t2 dev (log_start ?t2)))] (disk ?t2)"
    by (rule write_head_ok [OF k2 e2(1) dev(2), of me]) (auto simp: NBUF_def MAXOPBLOCKS_def)
  have "view t1 k = dsk s k" for k using view_clean [OF a(2)] a(4) by (simp add: dsk_def)
  then have "ws = map (\<lambda>j. (dev, hs ! j, disk s dev (log_start s + 1 + j))) [0..<length hs]" using b(5) by (simp add: dsk_def)
  moreover have "bio.more ?t2 = bio.more (s\<lparr>lh := []\<rparr>)" using a(5) b(3) by (cases s, cases t1, cases t2) simp
  ultimately show ?thesis
    using that [of t "disk ?t2 dev (log_start ?t2)"] a(1,4) b(1,4) c e2 by (simp add: recover_from_log_def)
qed


subsection \<open>Commit\<close>

text \<open>Between two operations: the blocks of \<open>lh\<close> are pinned, they lie outside the log, and
  the header on the disk is empty.\<close>

definition log_ok :: "nat set \<Rightarrow> int \<Rightarrow> 'a log_state_scheme \<Rightarrow> bool" where
  "log_ok H pid s \<longleftrightarrow> bio_ok (Pair (log_dev s) ` set (lh s)) H pid s \<and> log_dev s \<noteq> 0 \<and> unheld (log_lock s) \<and>
     distinct (lh s) \<and> (\<forall>b\<in>set (lh s). b < 2 ^ 32 \<and> \<not> in_log s b) \<and>
     length (lh s) < log_size s \<and> log_size s \<le> LOGSIZE \<and> ld32 (disk s (log_dev s) (log_start s)) 0 = 0"

lemma log_okD:
  assumes "log_ok H pid s"
  shows "bio_ok (Pair (log_dev s) ` set (lh s)) H pid s" "log_dev s \<noteq> 0" "unheld (log_lock s)" "distinct (lh s)"
    "\<And>b. b \<in> set (lh s) \<Longrightarrow> b < 2 ^ 32 \<and> \<not> in_log s b" "length (lh s) < log_size s" "log_size s \<le> LOGSIZE"
    "ld32 (disk s (log_dev s) (log_start s)) 0 = 0"
  using assms by (simp_all add: log_ok_def)

definition commit_writes :: "nat \<Rightarrow> nat \<Rightarrow> nat list \<Rightarrow> (nat \<Rightarrow> block) \<Rightarrow> block \<Rightarrow> block \<Rightarrow> (nat \<times> nat \<times> block) list" where
  "commit_writes dev start bs f x y =
     map (\<lambda>j. (dev, start + 1 + j, f (bs ! j))) [0..<length bs] @ [(dev, start, head_of bs x)] @
     map (\<lambda>j. (dev, bs ! j, f (bs ! j))) [0..<length bs] @ [(dev, start, head_of [] y)]"

lemma commit_ok:
  assumes ok: "log_ok {} pid s" and ne: "lh s \<noteq> []"
  obtains t x y where "commit me pid s = Done () t" "bio_ok {} {} pid t" "bio.more t = bio.more (s\<lparr>lh := []\<rparr>)"
    "writes t = writes s @ commit_writes (log_dev s) (log_start s) (lh s) (\<lambda>b. view s (log_dev s, b)) x y"
    "disk t = apply_writes (commit_writes (log_dev s) (log_start s) (lh s) (\<lambda>b. view s (log_dev s, b)) x y) (disk s)"
proof -
  let ?dev = "log_dev s" and ?P = "Pair (log_dev s) ` set (lh s)" and ?n = "length (lh s)"
  note L = log_okD [OF ok]
  have fin: "finite ?P" "card ?P < NBUF"
    using L(4,6,7) by (auto simp: card_image inj_on_def distinct_card NBUF_def LOGSIZE_def)
  have out: "(?dev, log_start s + i) \<notin> ?P" "log_start s + i \<notin> set (lh s)" if "i \<le> ?n" for i
    using L(5) [of "log_start s + i"] L(6) that by (auto simp: in_log_def)
  have o1: "(?dev, log_start s + 0 + 1 + j) \<notin> ?P" if "j < ?n" for j using out(1) [of "Suc j"] that by simp
  obtain t1 W1 where a: "write_log me pid s = Done () t1" "bio_ok ?P {} pid t1" "bio.more t1 = bio.more s"
    "writes t1 = writes s @ W1" "disk t1 = apply_writes W1 (disk s)"
    "W1 = map (\<lambda>j. (?dev, log_start s + 1 + j, view s (?dev, lh s ! j))) [0..<?n]"
    using write_log_loop_ok [OF L(1) refl L(2) fin subset_refl o1, of me] by (auto simp: write_log_def)
  note e1 = log_same [OF a(3)]
  have o2: "(?dev, log_start t1) \<notin> ?P" using out(1) [of 0] e1 by simp
  obtain t2 where b: "write_head me pid t1 = Done () t2" "bio_ok ?P {} pid t2" "bio.more t2 = bio.more t1"
    "writes t2 = writes t1 @ [(?dev, log_start t1, head_of (lh t1) (disk t1 ?dev (log_start t1)))]"
    "disk t2 = apply_writes [(?dev, log_start t1, head_of (lh t1) (disk t1 ?dev (log_start t1)))] (disk t1)"
    by (rule write_head_ok [OF a(2) e1(1) L(2) fin o2, of me])
  note e2 = log_same [OF b(3)]
  have o3: "(?dev, log_start t2 + 0 + 1 + j) \<notin> ?P \<and> log_start t2 + 0 + 1 + j \<notin> set (lh s)" if "j < ?n" for j
    using out [of "Suc j"] that e1 e2 by auto
  have d2: "log_dev t2 = ?dev" using e1 e2 by simp
  obtain t3 W2 where c: "install_trans me pid False t2 = Done () t3" "bio_ok {} {} pid t3" "bio.more t3 = bio.more t2"
    "writes t3 = writes t2 @ W2" "disk t3 = apply_writes W2 (disk t2)"
    "W2 = map (\<lambda>j. (?dev, lh s ! j, view t2 (?dev, log_start t2 + 1 + j))) [0..<?n]"
    using install_loop_ok [OF b(2) d2 L(2) fin L(4) _ o3, where recovering = False and me = me] e1 e2
    by (auto simp: install_trans_def)
  have "view t2 (?dev, log_start t2 + 1 + j) = view s (?dev, lh s ! j)" if "j < ?n" for j
  proof -
    have "view t2 (?dev, log_start t2 + 1 + j) = disk t2 ?dev (log_start t2 + 1 + j)"
      using view_clean [OF b(2)] o3 [OF that] by (simp add: dsk_def)
    also have "\<dots> = disk t1 ?dev (log_start s + 1 + j)" using b(5) e1 e2 by simp
    also have "\<dots> = view s (?dev, lh s ! j)"
      unfolding a(5) by (rule apply_writes_last) (use that a(6) in auto)
    finally show ?thesis .
  qed
  then have W2: "W2 = map (\<lambda>j. (?dev, lh s ! j, view s (?dev, lh s ! j))) [0..<?n]" using c(6) by simp
  let ?t3 = "t3\<lparr>lh := []\<rparr>"
  have k3: "bio_ok {} {} pid ?t3" using c(2) bio_ok_cong [of ?t3 t3] by simp
  note e3 = log_same [OF c(3)]
  have e4: "log_dev ?t3 = ?dev" "log_start ?t3 = log_start s" using e1 e2 e3 by simp_all
  obtain t where d: "write_head me pid ?t3 = Done () t" "bio_ok {} {} pid t" "bio.more t = bio.more ?t3"
    "writes t = writes ?t3 @ [(?dev, log_start ?t3, head_of (lh ?t3) (disk ?t3 ?dev (log_start ?t3)))]"
    "disk t = apply_writes [(?dev, log_start ?t3, head_of (lh ?t3) (disk ?t3 ?dev (log_start ?t3)))] (disk ?t3)"
    by (rule write_head_ok [OF k3 e4(1) L(2), of me]) (auto simp: NBUF_def MAXOPBLOCKS_def)
  have "bio.more ?t3 = bio.more (s\<lparr>lh := []\<rparr>)" using a(3) b(3) c(3) by (cases s, cases t3) simp
  then show ?thesis
    using that [of t "disk t1 ?dev (log_start s)" "disk t3 ?dev (log_start s)"] ne a(1,4,5,6) b(1,4,5) c(1,4,5) d W2 e1 e4
    by (simp add: commit_def commit_writes_def)
qed

end
