(* ===== verification/Log_Crash.thy ===== *)
theory Log_Crash
  imports Log_Correct
begin

section \<open>Crash safety of the log\<close>

text \<open>
  A crash during \<open>end_op\<close> leaves the disk after a prefix of the writes of the commit, and
  the next boot runs \<open>binit\<close> and \<open>initlog\<close> on it.  Whatever the prefix, the blocks
  outside the log are then all as before the transaction or all as after it.
\<close>

subsection \<open>The disk a crash leaves\<close>

lemma parse_head_empty: "ld32 d 0 = 0 \<Longrightarrow> parse_head d = []"
  by (simp add: parse_head_def)

lemma take_map_upt: "(d, b, x) \<in> set (take k (map f [0..<n])) \<Longrightarrow> \<exists>j<n. f j = (d, b, x)"
  by (fastforce dest!: in_set_takeD)

lemma crash_before:
  assumes "k \<le> length bs" "b = start \<or> b < start \<or> start + length bs < b"
  shows "apply_writes (take k (commit_writes dev start bs f x y)) D dev b = D dev b"
proof (rule apply_writes_other, rule notI)
  fix z assume "(dev, b, z) \<in> set (take k (commit_writes dev start bs f x y))"
  moreover have "take k (commit_writes dev start bs f x y) = take k (map (\<lambda>j. (dev, start + 1 + j, f (bs ! j))) [0..<length bs])"
    using assms(1) by (simp add: commit_writes_def)
  ultimately show False using take_map_upt assms(2) by fastforce
qed

lemma crash_middle:
  assumes k: "k = length bs + 1 + m" "m \<le> length bs" and l: "\<And>j. j \<le> length bs \<Longrightarrow> start + j \<notin> set bs"
    and E0: "E = apply_writes (take k (commit_writes dev start bs f x y)) D"
  shows "E dev start = head_of bs x" "j < length bs \<Longrightarrow> E dev (start + 1 + j) = f (bs ! j)"
    "b \<notin> set bs \<Longrightarrow> b < start \<or> start + length bs < b \<Longrightarrow> E dev b = D dev b"
proof -
  let ?A = "map (\<lambda>j. (dev, start + 1 + j, f (bs ! j))) [0..<length bs]"
  let ?B = "take m (map (\<lambda>j. (dev, bs ! j, f (bs ! j))) [0..<length bs])"
  have E: "E = apply_writes (?A @ (dev, start, head_of bs x) # ?B) D"
    using k by (simp add: E0 commit_writes_def)
  have B: "apply_writes ?B F dev b = F dev b" if "b \<notin> set bs" for F b
    by (rule apply_writes_other) (use that take_map_upt in fastforce)
  show "E dev start = head_of bs x" using l [of 0] B by (simp add: E)
  show "E dev (start + 1 + j) = f (bs ! j)" if "j < length bs"
  proof -
    have "apply_writes ?A D dev (start + 1 + j) = f (bs ! j)" by (rule apply_writes_last) (use that in auto)
    then show ?thesis using l [of "Suc j"] that B [of "start + 1 + j"] by (simp add: E)
  qed
  assume b: "b \<notin> set bs" "b < start \<or> start + length bs < b"
  have "apply_writes ?A D dev b = D dev b" by (rule apply_writes_other) (use b in auto)
  then show "E dev b = D dev b" using B b by (auto simp: E)
qed

lemma crash_after:
  assumes k: "2 * length bs + 1 < k" and l: "\<And>j. j \<le> length bs \<Longrightarrow> start + j \<notin> set bs"
    and E0: "E = apply_writes (take k (commit_writes dev start bs f x y)) D"
  shows "E dev start = head_of [] y" "b \<in> set bs \<Longrightarrow> E dev b = f b"
    "b \<notin> set bs \<Longrightarrow> b < start \<or> start + length bs < b \<Longrightarrow> E dev b = D dev b"
proof -
  let ?A = "map (\<lambda>j. (dev, start + 1 + j, f (bs ! j))) [0..<length bs]"
  let ?B = "map (\<lambda>j. (dev, bs ! j, f (bs ! j))) [0..<length bs]"
  have E: "E = apply_writes (?A @ (dev, start, head_of bs x) # ?B @ [(dev, start, head_of [] y)]) D"
    using k by (simp add: E0 commit_writes_def)
  show "E dev start = head_of [] y" by (simp add: E)
  show "E dev b = f b" if "b \<in> set bs"
  proof -
    have "apply_writes ?B F dev b = f b" for F by (rule apply_writes_last) (use that in \<open>auto simp: in_set_conv_nth\<close>)
    then show ?thesis using l [of 0] that by (auto simp: E)
  qed
  assume b: "b \<notin> set bs" "b < start \<or> start + length bs < b"
  have "apply_writes ?A D dev b = D dev b" by (rule apply_writes_other) (use b in auto)
  moreover have "apply_writes ?B F dev b = F dev b" for F by (rule apply_writes_other) (use b in auto)
  ultimately show "E dev b = D dev b" using b by (auto simp: E)
qed

subsection \<open>Booting on it\<close>

definition zero_buf :: buf where
  "zero_buf = \<lparr>b_valid = False, b_dev = 0, b_blockno = 0, b_lock = initsleeplock, b_refcnt = 0, b_data = (\<lambda>_. 0)\<rparr>"

definition boot :: "(nat \<Rightarrow> nat \<Rightarrow> block) \<Rightarrow> log_state" where
  "boot D = binit \<lparr>bc_lock = initlock, bufs = (\<lambda>_. zero_buf), lru = [], disk = D, writes = [], log_lock = initlock,
     log_start = 0, log_size = 0, outstanding = 0, committing = False, log_dev = 0, lh = []\<rparr>"

lemma bio_boot_ok: "bio_ok {} {} pid (boot D)"
  by (auto simp: bio_ok_def boot_def binit_def zero_buf_def key_def unheld_def)

text \<open>The disk that recovery makes: the blocks the header names come from the log.\<close>

lemma initlog_ok:
  assumes dev: "dev \<noteq> 0" and h: "head_ok (sb_logstart sb) (sb_nlog sb) (D dev (sb_logstart sb))"
    and hs: "hs = parse_head (D dev (sb_logstart sb))"
  obtains r where "initlog me pid dev sb (boot D) = Done () r" "log_ok {} pid r" "lh r = []" "outstanding r = 0" "\<not> committing r"
    "\<And>j. j < length hs \<Longrightarrow> disk r dev (hs ! j) = D dev (sb_logstart sb + 1 + j)"
    "\<And>b. b \<notin> set hs \<Longrightarrow> b \<noteq> sb_logstart sb \<Longrightarrow> disk r dev b = D dev b"
proof -
  let ?start = "sb_logstart sb"
  let ?s = "(boot D)\<lparr>log_lock := initlock, log_start := ?start, log_size := sb_nlog sb, log_dev := dev\<rparr>"
  have s: "bio_ok {} {} pid ?s" "log_dev ?s = dev" "disk ?s = D" "log_start ?s = ?start" "log_size ?s = sb_nlog sb"
    using bio_boot_ok [of pid D] bio_ok_cong [of ?s "boot D"] by (simp_all add: boot_def binit_def)
  have h': "head_ok (log_start ?s) (log_size ?s) (disk ?s dev (log_start ?s))" "hs = parse_head (disk ?s dev (log_start ?s))"
    using h hs s by simp_all
  obtain r x where r: "recover_from_log me pid ?s = Done () r" "bio_ok {} {} pid r"
    "disk r = apply_writes (map (\<lambda>j. (dev, hs ! j, disk ?s dev (log_start ?s + 1 + j))) [0..<length hs] @ [(dev, log_start ?s, head_of [] x)]) (disk ?s)"
    "bio.more r = bio.more (?s\<lparr>lh := []\<rparr>)"
    by (rule recover_ok [OF s(1,2) dev h', of me])
  note e = log_same [OF r(4)]
  let ?A = "map (\<lambda>j. (dev, hs ! j, D dev (?start + 1 + j))) [0..<length hs]"
  have d: "disk r = apply_writes (?A @ [(dev, ?start, head_of [] x)]) D" using r(3) s by simp
  have i: "initlog me pid dev sb (boot D) = Done () r" using r(1) by (simp add: initlog_def BSIZE_def LOGSIZE_def MAXOPBLOCKS_def)
  have hd: "distinct hs" "\<And>b. b \<in> set hs \<Longrightarrow> b \<noteq> ?start" using h hs by (auto simp: head_ok_def)
  have "disk r dev ?start = head_of [] x" by (simp add: d)
  then have "ld32 (disk r dev ?start) 0 = 0" using parse_head_of [of "[]" x] by simp
  then have ok: "log_ok {} pid r" using r(2) e s h dev by (simp add: log_ok_def head_ok_def unheld_def)
  have "disk r dev (hs ! j) = D dev (?start + 1 + j)" if "j < length hs" for j
  proof -
    have "apply_writes ?A D dev (hs ! j) = D dev (?start + 1 + j)"
      by (rule apply_writes_last) (use that hd(1) in \<open>auto simp: nth_eq_iff_index_eq\<close>)
    then show ?thesis using that hd(2) [of "hs ! j"] by (simp add: d)
  qed
  moreover have "disk r dev b = D dev b" if "b \<notin> set hs" "b \<noteq> ?start" for b
  proof -
    have "apply_writes ?A D dev b = D dev b" by (rule apply_writes_other) (use that in auto)
    then show ?thesis using that by (simp add: d)
  qed
  ultimately show ?thesis using e s by (intro that [OF i ok]) (auto simp: boot_def binit_def)
qed


lemma log_clean: "log_ok {} pid s \<Longrightarrow> b \<notin> set (lh s) \<Longrightarrow> view s (log_dev s, b) = disk s (log_dev s) b"
  using view_clean [OF log_okD(1), of "{}" pid s "(log_dev s, b)"] by (auto simp: dsk_def)

lemma crash_commit:
  assumes ok: "log_ok {} pid s" and sb: "sb_logstart sb = log_start s" "sb_nlog sb = log_size s"
    and E: "E = apply_writes (take k (commit_writes (log_dev s) (log_start s) (lh s) (\<lambda>b. view s (log_dev s, b)) x y)) (disk s)"
  shows "\<exists>r. initlog me' pid' (log_dev s) sb (boot E) = Done () r \<and> log_ok {} pid' r \<and> lh r = [] \<and>
    (\<forall>b. \<not> in_log s b \<longrightarrow> disk r (log_dev s) b = (if k \<le> length (lh s) then disk s (log_dev s) b else view s (log_dev s, b)))"
proof -
  let ?dev = "log_dev s" and ?start = "log_start s" and ?n = "length (lh s)"
  note L = log_okD [OF ok]
  have out: "?start + j \<notin> set (lh s)" if "j \<le> ?n" for j using L(5) [of "?start + j"] L(6) that by (auto simp: in_log_def)
  have hm: "b < ?start \<or> ?start + ?n < b" if "\<not> in_log s b" for b using L(6) that by (auto simp: in_log_def)
  have hs: "b \<noteq> ?start" if "\<not> in_log s b" for b using hm [OF that] by auto
  have lo: "b < ?start \<or> ?start + log_size s \<le> b" if "b \<in> set (lh s)" for b
    using L(5) [OF that] by (auto simp: in_log_def)
  note cl = log_clean [OF ok]
  have emp: "head_ok ?start (log_size s) d" if "ld32 d 0 = 0" for d
    using L(6,7) that by (simp add: head_ok_def parse_head_empty)
  have fits: "list_all (\<lambda>b. b < 2 ^ 32) (lh s)" "?n \<le> LOGSIZE" using L(5,6,7) by (auto simp: list_all_iff)
  consider "k \<le> ?n" | m where "k = ?n + 1 + m" "m \<le> ?n" | "2 * ?n + 1 < k"
  proof (cases "k \<le> ?n \<or> 2 * ?n + 1 < k")
    case False
    then have "k = ?n + 1 + (k - ?n - 1)" "k - ?n - 1 \<le> ?n" by auto
    then show ?thesis using that(2) by blast
  qed (use that in blast)
  then show ?thesis
  proof cases
    case 1
    note c = crash_before [OF 1, where f = "\<lambda>b. view s (?dev, b)" and start = ?start and dev = ?dev and x = x and y = y and D = "disk s", folded E]
    have z: "ld32 (E ?dev (sb_logstart sb)) 0 = 0" using c [of ?start] L(8) sb by simp
    obtain r where "initlog me' pid' ?dev sb (boot E) = Done () r" "log_ok {} pid' r" "lh r = []"
      "\<And>b. b \<notin> set [] \<Longrightarrow> b \<noteq> sb_logstart sb \<Longrightarrow> disk r ?dev b = E ?dev b"
      by (rule initlog_ok [where D = E and hs = "[]", OF L(2) _ parse_head_empty [OF z, symmetric], of me' pid']) (use emp [OF z] sb in auto)
    moreover have "E ?dev b = disk s ?dev b" if "\<not> in_log s b" for b using c [of b] hm [OF that] by blast
    ultimately show ?thesis using 1 hs sb by (intro exI [of _ r]) auto
  next
    case (2 m)
    note c = crash_middle [OF 2 out E]
    have p: "parse_head (E ?dev (sb_logstart sb)) = lh s" "ld32 (E ?dev (sb_logstart sb)) 0 = ?n"
      using c(1) parse_head_of [OF fits] sb by simp_all
    have hk: "head_ok (sb_logstart sb) (sb_nlog sb) (E ?dev (sb_logstart sb))"
      using p L(4,6,7) lo sb by (auto simp: head_ok_def)
    obtain r where r: "initlog me' pid' ?dev sb (boot E) = Done () r" "log_ok {} pid' r" "lh r = []"
      "\<And>j. j < length (lh s) \<Longrightarrow> disk r ?dev (lh s ! j) = E ?dev (sb_logstart sb + 1 + j)"
      "\<And>b. b \<notin> set (lh s) \<Longrightarrow> b \<noteq> sb_logstart sb \<Longrightarrow> disk r ?dev b = E ?dev b"
      by (rule initlog_ok [where D = E, OF L(2) hk p(1) [symmetric], of me' pid']) (rule that)
    have "disk r ?dev b = view s (?dev, b)" if "\<not> in_log s b" for b
    proof (cases "b \<in> set (lh s)")
      case True
      then show ?thesis using r(4) c(2) sb by (auto simp: in_set_conv_nth)
    next
      case False
      then show ?thesis using r(5) c(3) cl hm [OF that] sb by auto
    qed
    then show ?thesis using 2 r by auto
  next
    case 3
    note c = crash_after [OF 3 out E]
    have z: "ld32 (E ?dev (sb_logstart sb)) 0 = 0" using c(1) parse_head_of [of "[]" y] sb by simp
    obtain r where "initlog me' pid' ?dev sb (boot E) = Done () r" "log_ok {} pid' r" "lh r = []"
      "\<And>b. b \<notin> set [] \<Longrightarrow> b \<noteq> sb_logstart sb \<Longrightarrow> disk r ?dev b = E ?dev b"
      by (rule initlog_ok [where D = E and hs = "[]", OF L(2) _ parse_head_empty [OF z, symmetric], of me' pid']) (use emp [OF z] sb in auto)
    moreover have "E ?dev b = view s (?dev, b)" if "\<not> in_log s b" for b
      using c(2,3) cl hm [OF that] by (cases "b \<in> set (lh s)") auto
    ultimately show ?thesis using 3 hs sb by (intro exI [of _ r]) auto
  qed
qed

subsection \<open>Transactions\<close>

definition log_frame :: "'a log_state_scheme \<Rightarrow> 'a log_state_scheme \<Rightarrow> bool" where
  "log_frame s t \<longleftrightarrow> disk t = disk s \<and> writes t = writes s \<and> log_dev t = log_dev s \<and> log_start t = log_start s \<and>
     log_size t = log_size s \<and> outstanding t = outstanding s \<and> committing t = committing s \<and>
     log_state.more t = log_state.more s"

lemma log_frame_refl [simp]: "log_frame s s"
  by (simp add: log_frame_def)

lemma log_frame_trans: "log_frame s t \<Longrightarrow> log_frame t u \<Longrightarrow> log_frame s u"
  by (simp add: log_frame_def)

lemma log_frame_bio: "bio_frame s t \<Longrightarrow> log_frame s t"
  using log_same [of t s] by (simp add: log_frame_def bio_frame_def)

lemma log_ok_bio:
  assumes "log_ok H pid s" "bio_frame s t" "bio_ok (Pair (log_dev s) ` set (lh s)) H' pid t"
  shows "log_ok H' pid t"
proof -
  have "bio.more t = bio.more s" "disk t = disk s" using assms(2) by (simp_all add: bio_frame_def)
  then show ?thesis using assms(1,3) log_same [of t s] by (simp add: log_ok_def in_log_def)
qed

lemma log_write_ok:
  assumes ok: "log_ok H pid s" and i: "i \<in> H" and key: "key s i = (log_dev s, b)"
    and b: "\<not> in_log s b" "b < 2 ^ 32" and room: "length (lh s) + 1 < log_size s" and op: "1 \<le> outstanding s"
  obtains t where "log_write me i s = Done () t" "log_ok H pid t" "set (lh t) = insert b (set (lh s))"
    "length (lh t) \<le> length (lh s) + 1" "view t = view s" "log_frame s t" "key t i = key s i"
proof (cases "b \<in> set (lh s)")
  case True
  note L = log_okD [OF ok]
  have "s\<lparr>log_lock := initlock\<rparr> = s" using L(3) by (cases s) (simp add: unheld_def)
  then have "log_write me i s = Done () s" using True L(3,6,7) room op key by (simp add: log_write_def Let_def key_def)
  then show ?thesis by (rule that) (use ok True in auto)
next
  case False
  note L = log_okD [OF ok]
  let ?P = "Pair (log_dev s) ` set (lh s)"
  let ?s = "s\<lparr>log_lock := \<lparr>locked = 1, cpu = Some me\<rparr>\<rparr>"
  have ok1: "bio_ok ?P H pid ?s" and k: "key ?s i = (log_dev s, b)" "key ?s i \<notin> ?P"
    using L(1) bio_ok_cong [of ?s s] key False by (auto simp: key_def)
  obtain t where t: "bpin me i ?s = Done () t" "bio_ok (insert (key ?s i) ?P) H pid t" "view t = view ?s" "bio_frame ?s t"
    "\<And>j. key t j = key ?s j"
    by (rule bpin_ok [OF ok1 i k(2), of me]) (rule that)
  have m: "bio.more t = bio.more ?s" using t(4) by (simp add: bio_frame_def)
  note e = log_same [OF m]
  let ?t = "t\<lparr>lh := lh s @ [b], log_lock := initlock\<rparr>"
  have w: "log_write me i s = Done () ?t"
    using False L(3,6,7) room op t(1) e key by (simp add: log_write_def Let_def key_def)
  have "Pair (log_dev s) ` set (lh s @ [b]) = insert (key ?s i) ?P" using k(1) by auto
  then have o: "log_ok H pid ?t"
    using L(2,4-8) t(2,4) e b room bio_ok_cong [of ?t t] False
    by (auto simp: log_ok_def in_log_def unheld_def bio_frame_def)
  have "view ?t = view s" using t(3) view_cong [of ?t t] view_cong [of ?s s] by simp
  then show ?thesis
    by (rule that [OF w o, rotated 2]) (use e t(4,5) in \<open>auto simp: log_frame_def bio_frame_def key_def\<close>)
qed

text \<open>The use of \<open>log_write\<close> that its comment shows: \<open>bread\<close>, modify, \<open>log_write\<close>, \<open>brelse\<close>.\<close>

definition logged_update :: "nat \<Rightarrow> int \<Rightarrow> nat \<Rightarrow> block \<Rightarrow> 'a log_state_scheme \<Rightarrow> (unit, 'a log_state_scheme) outcome" where
  "logged_update me pid b d s =
     bnd (bread me pid (log_dev s) b s) (\<lambda>i s.
     bnd (log_write me i (set_data i d s)) (\<lambda>_ s.
     brelse me pid i s))"

lemma logged_update_ok:
  assumes ok: "log_ok {} pid s" and b: "\<not> in_log s b" "b < 2 ^ 32" and room: "length (lh s) + 1 < log_size s" and op: "1 \<le> outstanding s"
  obtains t where "logged_update me pid b d s = Done () t" "log_ok {} pid t" "set (lh t) = insert b (set (lh s))"
    "length (lh t) \<le> length (lh s) + 1" "view t = (view s)((log_dev s, b) := d)" "log_frame s t"
proof -
  note L = log_okD [OF ok]
  let ?P = "Pair (log_dev s) ` set (lh s)"
  have fin: "finite ?P" "card ?P < NBUF"
    using L(4,6,7) by (auto simp: card_image inj_on_def distinct_card NBUF_def LOGSIZE_def)
  obtain i s1 where a: "bread me pid (log_dev s) b s = Done i s1" "bio_ok ?P {i} pid s1" "key s1 i = (log_dev s, b)"
    "view s1 = view s" "bio_frame s s1"
    by (rule bread_ok [OF L(1,2) _ _ fin(1), of b me]) (use fin in auto)
  have iH: "i \<in> {i}" by simp
  let ?s1 = "set_data i d s1"
  note s1 = set_data_ok [OF a(2) iH, of d]
  have f1: "bio_frame s ?s1" using a(5) s1(3) by (simp add: bio_frame_def)
  have k1: "key ?s1 i = (log_dev s, b)" using s1(4) a(3) by (simp add: key_def)
  note o1 = log_ok_bio [OF ok f1 s1(1)]
  have e1: "log_dev ?s1 = log_dev s" "in_log ?s1 b = in_log s b" "log_size ?s1 = log_size s" "lh ?s1 = lh s" "outstanding ?s1 = outstanding s"
    using log_same [of ?s1 s] f1 by (simp_all add: bio_frame_def in_log_def)
  obtain s2 where w: "log_write me i ?s1 = Done () s2" "log_ok {i} pid s2" "set (lh s2) = insert b (set (lh ?s1))"
    "length (lh s2) \<le> length (lh ?s1) + 1" "view s2 = view ?s1" "log_frame ?s1 s2" "key s2 i = key ?s1 i"
    by (rule log_write_ok [OF o1 iH, of b me]) (use k1 b room op e1 in auto)
  have kP: "key s2 i \<in> Pair (log_dev s2) ` set (lh s2)" using w(3,6,7) k1 e1 by (simp add: log_frame_def)
  obtain t where t: "brelse me pid i s2 = Done () t" "bio_ok (Pair (log_dev s2) ` set (lh s2)) ({i} - {i}) pid t" "view t = view s2" "bio_frame s2 t"
    by (rule brelse_ok [OF log_okD(1) [OF w(2)] iH, of me]) (use kP in auto)
  have m: "lh t = lh s2" using log_same [of t s2] t(4) by (simp add: bio_frame_def)
  have o: "log_ok {} pid t" using log_ok_bio [OF w(2) t(4)] t(2) by simp
  have "logged_update me pid b d s = Done () t" using a(1) w(1) t(1) by (simp add: logged_update_def)
  then show ?thesis
    by (rule that [OF _ o]) (use m w(3-5) e1 t(3) s1(2) a(3,4) log_frame_trans [OF log_frame_trans [OF log_frame_bio [OF f1] w(6)] log_frame_bio [OF t(4)]] in simp_all)
qed

fun logged_updates :: "nat \<Rightarrow> int \<Rightarrow> (nat \<times> block) list \<Rightarrow> 'a log_state_scheme \<Rightarrow> (unit, 'a log_state_scheme) outcome" where
  "logged_updates me pid [] s = Done () s"
| "logged_updates me pid ((b, d) # us) s = bnd (logged_update me pid b d s) (\<lambda>_ s. logged_updates me pid us s)"

definition transaction :: "nat \<Rightarrow> int \<Rightarrow> (nat \<times> block) list \<Rightarrow> 'a log_state_scheme \<Rightarrow> (chan list, 'a log_state_scheme) outcome" where
  "transaction me pid us s =
     bnd (begin_op me s) (\<lambda>_ s. bnd (logged_updates me pid us s) (\<lambda>_ s. end_op me pid s))"

definition apply_updates :: "(nat \<times> block) list \<Rightarrow> (nat \<Rightarrow> block) \<Rightarrow> nat \<Rightarrow> block" where
  "apply_updates us f = fold (\<lambda>(b, d) f. f(b := d)) us f"

lemma logged_updates_ok:
  assumes "log_ok {} pid s" "\<forall>b\<in>fst ` set us. b < 2 ^ 32 \<and> \<not> in_log s b" "length (lh s) + length us < log_size s" "1 \<le> outstanding s"
  shows "\<exists>t. logged_updates me pid us s = Done () t \<and> log_ok {} pid t \<and> set (lh t) = set (lh s) \<union> fst ` set us \<and>
    (\<forall>b. view t (log_dev s, b) = apply_updates us (\<lambda>b. view s (log_dev s, b)) b) \<and> log_frame s t"
  using assms
proof (induction us arbitrary: s)
  case Nil
  then show ?case by (simp add: apply_updates_def)
next
  case (Cons u us)
  obtain b d where u: "u = (b, d)" by (cases u)
  obtain s1 where a: "logged_update me pid b d s = Done () s1" "log_ok {} pid s1" "set (lh s1) = insert b (set (lh s))"
    "length (lh s1) \<le> length (lh s) + 1" "view s1 = (view s)((log_dev s, b) := d)" "log_frame s s1"
    by (rule logged_update_ok [OF Cons.prems(1), of b me d]) (use Cons.prems u in auto)
  have f: "log_dev s1 = log_dev s" "in_log s1 = in_log s" "log_size s1 = log_size s" "outstanding s1 = outstanding s"
    using a(6) by (auto simp: log_frame_def in_log_def fun_eq_iff)
  have "\<exists>t. logged_updates me pid us s1 = Done () t \<and> log_ok {} pid t \<and> set (lh t) = set (lh s1) \<union> fst ` set us \<and>
    (\<forall>b. view t (log_dev s1, b) = apply_updates us (\<lambda>b. view s1 (log_dev s1, b)) b) \<and> log_frame s1 t"
    by (rule Cons.IH [OF a(2)]) (use Cons.prems f a(4) in auto)
  then obtain t where t: "logged_updates me pid us s1 = Done () t" "log_ok {} pid t" "set (lh t) = set (lh s1) \<union> fst ` set us"
    "\<And>b. view t (log_dev s1, b) = apply_updates us (\<lambda>b. view s1 (log_dev s1, b)) b" "log_frame s1 t"
    by blast
  have "(\<lambda>c. view s1 (log_dev s1, c)) = (\<lambda>c. view s (log_dev s, c))(b := d)" using a(5) f by (auto simp: fun_eq_iff)
  then have "view t (log_dev s, c) = apply_updates (u # us) (\<lambda>b. view s (log_dev s, b)) c" for c
    using t(4) [of c] f u by (simp add: apply_updates_def)
  then show ?case using a(1,3) t(1-3) log_frame_trans [OF a(6) t(5)] u by auto
qed

lemma commit_disk:
  assumes ok: "log_ok {} pid s"
    and E: "E = apply_writes (commit_writes (log_dev s) (log_start s) (lh s) (\<lambda>b. view s (log_dev s, b)) x y) (disk s)"
  shows "\<not> in_log s b \<Longrightarrow> E (log_dev s) b = view s (log_dev s, b)" "ld32 (E (log_dev s) (log_start s)) 0 = 0"
proof -
  let ?n = "length (lh s)"
  note L = log_okD [OF ok]
  have out: "log_start s + j \<notin> set (lh s)" if "j \<le> ?n" for j
    using L(5) [of "log_start s + j"] L(6) that by (auto simp: in_log_def)
  have k: "2 * ?n + 1 < 2 * ?n + 2" by simp
  have E': "E = apply_writes (take (2 * ?n + 2) (commit_writes (log_dev s) (log_start s) (lh s) (\<lambda>b. view s (log_dev s, b)) x y)) (disk s)"
    unfolding E by (subst take_all) (simp_all add: commit_writes_def)
  note c = crash_after [OF k out E']
  show "ld32 (E (log_dev s) (log_start s)) 0 = 0" using c(1) parse_head_of [of "[]" y] by simp
  show "E (log_dev s) b = view s (log_dev s, b)" if "\<not> in_log s b"
    using c(2,3) [of b] log_clean [OF ok, of b] L(6) that by (cases "b \<in> set (lh s)") (auto simp: in_log_def)
qed

lemma log_ok_cong:
  assumes "bio.truncate t = bio.truncate s" "log_dev t = log_dev s" "log_start t = log_start s" "log_size t = log_size s" "lh t = lh s"
    "unheld (log_lock t)" "log_ok H pid s"
  shows "log_ok H pid t" "view t = view s" "in_log t = in_log s"
proof -
  have b: "bufs t = bufs s" "disk t = disk s" "bc_lock t = bc_lock s" "lru t = lru s" "writes t = writes s"
    using assms(1) by (simp_all add: bio.truncate_def)
  show "log_ok H pid t" using assms(2-7) b bio_ok_cong [of t s] by (simp add: log_ok_def in_log_def)
  show "view t = view s" using b view_cong by blast
  show "in_log t = in_log s" using assms(3,4) by (simp add: in_log_def fun_eq_iff)
qed

lemma end_op_commits:
  assumes "log_ok {} pid s" "outstanding s = 1" "\<not> committing s" "commit me pid (s\<lparr>log_lock := initlock, outstanding := 0, committing := True\<rparr>) = Done () t"
    "unheld (log_lock t)"
  shows "end_op me pid s = Done [C_log] (t\<lparr>log_lock := initlock, committing := False\<rparr>)"
proof -
  have "s\<lparr>log_lock := initlock, outstanding := 0, committing := True\<rparr> = s\<lparr>outstanding := 0, committing := True, log_lock := initlock\<rparr>"
    by (cases s) simp
  then have c: "commit me pid (s\<lparr>outstanding := 0, committing := True, log_lock := initlock\<rparr>) = Done () t" using assms(4) by (simp only:)
  have "t\<lparr>log_lock := initlock, committing := False\<rparr> = t\<lparr>committing := False, log_lock := initlock\<rparr>" by (cases t) simp
  then show ?thesis using assms(1-3,5) c by (simp add: end_op_def Let_def log_ok_def held_by_def)
qed

text \<open>\<open>end_op\<close> of the last system call of a transaction commits it, and a crash after any
  number \<open>k\<close> of its disk writes leaves all of it or nothing.\<close>

lemma end_op_crash:
  assumes ok: "log_ok {} pid s" and op: "outstanding s = 1" "\<not> committing s"
    and sb: "sb_logstart sb = log_start s" "sb_nlog sb = log_size s"
  shows "\<exists>t ws. end_op me pid s = Done [C_log] t \<and> log_ok {} pid t \<and> lh t = [] \<and> outstanding t = 0 \<and>
    writes t = writes s @ ws \<and> (\<forall>b. \<not> in_log s b \<longrightarrow> disk t (log_dev s) b = view s (log_dev s, b)) \<and>
    (\<forall>k. \<exists>r. initlog me' pid' (log_dev s) sb (boot (apply_writes (take k ws) (disk s))) = Done () r \<and>
       log_ok {} pid' r \<and> lh r = [] \<and>
       (\<forall>b. \<not> in_log s b \<longrightarrow>
          disk r (log_dev s) b = (if k \<le> length (lh s) then disk s (log_dev s) b else view s (log_dev s, b))))"
proof -
  define u where "u = s\<lparr>log_lock := initlock, outstanding := 0, committing := True\<rparr>"
  have u: "log_dev u = log_dev s" "log_start u = log_start s" "log_size u = log_size s" "lh u = lh s" "disk u = disk s"
    "writes u = writes s" "log_lock u = initlock" "outstanding u = 0" by (simp_all add: u_def)
  note uk = log_ok_cong [where t = u and s = s, OF _ u(1-4) _ ok]
  note ok0 = ok
  have ok: "log_ok {} pid u" and vu: "view u = view s" and iu: "in_log u = in_log s"
    using uk by (simp_all add: u_def bio.truncate_def)
  have sbu: "sb_logstart sb = log_start u" "sb_nlog sb = log_size u" using sb u by simp_all
  obtain t ws x y where c: "commit me pid u = Done () t" "bio_ok {} {} pid t" "bio.more t = bio.more (u\<lparr>lh := []\<rparr>)"
    "writes t = writes s @ ws" "disk t = apply_writes ws (disk s)"
    "ws = (if lh s = [] then [] else commit_writes (log_dev s) (log_start s) (lh s) (\<lambda>b. view s (log_dev s, b)) x y)"
  proof (cases "lh s = []")
    case True
    have "u\<lparr>lh := []\<rparr> = u" using True u by (cases u) simp
    then have e: "bio.more u = bio.more (u\<lparr>lh := []\<rparr>)" by (simp only:)
    show ?thesis by (intro that [of u "[]"]) (use e log_okD(1) [OF ok] True u in \<open>auto simp: commit_def\<close>)
  next
    case False
    obtain t x y where "commit me pid u = Done () t" "bio_ok {} {} pid t" "bio.more t = bio.more (u\<lparr>lh := []\<rparr>)"
      "writes t = writes u @ commit_writes (log_dev u) (log_start u) (lh u) (\<lambda>b. view u (log_dev u, b)) x y"
      "disk t = apply_writes (commit_writes (log_dev u) (log_start u) (lh u) (\<lambda>b. view u (log_dev u, b)) x y) (disk u)"
      by (rule commit_ok [OF ok, of me]) (use False u in auto)
    then show ?thesis using that False u vu by simp
  qed
  note e = log_same [OF c(3)]
  let ?t = "t\<lparr>log_lock := initlock, committing := False\<rparr>"
  have end_op: "end_op me pid s = Done [C_log] ?t"
    by (rule end_op_commits [OF ok0 op c(1) [unfolded u_def]]) (use e u in simp)
  have D: "(\<forall>b. \<not> in_log s b \<longrightarrow> disk t (log_dev s) b = view s (log_dev s, b)) \<and> ld32 (disk t (log_dev s) (log_start s)) 0 = 0"
    using commit_disk [OF ok0 refl] log_clean [OF ok0] log_okD(8) [OF ok0] c(5,6) by auto
  have "log_ok {} pid ?t" using c(2) bio_ok_cong [of ?t t] log_okD(2,6,7) [OF ok] D e u by (auto simp: log_ok_def in_log_def)
  moreover have "\<exists>r. initlog me' pid' (log_dev s) sb (boot (apply_writes (take k ws) (disk s))) = Done () r \<and> log_ok {} pid' r \<and> lh r = [] \<and>
    (\<forall>b. \<not> in_log s b \<longrightarrow> disk r (log_dev s) b = (if k \<le> length (lh s) then disk s (log_dev s) b else view s (log_dev s, b)))" for k
    using crash_commit [OF ok0 sb refl, of me' pid' k x y] crash_commit [OF ok0 sb refl, of me' pid' 0] log_clean [OF ok0] c(6)
    by (cases "lh s = []") auto
  ultimately show ?thesis using end_op c(4) D e u by (intro exI [of _ ?t] exI [of _ ws]) auto
qed


lemma begin_op_ok:
  assumes ok: "log_ok {} pid s" and op: "outstanding s = 0" "\<not> committing s" and e: "lh s = []"
  shows "begin_op me s = Done () (s\<lparr>outstanding := 1, log_lock := initlock\<rparr>)"
    "log_ok {} pid (s\<lparr>outstanding := 1, log_lock := initlock\<rparr>)" "view (s\<lparr>outstanding := 1, log_lock := initlock\<rparr>) = view s"
proof -
  let ?t = "s\<lparr>outstanding := 1, log_lock := initlock\<rparr>"
  show "begin_op me s = Done () ?t"
    using log_okD(3) [OF ok] op e by (simp add: begin_op_def held_by_def LOGSIZE_def MAXOPBLOCKS_def)
  show "log_ok {} pid ?t" "view ?t = view s"
    using log_ok_cong [of ?t s, OF _ _ _ _ _ _ ok] by (simp_all add: bio.truncate_def unheld_def)
qed

text \<open>C32. A file system transaction is atomic.  A system call that updates at most
  \<open>MAXOPBLOCKS\<close> blocks by \<open>bread\<close>, \<open>log_write\<close> and \<open>brelse\<close> between \<open>begin_op\<close> and
  \<open>end_op\<close> returns with all of its updates on the disk and an empty log.  If the machine
  crashes after any number \<open>k\<close> of the disk writes it issues, the next boot recovers: the
  blocks outside the log are all as before the call as long as \<open>k\<close> is at most the number
  \<open>n\<close> of updated blocks, and all as after it otherwise.\<close>

theorem transaction_atomic:
  assumes ok: "log_ok {} pid s" and op: "outstanding s = 0" "\<not> committing s" "lh s = []"
    and us: "\<forall>b\<in>fst ` set us. b < 2 ^ 32 \<and> \<not> in_log s b" "length us \<le> MAXOPBLOCKS" "MAXOPBLOCKS < log_size s"
    and sb: "sb_logstart sb = log_start s" "sb_nlog sb = log_size s"
  shows "\<exists>t ws. transaction me pid us s = Done [C_log] t \<and> log_ok {} pid t \<and> lh t = [] \<and> outstanding t = 0 \<and>
    writes t = writes s @ ws \<and>
    (\<forall>b. \<not> in_log s b \<longrightarrow> disk t (log_dev s) b = apply_updates us (disk s (log_dev s)) b) \<and>
    (\<forall>k. \<exists>r. initlog me' pid' (log_dev s) sb (boot (apply_writes (take k ws) (disk s))) = Done () r \<and> log_ok {} pid' r \<and>
       (\<forall>b. \<not> in_log s b \<longrightarrow> disk r (log_dev s) b =
          (if k \<le> card (fst ` set us) then disk s (log_dev s) b else apply_updates us (disk s (log_dev s)) b)))"
proof -
  let ?s1 = "s\<lparr>outstanding := 1, log_lock := initlock\<rparr>"
  note b = begin_op_ok [OF ok op(1,2,3)]
  have il: "in_log ?s1 = in_log s" by (simp add: in_log_def fun_eq_iff)
  obtain s2 where u: "logged_updates me pid us ?s1 = Done () s2" "log_ok {} pid s2" "set (lh s2) = fst ` set us"
    "\<And>b. view s2 (log_dev s, b) = apply_updates us (\<lambda>b. view s (log_dev s, b)) b" "log_frame ?s1 s2"
    using logged_updates_ok [OF b(2), of us me] us op(3) b(3) il by auto
  have f: "log_dev s2 = log_dev s" "log_start s2 = log_start s" "log_size s2 = log_size s" "outstanding s2 = 1" "\<not> committing s2"
    "disk s2 = disk s" "writes s2 = writes s" using u(5) op by (simp_all add: log_frame_def)
  have i2: "in_log s2 = in_log s" using f by (simp add: in_log_def fun_eq_iff)
  have v: "(\<lambda>b. view s (log_dev s, b)) = disk s (log_dev s)" using log_clean [OF ok] op(3) by (simp add: fun_eq_iff)
  have c: "length (lh s2) = card (fst ` set us)" using log_okD(4) [OF u(2)] u(3) by (metis distinct_card)
  have tr: "transaction me pid us s = end_op me pid s2" using b(1) u(1) by (simp add: transaction_def)
  have "sb_logstart sb = log_start s2" "sb_nlog sb = log_size s2" using sb f by simp_all
  from end_op_crash [OF u(2) f(4,5) this, of me me' pid'] show ?thesis
    unfolding tr f i2 c u(4) v by (elim exE conjE) (intro exI conjI; assumption | blast)
qed

text \<open>A file system with the log of \<open>mkfs\<close> at block 2.\<close>

definition sample_log :: log_state where
  "sample_log = (boot (\<lambda>_ _ _. 0))\<lparr>log_start := 2, log_size := 30, log_dev := 1\<rparr>"

definition sample_sb :: superblock where
  "sample_sb = \<lparr>sb_magic = 0, sb_size = 2000, sb_nblocks = 1954, sb_ninodes = 200, sb_nlog = 30, sb_logstart = 2,
     sb_inodestart = 32, sb_bmapstart = 45\<rparr>"

lemma sample_log_ok: "log_ok {} pid sample_log"
  using bio_boot_ok [of pid "\<lambda>_ _ _. 0"] bio_ok_cong [of sample_log "boot (\<lambda>_ _ _. 0)"]
  by (simp add: sample_log_def log_ok_def boot_def binit_def unheld_def LOGSIZE_def MAXOPBLOCKS_def ld32_def)

theorem transaction_atomic_witness:
  "\<exists>t ws. transaction 0 1 [(50, \<lambda>_. 1), (51, \<lambda>_. 2)] sample_log = Done [C_log] t \<and> disk t 1 50 = (\<lambda>_. 1) \<and> disk t 1 51 = (\<lambda>_. 2) \<and>
     (\<forall>k. \<exists>r. initlog 0 1 1 sample_sb (boot (apply_writes (take k ws) (\<lambda>_ _ _. 0))) = Done () r \<and>
        disk r 1 50 = (if k \<le> 2 then (\<lambda>_. 0) else (\<lambda>_. 1)) \<and> disk r 1 51 = (if k \<le> 2 then (\<lambda>_. 0) else (\<lambda>_. 2)))"
proof -
  let ?us = "[(50, \<lambda>_. 1), (51, \<lambda>_. 2)] :: (nat \<times> block) list"
  have s: "outstanding sample_log = 0" "\<not> committing sample_log" "lh sample_log = []" "log_dev sample_log = 1"
    "disk sample_log = (\<lambda>_ _ _. 0)" "log_start sample_log = 2" "log_size sample_log = 30" "\<not> in_log sample_log 50" "\<not> in_log sample_log 51"
    by (simp_all add: sample_log_def boot_def binit_def in_log_def)
  have c: "card (fst ` set ?us) = 2" by simp
  have a: "apply_updates ?us f 50 = (\<lambda>_. 1)" "apply_updates ?us f 51 = (\<lambda>_. 2)" for f by (simp_all add: apply_updates_def)
  have p: "\<forall>b\<in>fst ` set ?us. b < 2 ^ 32 \<and> \<not> in_log sample_log b" "length ?us \<le> MAXOPBLOCKS" "MAXOPBLOCKS < log_size sample_log"
    "sb_logstart sample_sb = log_start sample_log" "sb_nlog sample_sb = log_size sample_log"
    using s by (simp_all add: MAXOPBLOCKS_def sample_sb_def)
  obtain t ws where t: "transaction 0 1 ?us sample_log = Done [C_log] t"
    "\<And>b. \<not> in_log sample_log b \<Longrightarrow> disk t 1 b = apply_updates ?us (\<lambda>_ _. 0) b"
    "\<And>k. \<exists>r. initlog 0 1 1 sample_sb (boot (apply_writes (take k ws) (\<lambda>_ _ _. 0))) = Done () r \<and> log_ok {} 1 r \<and>
       (\<forall>b. \<not> in_log sample_log b \<longrightarrow> disk r 1 b = (if k \<le> 2 then (\<lambda>_. 0) else apply_updates ?us (\<lambda>_ _. 0) b))"
    using transaction_atomic [where me = 0 and pid = 1 and me' = 0 and pid' = 1, OF sample_log_ok s(1-3) p, unfolded c s(4,5)] by blast
  have "\<exists>r. initlog 0 1 1 sample_sb (boot (apply_writes (take k ws) (\<lambda>_ _ _. 0))) = Done () r \<and>
    disk r 1 50 = (if k \<le> 2 then (\<lambda>_. 0) else (\<lambda>_. 1)) \<and> disk r 1 51 = (if k \<le> 2 then (\<lambda>_. 0) else (\<lambda>_. 2))" for k
    using t(3) [of k] s(8,9) a by metis
  moreover have "disk t 1 50 = (\<lambda>_. 1)" "disk t 1 51 = (\<lambda>_. 2)" using t(2) s(8,9) a by simp_all
  ultimately show ?thesis using t(1) by blast
qed



end
