(* ===== verification/Fs.thy ===== *)
theory Fs
  imports Log_Crash Kstring
begin

unbundle bit_operations_syntax

section \<open>The file system (kernel/fs.c)\<close>

text \<open>
  Blocks, inodes, directories and paths on top of the log.  The state adds to that of the
  log the superblock \<open>sb\<close> and the inode table.  A \<open>struct inode *\<close> is its index in the
  table, a null pointer \<open>None\<close>.  The \<open>short\<close> fields of an inode are kept as 16-bit
  patterns, as on the disk.

  \<open>either_copyout\<close> and \<open>either_copyin\<close> are arguments: \<open>ok tot m\<close> says whether copying
  \<open>m\<close> bytes to \<open>dst + tot\<close> succeeds, and \<open>src tot m\<close> gives the bytes that copying from
  \<open>src + tot\<close> has moved and whether it succeeded.  A failed \<open>copyin\<close> may have moved some
  bytes.  What \<open>printf\<close> writes is left out.
\<close>

subsection \<open>Data\<close>

definition FSMAGIC :: nat where "FSMAGIC = 0x10203040"
definition ROOTINO :: nat where "ROOTINO = 1"
definition ROOTDEV :: nat where "ROOTDEV = 1"
definition NINODE :: nat where "NINODE = 50"
definition NDIRECT :: nat where "NDIRECT = 12"
definition NINDIRECT :: nat where "NINDIRECT = BSIZE div 4"
definition MAXFILE :: nat where "MAXFILE = NDIRECT + NINDIRECT"
definition DINODE :: nat where "DINODE = 4 * 2 + 4 + 4 * (NDIRECT + 1)"
definition IPB :: nat where "IPB = BSIZE div DINODE"
definition BPB :: nat where "BPB = BSIZE * 8"
definition DIRSIZ :: nat where "DIRSIZ = 14"
definition DIRENT :: nat where "DIRENT = 2 + DIRSIZ"
definition T_DIR :: nat where "T_DIR = 1"

record inode =
  i_dev :: nat
  i_inum :: nat
  i_ref :: int
  i_lock :: sleeplock
  i_valid :: bool
  i_type :: nat
  i_major :: nat
  i_minor :: nat
  i_nlink :: nat
  i_size :: nat
  i_addrs :: "nat list"

record fs_state = log_state +
  sb :: superblock
  it_lock :: spinlock
  inodes :: "nat \<Rightarrow> inode"

record stat =
  st_dev :: nat
  st_ino :: nat
  st_type :: nat
  st_nlink :: nat
  st_size :: nat

abbreviation lock_itable :: "nat \<Rightarrow> 'a fs_state_scheme \<Rightarrow> (unit, 'a fs_state_scheme) outcome" where
  "lock_itable \<equiv> lock_in it_lock (\<lambda>l s. s\<lparr>it_lock := l\<rparr>)"

abbreviation unlock_itable :: "nat \<Rightarrow> 'a fs_state_scheme \<Rightarrow> (unit, 'a fs_state_scheme) outcome" where
  "unlock_itable \<equiv> unlock_in it_lock (\<lambda>l s. s\<lparr>it_lock := l\<rparr>)"

definition upd_inode :: "nat \<Rightarrow> (inode \<Rightarrow> inode) \<Rightarrow> 'a fs_state_scheme \<Rightarrow> 'a fs_state_scheme" where
  "upd_inode ip f s = s\<lparr>inodes := (inodes s)(ip := f (inodes s ip))\<rparr>"

text \<open>A call on the sleep lock of inode \<open>ip\<close>; the buffers have the numbers below \<open>NBUF\<close>.\<close>

definition on_ilock :: "nat \<Rightarrow> (sleeplock \<Rightarrow> ('r, sleeplock) outcome) \<Rightarrow> 'a fs_state_scheme \<Rightarrow> ('r, 'a fs_state_scheme) outcome" where
  "on_ilock ip = zoom (\<lambda>s. i_lock (inodes s ip)) (\<lambda>l. upd_inode ip (\<lambda>i. i\<lparr>i_lock := l\<rparr>))"

abbreviation ilock_id :: "nat \<Rightarrow> nat" where "ilock_id ip \<equiv> NBUF + ip"

definition IBLOCK :: "nat \<Rightarrow> superblock \<Rightarrow> nat" where
  "IBLOCK i r = i div IPB + sb_inodestart r"

definition BBLOCK :: "nat \<Rightarrow> superblock \<Rightarrow> nat" where
  "BBLOCK b r = b div BPB + sb_bmapstart r"

subsection \<open>The superblock\<close>

definition readsb :: "nat \<Rightarrow> int \<Rightarrow> nat \<Rightarrow> 'a fs_state_scheme \<Rightarrow> (superblock, 'a fs_state_scheme) outcome" where
  "readsb me pid dev s =
     bnd (bread me pid dev 1 s) (\<lambda>bp s.
     let d = b_data (bufs s bp);
         r = \<lparr>sb_magic = ld32 d 0, sb_size = ld32 d 4, sb_nblocks = ld32 d 8, sb_ninodes = ld32 d 12,
              sb_nlog = ld32 d 16, sb_logstart = ld32 d 20, sb_inodestart = ld32 d 24, sb_bmapstart = ld32 d 28\<rparr> in
     bnd (brelse me pid bp s) (\<lambda>_ s. Done r s))"

definition fsinit :: "nat \<Rightarrow> int \<Rightarrow> nat \<Rightarrow> 'a fs_state_scheme \<Rightarrow> (unit, 'a fs_state_scheme) outcome" where
  "fsinit me pid dev s =
     bnd (readsb me pid dev s) (\<lambda>r s.
     let s = s\<lparr>sb := r\<rparr> in
     if sb_magic (sb s) \<noteq> FSMAGIC then Panic ''invalid file system''
     else initlog me pid dev (sb s) s)"

subsection \<open>Blocks\<close>

definition bzero :: "nat \<Rightarrow> int \<Rightarrow> nat \<Rightarrow> nat \<Rightarrow> 'a fs_state_scheme \<Rightarrow> (unit, 'a fs_state_scheme) outcome" where
  "bzero me pid dev bno s =
     bnd (bread me pid dev bno s) (\<lambda>bp s.
     bnd (log_write me bp (set_data bp (\<lambda>k. if k < BSIZE then 0 else b_data (bufs s bp) k) s)) (\<lambda>_ s.
     brelse me pid bp s))"

text \<open>The bit of block \<open>bi\<close> in a block of the free map.\<close>

definition bit_of :: "nat \<Rightarrow> 8 word" where
  "bit_of bi = push_bit (bi mod 8) 1"

definition in_use :: "block \<Rightarrow> nat \<Rightarrow> bool" where
  "in_use d bi \<longleftrightarrow> d (bi div 8) AND bit_of bi \<noteq> 0"

definition mark :: "block \<Rightarrow> nat \<Rightarrow> block" where
  "mark d bi = d(bi div 8 := d (bi div 8) OR bit_of bi)"

definition unmark :: "block \<Rightarrow> nat \<Rightarrow> block" where
  "unmark d bi = d(bi div 8 := d (bi div 8) AND NOT (bit_of bi))"

fun balloc_loop :: "nat \<Rightarrow> int \<Rightarrow> nat \<Rightarrow> nat list \<Rightarrow> 'a fs_state_scheme \<Rightarrow> (nat, 'a fs_state_scheme) outcome" where
  "balloc_loop me pid dev [] s = Done 0 s"
| "balloc_loop me pid dev (b # bs) s =
     bnd (bread me pid dev (BBLOCK b (sb s)) s) (\<lambda>bp s.
     let d = b_data (bufs s bp) in
     case find (\<lambda>bi. b + bi < sb_size (sb s) \<and> \<not> in_use d bi) [0..<BPB] of
       Some bi \<Rightarrow>
         bnd (log_write me bp (set_data bp (mark d bi) s)) (\<lambda>_ s.
         bnd (brelse me pid bp s) (\<lambda>_ s.
         bnd (bzero me pid dev (b + bi) s) (\<lambda>_ s.
         Done (b + bi) s)))
     | None \<Rightarrow> bnd (brelse me pid bp s) (\<lambda>_ s. balloc_loop me pid dev bs s))"

text \<open>\<open>b\<close> runs over the multiples of \<open>BPB\<close> below \<open>sb.size\<close>; no operation changes \<open>sb\<close>.\<close>

definition balloc :: "nat \<Rightarrow> int \<Rightarrow> nat \<Rightarrow> 'a fs_state_scheme \<Rightarrow> (nat, 'a fs_state_scheme) outcome" where
  "balloc me pid dev s = balloc_loop me pid dev [b \<leftarrow> [0..<sb_size (sb s)]. b mod BPB = 0] s"

definition bfree :: "nat \<Rightarrow> int \<Rightarrow> nat \<Rightarrow> nat \<Rightarrow> 'a fs_state_scheme \<Rightarrow> (unit, 'a fs_state_scheme) outcome" where
  "bfree me pid dev b s =
     bnd (bread me pid dev (BBLOCK b (sb s)) s) (\<lambda>bp s.
     let d = b_data (bufs s bp); bi = b mod BPB in
     if \<not> in_use d bi then Panic ''freeing free block''
     else bnd (log_write me bp (set_data bp (unmark d bi) s)) (\<lambda>_ s. brelse me pid bp s))"


subsection \<open>Inodes\<close>

definition iinit :: "'a fs_state_scheme \<Rightarrow> 'a fs_state_scheme" where
  "iinit s = s\<lparr>it_lock := initlock,
     inodes := (\<lambda>i. if i < NINODE then inodes s i\<lparr>i_lock := initsleeplock\<rparr> else inodes s i)\<rparr>"

text \<open>The byte offset of a \<open>struct dinode\<close> in its block, and the fields there.\<close>

definition dip_off :: "nat \<Rightarrow> nat" where
  "dip_off inum = inum mod IPB * DINODE"

definition get_dinode :: "block \<Rightarrow> nat \<Rightarrow> inode \<Rightarrow> inode" where
  "get_dinode d off ip = ip\<lparr>i_type := ld16 d off, i_major := ld16 d (off + 2), i_minor := ld16 d (off + 4),
     i_nlink := ld16 d (off + 6), i_size := ld32 d (off + 8),
     i_addrs := map (\<lambda>j. ld32 d (off + 12 + 4 * j)) [0..<NDIRECT + 1]\<rparr>"

definition put_dinode :: "inode \<Rightarrow> nat \<Rightarrow> block \<Rightarrow> block" where
  "put_dinode ip off d =
     put_blocks (off + 12) (i_addrs ip) (st32 (off + 8) (i_size ip) (st16 (off + 6) (i_nlink ip)
       (st16 (off + 4) (i_minor ip) (st16 (off + 2) (i_major ip) (st16 off (i_type ip) d)))))"

definition iupdate :: "nat \<Rightarrow> int \<Rightarrow> nat \<Rightarrow> 'a fs_state_scheme \<Rightarrow> (unit, 'a fs_state_scheme) outcome" where
  "iupdate me pid ip s =
     bnd (bread me pid (i_dev (inodes s ip)) (IBLOCK (i_inum (inodes s ip)) (sb s)) s) (\<lambda>bp s.
     let i = inodes s ip in
     bnd (log_write me bp (set_data bp (put_dinode i (dip_off (i_inum i)) (b_data (bufs s bp))) s)) (\<lambda>_ s.
     brelse me pid bp s))"

definition iget :: "nat \<Rightarrow> nat \<Rightarrow> nat \<Rightarrow> 'a fs_state_scheme \<Rightarrow> (nat, 'a fs_state_scheme) outcome" where
  "iget me dev inum s =
     bnd (lock_itable me s) (\<lambda>_ s.
     case find (\<lambda>i. i_ref (inodes s i) > 0 \<and> i_dev (inodes s i) = dev \<and> i_inum (inodes s i) = inum) [0..<NINODE] of
       Some ip \<Rightarrow> bnd (unlock_itable me (upd_inode ip (\<lambda>i. i\<lparr>i_ref := i_ref i + 1\<rparr>) s)) (\<lambda>_ s. Done ip s)
     | None \<Rightarrow>
         (case find (\<lambda>i. i_ref (inodes s i) = 0) [0..<NINODE] of
            None \<Rightarrow> Panic ''iget: no inodes''
          | Some ip \<Rightarrow>
              bnd (unlock_itable me
                (upd_inode ip (\<lambda>i. i\<lparr>i_dev := dev, i_inum := inum, i_ref := 1, i_valid := False\<rparr>) s)) (\<lambda>_ s. Done ip s)))"

fun ialloc_loop :: "nat \<Rightarrow> int \<Rightarrow> nat \<Rightarrow> nat \<Rightarrow> nat list \<Rightarrow> 'a fs_state_scheme \<Rightarrow> (nat option, 'a fs_state_scheme) outcome" where
  "ialloc_loop me pid dev ty [] s = Done None s"
| "ialloc_loop me pid dev ty (inum # is) s =
     bnd (bread me pid dev (IBLOCK inum (sb s)) s) (\<lambda>bp s.
     let d = b_data (bufs s bp); off = dip_off inum in
     if ld16 d off = 0 then
       let d = st16 off ty (\<lambda>k. if off \<le> k \<and> k < off + DINODE then 0 else d k) in
       bnd (log_write me bp (set_data bp d s)) (\<lambda>_ s.
       bnd (brelse me pid bp s) (\<lambda>_ s.
       bnd (iget me dev inum s) (\<lambda>ip s. Done (Some ip) s)))
     else bnd (brelse me pid bp s) (\<lambda>_ s. ialloc_loop me pid dev ty is s))"

definition ialloc :: "nat \<Rightarrow> int \<Rightarrow> nat \<Rightarrow> nat \<Rightarrow> 'a fs_state_scheme \<Rightarrow> (nat option, 'a fs_state_scheme) outcome" where
  "ialloc me pid dev ty s = ialloc_loop me pid dev ty [1..<sb_ninodes (sb s)] s"

definition idup :: "nat \<Rightarrow> nat \<Rightarrow> 'a fs_state_scheme \<Rightarrow> (nat, 'a fs_state_scheme) outcome" where
  "idup me ip s =
     bnd (lock_itable me s) (\<lambda>_ s.
     bnd (unlock_itable me (upd_inode ip (\<lambda>i. i\<lparr>i_ref := i_ref i + 1\<rparr>) s)) (\<lambda>_ s. Done ip s))"

definition ilock :: "nat \<Rightarrow> int \<Rightarrow> nat option \<Rightarrow> 'a fs_state_scheme \<Rightarrow> (unit, 'a fs_state_scheme) outcome" where
  "ilock me pid p s =
     (case p of
        None \<Rightarrow> Panic ''ilock''
      | Some ip \<Rightarrow>
          if i_ref (inodes s ip) < 1 then Panic ''ilock''
          else
            bnd (on_ilock ip (acquiresleep me pid (ilock_id ip)) s) (\<lambda>_ s.
            if \<not> i_valid (inodes s ip) then
              bnd (bread me pid (i_dev (inodes s ip)) (IBLOCK (i_inum (inodes s ip)) (sb s)) s) (\<lambda>bp s.
              let s = upd_inode ip (\<lambda>i. get_dinode (b_data (bufs s bp)) (dip_off (i_inum i)) i) s in
              bnd (brelse me pid bp s) (\<lambda>_ s.
              let s = upd_inode ip (\<lambda>i. i\<lparr>i_valid := True\<rparr>) s in
              if i_type (inodes s ip) = 0 then Panic ''ilock: no type'' else Done () s))
            else Done () s))"

definition iunlock :: "nat \<Rightarrow> int \<Rightarrow> nat option \<Rightarrow> 'a fs_state_scheme \<Rightarrow> (unit, 'a fs_state_scheme) outcome" where
  "iunlock me pid p s =
     (case p of
        None \<Rightarrow> Panic ''iunlock''
      | Some ip \<Rightarrow>
          bnd (on_ilock ip (holdingsleep me pid) s) (\<lambda>h s.
          if \<not> h \<or> i_ref (inodes s ip) < 1 then Panic ''iunlock''
          else bnd (on_ilock ip (releasesleep me (ilock_id ip)) s) (\<lambda>_ s. Done () s)))"

subsection \<open>Inode content\<close>

definition set_addr :: "nat \<Rightarrow> nat \<Rightarrow> nat \<Rightarrow> 'a fs_state_scheme \<Rightarrow> 'a fs_state_scheme" where
  "set_addr ip k a = upd_inode ip (\<lambda>i. i\<lparr>i_addrs := (i_addrs i)[k := a]\<rparr>)"

definition bmap :: "nat \<Rightarrow> int \<Rightarrow> nat \<Rightarrow> nat \<Rightarrow> 'a fs_state_scheme \<Rightarrow> (nat, 'a fs_state_scheme) outcome" where
  "bmap me pid ip bn s =
     (if bn < NDIRECT then
        if i_addrs (inodes s ip) ! bn = 0 then
          bnd (balloc me pid (i_dev (inodes s ip)) s) (\<lambda>addr s.
          if addr = 0 then Done 0 s else Done addr (set_addr ip bn addr s))
        else Done (i_addrs (inodes s ip) ! bn) s
      else
        let bn = bn - NDIRECT in
        if bn < NINDIRECT then
          bnd (if i_addrs (inodes s ip) ! NDIRECT = 0 then
                 bnd (balloc me pid (i_dev (inodes s ip)) s) (\<lambda>addr s.
                 if addr = 0 then Done 0 s else Done addr (set_addr ip NDIRECT addr s))
               else Done (i_addrs (inodes s ip) ! NDIRECT) s) (\<lambda>addr s.
          if addr = 0 then Done 0 s
          else
            bnd (bread me pid (i_dev (inodes s ip)) addr s) (\<lambda>bp s.
            bnd (if ld32 (b_data (bufs s bp)) (4 * bn) = 0 then
                   bnd (balloc me pid (i_dev (inodes s ip)) s) (\<lambda>addr s.
                   if addr \<noteq> 0 then
                     bnd (log_write me bp (set_data bp (st32 (4 * bn) addr (b_data (bufs s bp))) s)) (\<lambda>_ s. Done addr s)
                   else Done addr s)
                 else Done (ld32 (b_data (bufs s bp)) (4 * bn)) s) (\<lambda>addr s.
            bnd (brelse me pid bp s) (\<lambda>_ s. Done addr s))))
        else Panic ''bmap: out of range'')"

fun itrunc_direct :: "nat \<Rightarrow> int \<Rightarrow> nat \<Rightarrow> nat list \<Rightarrow> 'a fs_state_scheme \<Rightarrow> (unit, 'a fs_state_scheme) outcome" where
  "itrunc_direct me pid ip [] s = Done () s"
| "itrunc_direct me pid ip (i # is) s =
     (if i_addrs (inodes s ip) ! i \<noteq> 0 then
        bnd (bfree me pid (i_dev (inodes s ip)) (i_addrs (inodes s ip) ! i) s) (\<lambda>_ s.
        itrunc_direct me pid ip is (set_addr ip i 0 s))
      else itrunc_direct me pid ip is s)"

fun itrunc_indirect :: "nat \<Rightarrow> int \<Rightarrow> nat \<Rightarrow> nat \<Rightarrow> nat list \<Rightarrow> 'a fs_state_scheme \<Rightarrow> (unit, 'a fs_state_scheme) outcome" where
  "itrunc_indirect me pid ip bp [] s = Done () s"
| "itrunc_indirect me pid ip bp (j # js) s =
     (let a = ld32 (b_data (bufs s bp)) (4 * j) in
      if a \<noteq> 0 then bnd (bfree me pid (i_dev (inodes s ip)) a s) (\<lambda>_ s. itrunc_indirect me pid ip bp js s)
      else itrunc_indirect me pid ip bp js s)"

definition itrunc :: "nat \<Rightarrow> int \<Rightarrow> nat \<Rightarrow> 'a fs_state_scheme \<Rightarrow> (unit, 'a fs_state_scheme) outcome" where
  "itrunc me pid ip s =
     bnd (itrunc_direct me pid ip [0..<NDIRECT] s) (\<lambda>_ s.
     bnd (if i_addrs (inodes s ip) ! NDIRECT \<noteq> 0 then
            bnd (bread me pid (i_dev (inodes s ip)) (i_addrs (inodes s ip) ! NDIRECT) s) (\<lambda>bp s.
            bnd (itrunc_indirect me pid ip bp [0..<NINDIRECT] s) (\<lambda>_ s.
            bnd (brelse me pid bp s) (\<lambda>_ s.
            bnd (bfree me pid (i_dev (inodes s ip)) (i_addrs (inodes s ip) ! NDIRECT) s) (\<lambda>_ s.
            Done () (set_addr ip NDIRECT 0 s)))))
          else Done () s) (\<lambda>_ s.
     iupdate me pid ip (upd_inode ip (\<lambda>i. i\<lparr>i_size := 0\<rparr>) s)))"

definition iput :: "nat \<Rightarrow> int \<Rightarrow> nat \<Rightarrow> 'a fs_state_scheme \<Rightarrow> (unit, 'a fs_state_scheme) outcome" where
  "iput me pid ip s =
     bnd (lock_itable me s) (\<lambda>_ s.
     bnd (if i_ref (inodes s ip) = 1 \<and> i_valid (inodes s ip) \<and> i_nlink (inodes s ip) = 0 then
            bnd (on_ilock ip (acquiresleep me pid (ilock_id ip)) s) (\<lambda>_ s.
            bnd (unlock_itable me s) (\<lambda>_ s.
            bnd (itrunc me pid ip s) (\<lambda>_ s.
            bnd (iupdate me pid ip (upd_inode ip (\<lambda>i. i\<lparr>i_type := 0\<rparr>) s)) (\<lambda>_ s.
            bnd (on_ilock ip (releasesleep me (ilock_id ip)) (upd_inode ip (\<lambda>i. i\<lparr>i_valid := False\<rparr>) s)) (\<lambda>_ s.
            lock_itable me s)))))
          else Done () s) (\<lambda>_ s.
     unlock_itable me (upd_inode ip (\<lambda>i. i\<lparr>i_ref := i_ref i - 1\<rparr>) s)))"

definition iunlockput :: "nat \<Rightarrow> int \<Rightarrow> nat \<Rightarrow> 'a fs_state_scheme \<Rightarrow> (unit, 'a fs_state_scheme) outcome" where
  "iunlockput me pid ip s = bnd (iunlock me pid (Some ip) s) (\<lambda>_ s. iput me pid ip s)"

definition stati :: "nat \<Rightarrow> 'a fs_state_scheme \<Rightarrow> stat" where
  "stati ip s = (let i = inodes s ip in
     \<lparr>st_dev = i_dev i, st_ino = i_inum i, st_type = i_type i, st_nlink = i_nlink i, st_size = i_size i\<rparr>)"


lemma chunk_pos: "tot < n \<Longrightarrow> n - (tot + min (n - tot) (BSIZE - off mod BSIZE)) < n - tot"
proof -
  assume "tot < n"
  moreover have "off mod BSIZE < BSIZE" by (simp add: BSIZE_def)
  ultimately show ?thesis by linarith
qed

function readi_loop :: "nat \<Rightarrow> int \<Rightarrow> (nat \<Rightarrow> nat \<Rightarrow> bool) \<Rightarrow> nat \<Rightarrow> nat \<Rightarrow> nat \<Rightarrow> nat \<Rightarrow> 8 word list \<Rightarrow>
    'a fs_state_scheme \<Rightarrow> (int \<times> 8 word list, 'a fs_state_scheme) outcome" where
  "readi_loop me pid ok ip n tot off acc s =
     (if tot < n then
        bnd (bmap me pid ip (off div BSIZE) s) (\<lambda>addr s.
        if addr = 0 then Done (int tot, acc) s
        else
          bnd (bread me pid (i_dev (inodes s ip)) addr s) (\<lambda>bp s.
          let m = min (n - tot) (BSIZE - off mod BSIZE);
              bytes = map (\<lambda>k. b_data (bufs s bp) (off mod BSIZE + k)) [0..<m] in
          bnd (brelse me pid bp s) (\<lambda>_ s.
          if \<not> ok tot m then Done (-1, acc) s
          else readi_loop me pid ok ip n (tot + m) (off + m) (acc @ bytes) s)))
      else Done (int tot, acc) s)"
  by pat_completeness auto
termination
  by (relation "measure (\<lambda>(me, pid, ok, ip, n, tot, off, acc, s). n - tot)") (simp_all add: chunk_pos)

text \<open>\<open>readi\<close> also returns the bytes it has copied out.  \<open>off\<close> and \<open>n\<close> are \<open>uint\<close>.\<close>

definition readi :: "nat \<Rightarrow> int \<Rightarrow> (nat \<Rightarrow> nat \<Rightarrow> bool) \<Rightarrow> nat \<Rightarrow> nat \<Rightarrow> nat \<Rightarrow> 'a fs_state_scheme \<Rightarrow>
    (int \<times> 8 word list, 'a fs_state_scheme) outcome" where
  "readi me pid ok ip off n s =
     (let sz = i_size (inodes s ip) in
      if off > sz \<or> (off + n) mod 2 ^ 32 < off then Done (0, []) s
      else readi_loop me pid ok ip (if off + n > sz then sz - off else n) 0 off [] s)"

definition put_bytes :: "nat \<Rightarrow> 8 word list \<Rightarrow> block \<Rightarrow> block" where
  "put_bytes off bs d = (\<lambda>k. if off \<le> k \<and> k < off + length bs then bs ! (k - off) else d k)"

function writei_loop :: "nat \<Rightarrow> int \<Rightarrow> (nat \<Rightarrow> nat \<Rightarrow> 8 word list \<times> bool) \<Rightarrow> nat \<Rightarrow> nat \<Rightarrow> nat \<Rightarrow> nat \<Rightarrow>
    'a fs_state_scheme \<Rightarrow> (nat \<times> nat, 'a fs_state_scheme) outcome" where
  "writei_loop me pid src ip n tot off s =
     (if tot < n then
        bnd (bmap me pid ip (off div BSIZE) s) (\<lambda>addr s.
        if addr = 0 then Done (tot, off) s
        else
          bnd (bread me pid (i_dev (inodes s ip)) addr s) (\<lambda>bp s.
          let m = min (n - tot) (BSIZE - off mod BSIZE);
              s = set_data bp (put_bytes (off mod BSIZE) (fst (src tot m)) (b_data (bufs s bp))) s in
          if \<not> snd (src tot m) then bnd (brelse me pid bp s) (\<lambda>_ s. Done (tot, off) s)
          else
            bnd (log_write me bp s) (\<lambda>_ s.
            bnd (brelse me pid bp s) (\<lambda>_ s.
            writei_loop me pid src ip n (tot + m) (off + m) s))))
      else Done (tot, off) s)"
  by pat_completeness auto
termination
  by (relation "measure (\<lambda>(me, pid, src, ip, n, tot, off, s). n - tot)") (simp_all add: chunk_pos)

definition writei :: "nat \<Rightarrow> int \<Rightarrow> (nat \<Rightarrow> nat \<Rightarrow> 8 word list \<times> bool) \<Rightarrow> nat \<Rightarrow> nat \<Rightarrow> nat \<Rightarrow> 'a fs_state_scheme \<Rightarrow>
    (int, 'a fs_state_scheme) outcome" where
  "writei me pid src ip off n s =
     (if off > i_size (inodes s ip) \<or> (off + n) mod 2 ^ 32 < off then Done (-1) s
      else if off + n > MAXFILE * BSIZE then Done (-1) s
      else
        bnd (writei_loop me pid src ip n 0 off s) (\<lambda>(tot, off) s.
        let s = (if off > i_size (inodes s ip) then upd_inode ip (\<lambda>i. i\<lparr>i_size := off\<rparr>) s else s) in
        bnd (iupdate me pid ip s) (\<lambda>_ s. Done (int tot) s)))"

subsection \<open>Directories\<close>

text \<open>Names are buffers of \<open>DIRSIZ\<close> bytes, or strings that end before.\<close>

definition nth0 :: "8 word list \<Rightarrow> nat \<Rightarrow> 8 word" where
  "nth0 bs k = (if k < length bs then bs ! k else 0)"

definition two_names :: "8 word list \<Rightarrow> 8 word list \<Rightarrow> memory" where
  "two_names a b = (\<lambda>k. if k < DIRSIZ then nth0 a k else nth0 b (k - DIRSIZ))"

definition namecmp :: "8 word list \<Rightarrow> 8 word list \<Rightarrow> int" where
  "namecmp a b = strncmp 0 DIRSIZ DIRSIZ (two_names a b)"

definition de_inum :: "8 word list \<Rightarrow> nat" where
  "de_inum de = unat (nth0 de 0) + 256 * unat (nth0 de 1)"

fun dirlookup_loop :: "nat \<Rightarrow> int \<Rightarrow> nat \<Rightarrow> 8 word list \<Rightarrow> nat list \<Rightarrow> 'a fs_state_scheme \<Rightarrow>
    ((nat \<times> nat) option, 'a fs_state_scheme) outcome" where
  "dirlookup_loop me pid dp name [] s = Done None s"
| "dirlookup_loop me pid dp name (off # offs) s =
     bnd (readi me pid (\<lambda>_ _. True) dp off DIRENT s) (\<lambda>(r, de) s.
     if r \<noteq> int DIRENT then Panic ''dirlookup read''
     else if de_inum de = 0 then dirlookup_loop me pid dp name offs s
     else if namecmp name (drop 2 de) = 0 then
       bnd (iget me (i_dev (inodes s dp)) (de_inum de) s) (\<lambda>ip s. Done (Some (ip, off)) s)
     else dirlookup_loop me pid dp name offs s)"

text \<open>The offsets of the entries of a directory; reading it does not change its size.
  \<open>dirlookup\<close> returns the inode and the offset it stores through \<open>poff\<close>.\<close>

definition de_offs :: "nat \<Rightarrow> nat list" where
  "de_offs sz = [off \<leftarrow> [0..<sz]. off mod DIRENT = 0]"

definition dirlookup :: "nat \<Rightarrow> int \<Rightarrow> nat \<Rightarrow> 8 word list \<Rightarrow> 'a fs_state_scheme \<Rightarrow> ((nat \<times> nat) option, 'a fs_state_scheme) outcome" where
  "dirlookup me pid dp name s =
     (if i_type (inodes s dp) \<noteq> T_DIR then Panic ''dirlookup not DIR''
      else dirlookup_loop me pid dp name (de_offs (i_size (inodes s dp))) s)"

fun empty_dirent :: "nat \<Rightarrow> int \<Rightarrow> nat \<Rightarrow> nat \<Rightarrow> nat list \<Rightarrow> 'a fs_state_scheme \<Rightarrow> (nat, 'a fs_state_scheme) outcome" where
  "empty_dirent me pid dp fin [] s = Done fin s"
| "empty_dirent me pid dp fin (off # offs) s =
     bnd (readi me pid (\<lambda>_ _. True) dp off DIRENT s) (\<lambda>(r, de) s.
     if r \<noteq> int DIRENT then Panic ''dirlink read''
     else if de_inum de = 0 then Done off s
     else empty_dirent me pid dp fin offs s)"

definition make_dirent :: "nat \<Rightarrow> 8 word list \<Rightarrow> 8 word list" where
  "make_dirent inum name =
     byte inum 0 # byte inum 1 # map (strncpy 0 DIRSIZ (int DIRSIZ) (two_names [] name)) [0..<DIRSIZ]"

definition dirlink :: "nat \<Rightarrow> int \<Rightarrow> nat \<Rightarrow> 8 word list \<Rightarrow> nat \<Rightarrow> 'a fs_state_scheme \<Rightarrow> (int, 'a fs_state_scheme) outcome" where
  "dirlink me pid dp name inum s =
     bnd (dirlookup me pid dp name s) (\<lambda>r s.
     case r of
       Some (ip, off) \<Rightarrow> bnd (iput me pid ip s) (\<lambda>_ s. Done (-1) s)
     | None \<Rightarrow>
         let sz = i_size (inodes s dp) in
         bnd (empty_dirent me pid dp ((sz + DIRENT - 1) div DIRENT * DIRENT) (de_offs sz) s) (\<lambda>off s.
         let de = make_dirent inum name in
         bnd (writei me pid (\<lambda>tot m. (take m (drop tot de), True)) dp off DIRENT s) (\<lambda>r s.
         if r \<noteq> int DIRENT then Done (-1) s else Done 0 s)))"

subsection \<open>Paths\<close>

text \<open>A path is the bytes before its terminating zero; \<open>/\<close> is 47.  The buffer \<open>name\<close> keeps
  its old bytes behind a short element.\<close>

definition skipelem :: "8 word list \<Rightarrow> 8 word list \<Rightarrow> (8 word list \<times> 8 word list) option" where
  "skipelem path name =
     (let path = dropWhile (\<lambda>c. c = 47) path in
      if path = [] then None
      else
        let elem = takeWhile (\<lambda>c. c \<noteq> 47) path; len = length elem;
            name = (if DIRSIZ \<le> len then take DIRSIZ elem else elem @ 0 # drop (len + 1) name) in
        Some (dropWhile (\<lambda>c. c = 47) (dropWhile (\<lambda>c. c \<noteq> 47) path), name))"

lemma skipelem_shorter: "skipelem path name = Some (path', name') \<Longrightarrow> length path' < length path"
proof -
  assume a: "skipelem path name = Some (path', name')"
  let ?p = "dropWhile (\<lambda>c. c = 47) path"
  have p: "path' = dropWhile (\<lambda>c. c = 47) (dropWhile (\<lambda>c. c \<noteq> 47) ?p)" "?p \<noteq> []"
    using a by (auto simp: skipelem_def Let_def split: if_splits)
  then have "hd ?p \<noteq> 47" using hd_dropWhile [of "\<lambda>c. c = 47" path] by simp
  then have "dropWhile (\<lambda>c. c \<noteq> 47) ?p = dropWhile (\<lambda>c. c \<noteq> 47) (tl ?p)" using p(2) by (cases ?p) auto
  then have "path' = dropWhile (\<lambda>c. c = 47) (dropWhile (\<lambda>c. c \<noteq> 47) (tl ?p))" using p(1) by (simp only:)
  then have "length path' \<le> length (dropWhile (\<lambda>c. c \<noteq> 47) (tl ?p))" by (simp only: length_dropWhile_le)
  also have "\<dots> \<le> length (tl ?p)" by (rule length_dropWhile_le)
  also have "\<dots> < length ?p" using p(2) by (cases ?p) auto
  finally show ?thesis using length_dropWhile_le [of "\<lambda>c. c = 47" path] by simp
qed

function namex_loop :: "nat \<Rightarrow> int \<Rightarrow> bool \<Rightarrow> 8 word list \<Rightarrow> 8 word list \<Rightarrow> nat \<Rightarrow> 'a fs_state_scheme \<Rightarrow>
    (nat option \<times> 8 word list, 'a fs_state_scheme) outcome" where
  "namex_loop me pid parent path name ip s =
     (case skipelem path name of
        None \<Rightarrow>
          if parent then bnd (iput me pid ip s) (\<lambda>_ s. Done (None, name) s) else Done (Some ip, name) s
      | Some (path, name) \<Rightarrow>
          bnd (ilock me pid (Some ip) s) (\<lambda>_ s.
          if i_type (inodes s ip) \<noteq> T_DIR then bnd (iunlockput me pid ip s) (\<lambda>_ s. Done (None, name) s)
          else if parent \<and> path = [] then bnd (iunlock me pid (Some ip) s) (\<lambda>_ s. Done (Some ip, name) s)
          else
            bnd (dirlookup me pid ip name s) (\<lambda>r s.
            case r of
              None \<Rightarrow> bnd (iunlockput me pid ip s) (\<lambda>_ s. Done (None, name) s)
            | Some (nxt, off) \<Rightarrow>
                bnd (iunlockput me pid ip s) (\<lambda>_ s. namex_loop me pid parent path name nxt s))))"
  by pat_completeness auto
termination
  by (relation "measure (\<lambda>(me, pid, parent, path, name, ip, s). length path)") (auto dest: skipelem_shorter)

definition namex :: "nat \<Rightarrow> int \<Rightarrow> nat \<Rightarrow> 8 word list \<Rightarrow> bool \<Rightarrow> 8 word list \<Rightarrow> 'a fs_state_scheme \<Rightarrow>
    (nat option \<times> 8 word list, 'a fs_state_scheme) outcome" where
  "namex me pid cwd path parent name s =
     bnd (if nth0 path 0 = 47 then iget me ROOTDEV ROOTINO s else idup me cwd s) (\<lambda>ip s.
     namex_loop me pid parent path name ip s)"

definition namei :: "nat \<Rightarrow> int \<Rightarrow> nat \<Rightarrow> 8 word list \<Rightarrow> 'a fs_state_scheme \<Rightarrow> (nat option, 'a fs_state_scheme) outcome" where
  "namei me pid cwd path s =
     bnd (namex me pid cwd path False (replicate DIRSIZ 0) s) (\<lambda>(r, name) s. Done r s)"

definition nameiparent :: "nat \<Rightarrow> int \<Rightarrow> nat \<Rightarrow> 8 word list \<Rightarrow> 8 word list \<Rightarrow> 'a fs_state_scheme \<Rightarrow>
    (nat option \<times> 8 word list, 'a fs_state_scheme) outcome" where
  "nameiparent me pid cwd path name s = namex me pid cwd path True name s"

end
