(* ===== verification/Fs_Correct.thy ===== *)
theory Fs_Correct
  imports Fs
begin

section \<open>Correctness of the file system\<close>

text \<open>
  Each change of \<open>fs.c\<close> to the disk is a logged update of one block: the lemmas reduce
  \<open>iupdate\<close>, \<open>bzero\<close>, \<open>balloc\<close>, \<open>bfree\<close> and the loops of \<open>readi\<close> and \<open>writei\<close> to the
  content of the blocks that the cache shows (\<open>view\<close>).
\<close>

subsection \<open>Path elements\<close>

text \<open>The non-empty pieces of a path between slashes.\<close>

fun pieces :: "8 word list \<Rightarrow> 8 word list list" where
  "pieces [] = [[]]"
| "pieces (c # cs) = (if c = 47 then [] # pieces cs else (c # hd (pieces cs)) # tl (pieces cs))"

definition components :: "8 word list \<Rightarrow> 8 word list list" where
  "components path = filter (\<lambda>e. e \<noteq> []) (pieces path)"

text \<open>The string that a buffer of \<open>DIRSIZ\<close> bytes holds.\<close>

definition name_string :: "8 word list \<Rightarrow> 8 word list" where
  "name_string name = takeWhile (\<lambda>c. c \<noteq> 0) (take DIRSIZ name)"

lemma name_string_elem:
  assumes "0 \<notin> set e"
  shows "name_string (if DIRSIZ \<le> length e then take DIRSIZ e else e @ 0 # xs) = take DIRSIZ e"
proof -
  have "\<forall>x\<in>set (take DIRSIZ e). x \<noteq> 0" "\<forall>x\<in>set e. x \<noteq> 0" using assms set_take_subset [of DIRSIZ e] by auto
  then show ?thesis by (auto simp: name_string_def takeWhile_eq_all_conv takeWhile_append2 take_Cons')
qed

lemma pieces_nonempty [simp]: "pieces cs \<noteq> []"
  by (induction cs) auto

lemma components_slash: "components (dropWhile (\<lambda>c. c = 47) path) = components path"
  by (induction path) (auto simp: components_def)

lemma pieces_elem:
  "pieces path = takeWhile (\<lambda>c. c \<noteq> 47) path #
     (case dropWhile (\<lambda>c. c \<noteq> 47) path of [] \<Rightarrow> [] | _ # cs \<Rightarrow> pieces cs)"
  by (induction path) auto

lemma components_elem:
  assumes "path \<noteq> []" "hd path \<noteq> 47"
  shows "components path = takeWhile (\<lambda>c. c \<noteq> 47) path # components (dropWhile (\<lambda>c. c \<noteq> 47) path)"
proof -
  let ?r = "dropWhile (\<lambda>c. c \<noteq> 47) path"
  have "takeWhile (\<lambda>c. c \<noteq> 47) path \<noteq> []" using assms by (cases path) auto
  moreover have "components ?r = filter (\<lambda>e. e \<noteq> []) (case ?r of [] \<Rightarrow> [] | _ # cs \<Rightarrow> pieces cs)"
  proof (cases ?r)
    case (Cons c cs)
    then have "c = 47" using hd_dropWhile [of "\<lambda>c. c \<noteq> 47" path] by simp
    then show ?thesis using Cons by (simp add: components_def)
  next
    case Nil
    show ?thesis unfolding Nil by (simp add: components_def)
  qed
  ultimately show ?thesis using pieces_elem [of path] by (simp add: components_def)
qed

text \<open>C38. \<open>skipelem\<close> takes the elements of a path off one by one: it returns a null
  pointer exactly when the path has none left; otherwise \<open>name\<close> holds the first element,
  cut to \<open>DIRSIZ\<close> bytes, and the path returned has the other elements and no leading slash.\<close>

theorem skipelem_components:
  assumes "0 \<notin> set path"
  shows "case components path of
      [] \<Rightarrow> skipelem path name = None
    | e # es \<Rightarrow> \<exists>path' name'. skipelem path name = Some (path', name') \<and> components path' = es \<and>
        name_string name' = take DIRSIZ e \<and> (path' = [] \<or> hd path' \<noteq> 47) \<and> (path' = []) = (es = [])"
proof (cases "dropWhile (\<lambda>c. c = 47) path")
  case Nil
  then have "components path = components []" using components_slash [of path] by (simp only:)
  then have "components path = []" by (simp add: components_def)
  then show ?thesis using Nil by (simp add: skipelem_def)
next
  case (Cons c cs)
  define r where "r = dropWhile (\<lambda>c. c = 47) (dropWhile (\<lambda>c. c \<noteq> 47) (c # cs))"
  let ?e = "takeWhile (\<lambda>c. c \<noteq> 47) (c # cs)"
  have c: "c \<noteq> 47" using hd_dropWhile [of "\<lambda>c. c = 47" path] Cons by simp
  have "components path = components (c # cs)" using components_slash [of path] Cons by simp
  also have "\<dots> = ?e # components r" using components_elem [of "c # cs"] c by (simp add: components_slash r_def)
  finally have comp: "components path = ?e # components r" .
  let ?n = "if DIRSIZ \<le> length ?e then take DIRSIZ ?e else ?e @ 0 # drop (length ?e + 1) name"
  have sk: "skipelem path name = Some (r, ?n)" using Cons by (simp add: skipelem_def Let_def r_def)
  have "set ?e \<subseteq> set path" using set_takeWhileD set_dropWhileD Cons by (metis subsetI)
  then have n: "name_string ?n = take DIRSIZ ?e" using assms by (intro name_string_elem) auto
  have h: "r = [] \<or> hd r \<noteq> 47" using hd_dropWhile [of "\<lambda>c. c = 47" "dropWhile (\<lambda>c. c \<noteq> 47) (c # cs)"] unfolding r_def by blast
  have "components r \<noteq> []" if "r \<noteq> []" using components_elem [of r] h that by simp
  then have "r = [] \<longleftrightarrow> components r = []" by (auto simp: components_def)
  then show ?thesis using comp sk n h by auto
qed


theorem skipelem_components_witness:
  "\<exists>path' name'. skipelem [47, 97, 47, 47, 98, 98] (replicate DIRSIZ 0) = Some (path', name') \<and>
     components path' = [[98, 98]] \<and> name_string name' = [97]"
proof -
  have "components [47, 97, 47, 47, 98, 98] = [[97], [98, 98]]" by (simp add: components_def)
  then show ?thesis using skipelem_components [of "[47, 97, 47, 47, 98, 98]" "replicate DIRSIZ 0"] by (auto simp: DIRSIZ_def)
qed


subsection \<open>Inodes on the disk\<close>

lemma store_outside:
  "k < off \<or> off + 4 \<le> k \<Longrightarrow> st32 off v d k = d k" "k < off \<or> off + 2 \<le> k \<Longrightarrow> st16 off v d k = d k"
  by (auto simp: st32_def st16_def)

lemma load_cong:
  "(\<And>k. off \<le> k \<Longrightarrow> k < off + 4 \<Longrightarrow> d k = e k) \<Longrightarrow> ld32 d off = ld32 e off"
  "(\<And>k. off \<le> k \<Longrightarrow> k < off + 2 \<Longrightarrow> d k = e k) \<Longrightarrow> ld16 d off = ld16 e off"
  by (simp_all add: ld32_def ld16_def)

lemma load_store_other [simp]:
  "off' + 4 \<le> off \<or> off + 2 \<le> off' \<Longrightarrow> ld32 (st16 off v d) off' = ld32 d off'"
  "off' + 2 \<le> off \<or> off + 4 \<le> off' \<Longrightarrow> ld16 (st32 off v d) off' = ld16 d off'"
  by (auto intro!: load_cong store_outside)

lemma put_blocks_outside: "k < off \<or> off + 4 * length bs \<le> k \<Longrightarrow> put_blocks off bs d k = d k"
  by (induction off bs d rule: put_blocks.induct) (auto simp: store_outside)

definition dinode_ok :: "inode \<Rightarrow> bool" where
  "dinode_ok i \<longleftrightarrow> i_type i < 2 ^ 16 \<and> i_major i < 2 ^ 16 \<and> i_minor i < 2 ^ 16 \<and> i_nlink i < 2 ^ 16 \<and>
     i_size i < 2 ^ 32 \<and> length (i_addrs i) = NDIRECT + 1 \<and> (\<forall>a\<in>set (i_addrs i). a < 2 ^ 32)"

lemma DINODE_eq: "DINODE = 64" "NDIRECT = 12" "IPB = 16"
  by (simp_all add: DINODE_def NDIRECT_def IPB_def BSIZE_def)

lemma put_dinode_outside:
  assumes "dinode_ok i" "k < off \<or> off + DINODE \<le> k" shows "put_dinode i off d k = d k"
proof -
  have "length (i_addrs i) = 13" "k < off \<or> off + 64 \<le> k" using assms by (simp_all add: dinode_ok_def DINODE_eq)
  then show ?thesis by (auto simp: put_dinode_def put_blocks_outside store_outside)
qed

lemma get_dinode_cong:
  assumes "\<And>k. off \<le> k \<Longrightarrow> k < off + DINODE \<Longrightarrow> d k = e k" shows "get_dinode d off j = get_dinode e off j"
proof -
  have 16: "ld16 d (off + n) = ld16 e (off + n)" if "n + 2 \<le> 64" for n
    by (rule load_cong) (use assms that in \<open>auto simp: DINODE_eq\<close>)
  have 32: "ld32 d (off + n) = ld32 e (off + n)" if "n + 4 \<le> 64" for n
    by (rule load_cong) (use assms that in \<open>auto simp: DINODE_eq\<close>)
  have "ld32 d (off + 12 + 4 * n) = ld32 e (off + 12 + 4 * n)" if "n < 13" for n
    using 32 [of "12 + 4 * n"] that by (simp add: add.assoc)
  then have "map (\<lambda>n. ld32 d (off + 12 + 4 * n)) [0..<NDIRECT + 1] = map (\<lambda>n. ld32 e (off + 12 + 4 * n)) [0..<NDIRECT + 1]"
    by (intro map_cong) (auto simp: DINODE_eq)
  then show ?thesis using 16 [of 0] 16 [of 2] 16 [of 4] 16 [of 6] 32 [of 8] by (simp add: get_dinode_def del: upt_Suc)
qed

lemma get_put_dinode:
  assumes "dinode_ok i"
  shows "get_dinode (put_dinode i off d) off j = j\<lparr>i_type := i_type i, i_major := i_major i, i_minor := i_minor i,
    i_nlink := i_nlink i, i_size := i_size i, i_addrs := i_addrs i\<rparr>"
proof -
  define e where "e = st32 (off + 8) (i_size i) (st16 (off + 6) (i_nlink i)
       (st16 (off + 4) (i_minor i) (st16 (off + 2) (i_major i) (st16 off (i_type i) d))))"
  have p: "put_dinode i off d = put_blocks (off + 12) (i_addrs i) e" by (simp add: put_dinode_def e_def)
  have before: "ld16 (put_blocks (off + 12) (i_addrs i) e) (off + n) = ld16 e (off + n)" if "n + 2 \<le> 12" for n
    by (rule load_cong) (use that in \<open>auto intro: put_blocks_outside\<close>)
  have "ld32 (put_blocks (off + 12) (i_addrs i) e) (off + 8) = i_size i"
    using assms by (simp add: put_blocks_before e_def dinode_ok_def)
  moreover have "ld16 e off = i_type i" "ld16 e (off + 2) = i_major i" "ld16 e (off + 4) = i_minor i" "ld16 e (off + 6) = i_nlink i"
    using assms by (simp_all add: e_def dinode_ok_def)
  moreover have "map (\<lambda>n. ld32 (put_blocks (off + 12) (i_addrs i) e) (off + 12 + 4 * n)) [0..<NDIRECT + 1] = i_addrs i"
    by (rule nth_equalityI) (use assms in \<open>auto simp: dinode_ok_def list_all_iff put_blocks_nth simp del: upt_Suc\<close>)
  ultimately show ?thesis using before [of 0] before [of 2] before [of 4] before [of 6] by (simp add: get_dinode_def p del: upt_Suc)
qed


subsection \<open>Reading and updating a block\<close>

lemma fs_same:
  assumes "log_state.more t = log_state.more s"
  shows "sb t = sb s" "it_lock t = it_lock s" "inodes t = inodes s"
  using assms by (cases s, cases t, simp)+

lemma log_frame_fs: "log_frame s t \<Longrightarrow> sb t = sb s \<and> it_lock t = it_lock s \<and> inodes t = inodes s"
  using fs_same [of t s] by (simp add: log_frame_def)

definition clean :: "'a log_state_scheme \<Rightarrow> nat \<Rightarrow> bool" where
  "clean s i \<longleftrightarrow> key s i \<in> Pair (log_dev s) ` set (lh s) \<or> bdata s i = dsk s (key s i)"

lemma read_block:
  assumes ok: "log_ok {} pid s"
  obtains i s1 where "bread me pid (log_dev s) b s = Done i s1" "log_ok {i} pid s1" "key s1 i = (log_dev s, b)" "clean s1 i"
    "bdata s1 i = view s (log_dev s, b)" "view s1 = view s" "bio_frame s s1"
proof -
  note L = log_okD [OF ok]
  let ?P = "Pair (log_dev s) ` set (lh s)"
  have fin: "finite ?P" "card ?P < NBUF"
    using L(4,6,7) by (auto simp: card_image inj_on_def distinct_card NBUF_def LOGSIZE_def)
  obtain i s1 where a: "bread me pid (log_dev s) b s = Done i s1" "bio_ok ?P {i} pid s1" "key s1 i = (log_dev s, b)"
    "bdata s1 i = view s (log_dev s, b)" "view s1 = view s" "bio_frame s s1"
    by (rule bread_ok [OF L(1,2) _ _ fin(1), of b me]) (use fin in auto)
  have m: "log_dev s1 = log_dev s" "lh s1 = lh s" "disk s1 = disk s"
    using log_same [of s1 s] a(6) by (simp_all add: bio_frame_def)
  have "clean s1 i" using a(3,4) m view_clean [OF L(1), of "(log_dev s, b)"] by (auto simp: clean_def dsk_def)
  then show ?thesis by (rule that [OF a(1) log_ok_bio [OF ok a(6,2)] a(3) _ a(4-6)])
qed

lemma release_block:
  assumes ok: "log_ok {i} pid s" and c: "clean s i"
  obtains t where "brelse me pid i s = Done () t" "log_ok {} pid t" "view t = view s" "bio_frame s t"
proof -
  obtain t where t: "brelse me pid i s = Done () t" "bio_ok (Pair (log_dev s) ` set (lh s)) ({i} - {i}) pid t" "view t = view s" "bio_frame s t"
    by (rule brelse_ok [OF log_okD(1) [OF ok], of i me]) (use c in \<open>auto simp: clean_def\<close>)
  show ?thesis by (rule that [OF t(1) _ t(3,4)]) (use log_ok_bio [OF ok t(4)] t(2) in simp)
qed

lemma update_block:
  assumes ok: "log_ok {} pid s" and G: "\<And>i s1. bdata s1 i = view s (log_dev s, b) \<Longrightarrow> bio_frame s s1 \<Longrightarrow>
    G i s1 = bnd (log_write me i (set_data i d s1)) (\<lambda>_ s. bnd (brelse me pid i s) K)"
  shows "bnd (bread me pid (log_dev s) b s) G = bnd (logged_update me pid b d s) K"
proof -
  obtain i s1 where "bread me pid (log_dev s) b s = Done i s1" "bdata s1 i = view s (log_dev s, b)" "bio_frame s s1"
    by (rule read_block [OF ok, of me b])
  then show ?thesis using G by (simp add: logged_update_def bnd_assoc)
qed

text \<open>The blocks that a file system operation may log.\<close>

definition loggable :: "'a log_state_scheme \<Rightarrow> nat \<Rightarrow> bool" where
  "loggable s b \<longleftrightarrow> \<not> in_log s b \<and> b < 2 ^ 32"

text \<open>An open transaction with room for \<open>n\<close> more blocks.\<close>

definition in_op :: "int \<Rightarrow> nat \<Rightarrow> 'a log_state_scheme \<Rightarrow> bool" where
  "in_op pid n s \<longleftrightarrow> log_ok {} pid s \<and> 1 \<le> outstanding s \<and> length (lh s) + n < log_size s"

lemma in_op_update:
  assumes op: "in_op pid (Suc n) s" and b: "loggable s b"
  obtains t where "logged_update me pid b d s = Done () t" "in_op pid n t" "view t = (view s)((log_dev s, b) := d)" "log_frame s t"
    "loggable t = loggable s"
proof -
  have o: "log_ok {} pid s" "1 \<le> outstanding s" "length (lh s) + 1 < log_size s" and r: "length (lh s) + Suc n < log_size s"
    using op by (auto simp: in_op_def)
  obtain t where t: "logged_update me pid b d s = Done () t" "log_ok {} pid t" "length (lh t) \<le> length (lh s) + 1"
    "view t = (view s)((log_dev s, b) := d)" "log_frame s t"
    by (rule logged_update_ok [OF o(1) _ _ o(3,2), of b me d]) (use b in \<open>auto simp: loggable_def\<close>)
  have "in_op pid n t" using t o(2) r by (simp add: in_op_def log_frame_def)
  moreover have "loggable t = loggable s" using t(5) by (simp add: fun_eq_iff loggable_def in_log_def log_frame_def)
  ultimately show ?thesis using that t by blast
qed

lemma iupdate_ok:
  assumes op: "in_op pid (Suc n) s" and dev: "i_dev (inodes s ip) = log_dev s" and b: "loggable s (IBLOCK (i_inum (inodes s ip)) (sb s))"
  obtains t where "iupdate me pid ip s = Done () t" "in_op pid n t" "log_frame s t" "loggable t = loggable s"
    "view t = (view s)((log_dev s, IBLOCK (i_inum (inodes s ip)) (sb s)) :=
       put_dinode (inodes s ip) (dip_off (i_inum (inodes s ip))) (view s (log_dev s, IBLOCK (i_inum (inodes s ip)) (sb s))))"
proof -
  let ?b = "IBLOCK (i_inum (inodes s ip)) (sb s)"
  let ?d = "put_dinode (inodes s ip) (dip_off (i_inum (inodes s ip))) (view s (log_dev s, ?b))"
  have ok: "log_ok {} pid s" using op by (simp add: in_op_def)
  obtain t where t: "logged_update me pid ?b ?d s = Done () t" "in_op pid n t" "view t = (view s)((log_dev s, ?b) := ?d)" "log_frame s t"
    "loggable t = loggable s"
    by (rule in_op_update [OF op b, of me ?d])
  have "iupdate me pid ip s = bnd (logged_update me pid ?b ?d s) (\<lambda>_ s. Done () s)"
    unfolding iupdate_def dev
  proof (rule update_block [OF ok])
    fix i s1 assume a: "bdata s1 i = view s (log_dev s, ?b)" "bio_frame s s1"
    have "inodes s1 = inodes s" using log_frame_fs [OF log_frame_bio [OF a(2)]] by simp
    moreover have "bnd m (\<lambda>_ s. Done () s) = m" for m :: "(unit, 'a fs_state_scheme) outcome" by (cases m) auto
    ultimately show "(let i' = inodes s1 ip in
        bnd (log_write me i (set_data i (put_dinode i' (dip_off (i_inum i')) (bdata s1 i)) s1)) (\<lambda>_. brelse me pid i)) =
      bnd (log_write me i (set_data i ?d s1)) (\<lambda>_ s. bnd (brelse me pid i s) (\<lambda>_. Done ()))"
      using a(1) by (simp add: Let_def)
  qed
  then show ?thesis using that t by simp
qed


lemma upd_inode_fields [simp]:
  "bufs (upd_inode ip f s) = bufs s" "disk (upd_inode ip f s) = disk s" "log_dev (upd_inode ip f s) = log_dev s"
  "log_start (upd_inode ip f s) = log_start s" "log_size (upd_inode ip f s) = log_size s" "outstanding (upd_inode ip f s) = outstanding s"
  "lh (upd_inode ip f s) = lh s" "sb (upd_inode ip f s) = sb s" "inodes (upd_inode ip f s) = (inodes s)(ip := f (inodes s ip))"
  "log_lock (upd_inode ip f s) = log_lock s" "bc_lock (upd_inode ip f s) = bc_lock s" "lru (upd_inode ip f s) = lru s"
  "it_lock (upd_inode ip f s) = it_lock s" "writes (upd_inode ip f s) = writes s" "committing (upd_inode ip f s) = committing s"
  by (simp_all add: upd_inode_def)

lemma upd_inode_ok [simp]:
  "log_ok H pid (upd_inode ip f s) = log_ok H pid s" "view (upd_inode ip f s) = view s" "in_op pid n (upd_inode ip f s) = in_op pid n s"
  "loggable (upd_inode ip f s) = loggable s" "clean (upd_inode ip f s) i = clean s i"
proof -
  show l: "log_ok H pid (upd_inode ip f s) = log_ok H pid s" for H
    using bio_ok_cong [of "upd_inode ip f s" s] by (simp add: log_ok_def in_log_def)
  show "view (upd_inode ip f s) = view s" by (rule view_cong) simp_all
  show "in_op pid n (upd_inode ip f s) = in_op pid n s" using l by (simp add: in_op_def)
  show "loggable (upd_inode ip f s) = loggable s" by (simp add: fun_eq_iff loggable_def in_log_def)
  show "clean (upd_inode ip f s) i = clean s i" by (simp add: clean_def key_def dsk_def)
qed

lemma ilock_ok:
  assumes ok: "log_ok {} pid s" and i: "1 \<le> i_ref (inodes s ip)" "i_lock (inodes s ip) = initsleeplock" "\<not> i_valid (inodes s ip)"
    and dev: "i_dev (inodes s ip) = log_dev s"
    and d: "d = get_dinode (view s (log_dev s, IBLOCK (i_inum (inodes s ip)) (sb s))) (dip_off (i_inum (inodes s ip))) (inodes s ip)"
    and ty: "i_type d \<noteq> 0"
  obtains u where "ilock me pid (Some ip) s = Done () u" "log_ok {} pid u" "view u = view s"
    "inodes u = (inodes s)(ip := d\<lparr>i_lock := held_lock pid, i_valid := True\<rparr>)"
proof -
  let ?s1 = "upd_inode ip (\<lambda>i. i\<lparr>i_lock := held_lock pid\<rparr>) s"
  let ?b = "IBLOCK (i_inum (inodes s ip)) (sb s)"
  have ok1: "log_ok {} pid ?s1" using ok by simp
  obtain bp s2 where b: "bread me pid (log_dev s) ?b ?s1 = Done bp s2" "log_ok {bp} pid s2" "clean s2 bp"
    "bdata s2 bp = view s (log_dev s, ?b)" "view s2 = view s" "bio_frame ?s1 s2"
    by (rule read_block [OF ok1, of me ?b]) (rule that, simp_all)
  note f2 = log_frame_fs [OF log_frame_bio [OF b(6)]]
  let ?s3 = "upd_inode ip (\<lambda>i. get_dinode (bdata s2 bp) (dip_off (i_inum i)) i) s2"
  obtain s4 where c: "brelse me pid bp ?s3 = Done () s4" "log_ok {} pid s4" "view s4 = view ?s3" "bio_frame ?s3 s4"
    by (rule release_block [of bp pid ?s3 me]) (use b(2,3) in simp_all)
  note f4 = log_frame_fs [OF log_frame_bio [OF c(4)]]
  let ?u = "upd_inode ip (\<lambda>i. i\<lparr>i_valid := True\<rparr>) s4"
  have e: "inodes s4 ip = d\<lparr>i_lock := held_lock pid\<rparr>" using f4 f2 b(4) d by (simp add: get_dinode_def)
  then have u: "inodes ?u = (inodes s)(ip := d\<lparr>i_lock := held_lock pid, i_valid := True\<rparr>)" using f4 f2 by (auto simp: fun_eq_iff)
  have "ilock me pid (Some ip) s = Done () ?u"
    using i dev b(1) c(1) e ty f2 by (simp add: ilock_def on_ilock_def Let_def)
  then show ?thesis by (rule that) (use c(2,3) b(5) u in simp_all)
qed

text \<open>C36. An inode survives on the disk: after \<open>iupdate\<close>, a table entry for the same inode
  that holds nothing yet gets all of its fields back from \<open>ilock\<close>.  The other inodes of the
  block, and all other blocks, are as before.\<close>

theorem iupdate_ilock_roundtrip:
  assumes op: "in_op pid 1 s" and i: "i = inodes s ip" "dinode_ok i" "i_type i \<noteq> 0" "i_dev i = log_dev s"
    and b: "b = IBLOCK (i_inum i) (sb s)" "loggable s b"
    and j: "i_dev j = i_dev i" "i_inum j = i_inum i" "1 \<le> i_ref j" "i_lock j = initsleeplock" "\<not> i_valid j"
  shows "\<exists>t u. iupdate me pid ip s = Done () t \<and> ilock me pid (Some ip) (upd_inode ip (\<lambda>_. j) t) = Done () u \<and>
    inodes u ip = i\<lparr>i_ref := i_ref j, i_lock := held_lock pid, i_valid := True\<rparr> \<and>
    (\<forall>n j. IBLOCK n (sb s) = b \<and> n \<noteq> i_inum i \<longrightarrow>
       get_dinode (view u (log_dev s, b)) (dip_off n) j = get_dinode (view s (log_dev s, b)) (dip_off n) j) \<and>
    (\<forall>k. k \<noteq> (log_dev s, b) \<longrightarrow> view u k = view s k)"
proof -
  have op': "in_op pid (Suc 0) s" using op by simp
  obtain t where t: "iupdate me pid ip s = Done () t" "in_op pid 0 t" "log_frame s t"
    "view t = (view s)((log_dev s, b) := put_dinode i (dip_off (i_inum i)) (view s (log_dev s, b)))"
    by (rule iupdate_ok [OF op', of ip me]) (use i b in auto)
  note f = log_frame_fs [OF t(3)]
  let ?g = "upd_inode ip (\<lambda>_. j) t"
  let ?d = "get_dinode (view ?g (log_dev ?g, IBLOCK (i_inum (inodes ?g ip)) (sb ?g))) (dip_off (i_inum (inodes ?g ip))) (inodes ?g ip)"
  have ld: "log_dev t = log_dev s" using t(3) by (simp add: log_frame_def)
  have d: "?d = j\<lparr>i_type := i_type i, i_major := i_major i, i_minor := i_minor i, i_nlink := i_nlink i, i_size := i_size i, i_addrs := i_addrs i\<rparr>"
    using t(4) f ld i j b by (simp add: get_put_dinode)
  have okg: "log_ok {} pid ?g" using t(2) by (simp add: in_op_def)
  obtain u where u: "ilock me pid (Some ip) ?g = Done () u" "view u = view ?g"
    "inodes u = (inodes ?g)(ip := ?d\<lparr>i_lock := held_lock pid, i_valid := True\<rparr>)"
    by (rule ilock_ok [OF okg _ _ _ _ refl, of ip me]) (use j i d ld in simp_all)
  have "inodes u ip = i\<lparr>i_ref := i_ref j, i_lock := held_lock pid, i_valid := True\<rparr>"
    using u(3) d j(1,2) by (cases i, cases j) simp
  moreover have "get_dinode (view u (log_dev s, b)) (dip_off n) h = get_dinode (view s (log_dev s, b)) (dip_off n) h"
    if "IBLOCK n (sb s) = b" "n \<noteq> i_inum i" for n h
  proof (rule get_dinode_cong)
    fix k assume k: "dip_off n \<le> k" "k < dip_off n + DINODE"
    have "n mod 16 \<noteq> i_inum i mod 16" "n div 16 = i_inum i div 16"
      using that b by (auto simp: IBLOCK_def DINODE_eq) (metis div_mult_mod_eq)
    then have "k < dip_off (i_inum i) \<or> dip_off (i_inum i) + DINODE \<le> k"
      using k by (auto simp: dip_off_def DINODE_eq)
    then show "view u (log_dev s, b) k = view s (log_dev s, b) k"
      using u(2) t(4) put_dinode_outside [OF i(2)] by simp
  qed
  ultimately show ?thesis using t(1,4) u(1,2) by auto
qed


text \<open>A file of one block on the file system of \<open>sample_sb\<close>, inside a transaction.\<close>

definition sample_inode :: inode where
  "sample_inode = \<lparr>i_dev = 1, i_inum = 5, i_ref = 1, i_lock = initsleeplock, i_valid = True, i_type = 2, i_major = 0, i_minor = 0,
     i_nlink = 1, i_size = 1024, i_addrs = 50 # replicate 12 0\<rparr>"

definition sample_fs :: fs_state where
  "sample_fs = log_state.extend (sample_log\<lparr>outstanding := 1\<rparr>) (fs_state.fields sample_sb initlock (\<lambda>_. sample_inode))"

lemma sample_fs_fields [simp]:
  "sb sample_fs = sample_sb" "inodes sample_fs = (\<lambda>_. sample_inode)" "log_dev sample_fs = 1" "log_start sample_fs = 2"
  "log_size sample_fs = 30" "lh sample_fs = []" "outstanding sample_fs = 1" "log_lock sample_fs = initlock"
  "disk sample_fs = (\<lambda>_ _ _. 0)" "bufs sample_fs = bufs sample_log" "bc_lock sample_fs = bc_lock sample_log" "lru sample_fs = lru sample_log"
  "it_lock sample_fs = initlock"
  by (simp_all add: sample_fs_def log_state.defs fs_state.defs sample_log_def boot_def binit_def)

lemma sample_fs_op: "in_op pid 10 sample_fs" "loggable sample_fs b \<longleftrightarrow> b < 2 ^ 32 \<and> (b < 2 \<or> 32 \<le> b)"
proof -
  have "disk sample_log = (\<lambda>_ _ _. 0)" by (simp add: sample_log_def boot_def binit_def)
  moreover have "bio_ok (Pair 1 ` set []) {} pid sample_log"
    using log_okD(1) [OF sample_log_ok [of pid]] by (simp add: sample_log_def boot_def binit_def)
  ultimately have "bio_ok {} {} pid sample_fs" using bio_ok_cong [of sample_fs sample_log] by simp
  then show "in_op pid 10 sample_fs"
    by (simp add: in_op_def log_ok_def unheld_def LOGSIZE_def MAXOPBLOCKS_def ld32_def)
  show "loggable sample_fs b \<longleftrightarrow> b < 2 ^ 32 \<and> (b < 2 \<or> 32 \<le> b)" by (auto simp: loggable_def in_log_def)
qed

lemma in_op_mono: "in_op pid n s \<Longrightarrow> m \<le> n \<Longrightarrow> in_op pid m s"
  by (simp add: in_op_def)

theorem iupdate_ilock_roundtrip_witness:
  "\<exists>t u. iupdate 0 1 7 sample_fs = Done () t \<and>
     ilock 0 1 (Some 7) (upd_inode 7 (\<lambda>_. sample_inode\<lparr>i_valid := False, i_type := 0, i_size := 0, i_addrs := []\<rparr>) t) = Done () u \<and>
     inodes u 7 = sample_inode\<lparr>i_lock := held_lock 1\<rparr>"
proof -
  let ?j = "sample_inode\<lparr>i_valid := False, i_type := 0, i_size := 0, i_addrs := []\<rparr>"
  have b: "IBLOCK (i_inum sample_inode) (sb sample_fs) = 32" by (simp add: IBLOCK_def sample_inode_def sample_sb_def DINODE_eq)
  have d: "dinode_ok sample_inode" by (simp add: dinode_ok_def sample_inode_def DINODE_eq)
  have "\<exists>t u. iupdate 0 1 7 sample_fs = Done () t \<and> ilock 0 1 (Some 7) (upd_inode 7 (\<lambda>_. ?j) t) = Done () u \<and>
    inodes u 7 = sample_inode\<lparr>i_ref := i_ref ?j, i_lock := held_lock 1, i_valid := True\<rparr> \<and>
    (\<forall>n j. IBLOCK n (sb sample_fs) = 32 \<and> n \<noteq> i_inum sample_inode \<longrightarrow>
       get_dinode (view u (log_dev sample_fs, 32)) (dip_off n) j = get_dinode (view sample_fs (log_dev sample_fs, 32)) (dip_off n) j) \<and>
    (\<forall>k. k \<noteq> (log_dev sample_fs, 32) \<longrightarrow> view u k = view sample_fs k)"
    by (rule iupdate_ilock_roundtrip [OF in_op_mono [OF sample_fs_op(1)]])
      (use b d in \<open>simp_all add: sample_fs_op(2) sample_inode_def\<close>)
  then show ?thesis by (auto simp: sample_inode_def)
qed

end
