(* ===== verification/Fs_Alloc.thy ===== *)
theory Fs_Alloc
  imports Fs_Correct
begin

section \<open>The block allocator\<close>

text \<open>
  The free map has one bit per block.  \<open>balloc\<close> takes a clear bit, sets it and zeroes the
  block; \<open>bfree\<close> clears the bit again.
\<close>

subsection \<open>Bits of the free map\<close>

lemma in_use_bit: "in_use d bi \<longleftrightarrow> bit (d (bi div 8)) (bi mod 8)"
  using and_exp_eq_0_iff_not_bit [of "d (bi div 8)" "bi mod 8"] by (simp add: in_use_def bit_of_def push_bit_of_1)

lemma bit_bit_of: "bit (bit_of bi) n \<longleftrightarrow> n = bi mod 8"
  by (auto simp: bit_of_def push_bit_of_1 bit_exp_iff)

lemma same_bit: "bi div 8 = bj div 8 \<Longrightarrow> bi mod 8 = bj mod 8 \<Longrightarrow> bi = (bj :: nat)"
  by (metis div_mult_mod_eq)

lemma in_use_mark [simp]: "in_use (mark d bi) bj \<longleftrightarrow> bj = bi \<or> in_use d bj"
proof (cases "bj div 8 = bi div 8")
  case True
  have "(bj mod 8 = bi mod 8) = (bj = bi)" using same_bit [OF True] by blast
  then show ?thesis using True by (auto simp: in_use_bit mark_def bit_or_iff bit_bit_of)
qed (auto simp: in_use_bit mark_def)

lemma in_use_unmark [simp]: "in_use (unmark d bi) bj \<longleftrightarrow> bj \<noteq> bi \<and> in_use d bj"
proof (cases "bj div 8 = bi div 8")
  case True
  have "(bj mod 8 = bi mod 8) = (bj = bi)" using same_bit [OF True] by blast
  then show ?thesis using True by (auto simp: in_use_bit unmark_def bit_and_iff bit_not_iff bit_bit_of)
qed (auto simp: in_use_bit unmark_def)

lemma unmark_mark:
  assumes "\<not> in_use d bi" shows "unmark (mark d bi) bi = d"
proof
  fix k
  have "bit ((d (bi div 8) OR bit_of bi) AND NOT (bit_of bi)) n = bit (d (bi div 8)) n" if "n < 8" for n
    using assms that by (auto simp: in_use_bit bit_and_iff bit_or_iff bit_not_iff bit_bit_of)
  then have "(d (bi div 8) OR bit_of bi) AND NOT (bit_of bi) = d (bi div 8)" by (intro bit_word_eqI) simp
  then show "unmark (mark d bi) bi k = d k" by (simp add: unmark_def mark_def)
qed

subsection \<open>Allocation\<close>

definition used :: "'a fs_state_scheme \<Rightarrow> nat \<Rightarrow> bool" where
  "used s b \<longleftrightarrow> in_use (view s (log_dev s, BBLOCK b (sb s))) (b mod BPB)"

definition zeroed :: "block \<Rightarrow> block" where
  "zeroed d = (\<lambda>k. if k < BSIZE then 0 else d k)"

lemma bnd_Done [simp]: "bnd m Done = m"
  by (cases m) auto

lemma bzero_ok:
  assumes op: "in_op pid (Suc n) s" and b: "loggable s b"
  obtains t where "bzero me pid (log_dev s) b s = Done () t" "in_op pid n t" "log_frame s t"
    "view t = (view s)((log_dev s, b) := zeroed (view s (log_dev s, b)))"
proof -
  let ?d = "zeroed (view s (log_dev s, b))"
  have ok: "log_ok {} pid s" using op by (simp add: in_op_def)
  obtain t where t: "logged_update me pid b ?d s = Done () t" "in_op pid n t" "view t = (view s)((log_dev s, b) := ?d)" "log_frame s t"
    by (rule in_op_update [OF op b, of me ?d])
  have "bzero me pid (log_dev s) b s = bnd (logged_update me pid b ?d s) (\<lambda>_. Done ())"
    unfolding bzero_def by (rule update_block [OF ok]) (simp add: zeroed_def cong: if_cong)
  then show ?thesis using that t by simp
qed

lemma bfree_ok:
  assumes op: "in_op pid (Suc n) s" and b: "loggable s (BBLOCK b (sb s))" and u: "used s b"
  obtains t where "bfree me pid (log_dev s) b s = Done () t" "in_op pid n t" "log_frame s t"
    "view t = (view s)((log_dev s, BBLOCK b (sb s)) := unmark (view s (log_dev s, BBLOCK b (sb s))) (b mod BPB))"
proof -
  let ?b = "BBLOCK b (sb s)"
  let ?d = "unmark (view s (log_dev s, ?b)) (b mod BPB)"
  have ok: "log_ok {} pid s" using op by (simp add: in_op_def)
  obtain t where t: "logged_update me pid ?b ?d s = Done () t" "in_op pid n t" "view t = (view s)((log_dev s, ?b) := ?d)" "log_frame s t"
    by (rule in_op_update [OF op b, of me ?d])
  have "bfree me pid (log_dev s) b s = bnd (logged_update me pid ?b ?d s) (\<lambda>_. Done ())"
    unfolding bfree_def by (rule update_block [OF ok]) (use u in \<open>simp add: used_def Let_def\<close>)
  then show ?thesis using that t by simp
qed

text \<open>What reading a block leaves alone.\<close>

definition quiet :: "'a log_state_scheme \<Rightarrow> 'a log_state_scheme \<Rightarrow> bool" where
  "quiet s t \<longleftrightarrow> log_frame s t \<and> view t = view s \<and> lh t = lh s"

lemma peek_block:
  assumes ok: "log_ok {} pid s" and G: "\<And>i s1. bdata s1 i = view s (log_dev s, b) \<Longrightarrow> bio_frame s s1 \<Longrightarrow> G i s1 = bnd (brelse me pid i s1) K"
  obtains t where "bnd (bread me pid (log_dev s) b s) G = K () t" "log_ok {} pid t" "quiet s t"
proof -
  obtain i s1 where a: "bread me pid (log_dev s) b s = Done i s1" "log_ok {i} pid s1" "clean s1 i" "bdata s1 i = view s (log_dev s, b)"
    "view s1 = view s" "bio_frame s s1"
    by (rule read_block [OF ok, of me b])
  obtain t where t: "brelse me pid i s1 = Done () t" "log_ok {} pid t" "view t = view s1" "bio_frame s1 t"
    by (rule release_block [OF a(2,3), of me])
  have f: "bio_frame s t" using a(6) t(4) by (simp add: bio_frame_def)
  then have "quiet s t" using log_same(4) [of t s] log_frame_bio t(3) a(5) by (auto simp: quiet_def bio_frame_def)
  moreover have "bnd (bread me pid (log_dev s) b s) G = K () t" using a(1) t(1) G [OF a(4,6)] by simp
  ultimately show ?thesis using that t(2) by blast
qed

lemma skip_block:
  assumes op: "in_op pid n s" and G: "\<And>i s1. bdata s1 i = view s (log_dev s, b) \<Longrightarrow> bio_frame s s1 \<Longrightarrow> G i s1 = bnd (brelse me pid i s1) K"
  obtains t where "bnd (bread me pid (log_dev s) b s) G = K () t" "in_op pid n t" "log_frame s t" "view t = view s"
proof -
  have ok: "log_ok {} pid s" using op by (simp add: in_op_def)
  obtain t where t: "bnd (bread me pid (log_dev s) b s) G = K () t" "log_ok {} pid t" "quiet s t"
    by (rule peek_block [OF ok G])
  then show ?thesis using that op by (auto simp: quiet_def in_op_def log_frame_def)
qed

definition allocated :: "'a fs_state_scheme \<Rightarrow> nat \<Rightarrow> 'a fs_state_scheme \<Rightarrow> bool" where
  "allocated s b t \<longleftrightarrow> b < sb_size (sb s) \<and> \<not> used s b \<and>
     (let m = (log_dev s, BBLOCK b (sb s)); v = (view s)(m := mark (view s m) (b mod BPB)) in
      view t = v((log_dev s, b) := zeroed (v (log_dev s, b))))"

lemma log_frame_loggable: "log_frame s t \<Longrightarrow> loggable t = loggable s"
  by (simp add: fun_eq_iff loggable_def in_log_def log_frame_def)

lemma same_map_block:
  assumes "b mod BPB = 0" "bi < BPB" shows "BBLOCK (b + bi) r = BBLOCK b r" "(b + bi) mod BPB = bi"
proof -
  have "b = b div BPB * BPB" using div_mult_mod_eq [of b BPB] assms(1) by simp
  then obtain q where "b = q * BPB" by blast
  then show "BBLOCK (b + bi) r = BBLOCK b r" "(b + bi) mod BPB = bi" using assms(2) by (simp_all add: BBLOCK_def)
qed

lemma balloc_found:
  assumes op: "in_op pid (Suc (Suc n)) s" and b: "b mod BPB = 0" "loggable s (BBLOCK b (sb s))" "\<And>b. b < sb_size (sb s) \<Longrightarrow> \<not> used s b \<Longrightarrow> loggable s b"
    and f: "find (\<lambda>bi. b + bi < sb_size (sb s) \<and> \<not> in_use (view s (log_dev s, BBLOCK b (sb s))) bi) [0..<BPB] = Some bi"
  obtains t where "balloc_loop me pid (log_dev s) (b # bs) s = Done (b + bi) t" "log_frame s t" "allocated s (b + bi) t" "in_op pid n t"
proof -
  let ?m = "BBLOCK b (sb s)" and ?d = "view s (log_dev s, BBLOCK b (sb s))"
  have bi: "bi < BPB" "b + bi < sb_size (sb s)" "\<not> in_use ?d bi" using f by (auto simp: find_Some_iff)
  have ok: "log_ok {} pid s" using op by (simp add: in_op_def)
  obtain t1 where t1: "logged_update me pid ?m (mark ?d bi) s = Done () t1" "in_op pid (Suc n) t1" "view t1 = (view s)((log_dev s, ?m) := mark ?d bi)"
    "log_frame s t1"
    by (rule in_op_update [OF op b(2), of me "mark ?d bi"])
  have nu: "\<not> used s (b + bi)" using bi(3) same_map_block [OF b(1) bi(1)] by (simp add: used_def)
  have l1: "log_dev t1 = log_dev s" "loggable t1 (b + bi)" using t1(4) log_frame_loggable [OF t1(4)] b(3) bi nu by (auto simp: log_frame_def)
  obtain t2 where t2: "bzero me pid (log_dev t1) (b + bi) t1 = Done () t2" "in_op pid n t2" "log_frame t1 t2"
    "view t2 = (view t1)((log_dev t1, b + bi) := zeroed (view t1 (log_dev t1, b + bi)))"
    by (rule bzero_ok [OF t1(2) l1(2), of me])
  have "balloc_loop me pid (log_dev s) (b # bs) s =
    bnd (logged_update me pid ?m (mark ?d bi) s) (\<lambda>_ s'. bnd (bzero me pid (log_dev s) (b + bi) s') (\<lambda>_ s'. Done (b + bi) s'))"
    unfolding balloc_loop.simps
  proof (rule update_block [OF ok])
    fix i s1 assume a: "bdata s1 i = ?d" "bio_frame s s1"
    have "sb s1 = sb s" using log_frame_fs [OF log_frame_bio [OF a(2)]] by simp
    then show "(let d = bdata s1 i in case find (\<lambda>bi. b + bi < sb_size (sb s1) \<and> \<not> in_use d bi) [0..<BPB] of
          None \<Rightarrow> bnd (brelse me pid i s1) (\<lambda>_. balloc_loop me pid (log_dev s) bs)
        | Some bi \<Rightarrow> bnd (log_write me i (set_data i (mark d bi) s1)) (\<lambda>_ s'. bnd (brelse me pid i s') (\<lambda>_ s'.
            bnd (bzero me pid (log_dev s) (b + bi) s') (\<lambda>_. Done (b + bi))))) =
        bnd (log_write me i (set_data i (mark ?d bi) s1)) (\<lambda>_ s'. bnd (brelse me pid i s') (\<lambda>_ s'.
            bnd (bzero me pid (log_dev s) (b + bi) s') (\<lambda>_. Done (b + bi))))"
      using f a(1) by (simp add: Let_def)
  qed
  then have "balloc_loop me pid (log_dev s) (b # bs) s = Done (b + bi) t2" using t1(1) t2(1) l1(1) by simp
  moreover have "allocated s (b + bi) t2"
    using bi nu t1(3) t2(4) l1(1) same_map_block [OF b(1) bi(1)] by (simp add: allocated_def Let_def)
  ultimately show ?thesis using that t2(2) log_frame_trans [OF t1(4) t2(3)] by blast
qed

lemma balloc_skip:
  assumes op: "in_op pid (Suc (Suc n)) s"
    and f: "find (\<lambda>bi. b + bi < sb_size (sb s) \<and> \<not> in_use (view s (log_dev s, BBLOCK b (sb s))) bi) [0..<BPB] = None"
  obtains t where "balloc_loop me pid (log_dev s) (b # bs) s = balloc_loop me pid (log_dev s) bs t" "in_op pid (Suc (Suc n)) t" "log_frame s t" "view t = view s"
proof -
  let ?G = "\<lambda>i s1. let d = bdata s1 i in case find (\<lambda>bi. b + bi < sb_size (sb s1) \<and> \<not> in_use d bi) [0..<BPB] of
          None \<Rightarrow> bnd (brelse me pid i s1) (\<lambda>_. balloc_loop me pid (log_dev s) bs)
        | Some bi \<Rightarrow> bnd (log_write me i (set_data i (mark d bi) s1)) (\<lambda>_ s'. bnd (brelse me pid i s') (\<lambda>_ s'.
            bnd (bzero me pid (log_dev s) (b + bi) s') (\<lambda>_. Done (b + bi))))"
  have G: "?G i s1 = bnd (brelse me pid i s1) (\<lambda>_. balloc_loop me pid (log_dev s) bs)"
    if a: "bdata s1 i = view s (log_dev s, BBLOCK b (sb s))" "bio_frame s s1" for i s1
  proof -
    have "sb s1 = sb s" using log_frame_fs [OF log_frame_bio [OF a(2)]] by simp
    then show ?thesis using f a(1) by (simp add: Let_def)
  qed
  obtain t where t: "bnd (bread me pid (log_dev s) (BBLOCK b (sb s)) s) ?G = balloc_loop me pid (log_dev s) bs t"
    "in_op pid (Suc (Suc n)) t" "log_frame s t" "view t = view s"
    by (rule skip_block [OF op G])
  then show ?thesis using that by simp
qed

lemma balloc_loop_ok:
  assumes "in_op pid (Suc (Suc n)) s" "\<And>b. b \<in> set bs \<Longrightarrow> b mod BPB = 0 \<and> loggable s (BBLOCK b (sb s))" "\<And>b. b < sb_size (sb s) \<Longrightarrow> \<not> used s b \<Longrightarrow> loggable s b"
  shows "\<exists>b t. balloc_loop me pid (log_dev s) bs s = Done b t \<and> log_frame s t \<and>
    (allocated s b t \<and> in_op pid n t \<or>
     b = 0 \<and> view t = view s \<and> in_op pid (Suc (Suc n)) t \<and> (\<forall>c. c < sb_size (sb s) \<longrightarrow> c - c mod BPB \<in> set bs \<longrightarrow> used s c))"
  using assms
proof (induction bs arbitrary: s)
  case (Cons b bs)
  let ?f = "find (\<lambda>bi. b + bi < sb_size (sb s) \<and> \<not> in_use (view s (log_dev s, BBLOCK b (sb s))) bi) [0..<BPB]"
  have b: "b mod BPB = 0" "loggable s (BBLOCK b (sb s))" using Cons.prems(2) by auto
  show ?case
  proof (cases ?f)
    case None
    obtain t where t: "balloc_loop me pid (log_dev s) (b # bs) s = balloc_loop me pid (log_dev s) bs t" "in_op pid (Suc (Suc n)) t" "log_frame s t" "view t = view s"
      by (rule balloc_skip [OF Cons.prems(1) None, of me bs])
    have f: "log_dev t = log_dev s" "sb t = sb s" "loggable t = loggable s"
      using t(3) log_frame_fs [OF t(3)] log_frame_loggable by (auto simp: log_frame_def)
    have a: "allocated t c u = allocated s c u" "used t c = used s c" for c u using f t(4) by (simp_all add: allocated_def used_def)
    have u: "used s c" if c: "c < sb_size (sb s)" "c - c mod BPB = b" for c
    proof -
      have e: "c = b + c mod BPB" "c mod BPB < BPB" using c(2) by (auto simp: BPB_def BSIZE_def)
      then have "in_use (view s (log_dev s, BBLOCK b (sb s))) (c mod BPB)" using None c(1) by (auto simp: find_None_iff)
      then show ?thesis using same_map_block(1) [OF b(1) e(2), of "sb s"] e(1) by (simp add: used_def)
    qed
    have "\<exists>c u. balloc_loop me pid (log_dev t) bs t = Done c u \<and> log_frame t u \<and>
      (allocated t c u \<and> in_op pid n u \<or>
       c = 0 \<and> view u = view t \<and> in_op pid (Suc (Suc n)) u \<and> (\<forall>d. d < sb_size (sb t) \<longrightarrow> d - d mod BPB \<in> set bs \<longrightarrow> used t d))"
      by (rule Cons.IH [OF t(2)]) (use Cons.prems(2,3) f a in auto)
    then obtain c v where v: "balloc_loop me pid (log_dev s) bs t = Done c v" "log_frame t v"
      "allocated s c v \<and> in_op pid n v \<or>
       c = 0 \<and> view v = view s \<and> in_op pid (Suc (Suc n)) v \<and> (\<forall>d. d < sb_size (sb s) \<longrightarrow> d - d mod BPB \<in> set bs \<longrightarrow> used s d)"
      unfolding f a t(4) by blast
    show ?thesis
    proof (intro exI conjI)
      show "balloc_loop me pid (log_dev s) (b # bs) s = Done c v" using t(1) v(1) by simp
      show "log_frame s v" by (rule log_frame_trans [OF t(3) v(2)])
      show "allocated s c v \<and> in_op pid n v \<or>
       c = 0 \<and> view v = view s \<and> in_op pid (Suc (Suc n)) v \<and> (\<forall>d. d < sb_size (sb s) \<longrightarrow> d - d mod BPB \<in> set (b # bs) \<longrightarrow> used s d)"
        using v(3) u by auto
    qed
  next
    case (Some bi)
    obtain t where "balloc_loop me pid (log_dev s) (b # bs) s = Done (b + bi) t" "log_frame s t" "allocated s (b + bi) t" "in_op pid n t"
      by (rule balloc_found [OF Cons.prems(1) b Cons.prems(3) Some, of me bs])
    then show ?thesis by blast
  qed
qed simp


lemma balloc_ok:
  assumes op: "in_op pid (Suc (Suc n)) s" and m: "\<And>b. b < sb_size (sb s) \<Longrightarrow> loggable s (BBLOCK b (sb s))"
    and f: "\<And>b. b < sb_size (sb s) \<Longrightarrow> \<not> used s b \<Longrightarrow> loggable s b"
  shows "\<exists>b t. balloc me pid (log_dev s) s = Done b t \<and> log_frame s t \<and>
    (if (\<forall>c < sb_size (sb s). used s c) then b = 0 \<and> view t = view s \<and> in_op pid (Suc (Suc n)) t else allocated s b t \<and> in_op pid n t)"
proof -
  let ?bs = "[b \<leftarrow> [0..<sb_size (sb s)]. b mod BPB = 0]"
  have mem: "c - c mod BPB \<in> set ?bs" if "c < sb_size (sb s)" for c using that by (auto simp: mod_eq_0_iff_dvd dvd_minus_mod)
  obtain b t where t: "balloc_loop me pid (log_dev s) ?bs s = Done b t" "log_frame s t"
    "allocated s b t \<and> in_op pid n t \<or>
     b = 0 \<and> view t = view s \<and> in_op pid (Suc (Suc n)) t \<and> (\<forall>c. c < sb_size (sb s) \<longrightarrow> c - c mod BPB \<in> set ?bs \<longrightarrow> used s c)"
    using balloc_loop_ok [OF op, of ?bs me] m f by fastforce
  have "if (\<forall>c < sb_size (sb s). used s c) then b = 0 \<and> view t = view s \<and> in_op pid (Suc (Suc n)) t else allocated s b t \<and> in_op pid n t"
  proof (cases "\<forall>c < sb_size (sb s). used s c")
    case True
    then have "\<not> allocated s b t" by (auto simp: allocated_def)
    then show ?thesis using t(3) True by simp
  next
    case False
    then have "allocated s b t \<and> in_op pid n t" using t(3) mem by blast
    then show ?thesis unfolding if_not_P [OF False] .
  qed
  then show ?thesis using t(1,2) unfolding balloc_def by blast
qed

lemma allocated_used:
  assumes a: "allocated s b t" and f: "log_frame s t" and l: "BBLOCK c (sb s) \<noteq> b"
  shows "used t c \<longleftrightarrow> c = b \<or> used s c"
proof -
  have e: "log_dev t = log_dev s" "sb t = sb s" using f log_frame_fs [OF f] by (simp_all add: log_frame_def)
  have v: "view t (log_dev s, BBLOCK c (sb s)) =
    (if BBLOCK c (sb s) = BBLOCK b (sb s) then mark (view s (log_dev s, BBLOCK b (sb s))) (b mod BPB) else view s (log_dev s, BBLOCK c (sb s)))"
    using a l by (simp add: allocated_def Let_def)
  have "c = b" if "BBLOCK c (sb s) = BBLOCK b (sb s)" "c mod BPB = b mod BPB"
  proof -
    have "c div BPB = b div BPB" using that(1) by (simp add: BBLOCK_def)
    then show ?thesis using that(2) by (metis div_mult_mod_eq)
  qed
  then show ?thesis using v e by (auto simp: used_def)
qed

text \<open>C35. \<open>balloc\<close> allocates: if the free map has a clear bit it returns a block that was
  free, marks that block and no other as used, and zeroes it, changing no block besides the
  map's; it returns 0, changing nothing, only when every block is used.  \<open>bfree\<close> of the
  block gives the old free map back.\<close>

theorem balloc_bfree:
  assumes op: "in_op pid 3 s" and m: "\<And>b. b < sb_size (sb s) \<Longrightarrow> loggable s (BBLOCK b (sb s))"
    and f: "\<And>b c. b < sb_size (sb s) \<Longrightarrow> \<not> used s b \<Longrightarrow> c < sb_size (sb s) \<Longrightarrow> loggable s b \<and> BBLOCK c (sb s) \<noteq> b"
  shows "\<exists>b t. balloc me pid (log_dev s) s = Done b t \<and>
    (if (\<forall>c < sb_size (sb s). used s c) then b = 0 \<and> view t = view s
     else b < sb_size (sb s) \<and> \<not> used s b \<and> (\<forall>c < sb_size (sb s). used t c = (c = b \<or> used s c)) \<and> (\<forall>k<BSIZE. view t (log_dev s, b) k = 0) \<and>
       (\<forall>k. k \<noteq> (log_dev s, b) \<and> k \<noteq> (log_dev s, BBLOCK b (sb s)) \<longrightarrow> view t k = view s k) \<and>
       (\<exists>u. bfree me pid (log_dev s) b t = Done () u \<and> (\<forall>c < sb_size (sb s). used u c = used s c)))"
proof -
  have op': "in_op pid (Suc (Suc 1)) s" using op by (simp add: numeral_3_eq_3)
  obtain b t where t: "balloc me pid (log_dev s) s = Done b t" "log_frame s t"
    "if (\<forall>c < sb_size (sb s). used s c) then b = 0 \<and> view t = view s \<and> in_op pid (Suc (Suc 1)) t else allocated s b t \<and> in_op pid 1 t"
    using balloc_ok [OF op' m, of me] f by blast
  show ?thesis
  proof (cases "\<forall>c < sb_size (sb s). used s c")
    case True
    then show ?thesis using t by auto
  next
    case False
    have a: "allocated s b t" "in_op pid (Suc 0) t" using t(3) unfolding if_not_P [OF False] by simp_all
    have b: "b < sb_size (sb s)" "\<not> used s b" using a(1) by (auto simp: allocated_def)
    have l: "BBLOCK c (sb s) \<noteq> b" if "c < sb_size (sb s)" for c using f [OF b that] by blast
    have u: "used t c = (c = b \<or> used s c)" if "c < sb_size (sb s)" for c by (rule allocated_used [OF a(1) t(2) l [OF that]])
    have e: "log_dev t = log_dev s" "sb t = sb s" using t(2) log_frame_fs [OF t(2)] by (simp_all add: log_frame_def)
    have lg: "loggable t (BBLOCK b (sb t))" using m [OF b(1)] e log_frame_loggable [OF t(2)] by simp
    obtain v where v: "bfree me pid (log_dev t) b t = Done () v" "log_frame t v"
      "view v = (view t)((log_dev t, BBLOCK b (sb t)) := unmark (view t (log_dev t, BBLOCK b (sb t))) (b mod BPB))"
      by (rule bfree_ok [OF a(2) lg, of me]) (use u b in auto)
    have e2: "log_dev v = log_dev s" "sb v = sb s" using v(2) log_frame_fs [OF v(2)] e by (simp_all add: log_frame_def)
    have "view v (log_dev s, BBLOCK c (sb s)) = view s (log_dev s, BBLOCK c (sb s))" if "c < sb_size (sb s)" for c
      using v(3) a(1) l [OF that] l [OF b(1)] e b(2) by (auto simp: allocated_def Let_def used_def unmark_mark)
    then have "used v c = used s c" if "c < sb_size (sb s)" for c using that e2 by (simp add: used_def)
    moreover have "\<forall>k<BSIZE. view t (log_dev s, b) k = 0"
      "\<forall>k. k \<noteq> (log_dev s, b) \<and> k \<noteq> (log_dev s, BBLOCK b (sb s)) \<longrightarrow> view t k = view s k"
      using a(1) by (auto simp: allocated_def Let_def zeroed_def)
    moreover have "bfree me pid (log_dev s) b t = Done () v" using v(1) e(1) by simp
    ultimately show ?thesis unfolding if_not_P [OF False] using t(1) b u by blast
  qed
qed

text \<open>The free map of a fresh file system, whose first 46 blocks hold its own data.\<close>

definition sample_map :: fs_state where
  "sample_map = sample_fs\<lparr>disk := (\<lambda>_ b. if b = 45 then (\<lambda>k. if k < 5 then 255 else if k = 5 then 63 else 0) else (\<lambda>_. 0))\<rparr>"

lemma small_bits: "n < 8 \<Longrightarrow> bit (255 :: 8 word) n" "n < 6 \<Longrightarrow> bit (63 :: 8 word) n" "\<not> bit (63 :: 8 word) 6"
  by (auto simp: less_Suc_eq numeral_eq_Suc)

lemma sample_bufs: "\<not> b_valid (bufs sample_log i)" "b_dev (bufs sample_log i) = 0"
  by (auto simp: sample_log_def boot_def binit_def zero_buf_def)

lemma sample_map_op: "in_op pid 10 sample_map" "loggable sample_map b = loggable sample_fs b"
proof -
  have "bio_ok {} {} pid sample_fs" using sample_fs_op(1) [of pid] log_okD(1) [of "{}" pid sample_fs] by (simp add: in_op_def)
  then have "bio_ok {} {} pid sample_map"
    using sample_bufs by (simp add: sample_map_def bio_ok_def key_def)
  then show "in_op pid 10 sample_map"
    using sample_fs_op(1) [of pid] by (simp add: in_op_def log_ok_def sample_map_def in_log_def ld32_def)
  show "loggable sample_map b = loggable sample_fs b" by (simp add: loggable_def in_log_def sample_map_def)
qed

lemma sample_map_used: "c < 2000 \<Longrightarrow> \<not> used sample_map c \<Longrightarrow> 46 \<le> c" "\<not> used sample_map 46"
proof -
  have "view sample_map (1, 45) = dsk sample_map (1, 45)" by (rule view_disk) (use sample_bufs in \<open>simp add: sample_map_def\<close>)
  then have v: "view sample_map (1, 45) = (\<lambda>k. if k < 5 then 255 else if k = 5 then 63 else 0)" by (simp add: dsk_def sample_map_def)
  have f: "log_dev sample_map = 1" "sb sample_map = sample_sb" by (simp_all add: sample_map_def)
  have m: "BBLOCK c sample_sb = 45" "c mod BPB = c" if "c < 2000" for c
    using that by (simp_all add: BBLOCK_def BPB_def BSIZE_def sample_sb_def)
  have u: "used sample_map c \<longleftrightarrow> in_use (\<lambda>k. if k < 5 then 255 else if k = 5 then 63 else 0) c" if "c < 2000" for c
    using m [OF that] v f by (simp add: used_def)
  show "46 \<le> c" if c: "c < 2000" "\<not> used sample_map c"
  proof (rule ccontr)
    assume "\<not> 46 \<le> c"
    then have "c div 8 < 5 \<or> c div 8 = 5 \<and> c mod 8 < 6" by presburger
    then show False using u [OF c(1)] c(2) small_bits by (auto simp: in_use_bit split: if_splits)
  qed
  show "\<not> used sample_map 46" using u [of 46] small_bits(3) by (simp add: in_use_bit)
qed

theorem balloc_bfree_witness:
  "\<exists>b t u. balloc 0 1 1 sample_map = Done b t \<and> 46 \<le> b \<and> b < 2000 \<and> used t b \<and>
     bfree 0 1 1 b t = Done () u \<and> \<not> used u b"
proof -
  have f: "log_dev sample_map = 1" "sb_size (sb sample_map) = 2000" "sb_bmapstart (sb sample_map) = 45"
    by (simp_all add: sample_map_def sample_sb_def)
  have m: "BBLOCK b (sb sample_map) = 45" if "b < 2000" for b using that f by (simp add: BBLOCK_def BPB_def BSIZE_def)
  have free: "loggable sample_map b \<and> BBLOCK c (sb sample_map) \<noteq> b" 
    if "b < sb_size (sb sample_map)" "\<not> used sample_map b" "c < sb_size (sb sample_map)" for b c
    using sample_map_used(1) [OF _ that(2)] that(1) m [of c] that(3) f(2) by (simp add: sample_map_op sample_fs_op)
  have n: "\<not> (\<forall>c < sb_size (sb sample_map). used sample_map c)" using sample_map_used(2) f(2) by (intro notI) auto
  have op: "in_op 1 3 sample_map" by (rule in_op_mono [OF sample_map_op(1)]) simp
  have lm: "loggable sample_map (BBLOCK b (sb sample_map))" if "b < sb_size (sb sample_map)" for b
    using m [of b] that f by (simp add: sample_map_op sample_fs_op)
  obtain b t u where "balloc 0 1 1 sample_map = Done b t" "b < 2000" "\<not> used sample_map b"
    "\<forall>c < 2000. used t c = (c = b \<or> used sample_map c)" "bfree 0 1 1 b t = Done () u" "\<forall>c < 2000. used u c = used sample_map c"
    using balloc_bfree [OF op lm free, of 0] unfolding if_not_P [OF n] unfolding f by blast
  then show ?thesis using sample_map_used(1) by blast
qed

end
