(* ===== verification/Fs_Files.thy ===== *)
theory Fs_Files
  imports Fs_Alloc
begin

section \<open>Reading and writing files\<close>

text \<open>
  The content of a file is the sequence of the bytes of its blocks, which \<open>addrs\<close> and the
  indirect block name.  \<open>readi\<close> returns a slice of it, and \<open>writei\<close> replaces one.
\<close>

declare readi_loop.simps [simp del] writei_loop.simps [simp del] namex_loop.simps [simp del]

subsection \<open>The blocks of a file\<close>

definition blk :: "'a fs_state_scheme \<Rightarrow> nat \<Rightarrow> nat \<Rightarrow> nat" where
  "blk s ip bn = (if bn < NDIRECT then i_addrs (inodes s ip) ! bn
     else ld32 (view s (log_dev s, i_addrs (inodes s ip) ! NDIRECT)) (4 * (bn - NDIRECT)))"

definition present :: "'a fs_state_scheme \<Rightarrow> nat \<Rightarrow> nat \<Rightarrow> bool" where
  "present s ip bn \<longleftrightarrow> bn < MAXFILE \<and> blk s ip bn \<noteq> 0 \<and> (NDIRECT \<le> bn \<longrightarrow> i_addrs (inodes s ip) ! NDIRECT \<noteq> 0)"

definition fbyte :: "'a fs_state_scheme \<Rightarrow> nat \<Rightarrow> nat \<Rightarrow> 8 word" where
  "fbyte s ip k = view s (log_dev s, blk s ip (k div BSIZE)) (k mod BSIZE)"

lemma quiet_refl [simp]: "quiet s s"
  by (simp add: quiet_def)

lemma quiet_trans: "quiet s t \<Longrightarrow> quiet t u \<Longrightarrow> quiet s u"
  using log_frame_trans by (auto simp: quiet_def)

lemma quiet_same:
  assumes "quiet s t"
  shows "log_dev t = log_dev s" "inodes t = inodes s" "sb t = sb s" "view t = view s" "blk t = blk s" "present t = present s"
    "fbyte t = fbyte s" "loggable t = loggable s" "in_op pid n s \<Longrightarrow> log_ok {} pid t \<Longrightarrow> in_op pid n t"
proof -
  have f: "log_frame s t" "view t = view s" "lh t = lh s" using assms by (auto simp: quiet_def)
  show e: "log_dev t = log_dev s" "inodes t = inodes s" "sb t = sb s" "view t = view s"
    using f log_frame_fs [OF f(1)] by (simp_all add: log_frame_def)
  show b: "blk t = blk s" by (intro ext) (simp add: blk_def e)
  show "present t = present s" "fbyte t = fbyte s" by (intro ext, simp add: present_def fbyte_def e b)+
  show "loggable t = loggable s" by (rule log_frame_loggable [OF f(1)])
  show "in_op pid n t" if "in_op pid n s" "log_ok {} pid t" using that f by (simp add: in_op_def log_frame_def)
qed

lemma bmap_present:
  assumes ok: "log_ok {} pid s" and dev: "i_dev (inodes s ip) = log_dev s" and p: "present s ip bn"
  obtains t where "bmap me pid ip bn s = Done (blk s ip bn) t" "log_ok {} pid t" "quiet s t"
proof (cases "bn < NDIRECT")
  case True
  then have "bmap me pid ip bn s = Done (blk s ip bn) s" using p by (simp add: bmap_def present_def blk_def)
  then show ?thesis using that ok by simp
next
  case False
  let ?a = "i_addrs (inodes s ip) ! NDIRECT"
  have n: "bn - NDIRECT < NINDIRECT" "?a \<noteq> 0" "blk s ip bn = ld32 (view s (log_dev s, ?a)) (4 * (bn - NDIRECT))" "blk s ip bn \<noteq> 0"
    using p False by (auto simp: present_def MAXFILE_def blk_def)
  let ?K = "\<lambda>_. Done (blk s ip bn)"
  let ?G = "\<lambda>bp s1. bnd (if ld32 (bdata s1 bp) (4 * (bn - NDIRECT)) = 0 then
                   bnd (balloc me pid (i_dev (inodes s1 ip)) s1) (\<lambda>addr s.
                   if addr \<noteq> 0 then
                     bnd (log_write me bp (set_data bp (st32 (4 * (bn - NDIRECT)) addr (b_data (bufs s bp))) s)) (\<lambda>_ s. Done addr s)
                   else Done addr s)
                 else Done (ld32 (bdata s1 bp) (4 * (bn - NDIRECT))) s1) (\<lambda>addr s.
            bnd (brelse me pid bp s) (\<lambda>_ s. Done addr s))"
  obtain t where t: "bnd (bread me pid (log_dev s) ?a s) ?G = ?K () t" "log_ok {} pid t" "quiet s t"
    by (rule peek_block [OF ok, of ?a ?G me ?K]) (use n in simp_all)
  have "bmap me pid ip bn s = Done (blk s ip bn) t"
    using t(1) False n dev by (simp add: bmap_def Let_def)
  then show ?thesis using that t(2,3) by blast
qed

subsection \<open>Reading\<close>

lemma chunk_bytes:
  assumes "m \<le> BSIZE - off mod BSIZE"
  shows "map (\<lambda>k. view s (log_dev s, blk s ip (off div BSIZE)) (off mod BSIZE + k)) [0..<m] = map (fbyte s ip) [off..<off + m]"
proof (rule nth_equalityI)
  fix k assume "k < length (map (\<lambda>k. view s (log_dev s, blk s ip (off div BSIZE)) (off mod BSIZE + k)) [0..<m])"
  then have k: "off mod BSIZE + k < BSIZE" "k < m" using assms by auto
  have "off + k = off div BSIZE * BSIZE + (off mod BSIZE + k)" by simp
  then have "(off + k) div BSIZE = off div BSIZE" "(off + k) mod BSIZE = off mod BSIZE + k"
    using k(1) by (metis div_mult_self3 div_less add.right_neutral less_nat_zero_code mod_mult_self3 mod_less)+
  then show "map (\<lambda>k. view s (log_dev s, blk s ip (off div BSIZE)) (off mod BSIZE + k)) [0..<m] ! k = map (fbyte s ip) [off..<off + m] ! k"
    using k(2) by (simp add: fbyte_def)
qed simp

lemma readi_loop_ok:
  assumes "log_ok {} pid s" "i_dev (inodes s ip) = log_dev s" "tot \<le> n" "\<And>k. off \<le> k \<Longrightarrow> k < off + (n - tot) \<Longrightarrow> present s ip (k div BSIZE)"
  shows "\<exists>t. readi_loop me pid (\<lambda>_ _. True) ip n tot off acc s = Done (int n, acc @ map (fbyte s ip) [off..<off + (n - tot)]) t \<and>
    log_ok {} pid t \<and> quiet s t"
  using assms
proof (induction "n - tot" arbitrary: tot off acc s rule: less_induct)
  case less
  show ?case
  proof (cases "tot < n")
    case False
    then have "tot = n" using less.prems(3) by simp
    then show ?thesis using less.prems(1) by (simp add: readi_loop.simps [of me pid _ ip n n])
  next
    case True
    define m where "m = min (n - tot) (BSIZE - off mod BSIZE)"
    have m: "0 < m" "m \<le> n - tot" "m \<le> BSIZE - off mod BSIZE" using True by (auto simp: m_def BSIZE_def)
    obtain s1 where b: "bmap me pid ip (off div BSIZE) s = Done (blk s ip (off div BSIZE)) s1" "log_ok {} pid s1" "quiet s s1"
      by (rule bmap_present [OF less.prems(1,2), of "off div BSIZE" me]) (use less.prems(4) [of off] True in auto)
    note q1 = quiet_same [OF b(3)]
    let ?K = "\<lambda>_. readi_loop me pid (\<lambda>_ _. True) ip n (tot + m) (off + m) (acc @ map (fbyte s ip) [off..<off + m])"
    let ?G = "\<lambda>bp s. bnd (brelse me pid bp s) (\<lambda>_ s'. readi_loop me pid (\<lambda>_ _. True) ip n (tot + m) (off + m)
            (acc @ map (\<lambda>k. b_data (bufs s bp) (off mod BSIZE + k)) [0..<m]) s')"
    have G: "?G i u = bnd (brelse me pid i u) ?K" if "bdata u i = view s1 (log_dev s1, blk s ip (off div BSIZE))" for i u
      using that q1 chunk_bytes [OF m(3), of s ip] by simp
    obtain s2 where c: "bnd (bread me pid (log_dev s1) (blk s ip (off div BSIZE)) s1) ?G = ?K () s2" "log_ok {} pid s2" "quiet s1 s2"
      by (rule peek_block [OF b(2) G])
    note q2 = quiet_same [OF c(3)]
    have nz: "blk s ip (off div BSIZE) \<noteq> 0" using less.prems(4) [of off] True by (simp add: present_def)
    have step: "readi_loop me pid (\<lambda>_ _. True) ip n tot off acc s = ?K () s2"
      using True b(1) c(1) q1 less.prems(2) nz
      by (simp add: readi_loop.simps [of me pid _ ip n tot] m_def [symmetric] Let_def)
    have "\<exists>t. ?K () s2 = Done (int n, (acc @ map (fbyte s ip) [off..<off + m]) @ map (fbyte s2 ip) [off + m..<off + m + (n - (tot + m))]) t \<and>
      log_ok {} pid t \<and> quiet s2 t"
      by (rule less.hyps [OF _ c(2)]) (use m True q1 q2 less.prems in auto)
    then obtain t where t: "?K () s2 = Done (int n, (acc @ map (fbyte s ip) [off..<off + m]) @ map (fbyte s2 ip) [off + m..<off + m + (n - (tot + m))]) t"
      "log_ok {} pid t" "quiet s2 t" by blast
    have "[off..<off + (n - tot)] = [off..<off + m] @ [off + m..<off + m + (n - (tot + m))]"
      using m upt_add_eq_append [of off "off + m" "n - (tot + m)"] by simp
    then show ?thesis using step t q1 q2 quiet_trans [OF quiet_trans [OF b(3) c(3)] t(3)] by simp
  qed
qed


text \<open>C37. \<open>readi\<close> reads the file: if the blocks of the file are there, it returns the number
  of bytes between \<open>off\<close> and the end of the request or of the file, whichever is first, and
  these bytes, through direct and indirect blocks alike, and changes neither the inode
  table nor the content of any block.\<close>

theorem readi_reads:
  assumes "log_ok {} pid s" "i_dev (inodes s ip) = log_dev s" "\<And>bn. bn * BSIZE < i_size (inodes s ip) \<Longrightarrow> present s ip bn"
    and "off + n < 2 ^ 32" "len = (if i_size (inodes s ip) < off then 0 else min n (i_size (inodes s ip) - off))"
  shows "\<exists>t. readi me pid (\<lambda>_ _. True) ip off n s = Done (int len, map (fbyte s ip) [off..<off + len]) t \<and>
    log_ok {} pid t \<and> inodes t = inodes s \<and> view t = view s"
proof (cases "i_size (inodes s ip) < off")
  case True
  then show ?thesis using assms by (simp add: readi_def)
next
  case False
  have p: "present s ip (k div BSIZE)" if "k < off + (len - 0)" for k
    using assms(3) [of "k div BSIZE"] assms(5) that False by (simp add: BSIZE_def)
  obtain t where t: "readi_loop me pid (\<lambda>_ _. True) ip len 0 off [] s = Done (int len, [] @ map (fbyte s ip) [off..<off + (len - 0)]) t"
    "log_ok {} pid t" "quiet s t"
    using readi_loop_ok [OF assms(1,2), of 0 len off me "[]"] p by blast
  have "(if off + n > i_size (inodes s ip) then i_size (inodes s ip) - off else n) = len" using assms(5) False by simp
  then have "readi me pid (\<lambda>_ _. True) ip off n s = Done (int len, map (fbyte s ip) [off..<off + len]) t"
    using t(1) assms(4) False by (simp add: readi_def Let_def)
  then show ?thesis using t(2) quiet_same [OF t(3)] by auto
qed


lemma sample_view: "view sample_fs k = (\<lambda>_. 0)"
proof -
  have "view sample_fs k = dsk sample_fs k" by (rule view_disk) (simp add: sample_bufs)
  then show ?thesis by (simp add: dsk_def)
qed

lemma sample_file: "bn * BSIZE < 1024 \<Longrightarrow> bn = 0" "blk sample_fs ip 0 = 50" "present sample_fs ip 0" "fbyte sample_fs ip k = 0"
  by (simp_all add: BSIZE_def blk_def present_def DINODE_eq MAXFILE_def sample_inode_def fbyte_def sample_view)

theorem readi_reads_witness:
  "\<exists>t. readi 0 1 (\<lambda>_ _. True) 7 1020 10 sample_fs = Done (4, [0, 0, 0, 0]) t"
proof -
  have z: "i_size sample_inode = 1024" "i_dev sample_inode = 1" by (simp_all add: sample_inode_def)
  have "\<exists>t. readi 0 1 (\<lambda>_ _. True) 7 1020 10 sample_fs = Done (int 4, map (fbyte sample_fs 7) [1020..<1020 + 4]) t \<and>
    log_ok {} 1 t \<and> inodes t = inodes sample_fs \<and> view t = view sample_fs"
    by (rule readi_reads) (use sample_fs_op(1) [of 1] z in \<open>auto simp: in_op_def dest!: sample_file(1) intro: sample_file(3)\<close>)
  moreover have "[1020..<1020 + 4] = [1020, 1021, 1022, 1023]" by (simp add: upt_conv_Cons)
  ultimately show ?thesis by (auto simp: sample_file(4))
qed

subsection \<open>Writing\<close>

text \<open>The blocks below \<open>hi\<close> of a file are there, they can be logged, and they are distinct from
  each other, from the indirect block and from the block \<open>ib\<close> of the inode.\<close>

definition file_ok :: "'a fs_state_scheme \<Rightarrow> nat \<Rightarrow> nat \<Rightarrow> nat \<Rightarrow> bool" where
  "file_ok s ip ib hi \<longleftrightarrow> i_dev (inodes s ip) = log_dev s \<and> i_addrs (inodes s ip) ! NDIRECT \<noteq> ib \<and>
     (\<forall>bn. bn * BSIZE < hi \<longrightarrow> present s ip bn \<and> loggable s (blk s ip bn) \<and> blk s ip bn \<noteq> ib \<and>
        blk s ip bn \<noteq> i_addrs (inodes s ip) ! NDIRECT \<and>
        (\<forall>bm. bm * BSIZE < hi \<longrightarrow> blk s ip bm = blk s ip bn \<longrightarrow> bm = bn))"

lemma file_okD:
  assumes "file_ok s ip ib hi" "k < hi"
  shows "present s ip (k div BSIZE)" "loggable s (blk s ip (k div BSIZE))" "blk s ip (k div BSIZE) \<noteq> ib"
    "blk s ip (k div BSIZE) \<noteq> i_addrs (inodes s ip) ! NDIRECT" "l < hi \<Longrightarrow> blk s ip (l div BSIZE) = blk s ip (k div BSIZE) \<Longrightarrow> l div BSIZE = k div BSIZE"
proof -
  have d: "l div BSIZE * BSIZE < hi" if "l < hi" for l using that by (meson div_times_less_eq_dividend le_less_trans)
  show "present s ip (k div BSIZE)" "loggable s (blk s ip (k div BSIZE))" "blk s ip (k div BSIZE) \<noteq> ib"
    "blk s ip (k div BSIZE) \<noteq> i_addrs (inodes s ip) ! NDIRECT"
    using assms(1) d [OF assms(2)] by (auto simp: file_ok_def)
  show "l div BSIZE = k div BSIZE" if "l < hi" "blk s ip (l div BSIZE) = blk s ip (k div BSIZE)"
    using assms(1) d [OF assms(2)] d [OF that(1)] that(2) by (simp add: file_ok_def)
qed

text \<open>Replacing the content of a data block keeps the shape of the file.\<close>

lemma file_ok_data:
  assumes f: "file_ok s ip ib hi" and k: "k < hi" and v: "view t = (view s)((log_dev s, blk s ip (k div BSIZE)) := d)" and l: "log_frame s t"
  shows "file_ok t ip ib hi" "blk t ip = blk s ip" "\<And>l. l < hi \<Longrightarrow> fbyte t ip l = (if l div BSIZE = k div BSIZE then d (l mod BSIZE) else fbyte s ip l)"
proof -
  have e: "log_dev t = log_dev s" "inodes t = inodes s" "loggable t = loggable s"
    using log_frame_fs [OF l] log_frame_loggable [OF l] l by (simp_all add: log_frame_def)
  show b: "blk t ip = blk s ip" using file_okD(4) [OF f k] by (intro ext) (simp add: blk_def e v)
  have "present t ip = present s ip" by (intro ext) (simp add: present_def e b)
  then show "file_ok t ip ib hi" using f by (simp add: file_ok_def e b)
  show "fbyte t ip l = (if l div BSIZE = k div BSIZE then d (l mod BSIZE) else fbyte s ip l)" if "l < hi" for l
    using file_okD(5) [OF f k that] by (auto simp: fbyte_def e b v)
qed

definition patched :: "nat \<Rightarrow> 8 word list \<Rightarrow> (nat \<Rightarrow> 8 word) \<Rightarrow> nat \<Rightarrow> 8 word" where
  "patched off bs f k = (if off \<le> k \<and> k < off + length bs then bs ! (k - off) else f k)"

lemma same_base:
  assumes "off = q + x" "k = q + y"
  shows "(off \<le> k) = (x \<le> y)" "(k < off + n) = (y < x + n)" "k - off = y - (x :: nat)"
  using assms by auto

lemma put_bytes_patched:
  assumes "length bs \<le> BSIZE - off mod BSIZE"
  shows "(if k div BSIZE = off div BSIZE then put_bytes (off mod BSIZE) bs (\<lambda>x. f (off div BSIZE * BSIZE + x)) (k mod BSIZE) else f k) = patched off bs f k"
proof -
  have B: "off mod BSIZE < BSIZE" "k mod BSIZE < BSIZE" by (simp_all add: BSIZE_def)
  have o: "off = off div BSIZE * BSIZE + off mod BSIZE" "k = k div BSIZE * BSIZE + k mod BSIZE" by simp_all
  show ?thesis
  proof (cases "k div BSIZE = off div BSIZE")
    case True
    have k: "k = off div BSIZE * BSIZE + k mod BSIZE" using o(2) True by simp
    show ?thesis
      using same_base(1,3) [OF o(1) k] same_base(2) [OF o(1) k, of "length bs"] True k [symmetric] by (simp add: put_bytes_def patched_def)
  next
    case False
    have "\<not> (off \<le> k \<and> k < off + length bs)"
    proof
      assume a: "off \<le> k \<and> k < off + length bs"
      then have "k < off div BSIZE * BSIZE + BSIZE" using o(1) B(1) assms by linarith
      then have "k div BSIZE \<le> off div BSIZE" by (metis add.commute less_Suc_eq_le less_mult_imp_div_less mult_Suc)
      moreover have "off div BSIZE \<le> k div BSIZE" using a by (simp add: div_le_mono)
      ultimately show False using False by simp
    qed
    then show ?thesis using False by (auto simp: patched_def)
  qed
qed

lemma writei_chunk:
  assumes op: "in_op pid (Suc r) s" and f: "file_ok s ip ib hi" and tot: "tot < length bs" "off + (length bs - tot) \<le> hi"
    and m: "m = min (length bs - tot) (BSIZE - off mod BSIZE)"
    and src: "\<And>tot m. src tot m = (take m (drop tot bs), True)"
  obtains t where "writei_loop me pid src ip (length bs) tot off s = writei_loop me pid src ip (length bs) (tot + m) (off + m) t"
    "in_op pid r t" "file_ok t ip ib hi" "blk t ip = blk s ip" "log_frame s t"
    "\<And>k. k < hi \<Longrightarrow> fbyte t ip k = patched off (take m (drop tot bs)) (fbyte s ip) k"
proof -
  let ?a = "blk s ip (off div BSIZE)" and ?bs = "take m (drop tot bs)"
  have o: "off < hi" using tot by simp
  have ok: "log_ok {} pid s" using op by (simp add: in_op_def)
  have dev: "i_dev (inodes s ip) = log_dev s" using f by (simp add: file_ok_def)
  obtain s1 where b: "bmap me pid ip (off div BSIZE) s = Done ?a s1" "log_ok {} pid s1" "quiet s s1"
    by (rule bmap_present [OF ok dev file_okD(1) [OF f o], of me])
  note q = quiet_same [OF b(3)]
  have op1: "in_op pid (Suc r) s1" by (rule q(9) [OF op b(2)])
  let ?d = "put_bytes (off mod BSIZE) ?bs (view s (log_dev s, ?a))"
  have lg: "loggable s1 ?a" using file_okD(2) [OF f o] q(8) by simp
  obtain t where t: "logged_update me pid ?a ?d s1 = Done () t" "in_op pid r t" "view t = (view s1)((log_dev s1, ?a) := ?d)" "log_frame s1 t"
    by (rule in_op_update [OF op1 lg, of me ?d])
  let ?K = "\<lambda>_. writei_loop me pid src ip (length bs) (tot + m) (off + m)"
  have G: "(let m = min (length bs - tot) (BSIZE - off mod BSIZE);
              s = set_data i (put_bytes (off mod BSIZE) (fst (src tot m)) (bdata u i)) u in
          if \<not> snd (src tot m) then bnd (brelse me pid i s) (\<lambda>_. Done (tot, off))
          else
            bnd (log_write me i s) (\<lambda>_ s.
            bnd (brelse me pid i s) (\<lambda>_.
            writei_loop me pid src ip (length bs) (tot + m) (off + m)))) =
    bnd (log_write me i (set_data i ?d u)) (\<lambda>_ s. bnd (brelse me pid i s) ?K)" if "bdata u i = view s1 (log_dev s1, ?a)" for i u
    using that q src by (simp add: Let_def m)
  have nz: "?a \<noteq> 0" using file_okD(1) [OF f o] by (simp add: present_def)
  have "writei_loop me pid src ip (length bs) tot off s = bnd (logged_update me pid ?a ?d s1) ?K"
    using b(1) nz tot(1) dev q update_block [OF b(2) G, of ?a] by (simp add: writei_loop.simps [of me pid src ip "length bs" tot])
  then have step: "writei_loop me pid src ip (length bs) tot off s = ?K () t" using t(1) by simp
  have fr: "log_frame s s1" using b(3) by (simp add: quiet_def)
  note lf = log_frame_trans [OF fr t(4)]
  have v: "view t = (view s)((log_dev s, ?a) := ?d)" using t(3) q by simp
  note fd = file_ok_data [OF f o v lf]
  have "fbyte t ip k = patched off ?bs (fbyte s ip) k" if "k < hi" for k
  proof -
    have "view s (log_dev s, ?a) x = fbyte s ip (off div BSIZE * BSIZE + x)" if "x < BSIZE" for x
      using that by (simp add: fbyte_def)
    then have "?d (k mod BSIZE) = put_bytes (off mod BSIZE) ?bs (\<lambda>x. fbyte s ip (off div BSIZE * BSIZE + x)) (k mod BSIZE)"
      by (simp add: put_bytes_def BSIZE_def)
    moreover have "length ?bs \<le> BSIZE - off mod BSIZE" using m by simp
    ultimately show ?thesis using fd(3) [OF that] put_bytes_patched [of ?bs off k "fbyte s ip"]
      by (cases "k div BSIZE = off div BSIZE") simp_all
  qed
  then show ?thesis using that step t(2) fd(1,2) lf by blast
qed


text \<open>The number of blocks that the bytes from \<open>off\<close> to \<open>off + n\<close> touch.\<close>

definition blocks_of :: "nat \<Rightarrow> nat \<Rightarrow> nat" where
  "blocks_of off n = (if n = 0 then 0 else Suc ((off + n - 1) div BSIZE - off div BSIZE))"

lemma blocks_of_step:
  assumes "m < n" "m = min n (BSIZE - off mod BSIZE)"
  shows "blocks_of off n = Suc (blocks_of (off + m) (n - m))"
proof -
  have B: "off mod BSIZE < BSIZE" by (simp add: BSIZE_def)
  have m: "m = BSIZE - off mod BSIZE" using assms by simp
  have "off + m = off div BSIZE * BSIZE + BSIZE" using m B div_mult_mod_eq [of off BSIZE] by linarith
  then have d: "(off + m) div BSIZE = Suc (off div BSIZE)" by (simp add: BSIZE_def)
  have "(off + m) div BSIZE \<le> (off + n - 1) div BSIZE" using assms(1) by (intro div_le_mono) simp
  moreover have "off + m + (n - m) = off + n" using assms(1) by simp
  ultimately show ?thesis using d assms(1) by (simp add: blocks_of_def Suc_diff_Suc)
qed

lemma patched_append: "patched (off + length as) bs (patched off as f) k = patched off (as @ bs) f k"
  by (auto simp: patched_def nth_append)

lemma writei_loop_ok:
  assumes "in_op pid (r + blocks_of off (length bs - tot)) s" "file_ok s ip ib hi" "tot \<le> length bs" "off + (length bs - tot) \<le> hi"
    "\<And>tot m. src tot m = (take m (drop tot bs), True)"
  shows "\<exists>t. writei_loop me pid src ip (length bs) tot off s = Done (length bs, off + (length bs - tot)) t \<and> in_op pid r t \<and>
    file_ok t ip ib hi \<and> blk t ip = blk s ip \<and> log_frame s t \<and> (\<forall>k<hi. fbyte t ip k = patched off (drop tot bs) (fbyte s ip) k)"
  using assms
proof (induction "length bs - tot" arbitrary: tot off s rule: less_induct)
  case less
  show ?case
  proof (cases "tot < length bs")
    case False
    then have "tot = length bs" using less.prems(3) by simp
    then show ?thesis using less.prems(2) in_op_mono [OF less.prems(1), of r]
      by (auto simp: writei_loop.simps [of me pid src ip "length bs" "length bs"] patched_def)
  next
    case True
    define m where "m = min (length bs - tot) (BSIZE - off mod BSIZE)"
    have m: "0 < m" "m \<le> length bs - tot" using True by (auto simp: m_def BSIZE_def)
    have pos: "0 < blocks_of off (length bs - tot)" using True by (simp add: blocks_of_def)
    then have op: "in_op pid (Suc (r + (blocks_of off (length bs - tot) - 1))) s" using less.prems(1) by simp
    obtain s1 where a: "writei_loop me pid src ip (length bs) tot off s = writei_loop me pid src ip (length bs) (tot + m) (off + m) s1"
      "in_op pid (r + (blocks_of off (length bs - tot) - 1)) s1" "file_ok s1 ip ib hi" "blk s1 ip = blk s ip" "log_frame s s1"
      "\<And>k. k < hi \<Longrightarrow> fbyte s1 ip k = patched off (take m (drop tot bs)) (fbyte s ip) k"
      by (rule writei_chunk [OF op less.prems(2) True less.prems(4) m_def less.prems(5), of me]) (rule that)
    have "blocks_of (off + m) (length bs - (tot + m)) \<le> blocks_of off (length bs - tot) - 1"
    proof (cases "m < length bs - tot")
      case True
      then show ?thesis using blocks_of_step [OF True m_def] m by simp
    next
      case False
      then show ?thesis using m by (simp add: blocks_of_def)
    qed
    then have op1: "in_op pid (r + blocks_of (off + m) (length bs - (tot + m))) s1" using in_op_mono [OF a(2)] by simp
    have "\<exists>t. writei_loop me pid src ip (length bs) (tot + m) (off + m) s1 = Done (length bs, off + m + (length bs - (tot + m))) t \<and> in_op pid r t \<and>
      file_ok t ip ib hi \<and> blk t ip = blk s1 ip \<and> log_frame s1 t \<and> (\<forall>k<hi. fbyte t ip k = patched (off + m) (drop (tot + m) bs) (fbyte s1 ip) k)"
      by (rule less.hyps [OF _ op1 a(3)]) (use m True less.prems in auto)
    then obtain t where t: "writei_loop me pid src ip (length bs) (tot + m) (off + m) s1 = Done (length bs, off + m + (length bs - (tot + m))) t"
      "in_op pid r t" "file_ok t ip ib hi" "blk t ip = blk s1 ip" "log_frame s1 t"
      "\<forall>k<hi. fbyte t ip k = patched (off + m) (drop (tot + m) bs) (fbyte s1 ip) k" by blast
    have l: "length (take m (drop tot bs)) = m" "take m (drop tot bs) @ drop (tot + m) bs = drop tot bs"
      using m by (simp_all add: add.commute drop_drop [symmetric] del: drop_drop)
    have "fbyte t ip k = patched off (drop tot bs) (fbyte s ip) k" if "k < hi" for k
    proof -
      have "patched (off + m) (drop (tot + m) bs) (fbyte s1 ip) k =
        patched (off + m) (drop (tot + m) bs) (patched off (take m (drop tot bs)) (fbyte s ip)) k"
        using a(6) [OF that] by (simp add: patched_def)
      then show ?thesis using t(6) that patched_append [of off "take m (drop tot bs)" "drop (tot + m) bs" "fbyte s ip" k] l by simp
    qed
    moreover have "off + m + (length bs - (tot + m)) = off + (length bs - tot)" using m by simp
    ultimately show ?thesis using a(1,4) t(1-4) log_frame_trans [OF a(5) t(5)] by auto
  qed
qed


lemma file_ok_small: "file_ok s ip ib hi \<Longrightarrow> hi \<le> MAXFILE * BSIZE"
  by (rule ccontr) (auto simp: file_ok_def present_def not_le)

text \<open>Writing the inode back does not touch the data.\<close>

lemma file_ok_inode:
  assumes f: "file_ok s ip ib hi" and v: "view t = (view s)((log_dev s, ib) := d)"
    and e: "log_dev t = log_dev s" "i_addrs (inodes t ip) = i_addrs (inodes s ip)"
  shows "k < hi \<Longrightarrow> present t ip (k div BSIZE)" "k < hi \<Longrightarrow> fbyte t ip k = fbyte s ip k"
proof -
  have b: "blk t ip = blk s ip" using f by (intro ext) (simp add: blk_def e v file_ok_def)
  then show "present t ip (k div BSIZE)" if "k < hi" using file_okD(1) [OF f that] e by (simp add: present_def)
  show "fbyte t ip k = fbyte s ip k" if "k < hi" using file_okD(3) [OF f that] by (simp add: fbyte_def e b v)
qed

lemma writei_ok:
  assumes op: "in_op pid (Suc (blocks_of off (length bs))) s" and f: "file_ok s ip ib hi" and hi: "hi = max (i_size (inodes s ip)) (off + length bs)"
    and ib: "ib = IBLOCK (i_inum (inodes s ip)) (sb s)" "loggable s ib" and off: "off \<le> i_size (inodes s ip)"
    and src: "\<And>tot m. src tot m = (take m (drop tot bs), True)"
  obtains t where "writei me pid src ip off (length bs) s = Done (int (length bs)) t" "in_op pid 0 t"
    "inodes t = (inodes s)(ip := (inodes s ip)\<lparr>i_size := hi\<rparr>)" "log_dev t = log_dev s"
    "\<And>k. k < hi \<Longrightarrow> present t ip (k div BSIZE)" "\<And>k. k < hi \<Longrightarrow> fbyte t ip k = patched off bs (fbyte s ip) k"
proof -
  have small: "hi \<le> MAXFILE * BSIZE" "MAXFILE * BSIZE < 2 ^ 32"
    using file_ok_small [OF f] by (simp_all add: MAXFILE_def DINODE_eq NINDIRECT_def BSIZE_def)
  then have guards: "\<not> off > i_size (inodes s ip)" "\<not> (off + length bs) mod 2 ^ 32 < off" "\<not> off + length bs > MAXFILE * BSIZE"
    using off hi by auto
  have op': "in_op pid (Suc 0 + blocks_of off (length bs - 0)) s" using op by simp
  obtain s1 where a: "writei_loop me pid src ip (length bs) 0 off s = Done (length bs, off + length bs) s1" "in_op pid (Suc 0) s1"
    "file_ok s1 ip ib hi" "blk s1 ip = blk s ip" "log_frame s s1" "\<And>k. k < hi \<Longrightarrow> fbyte s1 ip k = patched off bs (fbyte s ip) k"
    using writei_loop_ok [OF op' f _ _ src, of me] hi by auto
  have e1: "inodes s1 = inodes s" "sb s1 = sb s" "log_dev s1 = log_dev s" "loggable s1 = loggable s"
    using log_frame_fs [OF a(5)] log_frame_loggable [OF a(5)] a(5) by (simp_all add: log_frame_def)
  let ?s2 = "if off + length bs > i_size (inodes s1 ip) then upd_inode ip (\<lambda>i. i\<lparr>i_size := off + length bs\<rparr>) s1 else s1"
  have e2: "inodes ?s2 = (inodes s)(ip := (inodes s ip)\<lparr>i_size := hi\<rparr>)" "sb ?s2 = sb s" "log_dev ?s2 = log_dev s" "loggable ?s2 = loggable s"
    "in_op pid (Suc 0) ?s2" "view ?s2 = view s1"
    using e1 a(2) hi by (auto simp: fun_eq_iff)
  have dv: "i_dev (inodes ?s2 ip) = log_dev ?s2" "loggable ?s2 (IBLOCK (i_inum (inodes ?s2 ip)) (sb ?s2))"
    using e2 ib f by (simp_all add: file_ok_def)
  obtain t where t: "iupdate me pid ip ?s2 = Done () t" "in_op pid 0 t" "log_frame ?s2 t"
    "view t = (view ?s2)((log_dev ?s2, IBLOCK (i_inum (inodes ?s2 ip)) (sb ?s2)) :=
       put_dinode (inodes ?s2 ip) (dip_off (i_inum (inodes ?s2 ip))) (view ?s2 (log_dev ?s2, IBLOCK (i_inum (inodes ?s2 ip)) (sb ?s2))))"
    by (rule iupdate_ok [OF e2(5) dv, of me])
  have e3: "inodes t = inodes ?s2" "log_dev t = log_dev s" using log_frame_fs [OF t(3)] t(3) e2 by (simp_all add: log_frame_def)
  have v: "view t = (view s1)((log_dev s1, ib) := put_dinode (inodes ?s2 ip) (dip_off (i_inum (inodes ?s2 ip))) (view s1 (log_dev s1, ib)))"
    using t(4) e1 e2 ib by simp
  have w: "writei me pid src ip off (length bs) s = Done (int (length bs)) t"
    using guards a(1) t(1) by (simp add: writei_def Let_def)
  have ad: "i_addrs (inodes t ip) = i_addrs (inodes s1 ip)" "log_dev t = log_dev s1" using e1 e2 e3 by simp_all
  note fi = file_ok_inode [OF a(3) v ad(2,1)]
  show ?thesis by (rule that [OF w t(2)]) (use e2(1) e3 fi a(6) in simp_all)
qed

text \<open>C34. What \<open>writei\<close> writes, \<open>readi\<close> reads: writing bytes at an offset inside or at the end of a
  file whose blocks are there returns their number, makes the file as long as it has to
  be, and reading the whole file then gives the old content with the bytes in place.\<close>

theorem writei_readi_roundtrip:
  assumes "in_op pid (Suc (blocks_of off (length bs))) s" "file_ok s ip ib hi" "hi = max (i_size (inodes s ip)) (off + length bs)"
    "ib = IBLOCK (i_inum (inodes s ip)) (sb s)" "loggable s ib" "off \<le> i_size (inodes s ip)"
  shows "\<exists>t u. writei me pid (\<lambda>tot m. (take m (drop tot bs), True)) ip off (length bs) s = Done (int (length bs)) t \<and>
    i_size (inodes t ip) = hi \<and>
    readi me pid (\<lambda>_ _. True) ip 0 hi t =
      Done (int hi, map (\<lambda>k. if off \<le> k \<and> k < off + length bs then bs ! (k - off) else fbyte s ip k) [0..<hi]) u"
proof -
  obtain t where t: "writei me pid (\<lambda>tot m. (take m (drop tot bs), True)) ip off (length bs) s = Done (int (length bs)) t" "in_op pid 0 t"
    "inodes t = (inodes s)(ip := (inodes s ip)\<lparr>i_size := hi\<rparr>)" "log_dev t = log_dev s"
    "\<And>k. k < hi \<Longrightarrow> present t ip (k div BSIZE)" "\<And>k. k < hi \<Longrightarrow> fbyte t ip k = patched off bs (fbyte s ip) k"
    by (rule writei_ok [OF assms refl, of me]) (rule that)
  have ok: "log_ok {} pid t" "i_dev (inodes t ip) = log_dev t" using t(2-4) assms(2) by (simp_all add: in_op_def file_ok_def)
  have p: "present t ip (k div BSIZE)" if "k < 0 + (hi - 0)" for k using t(5) that by simp
  obtain u where u: "readi_loop me pid (\<lambda>_ _. True) ip hi 0 0 [] t = Done (int hi, [] @ map (fbyte t ip) [0..<0 + (hi - 0)]) u"
    using readi_loop_ok [OF ok, of 0 hi 0 me "[]"] p by blast
  have "hi < 2 ^ 32" using file_ok_small [OF assms(2)] by (simp add: MAXFILE_def DINODE_eq NINDIRECT_def BSIZE_def)
  then have "readi me pid (\<lambda>_ _. True) ip 0 hi t = Done (int hi, map (fbyte t ip) [0..<hi]) u"
    using u t(3) by (simp add: readi_def)
  moreover have "map (fbyte t ip) [0..<hi] = map (\<lambda>k. if off \<le> k \<and> k < off + length bs then bs ! (k - off) else fbyte s ip k) [0..<hi]"
    using t(6) by (simp add: patched_def)
  ultimately show ?thesis using t(1,3) by auto
qed


theorem writei_readi_roundtrip_witness:
  "\<exists>t u bytes. writei 0 1 (\<lambda>tot m. (take m (drop tot [1, 2, 3, 4]), True)) 7 1020 4 sample_fs = Done 4 t \<and>
     readi 0 1 (\<lambda>_ _. True) 7 0 1024 t = Done (1024, bytes) u \<and> bytes ! 5 = 0 \<and> bytes ! 1021 = 2"
proof -
  let ?bs = "[1, 2, 3, 4] :: 8 word list"
  have z: "i_size sample_inode = 1024" "i_dev sample_inode = 1" "i_inum sample_inode = 5" "i_addrs sample_inode ! NDIRECT = 0"
    by (simp_all add: sample_inode_def DINODE_eq)
  have f: "file_ok sample_fs 7 32 1024"
    by (auto simp: file_ok_def z sample_file(2,3) sample_fs_op(2) dest!: sample_file(1))
  have l: "length ?bs = 4" by simp
  have op: "in_op 1 (Suc (blocks_of 1020 (length ?bs))) sample_fs"
    by (rule in_op_mono [OF sample_fs_op(1)]) (simp add: blocks_of_def BSIZE_def)
  have "\<exists>t u. writei 0 1 (\<lambda>tot m. (take m (drop tot ?bs), True)) 7 1020 (length ?bs) sample_fs = Done (int (length ?bs)) t \<and>
    i_size (inodes t 7) = 1024 \<and>
    readi 0 1 (\<lambda>_ _. True) 7 0 1024 t =
      Done (int 1024, map (\<lambda>k. if 1020 \<le> k \<and> k < 1020 + length ?bs then ?bs ! (k - 1020) else fbyte sample_fs 7 k) [0..<1024]) u"
    by (rule writei_readi_roundtrip [OF op f]) (simp_all add: z sample_fs_op(2) IBLOCK_def DINODE_eq sample_sb_def)
  then obtain t u where w: "writei 0 1 (\<lambda>tot m. (take m (drop tot ?bs), True)) 7 1020 4 sample_fs = Done 4 t"
    "readi 0 1 (\<lambda>_ _. True) 7 0 1024 t =
      Done (1024, map (\<lambda>k. if 1020 \<le> k \<and> k < 1020 + 4 then ?bs ! (k - 1020) else fbyte sample_fs 7 k) [0..<1024]) u"
    unfolding l by auto
  show ?thesis by (intro exI conjI, rule w(1), rule w(2)) (simp_all add: sample_file(4))
qed

end
