(* ===== verification/Fs_Table.thy ===== *)
theory Fs_Table
  imports Fs_Files
begin

section \<open>The inode table\<close>

text \<open>
  An inode has at most one entry in use in the table, so that its sleep lock serialises all
  its users.  \<open>iget\<close> relies on it when it stops at the first entry that matches.
\<close>

definition in_table :: "'a fs_state_scheme \<Rightarrow> nat \<Rightarrow> nat \<times> nat \<Rightarrow> bool" where
  "in_table s ip k \<longleftrightarrow> ip < NINODE \<and> 0 < i_ref (inodes s ip) \<and> i_dev (inodes s ip) = fst k \<and> i_inum (inodes s ip) = snd k"

definition itable_ok :: "'a fs_state_scheme \<Rightarrow> bool" where
  "itable_ok s \<longleftrightarrow> unheld (it_lock s) \<and> (\<forall>ip<NINODE. 0 \<le> i_ref (inodes s ip)) \<and>
     (\<forall>ip jp k. in_table s ip k \<longrightarrow> in_table s jp k \<longrightarrow> ip = jp)"

lemma find_unique: "i \<in> set xs \<Longrightarrow> (\<And>j. j \<in> set xs \<Longrightarrow> P j = (j = i)) \<Longrightarrow> find P xs = Some i"
  by (induction xs) auto

lemma itable_unlocked: "unheld (it_lock s) \<Longrightarrow> s\<lparr>inodes := m, it_lock := initlock\<rparr> = s\<lparr>inodes := m\<rparr>"
  by (cases s) (simp add: unheld_def)

lemma iget_found:
  assumes ok: "itable_ok s" and f: "in_table s ip (dev, inum)"
  shows "iget me dev inum s = Done ip (upd_inode ip (\<lambda>i. i\<lparr>i_ref := i_ref i + 1\<rparr>) s)"
proof -
  let ?P = "\<lambda>i. i_ref (inodes s i) > 0 \<and> i_dev (inodes s i) = dev \<and> i_inum (inodes s i) = inum"
  have "?P i = (i = ip)" if "i < NINODE" for i
  proof -
    have "?P i = in_table s i (dev, inum)" using that by (simp add: in_table_def)
    also have "\<dots> = (i = ip)" using ok f unfolding itable_ok_def by blast
    finally show ?thesis .
  qed
  then have "find ?P [0..<NINODE] = Some ip" using f by (intro find_unique) (auto simp: in_table_def)
  then show ?thesis
    using ok by (simp add: itable_unlocked iget_def itable_ok_def held_by_def upd_inode_def)
qed

lemma iget_new:
  assumes ok: "itable_ok s" and n: "\<And>ip. \<not> in_table s ip (dev, inum)" and f: "find (\<lambda>i. i_ref (inodes s i) = 0) [0..<NINODE] = Some ip"
  shows "iget me dev inum s = Done ip (upd_inode ip (\<lambda>i. i\<lparr>i_dev := dev, i_inum := inum, i_ref := 1, i_valid := False\<rparr>) s)"
proof -
  let ?P = "\<lambda>i. i_ref (inodes s i) > 0 \<and> i_dev (inodes s i) = dev \<and> i_inum (inodes s i) = inum"
  have "\<not> ?P i" if "i < NINODE" for i using n [of i] that by (simp add: in_table_def)
  then have "find ?P [0..<NINODE] = None" unfolding find_None_iff by simp
  then show ?thesis
    using ok f by (simp add: itable_unlocked iget_def itable_ok_def held_by_def upd_inode_def)
qed

lemma itable_upd:
  assumes ok: "itable_ok s" and ip: "ip < NINODE" and f: "0 < i_ref (f (inodes s ip))" "i_dev (f (inodes s ip)) = dev" "i_inum (f (inodes s ip)) = inum"
    and u: "\<And>jp. jp \<noteq> ip \<Longrightarrow> \<not> in_table s jp (dev, inum)"
  shows "itable_ok (upd_inode ip f s)" "in_table (upd_inode ip f s) jp k = (if jp = ip then k = (dev, inum) else in_table s jp k)"
proof -
  show t: "in_table (upd_inode ip f s) jp k = (if jp = ip then k = (dev, inum) else in_table s jp k)" for jp k
    using f ip by (cases k) (auto simp: in_table_def)
  show "itable_ok (upd_inode ip f s)"
    using ok f(1) u unfolding itable_ok_def t by (auto simp: less_imp_le)
qed

text \<open>C39. \<open>iget\<close> keeps the inode table well formed: if no inode has two entries in use, it
  panics exactly when the inode has no entry and none is free, and otherwise returns an entry
  for the inode, again the only one, with one reference more than before and the other
  entries untouched.\<close>

theorem iget_table:
  assumes ok: "itable_ok s"
  shows "if (\<exists>ip. in_table s ip (dev, inum)) \<or> (\<exists>ip<NINODE. i_ref (inodes s ip) = 0)
    then \<exists>ip t. iget me dev inum s = Done ip t \<and> itable_ok t \<and> in_table t ip (dev, inum) \<and>
      i_ref (inodes t ip) = (if in_table s ip (dev, inum) then i_ref (inodes s ip) else 0) + 1 \<and>
      (\<forall>jp. jp \<noteq> ip \<longrightarrow> inodes t jp = inodes s jp)
    else iget me dev inum s = Panic ''iget: no inodes''"
proof (cases "\<exists>ip. in_table s ip (dev, inum)")
  case True
  then obtain ip where ip: "in_table s ip (dev, inum)" by blast
  let ?f = "\<lambda>i. i\<lparr>i_ref := i_ref i + 1\<rparr>"
  have u: "\<not> in_table s jp (dev, inum)" if "jp \<noteq> ip" for jp using ok ip that unfolding itable_ok_def by blast
  have i: "ip < NINODE" "0 < i_ref (?f (inodes s ip))" "i_dev (?f (inodes s ip)) = dev" "i_inum (?f (inodes s ip)) = inum"
    using ip by (simp_all add: in_table_def)
  show ?thesis using iget_found [OF ok ip, of me] itable_upd [where f = ?f, OF ok i u] ip by auto
next
  case False
  show ?thesis
  proof (cases "find (\<lambda>i. i_ref (inodes s i) = 0) [0..<NINODE]")
    case None
    let ?P = "\<lambda>i. i_ref (inodes s i) > 0 \<and> i_dev (inodes s i) = dev \<and> i_inum (inodes s i) = inum"
    have "\<not> ?P i" if "i < NINODE" for i using False that by (auto simp: in_table_def)
    then have "find ?P [0..<NINODE] = None" unfolding find_None_iff by simp
    then have "iget me dev inum s = Panic ''iget: no inodes''" using None ok by (simp add: iget_def itable_ok_def)
    moreover have "\<not> (\<exists>ip<NINODE. i_ref (inodes s ip) = 0)" using None unfolding find_None_iff by simp
    ultimately show ?thesis using False by simp
  next
    case (Some ip)
    let ?f = "\<lambda>i. i\<lparr>i_dev := dev, i_inum := inum, i_ref := 1, i_valid := False\<rparr>"
    have z: "ip < NINODE" "i_ref (inodes s ip) = 0" using Some by (auto simp: find_Some_iff)
    have i: "0 < i_ref (?f (inodes s ip))" "i_dev (?f (inodes s ip)) = dev" "i_inum (?f (inodes s ip)) = inum" by simp_all
    have n: "\<not> in_table s jp (dev, inum)" for jp using False by blast
    show ?thesis using iget_new [OF ok n Some, of me] itable_upd [where f = ?f, OF ok z(1) i n] z n by auto
  qed
qed

theorem iget_table_witness:
  "\<exists>ip t. iget 0 1 9 (iinit (sample_fs\<lparr>inodes := (\<lambda>_. sample_inode\<lparr>i_ref := 0\<rparr>)\<rparr>)) = Done ip t \<and> itable_ok t \<and> in_table t ip (1, 9)"
proof -
  let ?s = "iinit (sample_fs\<lparr>inodes := (\<lambda>_. sample_inode\<lparr>i_ref := 0\<rparr>)\<rparr>)"
  have r: "i_ref (inodes ?s ip) = 0" for ip by (simp add: iinit_def)
  then have "itable_ok ?s" by (simp add: itable_ok_def in_table_def) (simp add: iinit_def)
  moreover have "(0 :: nat) < NINODE" by (simp add: NINODE_def)
  then have "(\<exists>ip. in_table ?s ip (1, 9)) \<or> (\<exists>ip<NINODE. i_ref (inodes ?s ip) = 0)" using r by blast
  ultimately show ?thesis using iget_table [of ?s 1 9 0] by auto
qed

end
