(* ===== verification/File.thy ===== *)
theory File
  imports Fs_Table Fcntl
begin

section \<open>Open files (kernel/file.c, kernel/sysfile.c)\<close>

text \<open>
  The table of open files, the descriptors \<open>ofile\<close> and the current directory \<open>cwd\<close> of the
  calling process, and the system calls on them.  Arguments that a system call fetches with
  \<open>argint\<close> and \<open>argstr\<close> are arguments here; a path is \<open>None\<close> when \<open>argstr\<close> fails.

  Pipes and devices are behind the record \<open>io\<close>: closing, reading and writing a pipe, and the
  device table.  As in \<open>Fs\<close>, \<open>ok\<close> and \<open>src\<close> stand for copying to and from user memory.
  The channels that \<open>end_op\<close> wakes up are not passed on.
\<close>

subsection \<open>Data\<close>

definition NFILE :: nat where "NFILE = 100"
definition NOFILE :: nat where "NOFILE = 16"
definition NDEV :: nat where "NDEV = 10"
definition T_FILE :: nat where "T_FILE = 2"
definition T_DEVICE :: nat where "T_DEVICE = 3"

datatype ftype = FD_NONE | FD_PIPE | FD_INODE | FD_DEVICE

record struct_file =
  f_type :: ftype
  f_ref :: int
  f_readable :: bool
  f_writable :: bool
  f_pipe :: nat
  f_ip :: nat
  f_off :: nat
  f_major :: nat

record file_state = fs_state +
  ft_lock :: spinlock
  files :: "nat \<Rightarrow> struct_file"
  ofile :: "nat \<Rightarrow> nat option"
  cwd :: nat

record 's io =
  pipe_close :: "nat \<Rightarrow> bool \<Rightarrow> 's \<Rightarrow> (unit, 's) outcome"
  pipe_read :: "nat \<Rightarrow> int \<Rightarrow> 's \<Rightarrow> (int, 's) outcome"
  pipe_write :: "nat \<Rightarrow> int \<Rightarrow> 's \<Rightarrow> (int, 's) outcome"
  dev_read :: "nat \<Rightarrow> (int \<Rightarrow> 's \<Rightarrow> (int, 's) outcome) option"
  dev_write :: "nat \<Rightarrow> (int \<Rightarrow> 's \<Rightarrow> (int, 's) outcome) option"

abbreviation lock_ftable :: "nat \<Rightarrow> 'a file_state_scheme \<Rightarrow> (unit, 'a file_state_scheme) outcome" where
  "lock_ftable \<equiv> lock_in ft_lock (\<lambda>l s. s\<lparr>ft_lock := l\<rparr>)"

abbreviation unlock_ftable :: "nat \<Rightarrow> 'a file_state_scheme \<Rightarrow> (unit, 'a file_state_scheme) outcome" where
  "unlock_ftable \<equiv> unlock_in ft_lock (\<lambda>l s. s\<lparr>ft_lock := l\<rparr>)"

definition upd_file :: "nat \<Rightarrow> (struct_file \<Rightarrow> struct_file) \<Rightarrow> 'a file_state_scheme \<Rightarrow> 'a file_state_scheme" where
  "upd_file f g s = s\<lparr>files := (files s)(f := g (files s f))\<rparr>"

text \<open>A \<open>short\<close> is negative if its bit 15 is set.\<close>

definition neg16 :: "nat \<Rightarrow> bool" where
  "neg16 n \<longleftrightarrow> 2 ^ 15 \<le> n"

subsection \<open>kernel/file.c\<close>

definition fileinit :: "'a file_state_scheme \<Rightarrow> 'a file_state_scheme" where
  "fileinit s = s\<lparr>ft_lock := initlock\<rparr>"

definition filealloc :: "nat \<Rightarrow> 'a file_state_scheme \<Rightarrow> (nat option, 'a file_state_scheme) outcome" where
  "filealloc me s =
     bnd (lock_ftable me s) (\<lambda>_ s.
     case find (\<lambda>f. f_ref (files s f) = 0) [0..<NFILE] of
       Some f \<Rightarrow> bnd (unlock_ftable me (upd_file f (\<lambda>x. x\<lparr>f_ref := 1\<rparr>) s)) (\<lambda>_ s. Done (Some f) s)
     | None \<Rightarrow> bnd (unlock_ftable me s) (\<lambda>_ s. Done None s))"

definition filedup :: "nat \<Rightarrow> nat \<Rightarrow> 'a file_state_scheme \<Rightarrow> (nat, 'a file_state_scheme) outcome" where
  "filedup me f s =
     bnd (lock_ftable me s) (\<lambda>_ s.
     if f_ref (files s f) < 1 then Panic ''filedup''
     else bnd (unlock_ftable me (upd_file f (\<lambda>x. x\<lparr>f_ref := f_ref x + 1\<rparr>) s)) (\<lambda>_ s. Done f s))"

definition fileclose :: "'a file_state_scheme io \<Rightarrow> nat \<Rightarrow> int \<Rightarrow> nat \<Rightarrow> 'a file_state_scheme \<Rightarrow> (unit, 'a file_state_scheme) outcome" where
  "fileclose d me pid f s =
     bnd (lock_ftable me s) (\<lambda>_ s.
     if f_ref (files s f) < 1 then Panic ''fileclose''
     else
       let s = upd_file f (\<lambda>x. x\<lparr>f_ref := f_ref x - 1\<rparr>) s in
       if f_ref (files s f) > 0 then unlock_ftable me s
       else
         let ff = files s f in
         bnd (unlock_ftable me (upd_file f (\<lambda>x. x\<lparr>f_ref := 0, f_type := FD_NONE\<rparr>) s)) (\<lambda>_ s.
         case f_type ff of
           FD_PIPE \<Rightarrow> pipe_close d (f_pipe ff) (f_writable ff) s
         | FD_NONE \<Rightarrow> Done () s
         | _ \<Rightarrow>
             bnd (begin_op me s) (\<lambda>_ s.
             bnd (iput me pid (f_ip ff) s) (\<lambda>_ s.
             bnd (end_op me pid s) (\<lambda>_ s. Done () s)))))"

text \<open>\<open>filestat\<close> returns the \<open>struct stat\<close> it copies out; \<open>ok\<close> says whether the copy succeeds.\<close>

definition filestat :: "nat \<Rightarrow> int \<Rightarrow> bool \<Rightarrow> nat \<Rightarrow> 'a file_state_scheme \<Rightarrow> (int \<times> stat option, 'a file_state_scheme) outcome" where
  "filestat me pid ok f s =
     (if f_type (files s f) = FD_INODE \<or> f_type (files s f) = FD_DEVICE then
        bnd (ilock me pid (Some (f_ip (files s f))) s) (\<lambda>_ s.
        let st = stati (f_ip (files s f)) s in
        bnd (iunlock me pid (Some (f_ip (files s f))) s) (\<lambda>_ s.
        if \<not> ok then Done (-1, None) s else Done (0, Some st) s))
      else Done (-1, None) s)"

text \<open>\<open>fileread\<close> also returns the bytes it has copied out of a file.  \<open>readi\<close> takes \<open>n\<close> as a
  \<open>uint\<close>.\<close>

definition fileread :: "'a file_state_scheme io \<Rightarrow> nat \<Rightarrow> int \<Rightarrow> (nat \<Rightarrow> nat \<Rightarrow> bool) \<Rightarrow> nat \<Rightarrow> int \<Rightarrow> 'a file_state_scheme \<Rightarrow>
    (int \<times> 8 word list, 'a file_state_scheme) outcome" where
  "fileread d me pid ok f n s =
     (let ff = files s f in
      if \<not> f_readable ff then Done (-1, []) s
      else case f_type ff of
        FD_PIPE \<Rightarrow> bnd (pipe_read d (f_pipe ff) n s) (\<lambda>r s. Done (r, []) s)
      | FD_DEVICE \<Rightarrow>
          if neg16 (f_major ff) \<or> NDEV \<le> f_major ff then Done (-1, []) s
          else (case dev_read d (f_major ff) of
                  None \<Rightarrow> Done (-1, []) s
                | Some rd \<Rightarrow> bnd (rd n s) (\<lambda>r s. Done (r, []) s))
      | FD_INODE \<Rightarrow>
          bnd (ilock me pid (Some (f_ip ff)) s) (\<lambda>_ s.
          bnd (readi me pid ok (f_ip ff) (f_off (files s f)) (nat (n mod 2 ^ 32)) s) (\<lambda>(r, bytes) s.
          let s = (if r > 0 then upd_file f (\<lambda>x. x\<lparr>f_off := nat ((int (f_off x) + r) mod 2 ^ 32)\<rparr>) s else s) in
          bnd (iunlock me pid (Some (f_ip ff)) s) (\<lambda>_ s. Done (r, bytes) s)))
      | FD_NONE \<Rightarrow> Panic ''fileread'')"

definition WRITE_MAX :: nat where "WRITE_MAX = (MAXOPBLOCKS - 1 - 1 - 2) div 2 * BSIZE"

function filewrite_loop :: "nat \<Rightarrow> int \<Rightarrow> (nat \<Rightarrow> nat \<Rightarrow> nat \<Rightarrow> 8 word list \<times> bool) \<Rightarrow> nat \<Rightarrow> nat \<Rightarrow> nat \<Rightarrow> 'a file_state_scheme \<Rightarrow>
    (nat, 'a file_state_scheme) outcome" where
  "filewrite_loop me pid src f n i s =
     (if i < n then
        let n1 = min (n - i) WRITE_MAX in
        bnd (begin_op me s) (\<lambda>_ s.
        bnd (ilock me pid (Some (f_ip (files s f))) s) (\<lambda>_ s.
        bnd (writei me pid (src i) (f_ip (files s f)) (f_off (files s f)) n1 s) (\<lambda>r s.
        let s = (if r > 0 then upd_file f (\<lambda>x. x\<lparr>f_off := nat ((int (f_off x) + r) mod 2 ^ 32)\<rparr>) s else s) in
        bnd (iunlock me pid (Some (f_ip (files s f))) s) (\<lambda>_ s.
        bnd (end_op me pid s) (\<lambda>_ s.
        if r \<noteq> int n1 then Done i s
        else filewrite_loop me pid src f n (i + n1) s)))))
      else Done i s)"
  by pat_completeness auto
termination
  by (relation "measure (\<lambda>(me, pid, src, f, n, i, s). n - i)") (simp_all add: WRITE_MAX_def BSIZE_def MAXOPBLOCKS_def)

definition filewrite :: "'a file_state_scheme io \<Rightarrow> nat \<Rightarrow> int \<Rightarrow> (nat \<Rightarrow> nat \<Rightarrow> nat \<Rightarrow> 8 word list \<times> bool) \<Rightarrow> nat \<Rightarrow> int \<Rightarrow>
    'a file_state_scheme \<Rightarrow> (int, 'a file_state_scheme) outcome" where
  "filewrite d me pid src f n s =
     (let ff = files s f in
      if \<not> f_writable ff then Done (-1) s
      else case f_type ff of
        FD_PIPE \<Rightarrow> pipe_write d (f_pipe ff) n s
      | FD_DEVICE \<Rightarrow>
          if neg16 (f_major ff) \<or> NDEV \<le> f_major ff then Done (-1) s
          else (case dev_write d (f_major ff) of None \<Rightarrow> Done (-1) s | Some wr \<Rightarrow> wr n s)
      | FD_INODE \<Rightarrow>
          bnd (filewrite_loop me pid src f (nat n) 0 s) (\<lambda>i s. Done (if int i = n then n else -1) s)
      | FD_NONE \<Rightarrow> Panic ''filewrite'')"


subsection \<open>kernel/sysfile.c: descriptors\<close>

definition argfd :: "int \<Rightarrow> 'a file_state_scheme \<Rightarrow> nat option" where
  "argfd fd s = (if fd < 0 \<or> fd \<ge> int NOFILE then None else ofile s (nat fd))"

definition fdalloc :: "nat \<Rightarrow> 'a file_state_scheme \<Rightarrow> int \<times> 'a file_state_scheme" where
  "fdalloc f s =
     (case find (\<lambda>fd. ofile s fd = None) [0..<NOFILE] of
        Some fd \<Rightarrow> (int fd, s\<lparr>ofile := (ofile s)(fd := Some f)\<rparr>)
      | None \<Rightarrow> (-1, s))"

definition sys_dup :: "nat \<Rightarrow> int \<Rightarrow> 'a file_state_scheme \<Rightarrow> (int, 'a file_state_scheme) outcome" where
  "sys_dup me fd s =
     (case argfd fd s of
        None \<Rightarrow> Done (-1) s
      | Some f \<Rightarrow>
          let (fd, s) = fdalloc f s in
          if fd < 0 then Done (-1) s
          else bnd (filedup me f s) (\<lambda>_ s. Done fd s))"

definition sys_read :: "'a file_state_scheme io \<Rightarrow> nat \<Rightarrow> int \<Rightarrow> (nat \<Rightarrow> nat \<Rightarrow> bool) \<Rightarrow> int \<Rightarrow> int \<Rightarrow> 'a file_state_scheme \<Rightarrow>
    (int \<times> 8 word list, 'a file_state_scheme) outcome" where
  "sys_read d me pid ok fd n s =
     (case argfd fd s of None \<Rightarrow> Done (-1, []) s | Some f \<Rightarrow> fileread d me pid ok f n s)"

definition sys_write :: "'a file_state_scheme io \<Rightarrow> nat \<Rightarrow> int \<Rightarrow> (nat \<Rightarrow> nat \<Rightarrow> nat \<Rightarrow> 8 word list \<times> bool) \<Rightarrow> int \<Rightarrow> int \<Rightarrow>
    'a file_state_scheme \<Rightarrow> (int, 'a file_state_scheme) outcome" where
  "sys_write d me pid src fd n s =
     (case argfd fd s of None \<Rightarrow> Done (-1) s | Some f \<Rightarrow> filewrite d me pid src f n s)"

definition sys_close :: "'a file_state_scheme io \<Rightarrow> nat \<Rightarrow> int \<Rightarrow> int \<Rightarrow> 'a file_state_scheme \<Rightarrow> (int, 'a file_state_scheme) outcome" where
  "sys_close d me pid fd s =
     (case argfd fd s of
        None \<Rightarrow> Done (-1) s
      | Some f \<Rightarrow> bnd (fileclose d me pid f (s\<lparr>ofile := (ofile s)(nat fd := None)\<rparr>)) (\<lambda>_ s. Done 0 s))"

definition sys_fstat :: "nat \<Rightarrow> int \<Rightarrow> bool \<Rightarrow> int \<Rightarrow> 'a file_state_scheme \<Rightarrow> (int \<times> stat option, 'a file_state_scheme) outcome" where
  "sys_fstat me pid ok fd s =
     (case argfd fd s of None \<Rightarrow> Done (-1, None) s | Some f \<Rightarrow> filestat me pid ok f s)"

subsection \<open>kernel/sysfile.c: directories\<close>

definition inc16 :: "nat \<Rightarrow> nat" where "inc16 n = (n + 1) mod 2 ^ 16"
definition dec16 :: "nat \<Rightarrow> nat" where "dec16 n = (n + (2 ^ 16 - 1)) mod 2 ^ 16"

abbreviation no_name :: "8 word list" where "no_name \<equiv> replicate DIRSIZ 0"

text \<open>Ending the transaction and returning \<open>r\<close>.\<close>

definition finish :: "nat \<Rightarrow> int \<Rightarrow> 'r \<Rightarrow> 'a file_state_scheme \<Rightarrow> ('r, 'a file_state_scheme) outcome" where
  "finish me pid r s = bnd (end_op me pid s) (\<lambda>_ s. Done r s)"

definition link_bad :: "nat \<Rightarrow> int \<Rightarrow> nat \<Rightarrow> 'a file_state_scheme \<Rightarrow> (int, 'a file_state_scheme) outcome" where
  "link_bad me pid ip s =
     bnd (ilock me pid (Some ip) s) (\<lambda>_ s.
     bnd (iupdate me pid ip (upd_inode ip (\<lambda>i. i\<lparr>i_nlink := dec16 (i_nlink i)\<rparr>) s)) (\<lambda>_ s.
     bnd (iunlockput me pid ip s) (\<lambda>_ s.
     finish me pid (-1) s)))"

definition sys_link :: "nat \<Rightarrow> int \<Rightarrow> 8 word list option \<Rightarrow> 8 word list option \<Rightarrow> 'a file_state_scheme \<Rightarrow>
    (int, 'a file_state_scheme) outcome" where
  "sys_link me pid old new s =
     (case (old, new) of
        (Some old, Some new) \<Rightarrow>
          bnd (begin_op me s) (\<lambda>_ s.
          bnd (namei me pid (cwd s) old s) (\<lambda>r s.
          case r of
            None \<Rightarrow> finish me pid (-1) s
          | Some ip \<Rightarrow>
              bnd (ilock me pid (Some ip) s) (\<lambda>_ s.
              if i_type (inodes s ip) = T_DIR then bnd (iunlockput me pid ip s) (\<lambda>_ s. finish me pid (-1) s)
              else
                bnd (iupdate me pid ip (upd_inode ip (\<lambda>i. i\<lparr>i_nlink := inc16 (i_nlink i)\<rparr>) s)) (\<lambda>_ s.
                bnd (iunlock me pid (Some ip) s) (\<lambda>_ s.
                bnd (nameiparent me pid (cwd s) new no_name s) (\<lambda>(r, name) s.
                case r of
                  None \<Rightarrow> link_bad me pid ip s
                | Some dp \<Rightarrow>
                    bnd (ilock me pid (Some dp) s) (\<lambda>_ s.
                    bnd (if i_dev (inodes s dp) \<noteq> i_dev (inodes s ip) then Done (-1) s
                         else dirlink me pid dp name (i_inum (inodes s ip)) s) (\<lambda>r s.
                    bnd (iunlockput me pid dp s) (\<lambda>_ s.
                    if r < 0 then link_bad me pid ip s
                    else bnd (iput me pid ip s) (\<lambda>_ s. finish me pid 0 s))))))))))
      | _ \<Rightarrow> Done (-1) s)"

fun isdirempty_loop :: "nat \<Rightarrow> int \<Rightarrow> nat \<Rightarrow> nat list \<Rightarrow> 'a file_state_scheme \<Rightarrow> (bool, 'a file_state_scheme) outcome" where
  "isdirempty_loop me pid dp [] s = Done True s"
| "isdirempty_loop me pid dp (off # offs) s =
     bnd (readi me pid (\<lambda>_ _. True) dp off DIRENT s) (\<lambda>(r, de) s.
     if r \<noteq> int DIRENT then Panic ''isdirempty: readi''
     else if de_inum de \<noteq> 0 then Done False s
     else isdirempty_loop me pid dp offs s)"

definition isdirempty :: "nat \<Rightarrow> int \<Rightarrow> nat \<Rightarrow> 'a file_state_scheme \<Rightarrow> (bool, 'a file_state_scheme) outcome" where
  "isdirempty me pid dp s = isdirempty_loop me pid dp (drop 2 (de_offs (i_size (inodes s dp)))) s"

definition sys_unlink :: "nat \<Rightarrow> int \<Rightarrow> 8 word list option \<Rightarrow> 'a file_state_scheme \<Rightarrow> (int, 'a file_state_scheme) outcome" where
  "sys_unlink me pid path s =
     (case path of
        None \<Rightarrow> Done (-1) s
      | Some path \<Rightarrow>
          bnd (begin_op me s) (\<lambda>_ s.
          bnd (nameiparent me pid (cwd s) path no_name s) (\<lambda>(r, name) s.
          case r of
            None \<Rightarrow> finish me pid (-1) s
          | Some dp \<Rightarrow>
              let bad = (\<lambda>s. bnd (iunlockput me pid dp s) (\<lambda>_ s. finish me pid (-1) s)) in
              bnd (ilock me pid (Some dp) s) (\<lambda>_ s.
              if namecmp name [46] = 0 \<or> namecmp name [46, 46] = 0 then bad s
              else
                bnd (dirlookup me pid dp name s) (\<lambda>r s.
                case r of
                  None \<Rightarrow> bad s
                | Some (ip, off) \<Rightarrow>
                    bnd (ilock me pid (Some ip) s) (\<lambda>_ s.
                    if i_nlink (inodes s ip) = 0 \<or> neg16 (i_nlink (inodes s ip)) then Panic ''unlink: nlink < 1''
                    else
                      bnd (if i_type (inodes s ip) = T_DIR then isdirempty me pid ip s else Done True s) (\<lambda>e s.
                      if \<not> e then bnd (iunlockput me pid ip s) (\<lambda>_ s. bad s)
                      else
                        bnd (writei me pid (\<lambda>tot m. (replicate m 0, True)) dp off DIRENT s) (\<lambda>r s.
                        if r \<noteq> int DIRENT then Panic ''unlink: writei''
                        else
                          bnd (if i_type (inodes s ip) = T_DIR
                               then iupdate me pid dp (upd_inode dp (\<lambda>i. i\<lparr>i_nlink := dec16 (i_nlink i)\<rparr>) s)
                               else Done () s) (\<lambda>_ s.
                          bnd (iunlockput me pid dp s) (\<lambda>_ s.
                          bnd (iupdate me pid ip (upd_inode ip (\<lambda>i. i\<lparr>i_nlink := dec16 (i_nlink i)\<rparr>) s)) (\<lambda>_ s.
                          bnd (iunlockput me pid ip s) (\<lambda>_ s.
                          finish me pid 0 s))))))))))))"

definition create :: "nat \<Rightarrow> int \<Rightarrow> 8 word list \<Rightarrow> nat \<Rightarrow> nat \<Rightarrow> nat \<Rightarrow> 'a file_state_scheme \<Rightarrow> (nat option, 'a file_state_scheme) outcome" where
  "create me pid path ty maj mnr s =
     bnd (nameiparent me pid (cwd s) path no_name s) (\<lambda>(r, name) s.
     case r of
       None \<Rightarrow> Done None s
     | Some dp \<Rightarrow>
         bnd (ilock me pid (Some dp) s) (\<lambda>_ s.
         bnd (dirlookup me pid dp name s) (\<lambda>r s.
         case r of
           Some (ip, off) \<Rightarrow>
             bnd (iunlockput me pid dp s) (\<lambda>_ s.
             bnd (ilock me pid (Some ip) s) (\<lambda>_ s.
             if ty = T_FILE \<and> (i_type (inodes s ip) = T_FILE \<or> i_type (inodes s ip) = T_DEVICE) then Done (Some ip) s
             else bnd (iunlockput me pid ip s) (\<lambda>_ s. Done None s)))
         | None \<Rightarrow>
             bnd (ialloc me pid (i_dev (inodes s dp)) ty s) (\<lambda>r s.
             case r of
               None \<Rightarrow> bnd (iunlockput me pid dp s) (\<lambda>_ s. Done None s)
             | Some ip \<Rightarrow>
                 let fail = (\<lambda>s.
                   bnd (iupdate me pid ip (upd_inode ip (\<lambda>i. i\<lparr>i_nlink := 0\<rparr>) s)) (\<lambda>_ s.
                   bnd (iunlockput me pid ip s) (\<lambda>_ s.
                   bnd (iunlockput me pid dp s) (\<lambda>_ s. Done None s)))) in
                 bnd (ilock me pid (Some ip) s) (\<lambda>_ s.
                 bnd (iupdate me pid ip (upd_inode ip (\<lambda>i. i\<lparr>i_major := maj, i_minor := mnr, i_nlink := 1\<rparr>) s)) (\<lambda>_ s.
                 bnd (if ty = T_DIR then
                        bnd (dirlink me pid ip [46] (i_inum (inodes s ip)) s) (\<lambda>r s.
                        if r < 0 then Done r s else dirlink me pid ip [46, 46] (i_inum (inodes s dp)) s)
                      else Done 0 s) (\<lambda>r s.
                 if r < 0 then fail s
                 else
                   bnd (dirlink me pid dp name (i_inum (inodes s ip)) s) (\<lambda>r s.
                   if r < 0 then fail s
                   else
                     bnd (if ty = T_DIR
                          then iupdate me pid dp (upd_inode dp (\<lambda>i. i\<lparr>i_nlink := inc16 (i_nlink i)\<rparr>) s)
                          else Done () s) (\<lambda>_ s.
                     bnd (iunlockput me pid dp s) (\<lambda>_ s. Done (Some ip) s))))))))))"

subsection \<open>kernel/sysfile.c: open, mkdir, mknod, chdir, pipe\<close>

definition has_mode :: "int \<Rightarrow> nat \<Rightarrow> bool" where
  "has_mode omode m \<longleftrightarrow> omode AND int m \<noteq> 0"

text \<open>The part of \<open>sys_open\<close> after the inode is found and locked.\<close>

definition open_inode :: "'a file_state_scheme io \<Rightarrow> nat \<Rightarrow> int \<Rightarrow> int \<Rightarrow> nat \<Rightarrow> 'a file_state_scheme \<Rightarrow> (int, 'a file_state_scheme) outcome" where
  "open_inode d me pid omode ip s =
     (let bad = (\<lambda>s. bnd (iunlockput me pid ip s) (\<lambda>_ s. finish me pid (-1) s)) in
      if i_type (inodes s ip) = T_DEVICE \<and> (neg16 (i_major (inodes s ip)) \<or> NDEV \<le> i_major (inodes s ip)) then bad s
      else
        bnd (filealloc me s) (\<lambda>r s.
        case r of
          None \<Rightarrow> bad s
        | Some f \<Rightarrow>
            let (fd, s) = fdalloc f s in
            if fd < 0 then bnd (fileclose d me pid f s) (\<lambda>_ s. bad s)
            else
              let i = inodes s ip;
                  s = (if i_type i = T_DEVICE then upd_file f (\<lambda>x. x\<lparr>f_type := FD_DEVICE, f_major := i_major i\<rparr>) s
                       else upd_file f (\<lambda>x. x\<lparr>f_type := FD_INODE, f_off := 0\<rparr>) s);
                  s = upd_file f (\<lambda>x. x\<lparr>f_ip := ip, f_readable := \<not> has_mode omode O_WRONLY,
                        f_writable := has_mode omode O_WRONLY \<or> has_mode omode O_RDWR\<rparr>) s in
              bnd (if has_mode omode O_TRUNC \<and> i_type i = T_FILE then itrunc me pid ip s else Done () s) (\<lambda>_ s.
              bnd (iunlock me pid (Some ip) s) (\<lambda>_ s.
              finish me pid fd s))))"

definition sys_open :: "'a file_state_scheme io \<Rightarrow> nat \<Rightarrow> int \<Rightarrow> 8 word list option \<Rightarrow> int \<Rightarrow> 'a file_state_scheme \<Rightarrow>
    (int, 'a file_state_scheme) outcome" where
  "sys_open d me pid path omode s =
     (case path of
        None \<Rightarrow> Done (-1) s
      | Some path \<Rightarrow>
          bnd (begin_op me s) (\<lambda>_ s.
          if has_mode omode O_CREATE then
            bnd (create me pid path T_FILE 0 0 s) (\<lambda>r s.
            case r of None \<Rightarrow> finish me pid (-1) s | Some ip \<Rightarrow> open_inode d me pid omode ip s)
          else
            bnd (namei me pid (cwd s) path s) (\<lambda>r s.
            case r of
              None \<Rightarrow> finish me pid (-1) s
            | Some ip \<Rightarrow>
                bnd (ilock me pid (Some ip) s) (\<lambda>_ s.
                if i_type (inodes s ip) = T_DIR \<and> omode \<noteq> int O_RDONLY
                then bnd (iunlockput me pid ip s) (\<lambda>_ s. finish me pid (-1) s)
                else open_inode d me pid omode ip s))))"

text \<open>\<open>mkdir\<close> and \<open>mknod\<close>: create a node of type \<open>ty\<close> and let go of it.  The numbers of a
  device are truncated to \<open>short\<close>.\<close>

definition make_node :: "nat \<Rightarrow> int \<Rightarrow> 8 word list option \<Rightarrow> nat \<Rightarrow> nat \<Rightarrow> nat \<Rightarrow> 'a file_state_scheme \<Rightarrow> (int, 'a file_state_scheme) outcome" where
  "make_node me pid path ty maj mnr s =
     bnd (begin_op me s) (\<lambda>_ s.
     bnd (case path of None \<Rightarrow> Done None s | Some path \<Rightarrow> create me pid path ty maj mnr s) (\<lambda>r s.
     case r of
       None \<Rightarrow> finish me pid (-1) s
     | Some ip \<Rightarrow> bnd (iunlockput me pid ip s) (\<lambda>_ s. finish me pid 0 s)))"

definition sys_mkdir :: "nat \<Rightarrow> int \<Rightarrow> 8 word list option \<Rightarrow> 'a file_state_scheme \<Rightarrow> (int, 'a file_state_scheme) outcome" where
  "sys_mkdir me pid path s = make_node me pid path T_DIR 0 0 s"

definition sys_mknod :: "nat \<Rightarrow> int \<Rightarrow> 8 word list option \<Rightarrow> int \<Rightarrow> int \<Rightarrow> 'a file_state_scheme \<Rightarrow> (int, 'a file_state_scheme) outcome" where
  "sys_mknod me pid path maj mnr s =
     make_node me pid path T_DEVICE (nat (maj mod 2 ^ 16)) (nat (mnr mod 2 ^ 16)) s"

definition sys_chdir :: "nat \<Rightarrow> int \<Rightarrow> 8 word list option \<Rightarrow> 'a file_state_scheme \<Rightarrow> (int, 'a file_state_scheme) outcome" where
  "sys_chdir me pid path s =
     bnd (begin_op me s) (\<lambda>_ s.
     bnd (case path of None \<Rightarrow> Done None s | Some path \<Rightarrow> namei me pid (cwd s) path s) (\<lambda>r s.
     case r of
       None \<Rightarrow> finish me pid (-1) s
     | Some ip \<Rightarrow>
         bnd (ilock me pid (Some ip) s) (\<lambda>_ s.
         if i_type (inodes s ip) \<noteq> T_DIR then bnd (iunlockput me pid ip s) (\<lambda>_ s. finish me pid (-1) s)
         else
           bnd (iunlock me pid (Some ip) s) (\<lambda>_ s.
           bnd (iput me pid (cwd s) s) (\<lambda>_ s.
           bnd (end_op me pid s) (\<lambda>_ s. Done 0 (s\<lparr>cwd := ip\<rparr>)))))))"

text \<open>\<open>alloc\<close> is \<open>pipealloc\<close>; \<open>ok0\<close> and \<open>ok1\<close> say whether the two copies to the user succeed.\<close>

definition sys_pipe :: "'a file_state_scheme io \<Rightarrow> ('a file_state_scheme \<Rightarrow> ((nat \<times> nat) option, 'a file_state_scheme) outcome) \<Rightarrow>
    bool \<Rightarrow> bool \<Rightarrow> nat \<Rightarrow> int \<Rightarrow> 'a file_state_scheme \<Rightarrow> (int \<times> (int \<times> int) option, 'a file_state_scheme) outcome" where
  "sys_pipe d alloc ok0 ok1 me pid s =
     bnd (alloc s) (\<lambda>r s.
     case r of
       None \<Rightarrow> Done (-1, None) s
     | Some (rfile, wfile) \<Rightarrow>
         let close = (\<lambda>s. bnd (fileclose d me pid rfile s) (\<lambda>_ s. bnd (fileclose d me pid wfile s) (\<lambda>_ s. Done (-1, None) s)));
             (fd0, s) = fdalloc rfile s in
         if fd0 < 0 then close s
         else
           let (fd1, s) = fdalloc wfile s in
           if fd1 < 0 then close (s\<lparr>ofile := (ofile s)(nat fd0 := None)\<rparr>)
           else if \<not> ok0 \<or> \<not> ok1 then close (s\<lparr>ofile := (ofile s)(nat fd0 := None, nat fd1 := None)\<rparr>)
           else Done (0, Some (fd0, fd1)) s)"

end
