(* ===== verification/File_Correct.thy ===== *)
theory File_Correct
  imports File
begin

section \<open>Descriptors and reference counts\<close>

text \<open>
  A descriptor of a process is a reference to an entry of the file table; \<open>dup\<close> adds one
  and \<open>close\<close> takes it back.
\<close>

definition ftable_ok :: "'a file_state_scheme \<Rightarrow> bool" where
  "ftable_ok s \<longleftrightarrow> unheld (ft_lock s) \<and> (\<forall>fd<NOFILE. \<forall>f. ofile s fd = Some f \<longrightarrow> f < NFILE \<and> 1 \<le> f_ref (files s f))"

lemma ftable_unlocked: "unheld (ft_lock s) \<Longrightarrow> s\<lparr>files := m, ft_lock := initlock\<rparr> = s\<lparr>files := m\<rparr>"
  "unheld (ft_lock s) \<Longrightarrow> s\<lparr>ofile := g, ft_lock := initlock\<rparr> = s\<lparr>ofile := g\<rparr>"
  by (cases s, simp add: unheld_def)+

lemma fdalloc_free:
  assumes "find (\<lambda>fd. ofile s fd = None) [0..<NOFILE] = Some fd"
  shows "fdalloc f s = (int fd, s\<lparr>ofile := (ofile s)(fd := Some f)\<rparr>)" "fd < NOFILE" "ofile s fd = None" "\<forall>k<fd. ofile s k \<noteq> None"
  using assms by (simp add: fdalloc_def) (use assms in \<open>auto simp: find_Some_iff\<close>)

text \<open>C40. \<open>dup\<close> and \<open>close\<close> are inverse: \<open>dup\<close> of an open descriptor fails, changing nothing,
  exactly when all descriptors are taken; otherwise it returns the lowest free one, which
  names the same file with one reference more, and closing that one restores the state.\<close>

theorem sys_dup_close:
  assumes ok: "ftable_ok s" and fd: "argfd fd s = Some f"
  shows "if (\<forall>k<NOFILE. ofile s k \<noteq> None) then sys_dup me fd s = Done (-1) s
    else \<exists>k t. sys_dup me fd s = Done (int k) t \<and> k < NOFILE \<and> ofile s k = None \<and> (\<forall>j<k. ofile s j \<noteq> None) \<and>
      argfd (int k) t = Some f \<and> f_ref (files t f) = f_ref (files s f) + 1 \<and> ftable_ok t \<and>
      sys_close d me pid (int k) t = Done 0 s"
proof (cases "find (\<lambda>fd. ofile s fd = None) [0..<NOFILE]")
  case None
  then have "\<forall>k<NOFILE. ofile s k \<noteq> None" unfolding find_None_iff by auto
  then show ?thesis using None fd by (simp add: sys_dup_def fdalloc_def)
next
  case (Some k)
  note k = fdalloc_free [OF Some]
  have n: "\<not> (\<forall>k<NOFILE. ofile s k \<noteq> None)" using k by blast
  have f: "f < NFILE" "1 \<le> f_ref (files s f)" "unheld (ft_lock s)"
  proof -
    have "nat fd < NOFILE" "ofile s (nat fd) = Some f" using fd by (auto simp: argfd_def nat_less_iff split: if_splits)
    then show "f < NFILE" "1 \<le> f_ref (files s f)" "unheld (ft_lock s)" using ok unfolding ftable_ok_def by blast+
  qed
  let ?s1 = "s\<lparr>ofile := (ofile s)(k := Some f)\<rparr>"
  let ?t = "s\<lparr>ofile := (ofile s)(k := Some f), files := (files s)(f := (files s f)\<lparr>f_ref := f_ref (files s f) + 1\<rparr>)\<rparr>"
  have dup: "sys_dup me fd s = Done (int k) ?t"
    using fd f k(1) by (simp add: sys_dup_def filedup_def upd_file_def held_by_def ftable_unlocked)
  have arg: "argfd (int k) ?t = Some f" using k(2) by (simp add: argfd_def)
  have tok: "ftable_ok ?t" using ok f k by (auto simp: ftable_ok_def)
  have "sys_close d me pid (int k) ?t = Done 0 (s\<lparr>ofile := (ofile s)(k := None)\<rparr>)"
    using arg f by (simp add: sys_close_def fileclose_def upd_file_def held_by_def Let_def ftable_unlocked)
  moreover have "(ofile s)(k := None) = ofile s" using k(3) by auto
  ultimately have "sys_close d me pid (int k) ?t = Done 0 s" by simp
  moreover have "f_ref (files ?t f) = f_ref (files s f) + 1" by simp
  ultimately show ?thesis unfolding if_not_P [OF n] using dup k(2-4) arg tok by blast
qed


text \<open>A process with one open file.\<close>

definition sample_files :: file_state where
  "sample_files = fs_state.extend sample_fs (file_state.fields initlock
     (\<lambda>f. \<lparr>f_type = FD_INODE, f_ref = (if f = 4 then 1 else 0), f_readable = True, f_writable = False, f_pipe = 0, f_ip = 7, f_off = 0, f_major = 0\<rparr>)
     (\<lambda>fd. if fd = 0 then Some 4 else None) 7)"

lemma sample_files_fields [simp]:
  "ft_lock sample_files = initlock" "ofile sample_files = (\<lambda>fd. if fd = 0 then Some 4 else None)"
  "f_ref (files sample_files f) = (if f = 4 then 1 else 0)"
  by (simp_all add: sample_files_def fs_state.defs file_state.defs)

theorem sys_dup_close_witness:
  "\<exists>t. sys_dup 0 0 sample_files = Done 1 t \<and> f_ref (files t 4) = 2 \<and> (\<forall>d. sys_close d 0 1 1 t = Done 0 sample_files)"
proof -
  have ok: "ftable_ok sample_files" by (simp add: ftable_ok_def NFILE_def)
  have fd: "argfd 0 sample_files = Some 4" by (simp add: argfd_def NOFILE_def)
  have "(1 :: nat) < NOFILE" "ofile sample_files 1 = None" by (simp_all add: NOFILE_def)
  then have n: "\<not> (\<forall>k<NOFILE. ofile sample_files k \<noteq> None)" by blast
  have a: "\<exists>k t. sys_dup 0 0 sample_files = Done (int k) t \<and> k < NOFILE \<and> ofile sample_files k = None \<and> (\<forall>j<k. ofile sample_files j \<noteq> None) \<and>
      argfd (int k) t = Some 4 \<and> f_ref (files t 4) = f_ref (files sample_files 4) + 1 \<and> ftable_ok t \<and>
      sys_close d 0 1 (int k) t = Done 0 sample_files" for d
    using sys_dup_close [OF ok fd, where me = 0 and pid = 1 and d = d] unfolding if_not_P [OF n] .
  obtain k t where t: "sys_dup 0 0 sample_files = Done (int k) t" "ofile sample_files k = None" "\<forall>j<k. ofile sample_files j \<noteq> None"
    "f_ref (files t 4) = f_ref (files sample_files 4) + 1" "sys_close undefined 0 1 (int k) t = Done 0 sample_files"
    using a [of undefined] by blast
  have k: "k = 1"
  proof (rule ccontr)
    assume "k \<noteq> 1"
    then have "k = 0 \<or> 1 < k" by linarith
    then show False
    proof
      assume "k = 0"
      then show False using t(2) by simp
    next
      assume "1 < k"
      then have "ofile sample_files 1 \<noteq> None" using t(3) by blast
      then show False by simp
    qed
  qed
  have "sys_close d 0 1 (int k) t = Done 0 sample_files" for d using a [of d] t(1) by (metis outcome.inject(1))
  then show ?thesis using t(1,4) by (intro exI [of _ t]) (simp add: k)
qed

end
