(* ===== verification/Spec2Isabelle.thy ===== *)
theory Spec2Isabelle
  imports Kstring Pipe Console Kmalloc_Correct Vm_Copy Grep Sh_Print Printf File_Correct
begin

text \<open>A verification library for the LearnOS kernel.\<close>

end
